(* ===== verification/Js_Prelude.thy ===== *)
theory Js_Prelude
  imports Complex_Main "HOL-Library.Multiset" "HOL-Library.List_Lexorder"
    "HOL-Library.Product_Lexorder"
begin

text \<open>
  The prelude of the development: what the modelled TypeScript uses of ECMAScript and its
  standard library, and the generic lemmas the components share.

  \<^item> Numbers. A TypeScript \<^verbatim>\<open>number\<close> that holds a count, a rate or a time in
    milliseconds is an \<open>int\<close>; one that holds a ratio or a fraction is a \<open>rat\<close> (a finite
    double is a rational; the rounding of a single floating-point operation is not modelled).
    \<open>jsnum\<close> adds the non-finite values where code of type \<^verbatim>\<open>unknown\<close> is coerced.
  \<^item> Values of type \<^verbatim>\<open>unknown\<close> are \<open>jsval\<close>, with the coercions
    \<^verbatim>\<open>Number()\<close>, \<^verbatim>\<open>String()\<close> and strict equality.
  \<^item> Strings are ASCII: \<open>to_lower\<close> is \<^verbatim>\<open>toLowerCase\<close> on those.
  \<^item> \<^verbatim>\<open>Array.prototype.sort\<close> is stable and calls a comparator: \<open>js_sort\<close>, with
    the contract of a comparator as the locale \<open>js_comparator\<close>.
  \<^item> A field that may be absent (inherit), null (explicitly unlimited) or a value is a
    \<open>setting\<close>.
\<close>

named_theorems js_simps \<open>evaluation of the modelled ECMAScript library\<close>
named_theorems occ_simps \<open>evaluation of the predicates on occupancy classes\<close>


section \<open>Optional settings\<close>

datatype 'a setting = Inherit | Unlimited | Limit 'a

fun setting_value :: "'a setting \<Rightarrow> 'a option" where
  "setting_value Inherit = None"
| "setting_value Unlimited = None"
| "setting_value (Limit v) = Some v"

fun is_set :: "'a setting \<Rightarrow> bool" where
  "is_set Inherit = False"
| "is_set Unlimited = True"
| "is_set (Limit v) = True"

definition or_else :: "'a option \<Rightarrow> 'a option \<Rightarrow> 'a option" where
  "or_else a b = (case a of None \<Rightarrow> b | Some v \<Rightarrow> Some v)"

lemma or_else_simps [simp]:
  "or_else None b = b" "or_else (Some v) b = Some v"
  by (simp_all add: or_else_def)


section \<open>Characters and strings\<close>

definition ascii_lower :: "char \<Rightarrow> char" where
  "ascii_lower c =
     (let n = (of_char c :: nat) in if 65 \<le> n \<and> n \<le> 90 then char_of (n + 32) else c)"

definition ascii_upper :: "char \<Rightarrow> char" where
  "ascii_upper c =
     (let n = (of_char c :: nat) in if 97 \<le> n \<and> n \<le> 122 then char_of (n - 32) else c)"

definition to_lower :: "string \<Rightarrow> string" where
  "to_lower s = map ascii_lower s"

definition to_upper :: "string \<Rightarrow> string" where
  "to_upper s = map ascii_upper s"

lemma of_char_ascii_lower:
  "(of_char (ascii_lower c) :: nat) =
     (if 65 \<le> (of_char c :: nat) \<and> of_char c \<le> (90 :: nat) then of_char c + 32 else of_char c)"
  by (simp add: ascii_lower_def Let_def)

lemma ascii_lower_idem [simp]: "ascii_lower (ascii_lower c) = ascii_lower c"
  by (simp add: ascii_lower_def Let_def)

lemma to_lower_idem [simp]: "to_lower (to_lower s) = to_lower s"
  by (simp add: to_lower_def comp_def)

lemma to_lower_append [simp]: "to_lower (s @ t) = to_lower s @ to_lower t"
  by (simp add: to_lower_def)

lemma to_lower_Nil [simp]: "to_lower [] = []"
  by (simp add: to_lower_def)

lemma to_lower_eq_Nil [simp]: "to_lower s = [] \<longleftrightarrow> s = []"
  by (simp add: to_lower_def)

lemma ascii_lower_upper [simp]: "ascii_lower (ascii_upper c) = ascii_lower c"
proof (cases "97 \<le> (of_char c :: nat) \<and> of_char c \<le> (122 :: nat)")
  case True
  then have "(of_char (ascii_upper c) :: nat) = of_char c - 32"
    by (auto simp: ascii_upper_def Let_def)
  moreover from True have "65 \<le> (of_char c :: nat) - 32 \<and> (of_char c :: nat) - 32 \<le> 90"
    by arith
  ultimately show ?thesis using True by (simp add: ascii_lower_def Let_def)
next
  case False
  then show ?thesis by (auto simp: ascii_upper_def Let_def)
qed

lemma to_lower_upper [simp]: "to_lower (to_upper s) = to_lower s"
  by (simp add: to_lower_def to_upper_def comp_def)

fun is_prefix_of :: "string \<Rightarrow> string \<Rightarrow> bool" where
  "is_prefix_of [] t = True"
| "is_prefix_of (c # s) [] = False"
| "is_prefix_of (c # s) (d # t) = (c = d \<and> is_prefix_of s t)"

lemma is_prefix_of_iff: "is_prefix_of s t \<longleftrightarrow> (\<exists>r. t = s @ r)"
  by (induction s t rule: is_prefix_of.induct) auto

text \<open>\<^verbatim>\<open>String.prototype.includes\<close>.\<close>

fun includes_str :: "string \<Rightarrow> string \<Rightarrow> bool" where
  "includes_str [] needle = (needle = [])"
| "includes_str (c # hay) needle = (is_prefix_of needle (c # hay) \<or> includes_str hay needle)"

lemma includes_str_iff: "includes_str hay needle \<longleftrightarrow> (\<exists>p s. hay = p @ needle @ s)"
proof (induction hay)
  case Nil
  then show ?case by auto
next
  case (Cons c hay)
  show ?case
  proof
    assume "includes_str (c # hay) needle"
    then consider "is_prefix_of needle (c # hay)" | "includes_str hay needle" by auto
    then show "\<exists>p s. c # hay = p @ needle @ s"
    proof cases
      case 1
      then show ?thesis by (metis is_prefix_of_iff append_Nil)
    next
      case 2
      then show ?thesis using Cons.IH by (metis append_Cons)
    qed
  next
    assume "\<exists>p s. c # hay = p @ needle @ s"
    then obtain p s where eq: "c # hay = p @ needle @ s" by blast
    show "includes_str (c # hay) needle"
    proof (cases p)
      case Nil
      then have "is_prefix_of needle (c # hay)" using eq by (auto simp: is_prefix_of_iff)
      then show ?thesis by simp
    next
      case (Cons d p')
      then show ?thesis using eq Cons.IH by auto
    qed
  qed
qed

text \<open>\<^verbatim>\<open>String.prototype.split\<close> on a single character.\<close>

fun split_on :: "char \<Rightarrow> string \<Rightarrow> string list" where
  "split_on d [] = [[]]"
| "split_on d (c # s) =
     (if c = d then [] # split_on d s
      else (case split_on d s of [] \<Rightarrow> [[c]] | w # ws \<Rightarrow> (c # w) # ws))"

lemma split_on_nonempty [simp]: "split_on d s \<noteq> []"
  by (induction s) (auto split: list.splits)

lemma split_on_no_sep: "w \<in> set (split_on d s) \<Longrightarrow> d \<notin> set w"
  by (induction s arbitrary: w) (auto split: if_splits list.splits)

fun join_with :: "string \<Rightarrow> string list \<Rightarrow> string" where
  "join_with sep [] = []"
| "join_with sep [w] = w"
| "join_with sep (w # ws) = w @ sep @ join_with sep ws"

definition is_ws :: "char \<Rightarrow> bool" where
  "is_ws c = (let n = (of_char c :: nat) in n = 32 \<or> (9 \<le> n \<and> n \<le> 13))"

definition trim :: "string \<Rightarrow> string" where
  "trim s = rev (dropWhile is_ws (rev (dropWhile is_ws s)))"

definition is_digit :: "char \<Rightarrow> bool" where
  "is_digit c = (48 \<le> (of_char c :: nat) \<and> (of_char c :: nat) \<le> 57)"

definition digit_val :: "char \<Rightarrow> nat" where
  "digit_val c = of_char c - 48"

definition digits_val :: "string \<Rightarrow> nat" where
  "digits_val s = foldl (\<lambda>a c. 10 * a + digit_val c) 0 s"

fun nat_digits :: "nat \<Rightarrow> string" where
  "nat_digits n =
     (if n < 10 then [char_of (48 + n)] else nat_digits (n div 10) @ [char_of (48 + n mod 10)])"

declare nat_digits.simps [simp del]

definition int_digits :: "int \<Rightarrow> string" where
  "int_digits i = (if i < 0 then CHR ''-'' # nat_digits (nat (- i)) else nat_digits (nat i))"

definition pad_left :: "nat \<Rightarrow> string \<Rightarrow> string" where
  "pad_left w s = replicate (w - length s) (CHR ''0'') @ s"

lemma digits_val_append: "digits_val (s @ [c]) = 10 * digits_val s + digit_val c"
  by (simp add: digits_val_def)

lemma digits_val_nat_digits [simp]: "digits_val (nat_digits n) = n"
proof (induction n rule: nat_digits.induct)
  case (1 n)
  show ?case
  proof (cases "n < 10")
    case True
    then show ?thesis
      by (simp add: nat_digits.simps [of n] digits_val_def digit_val_def)
  next
    case False
    with "1" have "digits_val (nat_digits (n div 10)) = n div 10" by simp
    with False show ?thesis
      by (simp add: nat_digits.simps [of n] digits_val_append digit_val_def)
  qed
qed

lemma nat_digits_nonempty [simp]: "nat_digits n \<noteq> []"
  by (subst nat_digits.simps) simp

lemma nat_digits_is_digit: "c \<in> set (nat_digits n) \<Longrightarrow> is_digit c"
proof (induction n rule: nat_digits.induct)
  case (1 n)
  show ?case
  proof (cases "n < 10")
    case True
    with "1.prems" show ?thesis by (simp add: nat_digits.simps [of n] is_digit_def)
  next
    case False
    with "1" show ?thesis
      by (auto simp: nat_digits.simps [of n] is_digit_def)
  qed
qed

lemma nat_digits_inject [simp]: "nat_digits m = nat_digits n \<longleftrightarrow> m = n"
  by (metis digits_val_nat_digits)


section \<open>Dates\<close>

text \<open>
  A \<^verbatim>\<open>Date\<close> is its time value in milliseconds since the epoch. \<open>to_iso\<close> is
  \<^verbatim>\<open>toISOString\<close>: the civil date of the proleptic Gregorian calendar, in UTC.
\<close>

type_synonym time = int

definition civil_from_days :: "int \<Rightarrow> int \<times> int \<times> int" where
  "civil_from_days days =
     (let z = days + 719468;
          era = z div 146097;
          doe = z - era * 146097;
          yoe = (doe - doe div 1460 + doe div 36524 - doe div 146096) div 365;
          doy = doe - (365 * yoe + yoe div 4 - yoe div 100);
          mp = (5 * doy + 2) div 153;
          d = doy - (153 * mp + 2) div 5 + 1;
          m = (if mp < 10 then mp + 3 else mp - 9);
          y = yoe + era * 400 + (if m \<le> 2 then 1 else 0)
      in (y, m, d))"

definition iso_year :: "int \<Rightarrow> string" where
  "iso_year y =
     (if 0 \<le> y \<and> y \<le> 9999 then pad_left 4 (int_digits y)
      else (if y < 0 then ''-'' else ''+'') @ pad_left 6 (nat_digits (nat \<bar>y\<bar>)))"

definition to_iso :: "time \<Rightarrow> string" where
  "to_iso t =
     (let day = t div 86400000; ms = t mod 86400000; (y, m, d) = civil_from_days day
      in iso_year y @ ''-'' @ pad_left 2 (int_digits m) @ ''-'' @ pad_left 2 (int_digits d)
         @ ''T'' @ pad_left 2 (int_digits (ms div 3600000))
         @ '':'' @ pad_left 2 (int_digits (ms div 60000 mod 60))
         @ '':'' @ pad_left 2 (int_digits (ms div 1000 mod 60))
         @ ''.'' @ pad_left 3 (int_digits (ms mod 1000)) @ ''Z'')"


section \<open>Values of unknown type and their coercions\<close>

datatype jsval =
  JUndef | JNull | JBool bool | JNum rat | JStr string | JArr "jsval list"
| JObj "(string \<times> jsval) list"

text \<open>A number as coercion produces it: finite, or one of the three non-finite values.\<close>

datatype jsnum = NaN | NInf | PInf | Fin rat

fun jn_less :: "jsnum \<Rightarrow> jsnum \<Rightarrow> bool" where
  "jn_less NaN _ = False"
| "jn_less _ NaN = False"
| "jn_less (Fin a) (Fin b) = (a < b)"
| "jn_less NInf b = (b \<noteq> NInf)"
| "jn_less (Fin a) PInf = True"
| "jn_less (Fin a) NInf = False"
| "jn_less PInf b = False"

definition jn_le :: "jsnum \<Rightarrow> jsnum \<Rightarrow> bool" where
  "jn_le a b = (jn_less a b \<or> (a = b \<and> a \<noteq> NaN))"

fun jn_finite :: "jsnum \<Rightarrow> bool" where
  "jn_finite (Fin a) = True"
| "jn_finite _ = False"

text \<open>\<^verbatim>\<open>===\<close>: two distinct arrays or objects are never identical.\<close>

fun strict_eq :: "jsval \<Rightarrow> jsval \<Rightarrow> bool" where
  "strict_eq JUndef JUndef = True"
| "strict_eq JNull JNull = True"
| "strict_eq (JBool a) (JBool b) = (a = b)"
| "strict_eq (JNum a) (JNum b) = (a = b)"
| "strict_eq (JStr a) (JStr b) = (a = b)"
| "strict_eq _ _ = False"

fun truthy :: "jsval \<Rightarrow> bool" where
  "truthy JUndef = False"
| "truthy JNull = False"
| "truthy (JBool b) = b"
| "truthy (JNum a) = (a \<noteq> 0)"
| "truthy (JStr s) = (s \<noteq> [])"
| "truthy (JArr _) = True"
| "truthy (JObj _) = True"

fun nullish :: "jsval \<Rightarrow> bool" where
  "nullish JUndef = True"
| "nullish JNull = True"
| "nullish _ = False"

text \<open>The grammar of a string in \<^verbatim>\<open>Number(s)\<close>: an exponent, a decimal, a radix literal.\<close>

definition parse_exp :: "string \<Rightarrow> int option" where
  "parse_exp s =
     (let (neg, ds) = (case s of c # t \<Rightarrow> if c = CHR ''-'' then (True, t)
                                         else if c = CHR ''+'' then (False, t) else (False, s)
                      | [] \<Rightarrow> (False, s))
      in if ds = [] \<or> \<not> list_all is_digit ds then None
         else Some (if neg then - int (digits_val ds) else int (digits_val ds)))"

definition scale10 :: "rat \<Rightarrow> int \<Rightarrow> rat" where
  "scale10 m e = (if 0 \<le> e then m * 10 ^ nat e else m / 10 ^ nat (- e))"

definition parse_decimal :: "string \<Rightarrow> rat option" where
  "parse_decimal s =
     (let ip = takeWhile is_digit s; r = dropWhile is_digit s;
          (fp, r2) = (case r of c # t \<Rightarrow> if c = CHR ''.'' then (takeWhile is_digit t, dropWhile is_digit t)
                                         else ([], r)
                      | [] \<Rightarrow> ([], r))
      in if ip = [] \<and> fp = [] then None
         else let m = of_nat (digits_val (ip @ fp)) / 10 ^ length fp
              in (case r2 of [] \<Rightarrow> Some m
                  | c # t \<Rightarrow> if c = CHR ''e'' \<or> c = CHR ''E''
                            then map_option (scale10 m) (parse_exp t) else None))"

definition radix_digit :: "char \<Rightarrow> nat" where
  "radix_digit c =
     (let n = (of_char c :: nat)
      in if 48 \<le> n \<and> n \<le> 57 then n - 48
         else if 97 \<le> n \<and> n \<le> 102 then n - 87
         else if 65 \<le> n \<and> n \<le> 70 then n - 55 else 99)"

definition parse_radix :: "nat \<Rightarrow> string \<Rightarrow> rat option" where
  "parse_radix b ds =
     (if ds = [] \<or> \<not> list_all (\<lambda>c. radix_digit c < b) ds then None
      else Some (of_nat (foldl (\<lambda>a c. b * a + radix_digit c) 0 ds)))"

definition radix_of :: "char \<Rightarrow> nat option" where
  "radix_of c =
     (if c = CHR ''x'' \<or> c = CHR ''X'' then Some 16
      else if c = CHR ''o'' \<or> c = CHR ''O'' then Some 8
      else if c = CHR ''b'' \<or> c = CHR ''B'' then Some 2 else None)"

fun opt_num :: "rat option \<Rightarrow> jsnum" where
  "opt_num None = NaN"
| "opt_num (Some q) = Fin q"

definition parse_signed :: "string \<Rightarrow> jsnum" where
  "parse_signed s =
     (let (neg, u) = (case s of c # t \<Rightarrow> if c = CHR ''-'' then (True, t)
                                        else if c = CHR ''+'' then (False, t) else (False, s)
                     | [] \<Rightarrow> (False, s))
      in if u = ''Infinity'' then (if neg then NInf else PInf)
         else opt_num (map_option (\<lambda>q. if neg then - q else q) (parse_decimal u)))"

definition string_to_number :: "string \<Rightarrow> jsnum" where
  "string_to_number s0 =
     (let s = trim s0
      in if s = [] then Fin 0
         else (case s of
             z # k # ds \<Rightarrow>
               (case (if z = CHR ''0'' then radix_of k else None) of
                  Some b \<Rightarrow> opt_num (parse_radix b ds)
                | None \<Rightarrow> parse_signed s)
           | _ \<Rightarrow> parse_signed s))"

text \<open>
  \<^verbatim>\<open>String(v)\<close>. Printing a double in its shortest form is the host's: it is the
  parameter \<open>num_str\<close>. An array prints its elements joined by commas, a null or undefined
  element as the empty string.
\<close>

fun js_string :: "(rat \<Rightarrow> string) \<Rightarrow> jsval \<Rightarrow> string" where
  "js_string num_str JUndef = ''undefined''"
| "js_string num_str JNull = ''null''"
| "js_string num_str (JBool b) = (if b then ''true'' else ''false'')"
| "js_string num_str (JNum q) = num_str q"
| "js_string num_str (JStr s) = s"
| "js_string num_str (JArr vs) =
     join_with '','' (map (\<lambda>v. if nullish v then [] else js_string num_str v) vs)"
| "js_string num_str (JObj _) = ''[object Object]''"

fun js_number :: "(rat \<Rightarrow> string) \<Rightarrow> jsval \<Rightarrow> jsnum" where
  "js_number num_str JUndef = NaN"
| "js_number num_str JNull = Fin 0"
| "js_number num_str (JBool b) = Fin (if b then 1 else 0)"
| "js_number num_str (JNum q) = Fin q"
| "js_number num_str (JStr s) = string_to_number s"
| "js_number num_str (JArr vs) = string_to_number (js_string num_str (JArr vs))"
| "js_number num_str (JObj _) = NaN"

text \<open>Property access on an object value; the last binding of a key is the live one.\<close>

definition get_prop :: "(string \<times> jsval) list \<Rightarrow> string \<Rightarrow> jsval" where
  "get_prop obj k = (case map_of (rev obj) k of None \<Rightarrow> JUndef | Some v \<Rightarrow> v)"

text \<open>\<^verbatim>\<open>Math.round\<close>: half-way cases go up.\<close>

definition math_round :: "rat \<Rightarrow> int" where
  "math_round q = \<lfloor>q + 1 / 2\<rfloor>"

lemma math_round_int [simp]: "math_round (of_int n) = n"
  by (simp add: math_round_def floor_eq_iff)

lemma math_round_mono: "p \<le> q \<Longrightarrow> math_round p \<le> math_round q"
  by (simp add: math_round_def floor_mono)

lemma math_round_nonneg: "0 \<le> q \<Longrightarrow> 0 \<le> math_round q"
  using math_round_mono [of 0 q] math_round_int [of 0] by simp

lemma math_round_le: "q \<le> of_int n \<Longrightarrow> math_round q \<le> n"
  using math_round_mono [of q "of_int n"] by simp

text \<open>\<^verbatim>\<open>Number.MAX_SAFE_INTEGER\<close>.\<close>

definition max_safe_integer :: int where
  "max_safe_integer = 9007199254740991"


section \<open>Stable sorting by a comparator\<close>

text \<open>
  \<^verbatim>\<open>Array.prototype.sort\<close> is stable. Insertion from the right, placing the earlier
  element before its equals, computes the one stable arrangement of a consistent comparator.
\<close>

fun insert_by :: "('a \<Rightarrow> 'a \<Rightarrow> int) \<Rightarrow> 'a \<Rightarrow> 'a list \<Rightarrow> 'a list" where
  "insert_by cmp x [] = [x]"
| "insert_by cmp x (y # ys) = (if cmp x y \<le> 0 then x # y # ys else y # insert_by cmp x ys)"

fun js_sort :: "('a \<Rightarrow> 'a \<Rightarrow> int) \<Rightarrow> 'a list \<Rightarrow> 'a list" where
  "js_sort cmp [] = []"
| "js_sort cmp (x # xs) = insert_by cmp x (js_sort cmp xs)"

lemma mset_insert_by [simp]: "mset (insert_by cmp x ys) = add_mset x (mset ys)"
  by (induction ys) auto

lemma mset_js_sort [simp]: "mset (js_sort cmp xs) = mset xs"
  by (induction xs) auto

lemma set_js_sort [simp]: "set (js_sort cmp xs) = set xs"
  by (metis mset_js_sort set_mset_mset)

lemma length_js_sort [simp]: "length (js_sort cmp xs) = length xs"
  by (metis mset_js_sort size_mset)

lemma distinct_js_sort [simp]: "distinct (js_sort cmp xs) = distinct xs"
  by (rule mset_eq_imp_distinct_iff) simp

locale js_comparator =
  fixes cmp :: "'a \<Rightarrow> 'a \<Rightarrow> int"
  assumes cmp_swap: "sgn (cmp y x) = - sgn (cmp x y)"
    and cmp_trans: "cmp x y \<le> 0 \<Longrightarrow> cmp y z \<le> 0 \<Longrightarrow> cmp x z \<le> 0"
begin

lemma cmp_total: "\<not> cmp x y \<le> 0 \<Longrightarrow> cmp y x \<le> 0"
  using cmp_swap [of y x] by (auto simp: sgn_if split: if_splits)

lemma cmp_eq_swap: "cmp x y = 0 \<longleftrightarrow> cmp y x = 0"
  using cmp_swap [of y x] by (auto simp: sgn_if split: if_splits)

lemma cmp_antisym: "cmp x y \<le> 0 \<Longrightarrow> cmp y x \<le> 0 \<Longrightarrow> cmp x y = 0"
  using cmp_swap [of y x] by (auto simp: sgn_if split: if_splits)

lemma sorted_insert_by:
  "sorted_wrt (\<lambda>a b. cmp a b \<le> 0) ys \<Longrightarrow> sorted_wrt (\<lambda>a b. cmp a b \<le> 0) (insert_by cmp x ys)"
proof (induction ys)
  case Nil
  then show ?case by simp
next
  case (Cons y ys)
  have set_ins: "set (insert_by cmp x ys) = insert x (set ys)"
    by (metis mset_insert_by set_mset_add_mset_insert set_mset_mset)
  show ?case
  proof (cases "cmp x y \<le> 0")
    case True
    have "\<forall>z\<in>set ys. cmp x z \<le> 0"
      using True Cons.prems cmp_trans by (metis sorted_wrt.simps(2))
    with True Cons.prems show ?thesis by simp
  next
    case False
    then have yx: "cmp y x \<le> 0" by (rule cmp_total)
    have "sorted_wrt (\<lambda>a b. cmp a b \<le> 0) (insert_by cmp x ys)"
      using Cons by simp
    moreover have "\<forall>z\<in>set (insert_by cmp x ys). cmp y z \<le> 0"
      using yx Cons.prems by (simp add: set_ins)
    ultimately show ?thesis using False by simp
  qed
qed

theorem sort_sorted: "sorted_wrt (\<lambda>a b. cmp a b \<le> 0) (js_sort cmp xs)"
  by (induction xs) (auto intro: sorted_insert_by)

lemma insert_by_filter:
  "sorted_wrt (\<lambda>a b. cmp a b \<le> 0) ys \<Longrightarrow>
   filter (\<lambda>b. cmp a b = 0) (insert_by cmp x ys) =
     (if cmp a x = 0 then x # filter (\<lambda>b. cmp a b = 0) ys else filter (\<lambda>b. cmp a b = 0) ys)"
proof (induction ys)
  case Nil
  then show ?case by simp
next
  case (Cons y ys)
  show ?case
  proof (cases "cmp x y \<le> 0")
    case True
    then show ?thesis by simp
  next
    case False
    have "cmp a y \<noteq> 0" if ax: "cmp a x = 0"
    proof
      assume ay: "cmp a y = 0"
      have "cmp x a \<le> 0" using ax cmp_eq_swap [of a x] by simp
      moreover have "cmp a y \<le> 0" using ay by simp
      ultimately have "cmp x y \<le> 0" by (rule cmp_trans)
      with False show False by simp
    qed
    with False Cons show ?thesis by auto
  qed
qed

theorem sort_stable: "filter (\<lambda>b. cmp a b = 0) (js_sort cmp xs) = filter (\<lambda>b. cmp a b = 0) xs"
  by (induction xs) (auto simp: insert_by_filter sort_sorted)

lemma sorted_perm_unique:
  assumes "sorted_wrt (\<lambda>a b. cmp a b \<le> 0) xs" and "sorted_wrt (\<lambda>a b. cmp a b \<le> 0) ys"
    and "mset xs = mset ys"
    and "\<And>x y. x \<in> set xs \<Longrightarrow> y \<in> set xs \<Longrightarrow> cmp x y = 0 \<Longrightarrow> x = y"
  shows "xs = ys"
  using assms
proof (induction xs arbitrary: ys)
  case Nil
  then show ?case by simp
next
  case (Cons x xs)
  from Cons.prems(3) obtain y zs where ys: "ys = y # zs" by (cases ys) auto
  have sets: "set (x # xs) = set ys" using Cons.prems(3) by (metis set_mset_mset)
  have "cmp x y \<le> 0" if "x \<noteq> y"
    using that Cons.prems(1) sets ys by (metis list.set_intros(1) set_ConsD sorted_wrt.simps(2))
  moreover have "cmp y x \<le> 0" if "x \<noteq> y"
    using that Cons.prems(2) sets ys by (metis list.set_intros(1) set_ConsD sorted_wrt.simps(2))
  ultimately have xy: "x = y"
    using Cons.prems(4) sets ys cmp_antisym by (metis list.set_intros(1))
  have "xs = zs"
  proof (rule Cons.IH)
    show "sorted_wrt (\<lambda>a b. cmp a b \<le> 0) xs" using Cons.prems(1) by simp
    show "sorted_wrt (\<lambda>a b. cmp a b \<le> 0) zs" using Cons.prems(2) ys by simp
    show "mset xs = mset zs" using Cons.prems(3) ys xy by simp
    show "a = b" if "a \<in> set xs" "b \<in> set xs" "cmp a b = 0" for a b
      using that Cons.prems(4) by simp
  qed
  with ys xy show ?case by simp
qed

theorem sort_perm_eq:
  assumes "mset xs = mset ys"
    and "\<And>x y. x \<in> set xs \<Longrightarrow> y \<in> set xs \<Longrightarrow> cmp x y = 0 \<Longrightarrow> x = y"
  shows "js_sort cmp xs = js_sort cmp ys"
  by (rule sorted_perm_unique) (use assms in \<open>auto simp: sort_sorted\<close>)

end

text \<open>Comparing by a key of a linear order satisfies the contract.\<close>

definition key_cmp :: "('a \<Rightarrow> 'k::linorder) \<Rightarrow> 'a \<Rightarrow> 'a \<Rightarrow> int" where
  "key_cmp key a b = (if key a < key b then -1 else if key b < key a then 1 else 0)"

lemma key_cmp_comparator: "js_comparator (key_cmp key)"
  by unfold_locales (auto simp: key_cmp_def split: if_splits)

text \<open>
  \<^verbatim>\<open>localeCompare\<close> is a collation of strings. What its callers rely on is the contract
  of a comparator; the order itself is the host's and a parameter of the definitions below.
  \<open>alnum_collate\<close> is the root collation on alphanumeric strings (identifiers and hexadecimal
  hashes): digits before letters, letters by their case-folded order, and only where two
  strings agree on that, lower case before upper case.
\<close>

locale collation = js_comparator lc for lc :: "string \<Rightarrow> string \<Rightarrow> int"

definition alnum_key :: "string \<Rightarrow> nat list \<times> nat list" where
  "alnum_key s =
     (map (\<lambda>c. of_char (ascii_lower c)) s,
      map (\<lambda>c. if ascii_lower c = c then 0 else 1) s)"

definition alnum_collate :: "string \<Rightarrow> string \<Rightarrow> int" where
  "alnum_collate = key_cmp alnum_key"

interpretation alnum: collation alnum_collate
  unfolding alnum_collate_def collation_def by (rule key_cmp_comparator)

lemma alnum_collate_eq: "alnum_collate s t = 0 \<Longrightarrow> to_lower s = to_lower t"
proof -
  assume "alnum_collate s t = 0"
  then have "alnum_key s = alnum_key t"
    by (auto simp: alnum_collate_def key_cmp_def split: if_splits)
  then have "map of_char (to_lower s) = (map of_char (to_lower t) :: nat list)"
    by (simp add: alnum_key_def to_lower_def comp_def)
  then show ?thesis by (simp add: inj_map_eq_map inj_on_def)
qed


section \<open>Searching\<close>

fun find_map :: "('a \<Rightarrow> 'b option) \<Rightarrow> 'a list \<Rightarrow> 'b option" where
  "find_map f [] = None"
| "find_map f (x # xs) = (case f x of None \<Rightarrow> find_map f xs | Some y \<Rightarrow> Some y)"

lemma find_map_None_iff: "find_map f xs = None \<longleftrightarrow> (\<forall>x\<in>set xs. f x = None)"
  by (induction xs) (auto split: option.splits)

lemma find_map_cong: "(\<And>x. x \<in> set xs \<Longrightarrow> f x = g x) \<Longrightarrow> find_map f xs = find_map g xs"
  by (induction xs) (auto split: option.splits)

text \<open>\<open>w\<close> is the first element of \<open>ps\<close> of least rank.\<close>

definition is_first_min :: "('a \<Rightarrow> 'k::linorder) \<Rightarrow> 'a list \<Rightarrow> 'a \<Rightarrow> bool" where
  "is_first_min rank ps w \<longleftrightarrow>
     (\<exists>us vs. ps = us @ w # vs \<and> (\<forall>u\<in>set us. rank w < rank u) \<and> (\<forall>v\<in>set vs. rank w \<le> rank v))"

lemma is_first_min_in: "is_first_min rank ps w \<Longrightarrow> w \<in> set ps"
  by (auto simp: is_first_min_def)

lemma is_first_min_least: "is_first_min rank ps w \<Longrightarrow> p \<in> set ps \<Longrightarrow> rank w \<le> rank p"
  unfolding is_first_min_def by (elim exE conjE) (auto dest: bspec intro: less_imp_le)

lemma is_first_min_unique:
  assumes "is_first_min rank ps w" and "is_first_min rank ps w'"
  shows "w = w'"
proof -
  obtain us vs where ps: "ps = us @ w # vs" and us: "\<forall>u\<in>set us. rank w < rank u"
    using assms(1) by (auto simp: is_first_min_def)
  obtain us' vs' where ps': "ps = us' @ w' # vs'" and us': "\<forall>u\<in>set us'. rank w' < rank u"
    using assms(2) by (auto simp: is_first_min_def)
  have "rank w = rank w'"
    using assms is_first_min_in is_first_min_least by (metis order_antisym)
  then have "w \<notin> set us'" and "w' \<notin> set us"
    using us us' by auto
  then show ?thesis
    using ps ps' by (auto simp: append_eq_append_conv2 append_eq_Cons_conv Cons_eq_append_conv)
qed

lemma is_first_min_single: "is_first_min rank [x] x"
  unfolding is_first_min_def by (intro exI [of _ "[]"]) simp

lemma is_first_min_keep:
  assumes "is_first_min rank ps w" "rank w \<le> rank x"
  shows "is_first_min rank (ps @ [x]) w"
proof -
  obtain us vs where "ps = us @ w # vs" "\<forall>u\<in>set us. rank w < rank u" "\<forall>v\<in>set vs. rank w \<le> rank v"
    using assms(1) by (auto simp: is_first_min_def)
  with assms(2) show ?thesis
    unfolding is_first_min_def by (intro exI [of _ us] exI [of _ "vs @ [x]"]) auto
qed

lemma is_first_min_replace:
  assumes "is_first_min rank ps w" "rank x < rank w"
  shows "is_first_min rank (ps @ [x]) x"
proof -
  have "\<forall>u\<in>set ps. rank x < rank u"
    using is_first_min_least [OF assms(1)] assms(2) by (auto intro: order_less_le_trans)
  then show ?thesis
    unfolding is_first_min_def by (intro exI [of _ ps] exI [of _ "[]"]) simp
qed

text \<open>The position of an element in a list of ranks, the length where it is absent.\<close>

fun rank_in :: "'a list \<Rightarrow> 'a \<Rightarrow> nat" where
  "rank_in [] x = 0"
| "rank_in (y # ys) x = (if x = y then 0 else Suc (rank_in ys x))"

lemma find_first_min:
  assumes "find (\<lambda>p. ty p = s) ps = Some w"
  shows "\<exists>us vs. ps = us @ w # vs \<and> ty w = s \<and> (\<forall>u\<in>set us. ty u \<noteq> s)"
proof -
  obtain i where i: "i < length ps" "ty (ps ! i) = s" "w = ps ! i" "\<forall>j<i. ty (ps ! j) \<noteq> s"
    using assms by (auto simp: find_Some_iff)
  have "ps = take i ps @ w # drop (Suc i) ps"
    using i by (simp add: id_take_nth_drop)
  moreover have "\<forall>u\<in>set (take i ps). ty u \<noteq> s"
    using i by (auto simp: in_set_conv_nth)
  ultimately show ?thesis using i by blast
qed

lemma find_map_first_min:
  assumes "find_map (\<lambda>s. find (\<lambda>p. ty p = s) ps) ranks = Some w"
  shows "is_first_min (\<lambda>p. rank_in ranks (ty p)) ps w"
  using assms
proof (induction ranks)
  case Nil
  then show ?case by simp
next
  case (Cons s ranks)
  show ?case
  proof (cases "find (\<lambda>p. ty p = s) ps")
    case (Some w')
    then have "w' = w" using Cons.prems by simp
    then obtain us vs where "ps = us @ w # vs" "ty w = s" "\<forall>u\<in>set us. ty u \<noteq> s"
      using find_first_min [of ty s ps w] Some by blast
    then show ?thesis
      unfolding is_first_min_def by (intro exI [of _ us] exI [of _ vs]) auto
  next
    case None
    then have no: "\<forall>p\<in>set ps. ty p \<noteq> s" by (simp add: find_None_iff)
    from None Cons have "is_first_min (\<lambda>p. rank_in ranks (ty p)) ps w" by simp
    then obtain us vs where *: "ps = us @ w # vs"
        "\<forall>u\<in>set us. rank_in ranks (ty w) < rank_in ranks (ty u)"
        "\<forall>v\<in>set vs. rank_in ranks (ty w) \<le> rank_in ranks (ty v)"
      by (auto simp: is_first_min_def)
    with no show ?thesis
      unfolding is_first_min_def by (intro exI [of _ us] exI [of _ vs]) auto
  qed
qed


section \<open>Parsing back printed digits\<close>

lemma is_digit_not_ws: "is_digit c \<Longrightarrow> \<not> is_ws c"
  by (auto simp: is_digit_def is_ws_def Let_def)

lemma digit_string_facts:
  assumes "list_all is_digit ds"
  shows "takeWhile is_digit ds = ds" and "dropWhile is_digit ds = []"
    and "dropWhile is_ws ds = ds"
  using assms by (induction ds) (auto simp: is_digit_not_ws)

lemma trim_digits: "list_all is_digit ds \<Longrightarrow> trim ds = ds"
  using digit_string_facts(3) [of ds] digit_string_facts(3) [of "rev ds"]
  by (simp add: trim_def list_all_iff)

lemma is_digit_simps [simp]:
  "\<not> is_digit (CHR ''-'')" "\<not> is_digit (CHR ''+'')" "\<not> is_digit (CHR ''I'')"
  by (simp_all add: is_digit_def)

lemma radix_of_digit: "is_digit c \<Longrightarrow> radix_of c = None"
  by (auto simp: radix_of_def is_digit_def)

lemma parse_decimal_digits:
  "list_all is_digit ds \<Longrightarrow> ds \<noteq> [] \<Longrightarrow> parse_decimal ds = Some (of_nat (digits_val ds))"
  by (simp add: parse_decimal_def digit_string_facts)

lemma parse_signed_digits:
  assumes "list_all is_digit ds" "ds \<noteq> []"
  shows "parse_signed ds = Fin (of_nat (digits_val ds))"
proof -
  obtain c t where ds: "ds = c # t" using assms(2) by (cases ds) auto
  then have "c \<noteq> CHR ''-''" "c \<noteq> CHR ''+''" "c \<noteq> CHR ''I''"
    using assms(1) by auto
  then have "parse_signed ds =
      opt_num (map_option (\<lambda>q. q) (parse_decimal ds))"
    using ds by (simp add: parse_signed_def)
  then show ?thesis using parse_decimal_digits [OF assms] by simp
qed

lemma string_to_number_digits:
  assumes "list_all is_digit ds" "ds \<noteq> []"
  shows "string_to_number ds = Fin (of_nat (digits_val ds))"
  using assms trim_digits [OF assms(1)] parse_signed_digits [OF assms]
  by (auto simp: string_to_number_def Let_def radix_of_digit split: list.splits)

lemma digits_val_zeros: "digits_val (replicate n (CHR ''0'') @ s) = digits_val s"
proof -
  have "foldl (\<lambda>a c. 10 * a + digit_val c) 0 (replicate n (CHR ''0'')) = 0"
    by (induction n) (simp_all add: digit_val_def)
  then show ?thesis by (simp add: digits_val_def)
qed

lemma string_to_number_padded:
  "string_to_number (pad_left w (nat_digits n)) = Fin (of_nat n)"
proof -
  have zero: "is_digit (CHR ''0'')" by (simp add: is_digit_def)
  have "list_all is_digit (pad_left w (nat_digits n))"
    using nat_digits_is_digit [of _ n] zero by (auto simp: pad_left_def list_all_iff)
  moreover have "digits_val (pad_left w (nat_digits n)) = n"
    by (simp add: pad_left_def digits_val_zeros)
  ultimately show ?thesis
    using string_to_number_digits [of "pad_left w (nat_digits n)"] by (simp add: pad_left_def)
qed

lemma mod_range: "- n < x \<Longrightarrow> x < (n::int) \<Longrightarrow> x mod n = (if x < 0 then x + n else x)"
proof (cases "x < 0")
  case True
  assume "- n < x" "x < n"
  with True have "(x + n) mod n = x + n" by (intro mod_pos_pos_trivial) auto
  with True show ?thesis by simp
qed (simp add: mod_pos_pos_trivial)


section \<open>Counting\<close>

definition count_if :: "('a \<Rightarrow> bool) \<Rightarrow> 'a list \<Rightarrow> int" where
  "count_if P xs = int (length (filter P xs))"

lemma count_if_simps [simp]:
  "count_if P [] = 0"
  "count_if P (x # xs) = (if P x then 1 else 0) + count_if P xs"
  "count_if P (xs @ ys) = count_if P xs + count_if P ys"
  by (simp_all add: count_if_def)

lemma count_if_nonneg [simp]: "0 \<le> count_if P xs"
  by (simp add: count_if_def)



section \<open>Exceptions\<close>

text \<open>The HTTP exceptions a service throws; a throwing computation returns \<open>Inl\<close>.\<close>

datatype http_error = Bad_request string | Not_found string | Unauthorized string | Forbidden string
  | Conflict string

definition res_bind :: "'e + 'a \<Rightarrow> ('a \<Rightarrow> 'e + 'b) \<Rightarrow> 'e + 'b" where
  "res_bind m f = (case m of Inl e \<Rightarrow> Inl e | Inr a \<Rightarrow> f a)"

definition res_check :: "bool \<Rightarrow> 'e \<Rightarrow> 'e + unit" where
  "res_check ok e = (if ok then Inr () else Inl e)"

lemma res_bind_simps [simp]: "res_bind (Inl e) f = Inl e" "res_bind (Inr a) f = f a"
  by (simp_all add: res_bind_def)

lemma res_bind_Inr_iff: "res_bind m f = Inr b \<longleftrightarrow> (\<exists>a. m = Inr a \<and> f a = Inr b)"
  by (cases m) simp_all

lemma res_check_Inr_iff [simp]: "res_check ok e = Inr u \<longleftrightarrow> ok"
  by (simp add: res_check_def)

end
