(* ===== verification/Sched_Classification.thy ===== *)
theory Sched_Classification
  imports Js_Prelude
begin

text \<open>
  Engine capabilities (\<^verbatim>\<open>torrent-scheduler/domain/capabilities.ts\<close>) and the
  classification of a torrent into what it occupies
  (\<^verbatim>\<open>torrent-scheduler/domain/classification.ts\<close>).

  The lemmas say which inputs lead to a class the scheduler may resume, that an occupancy
  holds at most one kind of slot, and that the two never coincide: what the scheduler may
  resume holds no slot.
\<close>

section \<open>Capabilities\<close>

datatype capability_grade = Native | Approximated | Unsupported

datatype native_queue_model =
  QueueNone | QueueCombined | QueueSeparateDownloadSeed | QueueProviderSpecific

record torrent_queue_capabilities =
  cap_pause :: capability_grade
  cap_resume :: capability_grade
  cap_readNativeQueueSettings :: capability_grade
  cap_writeNativeQueueSettings :: capability_grade
  cap_activeDownloadLimit :: capability_grade
  cap_activeSeedLimit :: capability_grade
  cap_totalActiveLimit :: capability_grade
  cap_globalDownloadRateLimit :: capability_grade
  cap_globalUploadRateLimit :: capability_grade
  cap_perTorrentDownloadRateLimit :: capability_grade
  cap_perTorrentUploadRateLimit :: capability_grade
  cap_queuePosition :: capability_grade
  cap_forceStart :: capability_grade
  cap_reportsQueuedState :: capability_grade
  cap_ratioReporting :: capability_grade
  cap_seedTimeReporting :: capability_grade
  cap_availabilityReporting :: capability_grade
  cap_nativeQueueModel :: native_queue_model

definition unknown_queue_capabilities :: torrent_queue_capabilities where
  "unknown_queue_capabilities =
     \<lparr> cap_pause = Unsupported, cap_resume = Unsupported,
       cap_readNativeQueueSettings = Unsupported, cap_writeNativeQueueSettings = Unsupported,
       cap_activeDownloadLimit = Unsupported, cap_activeSeedLimit = Unsupported,
       cap_totalActiveLimit = Unsupported, cap_globalDownloadRateLimit = Unsupported,
       cap_globalUploadRateLimit = Unsupported, cap_perTorrentDownloadRateLimit = Unsupported,
       cap_perTorrentUploadRateLimit = Unsupported, cap_queuePosition = Unsupported,
       cap_forceStart = Unsupported, cap_reportsQueuedState = Unsupported,
       cap_ratioReporting = Unsupported, cap_seedTimeReporting = Unsupported,
       cap_availabilityReporting = Unsupported, cap_nativeQueueModel = QueueNone \<rparr>"

definition canDo :: "capability_grade \<Rightarrow> bool" where
  "canDo grade = (grade = Native \<or> grade = Approximated)"

datatype limitation_code =
  No_pause_support | No_seed_time_data | No_queued_state | No_global_rate_limit
| Bandwidth_reserve_unsupported | No_per_torrent_rate_limit | Force_start_approximated
| Native_queue_conflict | Unmeasurable_seed_condition | No_availability_data

fun limitation_str :: "limitation_code \<Rightarrow> string" where
  "limitation_str No_pause_support = ''no_pause_support''"
| "limitation_str No_seed_time_data = ''no_seed_time_data''"
| "limitation_str No_queued_state = ''no_queued_state''"
| "limitation_str No_global_rate_limit = ''no_global_rate_limit''"
| "limitation_str Bandwidth_reserve_unsupported = ''bandwidth_reserve_unsupported''"
| "limitation_str No_per_torrent_rate_limit = ''no_per_torrent_rate_limit''"
| "limitation_str Force_start_approximated = ''force_start_approximated''"
| "limitation_str Native_queue_conflict = ''native_queue_conflict''"
| "limitation_str Unmeasurable_seed_condition = ''unmeasurable_seed_condition''"
| "limitation_str No_availability_data = ''no_availability_data''"

record scheduler_limitation =
  lim_engineId :: string
  lim_code :: limitation_code
  lim_messageKey :: string
  lim_values :: "(string \<times> jsval) list option"

definition mk_limitation ::
  "string \<Rightarrow> limitation_code \<Rightarrow> (string \<times> jsval) list option \<Rightarrow> scheduler_limitation" where
  "mk_limitation engineId code vals =
     \<lparr> lim_engineId = engineId, lim_code = code,
       lim_messageKey = ''scheduler.limitation.'' @ limitation_str code, lim_values = vals \<rparr>"

lemma mk_limitation_code [simp]: "lim_code (mk_limitation e c v) = c"
  by (simp add: mk_limitation_def)


section \<open>Classification\<close>

datatype torrent_state =
  TS_DOWNLOADING | TS_SEEDING | TS_PAUSED | TS_STOPPED | TS_QUEUED | TS_CHECKING
| TS_ERROR | TS_COMPLETED | TS_ALLOCATING | TS_UNKNOWN

datatype occupancy_class =
  Download_active | Seed_active | Download_queued | Seed_queued | User_paused
| Scheduler_paused | Provider_paused | Checking | Occ_error | Parked | Excluded | Occ_unknown

record classification_input =
  ci_state :: torrent_state
  ci_progress :: rat
  ci_downloadRate :: rat
  ci_uploadRate :: rat
  ci_schedulerPaused :: bool
  ci_userPaused :: bool
  ci_parked :: bool
  ci_forceStarted :: bool

datatype confidence = Reported | Inferred | Conf_unknown

record classification =
  cl_occupancy :: occupancy_class
  cl_confidence :: confidence
  cl_reasonCode :: string

abbreviation mk_cl :: "occupancy_class \<Rightarrow> confidence \<Rightarrow> string \<Rightarrow> classification" where
  "mk_cl o' c r \<equiv> \<lparr> cl_occupancy = o', cl_confidence = c, cl_reasonCode = r \<rparr>"

definition classify ::
  "classification_input \<Rightarrow> torrent_queue_capabilities \<Rightarrow> classification" where
  "classify i caps =
     (let complete = ci_progress i \<ge> 1 in
      if ci_parked i then mk_cl Parked Reported ''parked_dead_swarm''
      else if ci_state i = TS_ERROR then mk_cl Occ_error Reported ''engine_error''
      else if ci_state i = TS_CHECKING \<or> ci_state i = TS_ALLOCATING
        then mk_cl Checking Reported ''verifying''
      else if ci_state i = TS_PAUSED \<or> ci_state i = TS_STOPPED then
        (if ci_userPaused i then mk_cl User_paused Reported ''paused_by_user''
         else if ci_schedulerPaused i
           then mk_cl Scheduler_paused Reported ''paused_by_scheduler''
         else mk_cl Provider_paused Inferred ''paused_outside_scheduler'')
      else if ci_state i = TS_QUEUED then
        (if complete then mk_cl Seed_queued Reported ''queued_seed''
         else mk_cl Download_queued Reported ''queued_download'')
      else if ci_state i = TS_SEEDING \<or> (complete \<and> ci_state i = TS_COMPLETED)
        then mk_cl Seed_active Reported ''seeding''
      else if ci_state i = TS_DOWNLOADING then
        (if complete then mk_cl Seed_active Inferred ''complete_and_running''
         else if \<not> canDo (cap_reportsQueuedState caps) \<and> ci_downloadRate i = 0
           then mk_cl Download_active Inferred ''active_or_queued_indistinguishable''
         else mk_cl Download_active Reported ''downloading'')
      else mk_cl Occ_unknown Conf_unknown ''state_unknown'')"

definition holdsDownloadSlot :: "occupancy_class \<Rightarrow> bool" where
  "holdsDownloadSlot o' = (o' = Download_active)"

definition holdsSeedSlot :: "occupancy_class \<Rightarrow> bool" where
  "holdsSeedSlot o' = (o' = Seed_active)"

definition holdsTotalActiveSlot :: "occupancy_class \<Rightarrow> bool" where
  "holdsTotalActiveSlot o' = (o' = Download_active \<or> o' = Seed_active \<or> o' = Checking)"

definition isResumable :: "occupancy_class \<Rightarrow> bool" where
  "isResumable o' = (o' = Scheduler_paused \<or> o' = Download_queued \<or> o' = Seed_queued)"

lemmas occ_defs [occ_simps] =
  holdsDownloadSlot_def holdsSeedSlot_def holdsTotalActiveSlot_def isResumable_def

lemma resumable_holds_no_slot: "isResumable o' \<Longrightarrow> \<not> holdsTotalActiveSlot o'"
  by (auto simp: occ_simps)

lemma slot_counts_toward_total:
  "holdsDownloadSlot o' \<or> holdsSeedSlot o' \<Longrightarrow> holdsTotalActiveSlot o'"
  by (auto simp: occ_simps)

lemma classify_resumable_spec:
  "isResumable (cl_occupancy (classify i caps)) \<longleftrightarrow>
     \<not> ci_parked i \<and>
     (ci_state i = TS_QUEUED \<or>
      ((ci_state i = TS_PAUSED \<or> ci_state i = TS_STOPPED) \<and>
       ci_schedulerPaused i \<and> \<not> ci_userPaused i))"
  by (cases "ci_state i") (auto simp: classify_def occ_simps Let_def)

text \<open>
  Authority to resume. Classification yields a class the scheduler may resume exactly when
  parking does not own the torrent and the engine reports it queued, or paused or stopped with
  a pause the scheduler itself recorded and no person's pause on it. A pause nobody here claims
  is never the scheduler's to undo.
\<close>

theorem classify_resumable_iff:
  "isResumable (cl_occupancy (classify i caps)) \<longleftrightarrow>
     \<not> ci_parked i \<and>
     (ci_state i = TS_QUEUED \<or>
      ((ci_state i = TS_PAUSED \<or> ci_state i = TS_STOPPED) \<and>
       ci_schedulerPaused i \<and> \<not> ci_userPaused i))"
  by (rule classify_resumable_spec)

text \<open>An answer is inferred or unknown only where the engine could not express it.\<close>

lemma classify_confidence_unknown:
  "cl_confidence (classify i caps) = Conf_unknown \<longleftrightarrow>
   cl_occupancy (classify i caps) = Occ_unknown"
  by (cases "ci_state i") (auto simp: classify_def Let_def)

lemma classify_complete_holds_no_download_slot:
  "ci_progress i \<ge> 1 \<Longrightarrow> \<not> holdsDownloadSlot (cl_occupancy (classify i caps))"
  by (cases "ci_state i") (auto simp: classify_def occ_simps Let_def)

lemma classify_never_excluded: "cl_occupancy (classify i caps) \<noteq> Excluded"
  by (cases "ci_state i") (auto simp: classify_def Let_def)

end
