(* ===== verification/Sched_Priority.thy ===== *)
theory Sched_Priority
  imports Sched_Classification
begin

text \<open>
  The priority score and the ranking of torrents
  (\<^verbatim>\<open>torrent-scheduler/domain/priority.ts\<close>).

  The lemmas bound the score, show that it is the sum of the recorded reasons, and that the
  ranking is a permutation, sorted, and independent of the order of its input. The collation
  order of \<^verbatim>\<open>localeCompare\<close> is the host's: it is the parameter \<open>lc\<close>, and the locale
  \<open>collation\<close> states what ECMA-402 promises of it.
\<close>

datatype priority_band = Critical | High | Normal | Low | Fallback

record priority_reason =
  pr_code :: string
  pr_contribution :: int
  pr_messageKey :: string
  pr_values :: "(string \<times> jsval) list option"

record torrent_priority_decision =
  pd_torrentHash :: string
  pd_score :: int
  pd_band :: priority_band
  pd_reasons :: "priority_reason list"

datatype user_priority = UP_high | UP_normal | UP_low

record priority_facts =
  pf_torrentHash :: string
  pf_userPriority :: "user_priority option"
  pf_forceStarted :: bool
  pf_protectedFromPause :: bool
  pf_progress :: rat
  pf_ageMinutes :: "rat option"
  pf_waitingMinutes :: "rat option"
  pf_seeders :: "int option"
  pf_isPrivate :: bool
  pf_wanted :: bool
  pf_upgrade :: bool
  pf_intakePending :: bool

definition band :: "int \<Rightarrow> priority_band" where
  "band score =
     (if score \<ge> 800 then Critical
      else if score \<ge> 300 then High
      else if score \<ge> 0 then Normal
      else if score \<ge> -300 then Low
      else Fallback)"

text \<open>\<open>add\<close> appends a reason unless its contribution is zero.\<close>

definition add_reason ::
  "string \<Rightarrow> int \<Rightarrow> (string \<times> jsval) list option \<Rightarrow> priority_reason list \<Rightarrow> priority_reason list" where
  "add_reason code contribution vals reasons =
     (if contribution = 0 then reasons
      else reasons @ [\<lparr> pr_code = code, pr_contribution = contribution,
                        pr_messageKey = ''scheduler.priority.'' @ code, pr_values = vals \<rparr>])"

definition clamp01 :: "rat \<Rightarrow> rat" where
  "clamp01 p = max 0 (min 1 p)"

definition waiting_contribution :: "rat \<Rightarrow> int" where
  "waiting_contribution minutes = math_round (min 90 (minutes / 60 * 10))"

definition add_when ::
  "bool \<Rightarrow> string \<Rightarrow> int \<Rightarrow> (string \<times> jsval) list option \<Rightarrow>
   priority_reason list \<Rightarrow> priority_reason list" where
  "add_when b code contribution vals reasons =
     (if b then add_reason code contribution vals reasons else reasons)"

definition score_reasons :: "priority_facts \<Rightarrow> priority_reason list" where
  "score_reasons f =
     (let r1 = add_when (pf_forceStarted f) ''force_started'' 1000 None [];
          r2 = add_when (pf_userPriority f = Some UP_low) ''user_priority_low'' (-400) None
                 (add_when (pf_userPriority f = Some UP_high) ''user_priority_high'' 400 None r1);
          r3 = add_when (pf_wanted f) ''wanted_item'' 150 None r2;
          r4 = add_when (pf_upgrade f) ''quality_upgrade'' 60 None r3;
          r5 = add_when (pf_intakePending f) ''intake_waiting'' 120 None r4;
          r6 = add_when (pf_isPrivate f) ''private_tracker'' 80 None r5;
          progress = clamp01 (pf_progress f);
          r7 = add_reason ''progress'' (math_round (progress * 100))
                 (Some [(''percent'', JNum (of_int (math_round (progress * 100))))]) r6;
          r8 = (case pf_waitingMinutes f of
                  None \<Rightarrow> r7
                | Some w \<Rightarrow> add_when (w > 0) ''waiting'' (waiting_contribution w)
                              (Some [(''minutes'', JNum w)]) r7)
      in (case pf_seeders f of
            None \<Rightarrow> r8
          | Some n \<Rightarrow> add_when (n \<le> 0) ''no_seeders'' (-200) None r8))"

definition reasons_total :: "priority_reason list \<Rightarrow> int" where
  "reasons_total rs = sum_list (map pr_contribution rs)"

definition scoreTorrent :: "priority_facts \<Rightarrow> torrent_priority_decision" where
  "scoreTorrent f =
     (let reasons = score_reasons f; score = reasons_total reasons
      in \<lparr> pd_torrentHash = pf_torrentHash f, pd_score = score, pd_band = band score,
           pd_reasons = reasons \<rparr>)"

record orderable_torrent =
  ot_decision :: torrent_priority_decision
  ot_currentlyActive :: bool
  ot_addedAt :: "time option"

definition added_time :: "'a orderable_torrent_scheme \<Rightarrow> int" where
  "added_time a = (case ot_addedAt a of Some t \<Rightarrow> t | None \<Rightarrow> max_safe_integer)"

definition priority_cmp ::
  "(string \<Rightarrow> string \<Rightarrow> int) \<Rightarrow>
   'a orderable_torrent_scheme \<Rightarrow> 'a orderable_torrent_scheme \<Rightarrow> int" where
  "priority_cmp lc a b =
     (if pd_score (ot_decision b) \<noteq> pd_score (ot_decision a)
        then pd_score (ot_decision b) - pd_score (ot_decision a)
      else if ot_currentlyActive a \<noteq> ot_currentlyActive b
        then (if ot_currentlyActive a then -1 else 1)
      else if added_time a \<noteq> added_time b then added_time a - added_time b
      else lc (pd_torrentHash (ot_decision a)) (pd_torrentHash (ot_decision b)))"

definition orderByPriority ::
  "(string \<Rightarrow> string \<Rightarrow> int) \<Rightarrow>
   'a orderable_torrent_scheme list \<Rightarrow> 'a orderable_torrent_scheme list" where
  "orderByPriority lc items = js_sort (priority_cmp lc) items"



section \<open>The score\<close>

lemma reasons_total_add [simp]:
  "reasons_total (add_reason c n v rs) = reasons_total rs + n"
  by (simp add: reasons_total_def add_reason_def)

lemma reasons_total_add_when [simp]:
  "reasons_total (add_when b c n v rs) = reasons_total rs + (if b then n else 0)"
  by (simp add: add_when_def)

lemma reasons_total_Nil [simp]: "reasons_total [] = 0"
  by (simp add: reasons_total_def)

definition user_weight :: "user_priority option \<Rightarrow> int" where
  "user_weight u = (if u = Some UP_high then 400 else if u = Some UP_low then -400 else 0)"

definition waiting_weight :: "rat option \<Rightarrow> int" where
  "waiting_weight w =
     (case w of None \<Rightarrow> 0 | Some m \<Rightarrow> if m > 0 then waiting_contribution m else 0)"

definition seeders_weight :: "int option \<Rightarrow> int" where
  "seeders_weight n = (case n of None \<Rightarrow> 0 | Some k \<Rightarrow> if k \<le> 0 then -200 else 0)"

lemma score_eq:
  "pd_score (scoreTorrent f) =
     (if pf_forceStarted f then 1000 else 0) + user_weight (pf_userPriority f)
     + (if pf_wanted f then 150 else 0) + (if pf_upgrade f then 60 else 0)
     + (if pf_intakePending f then 120 else 0) + (if pf_isPrivate f then 80 else 0)
     + math_round (clamp01 (pf_progress f) * 100)
     + waiting_weight (pf_waitingMinutes f) + seeders_weight (pf_seeders f)"
  by (simp add: scoreTorrent_def score_reasons_def Let_def user_weight_def waiting_weight_def
      seeders_weight_def split: option.splits)

lemma progress_weight_bounds:
  "0 \<le> math_round (clamp01 p * 100)" "math_round (clamp01 p * 100) \<le> 100"
proof -
  have "0 \<le> clamp01 p * 100" "clamp01 p * 100 \<le> of_int 100"
    by (auto simp: clamp01_def min_def max_def)
  then show "0 \<le> math_round (clamp01 p * 100)" "math_round (clamp01 p * 100) \<le> 100"
    by (auto intro: math_round_nonneg math_round_le)
qed

lemma waiting_weight_bounds: "0 \<le> waiting_weight w" "waiting_weight w \<le> 90"
proof -
  have "math_round (min 90 (m / 60 * 10)) \<le> 90" for m
    by (rule math_round_le) simp
  then show "waiting_weight w \<le> 90"
    by (auto simp: waiting_weight_def waiting_contribution_def split: option.splits)
  show "0 \<le> waiting_weight w"
    by (auto simp: waiting_weight_def waiting_contribution_def split: option.splits
        intro!: math_round_nonneg)
qed

lemma user_weight_bounds: "-400 \<le> user_weight u" "user_weight u \<le> 400"
  by (auto simp: user_weight_def)

lemma seeders_weight_bounds: "-200 \<le> seeders_weight n" "seeders_weight n \<le> 0"
  by (auto simp: seeders_weight_def split: option.splits)

lemmas weight_bounds =
  progress_weight_bounds waiting_weight_bounds user_weight_bounds seeders_weight_bounds

text \<open>Every recorded reason carries a non-zero contribution and its own message key.\<close>

definition reason_ok :: "priority_reason \<Rightarrow> bool" where
  "reason_ok r =
     (pr_contribution r \<noteq> 0 \<and> pr_messageKey r = ''scheduler.priority.'' @ pr_code r)"

lemma add_reason_ok: "list_all reason_ok rs \<Longrightarrow> list_all reason_ok (add_reason c n v rs)"
  by (simp add: add_reason_def reason_ok_def)

lemma add_when_ok: "list_all reason_ok rs \<Longrightarrow> list_all reason_ok (add_when b c n v rs)"
  by (simp add: add_when_def add_reason_ok)

lemma score_reasons_ok: "list_all reason_ok (pd_reasons (scoreTorrent f))"
  by (simp add: scoreTorrent_def score_reasons_def Let_def add_reason_ok add_when_ok split: option.splits)

text \<open>
  The score is explainable and bounded: it is the sum of the contributions of the recorded
  reasons, each of which is non-zero; it lies between -600 and 2000, and a torrent that is not
  force-started never exceeds 1000.
\<close>

theorem scoreTorrent_explained:
  "pd_score (scoreTorrent f) = sum_list (map pr_contribution (pd_reasons (scoreTorrent f))) \<and>
   list_all reason_ok (pd_reasons (scoreTorrent f)) \<and>
   pd_band (scoreTorrent f) = band (pd_score (scoreTorrent f)) \<and>
   -600 \<le> pd_score (scoreTorrent f) \<and>
   pd_score (scoreTorrent f) \<le> (if pf_forceStarted f then 2000 else 1000)"
proof -
  have "pd_score (scoreTorrent f) = sum_list (map pr_contribution (pd_reasons (scoreTorrent f)))"
    and "pd_band (scoreTorrent f) = band (pd_score (scoreTorrent f))"
    by (simp_all add: scoreTorrent_def Let_def reasons_total_def)
  moreover have "-600 \<le> pd_score (scoreTorrent f)"
    and "pd_score (scoreTorrent f) \<le> (if pf_forceStarted f then 2000 else 1000)"
    using weight_bounds (1,2) [of "pf_progress f"] weight_bounds (3,4) [of "pf_waitingMinutes f"]
      weight_bounds (5,6) [of "pf_userPriority f"] weight_bounds (7,8) [of "pf_seeders f"]
    by (auto simp: score_eq)
  ultimately show ?thesis using score_reasons_ok by blast
qed

text \<open>Waiting saturates: however long a torrent has been queued it gains at most 90.\<close>

lemma waiting_never_beats_an_explicit_choice:
  assumes "pf_userPriority f = Some UP_low" "pf_userPriority g = None"
    and "g = f \<lparr> pf_userPriority := None, pf_waitingMinutes := w \<rparr>"
  shows "pd_score (scoreTorrent f) < pd_score (scoreTorrent g)"
  using assms weight_bounds (3,4) [of "pf_waitingMinutes f"] weight_bounds (3,4) [of w]
  by (simp add: score_eq user_weight_def)


section \<open>The ranking\<close>

context collation
begin

lemma priority_cmp_comparator: "js_comparator (priority_cmp lc)"
proof
  fix a b :: "'a orderable_torrent_scheme"
  show "sgn (priority_cmp lc b a) = - sgn (priority_cmp lc a b)"
    using cmp_swap [of "pd_torrentHash (ot_decision b)" "pd_torrentHash (ot_decision a)"]
    by (auto simp: priority_cmp_def sgn_if split: if_splits)
next
  fix a b c :: "'a orderable_torrent_scheme"
  assume "priority_cmp lc a b \<le> 0" "priority_cmp lc b c \<le> 0"
  then show "priority_cmp lc a c \<le> 0"
    using cmp_trans [of "pd_torrentHash (ot_decision a)" "pd_torrentHash (ot_decision b)"
        "pd_torrentHash (ot_decision c)"]
    by (auto simp: priority_cmp_def split: if_splits)
qed

lemma priority_cmp_eq_hash:
  "priority_cmp lc a b = 0 \<Longrightarrow> lc (pd_torrentHash (ot_decision a)) (pd_torrentHash (ot_decision b)) = 0"
  by (auto simp: priority_cmp_def split: if_splits)

end

sublocale collation \<subseteq> ranking: js_comparator "priority_cmp lc"
  by (rule priority_cmp_comparator)

text \<open>
  The order the ranking promises of any two of its entries: the earlier one has the greater
  score, and at equal score an active torrent is not placed behind an inactive one.
\<close>

definition ranks_before :: "'a orderable_torrent_scheme \<Rightarrow> 'a orderable_torrent_scheme \<Rightarrow> bool" where
  "ranks_before a b =
     (pd_score (ot_decision b) \<le> pd_score (ot_decision a) \<and>
      (pd_score (ot_decision a) = pd_score (ot_decision b) \<longrightarrow>
         ot_currentlyActive b \<longrightarrow> ot_currentlyActive a))"

lemma priority_cmp_ranks: "priority_cmp lc a b \<le> 0 \<Longrightarrow> ranks_before a b"
  by (auto simp: priority_cmp_def ranks_before_def split: if_splits)

text \<open>
  The ranking is a sorted permutation of its input: every torrent appears exactly as often
  as before, higher scores come first, and at equal score the incumbent keeps its place, which
  is what prevents two equally ranked torrents from swapping on every sweep.
\<close>

theorem orderByPriority_ranked:
  assumes "collation lc"
  shows "mset (orderByPriority lc xs) = mset xs \<and>
         sorted_wrt ranks_before (orderByPriority lc xs)"
proof -
  have "sorted_wrt (\<lambda>a b. priority_cmp lc a b \<le> 0) (orderByPriority lc xs)"
    unfolding orderByPriority_def
    by (rule js_comparator.sort_sorted, rule collation.priority_cmp_comparator, rule assms)
  then have "sorted_wrt ranks_before (orderByPriority lc xs)"
    by (rule sorted_wrt_mono_rel [rotated]) (auto intro: priority_cmp_ranks)
  then show ?thesis by (simp add: orderByPriority_def)
qed

definition demo_entry :: "string \<Rightarrow> int \<Rightarrow> bool \<Rightarrow> orderable_torrent" where
  "demo_entry h score act =
     \<lparr> ot_decision = \<lparr> pd_torrentHash = h, pd_score = score, pd_band = band score, pd_reasons = [] \<rparr>,
       ot_currentlyActive = act, ot_addedAt = None \<rparr>"

theorem orderByPriority_ranked_witness:
  "collation alnum_collate \<and>
   sorted_wrt ranks_before
     (orderByPriority alnum_collate [demo_entry ''b2'' 0 False, demo_entry ''a1'' 0 True]) \<and>
   orderByPriority alnum_collate [demo_entry ''b2'' 0 False, demo_entry ''a1'' 0 True] =
     [demo_entry ''a1'' 0 True, demo_entry ''b2'' 0 False]"
  using orderByPriority_ranked [OF alnum.collation_axioms,
      of "[demo_entry ''b2'' 0 False, demo_entry ''a1'' 0 True]"] alnum.collation_axioms
  by (simp add: orderByPriority_def priority_cmp_def demo_entry_def)

text \<open>
  The ranking does not depend on the order in which the torrents were read: two lists with
  the same torrents, whose info-hashes the collation tells apart, are ranked identically.
\<close>

theorem orderByPriority_order_independent:
  assumes "collation lc" and "mset xs = mset ys"
    and "\<forall>a\<in>set xs. \<forall>b\<in>set xs.
           lc (pd_torrentHash (ot_decision a)) (pd_torrentHash (ot_decision b)) = 0 \<longrightarrow> a = b"
  shows "orderByPriority lc xs = orderByPriority lc ys"
  unfolding orderByPriority_def
proof (rule js_comparator.sort_perm_eq)
  show "js_comparator (priority_cmp lc)"
    by (rule collation.priority_cmp_comparator) (rule assms(1))
  show "mset xs = mset ys" by (rule assms(2))
  show "a = b" if "a \<in> set xs" "b \<in> set xs" "priority_cmp lc a b = 0" for a b
    using that assms(3) collation.priority_cmp_eq_hash [OF assms(1)] by blast
qed


theorem orderByPriority_order_independent_witness:
  "orderByPriority alnum_collate [demo_entry ''b2'' 0 True, demo_entry ''a1'' 0 True] =
   orderByPriority alnum_collate [demo_entry ''a1'' 0 True, demo_entry ''b2'' 0 True] \<and>
   alnum_collate ''b2'' ''a1'' = 1"
proof -
  have ba: "alnum_collate ''b2'' ''a1'' = 1" "alnum_collate ''a1'' ''b2'' = -1"
    by (simp_all add: alnum_collate_def key_cmp_def alnum_key_def ascii_lower_def)
  have "orderByPriority alnum_collate [demo_entry ''b2'' 0 True, demo_entry ''a1'' 0 True] =
        orderByPriority alnum_collate [demo_entry ''a1'' 0 True, demo_entry ''b2'' 0 True]"
    by (rule orderByPriority_order_independent [OF alnum.collation_axioms])
      (use ba in \<open>auto simp: demo_entry_def\<close>)
  with ba show ?thesis by simp
qed

end
