(* ===== verification/Sched_Seed_Conditions.thy ===== *)
theory Sched_Seed_Conditions
  imports Js_Prelude
begin

text \<open>
  The condition language of seeding policies
  (\<^verbatim>\<open>torrent-scheduler/domain/seed-conditions.ts\<close>): the catalogue of facts, the
  three-valued comparison, and the evaluation of a condition tree.

  The lemmas show that the evaluation is strong Kleene logic, that it is monotone in the
  information order (measuring a fact that was missing never overturns a decided verdict), and
  that \<open>unmeasurableFields\<close> returns exactly the unmeasurable fields the tree reads.
\<close>

section \<open>The catalogue\<close>

datatype verdict = Met | Not_met | Undecided

datatype seed_condition_node =
  SC_Leaf string string jsval
| SC_All "seed_condition_node option list"
| SC_Any "seed_condition_node option list"
| SC_Other

record seed_facts =
  sf_ratio :: "rat option"
  sf_ageDays :: "rat option"
  sf_sizeBytes :: "rat option"
  sf_tracker :: "string option"
  sf_category :: "string option"
  sf_label :: "string option"
  sf_isPrivate :: "bool option"
  sf_name :: "string option"
  sf_libraryId :: "string option"
  sf_importCompleted :: "bool option"
  sf_libraryCopyVerified :: "bool option"
  sf_uploadedBytes :: "rat option"
  sf_seedMinutes :: "rat option"

datatype fact_key =
  FK_ratio | FK_ageDays | FK_sizeBytes | FK_tracker | FK_category | FK_label | FK_isPrivate
| FK_name | FK_libraryId | FK_importCompleted | FK_libraryCopyVerified | FK_uploadedBytes
| FK_seedMinutes

fun fact_value :: "seed_facts \<Rightarrow> fact_key \<Rightarrow> jsval option" where
  "fact_value f FK_ratio = map_option JNum (sf_ratio f)"
| "fact_value f FK_ageDays = map_option JNum (sf_ageDays f)"
| "fact_value f FK_sizeBytes = map_option JNum (sf_sizeBytes f)"
| "fact_value f FK_tracker = map_option JStr (sf_tracker f)"
| "fact_value f FK_category = map_option JStr (sf_category f)"
| "fact_value f FK_label = map_option JStr (sf_label f)"
| "fact_value f FK_isPrivate = map_option JBool (sf_isPrivate f)"
| "fact_value f FK_name = map_option JStr (sf_name f)"
| "fact_value f FK_libraryId = map_option JStr (sf_libraryId f)"
| "fact_value f FK_importCompleted = map_option JBool (sf_importCompleted f)"
| "fact_value f FK_libraryCopyVerified = map_option JBool (sf_libraryCopyVerified f)"
| "fact_value f FK_uploadedBytes = map_option JNum (sf_uploadedBytes f)"
| "fact_value f FK_seedMinutes = map_option JNum (sf_seedMinutes f)"

datatype sc_category = Cat_progress | Cat_tracker | Cat_content | Cat_import

datatype sc_data_type = DT_number | DT_string | DT_boolean | DT_bytes

record seed_condition_definition =
  sd_id :: string
  sd_labelKey :: string
  sd_descriptionKey :: string
  sd_category :: sc_category
  sd_dataType :: sc_data_type
  sd_operators :: "string list"
  sd_factKey :: fact_key
  sd_valueSource :: "string option"
  sd_unavailable :: bool

definition ops_EQ :: "string list" where
  "ops_EQ = [''eq'', ''neq'']"

definition ops_ORD :: "string list" where
  "ops_ORD = [''eq'', ''neq'', ''gt'', ''gte'', ''lt'', ''lte'']"

definition ops_TEXT :: "string list" where
  "ops_TEXT = [''eq'', ''neq'', ''contains'', ''matches'']"

definition sc_def ::
  "string \<Rightarrow> string \<Rightarrow> sc_category \<Rightarrow> sc_data_type \<Rightarrow> string list \<Rightarrow> fact_key \<Rightarrow>
   string option \<Rightarrow> bool \<Rightarrow> seed_condition_definition" where
  "sc_def i label cat dt ops key src unav =
     \<lparr> sd_id = i, sd_labelKey = ''sched.cond.'' @ label,
       sd_descriptionKey = ''sched.cond.'' @ label @ ''.desc'', sd_category = cat,
       sd_dataType = dt, sd_operators = ops, sd_factKey = key, sd_valueSource = src,
       sd_unavailable = unav \<rparr>"

definition SEED_CONDITIONS :: "seed_condition_definition list" where
  "SEED_CONDITIONS =
     [sc_def ''seed.ratio'' ''ratio'' Cat_progress DT_number ops_ORD FK_ratio None False,
      sc_def ''seed.ageDays'' ''ageDays'' Cat_progress DT_number ops_ORD FK_ageDays None False,
      sc_def ''seed.uploadedBytes'' ''uploaded'' Cat_progress DT_bytes ops_ORD FK_uploadedBytes None False,
      sc_def ''seed.seedMinutes'' ''seedMinutes'' Cat_progress DT_number ops_ORD FK_seedMinutes None True,
      sc_def ''seed.tracker'' ''tracker'' Cat_tracker DT_string ops_TEXT FK_tracker None True,
      sc_def ''seed.isPrivate'' ''isPrivate'' Cat_tracker DT_boolean ops_EQ FK_isPrivate None True,
      sc_def ''seed.sizeBytes'' ''size'' Cat_content DT_bytes ops_ORD FK_sizeBytes None False,
      sc_def ''seed.name'' ''name'' Cat_content DT_string ops_TEXT FK_name None False,
      sc_def ''seed.category'' ''category'' Cat_content DT_string ops_TEXT FK_category None False,
      sc_def ''seed.label'' ''label'' Cat_content DT_string ops_TEXT FK_label None False,
      sc_def ''seed.libraryId'' ''library'' Cat_import DT_string ops_EQ FK_libraryId (Some ''library'') False,
      sc_def ''seed.importCompleted'' ''imported'' Cat_import DT_boolean ops_EQ FK_importCompleted None False,
      sc_def ''seed.libraryCopyVerified'' ''copyVerified'' Cat_import DT_boolean ops_EQ
        FK_libraryCopyVerified None False]"

definition seedConditionById :: "string \<Rightarrow> seed_condition_definition option" where
  "seedConditionById i = find (\<lambda>d. sd_id d = i) SEED_CONDITIONS"


section \<open>Comparison and evaluation\<close>

text \<open>
  What the comparison takes from the host: \<open>rt_num_str\<close>, the printing of a number, and
  \<open>rt_regex_test\<close>, the case-insensitive test of a pattern on a string, \<open>None\<close> where the
  pattern does not compile.
\<close>

record js_runtime =
  rt_num_str :: "rat \<Rightarrow> string"
  rt_regex_test :: "string \<Rightarrow> string \<Rightarrow> bool option"

definition of_bool_v :: "bool \<Rightarrow> verdict" where
  "of_bool_v b = (if b then Met else Not_met)"

definition compare_ord :: "js_runtime \<Rightarrow> string \<Rightarrow> jsval \<Rightarrow> jsval \<Rightarrow> verdict" where
  "compare_ord rt operator actual expected =
     (let a = js_number (rt_num_str rt) actual; b = js_number (rt_num_str rt) expected
      in if \<not> jn_finite a \<or> \<not> jn_finite b then Undecided
         else if operator = ''gt'' then of_bool_v (jn_less b a)
         else if operator = ''gte'' then of_bool_v (jn_le b a)
         else if operator = ''lt'' then of_bool_v (jn_less a b)
         else of_bool_v (jn_le a b))"

definition sc_compare :: "js_runtime \<Rightarrow> string \<Rightarrow> jsval option \<Rightarrow> jsval \<Rightarrow> verdict" where
  "sc_compare rt operator actual_opt expected =
     (case actual_opt of
        None \<Rightarrow> Undecided
      | Some actual \<Rightarrow>
          if operator = ''eq'' then of_bool_v (strict_eq actual expected)
          else if operator = ''neq'' then of_bool_v (\<not> strict_eq actual expected)
          else if operator \<in> {''gt'', ''gte'', ''lt'', ''lte''}
            then compare_ord rt operator actual expected
          else if operator = ''contains''
            then of_bool_v (includes_str (to_lower (js_string (rt_num_str rt) actual))
                                         (to_lower (js_string (rt_num_str rt) expected)))
          else if operator = ''matches''
            then (case rt_regex_test rt (js_string (rt_num_str rt) expected)
                                        (js_string (rt_num_str rt) actual) of
                    None \<Rightarrow> Undecided
                  | Some b \<Rightarrow> of_bool_v b)
          else Undecided)"

definition all_verdict :: "verdict list \<Rightarrow> verdict" where
  "all_verdict vs =
     (if Not_met \<in> set vs then Not_met else if Undecided \<in> set vs then Undecided else Met)"

definition any_verdict :: "verdict list \<Rightarrow> verdict" where
  "any_verdict vs =
     (if Met \<in> set vs then Met else if Undecided \<in> set vs then Undecided else Not_met)"

fun eval_node :: "js_runtime \<Rightarrow> seed_condition_node \<Rightarrow> seed_facts \<Rightarrow> verdict" where
  "eval_node rt (SC_All children) facts =
     (if children = [] then Met
      else all_verdict
             (map (\<lambda>c. case c of None \<Rightarrow> Met | Some n \<Rightarrow> eval_node rt n facts) children))"
| "eval_node rt (SC_Any children) facts =
     (if children = [] then Met
      else any_verdict
             (map (\<lambda>c. case c of None \<Rightarrow> Met | Some n \<Rightarrow> eval_node rt n facts) children))"
| "eval_node rt SC_Other facts = Undecided"
| "eval_node rt (SC_Leaf field operator expected) facts =
     (case seedConditionById field of
        None \<Rightarrow> Undecided
      | Some d \<Rightarrow> sc_compare rt operator (fact_value facts (sd_factKey d)) expected)"

definition evaluateSeedConditions ::
  "js_runtime \<Rightarrow> seed_condition_node option \<Rightarrow> seed_facts \<Rightarrow> verdict" where
  "evaluateSeedConditions rt node facts =
     (case node of None \<Rightarrow> Met | Some n \<Rightarrow> eval_node rt n facts)"

text \<open>The walk collects into a set that keeps insertion order.\<close>

definition add_field :: "string \<Rightarrow> string list \<Rightarrow> string list" where
  "add_field x found = (if x \<in> set found then found else found @ [x])"

definition field_unavailable :: "string \<Rightarrow> bool" where
  "field_unavailable field =
     (case seedConditionById field of None \<Rightarrow> False | Some d \<Rightarrow> sd_unavailable d)"

fun walk_node :: "seed_condition_node \<Rightarrow> string list \<Rightarrow> string list" where
  "walk_node (SC_All children) found =
     fold (\<lambda>c acc. case c of None \<Rightarrow> acc | Some n \<Rightarrow> walk_node n acc) children found"
| "walk_node (SC_Any children) found =
     fold (\<lambda>c acc. case c of None \<Rightarrow> acc | Some n \<Rightarrow> walk_node n acc) children found"
| "walk_node SC_Other found = found"
| "walk_node (SC_Leaf field operator expected) found =
     (if field_unavailable field then add_field field found else found)"

definition unmeasurableFields :: "seed_condition_node option \<Rightarrow> string list" where
  "unmeasurableFields node = (case node of None \<Rightarrow> [] | Some n \<Rightarrow> walk_node n [])"


section \<open>Three-valued logic\<close>

fun k_and :: "verdict \<Rightarrow> verdict \<Rightarrow> verdict" where
  "k_and Not_met _ = Not_met"
| "k_and _ Not_met = Not_met"
| "k_and Met Met = Met"
| "k_and _ _ = Undecided"

fun k_or :: "verdict \<Rightarrow> verdict \<Rightarrow> verdict" where
  "k_or Met _ = Met"
| "k_or _ Met = Met"
| "k_or Not_met Not_met = Not_met"
| "k_or _ _ = Undecided"

lemma all_verdict_Cons: "all_verdict (v # vs) = k_and v (all_verdict vs)"
  by (cases v) (auto simp: all_verdict_def)

lemma any_verdict_Cons: "any_verdict (v # vs) = k_or v (any_verdict vs)"
  by (cases v) (auto simp: any_verdict_def)

lemma all_verdict_foldr: "all_verdict vs = foldr k_and vs Met"
  by (induction vs) (auto simp: all_verdict_Cons all_verdict_def [of "[]"])

lemma any_verdict_foldr: "any_verdict vs = foldr k_or vs Not_met"
  by (induction vs) (auto simp: any_verdict_Cons any_verdict_def [of "[]"])

definition verdict_le :: "verdict \<Rightarrow> verdict \<Rightarrow> bool" where
  "verdict_le a b = (a = Undecided \<or> a = b)"

lemma verdict_le_refl [simp]: "verdict_le a a"
  by (simp add: verdict_le_def)

lemma k_and_mono: "verdict_le a a' \<Longrightarrow> verdict_le b b' \<Longrightarrow> verdict_le (k_and a b) (k_and a' b')"
  by (cases a; cases a'; cases b; cases b') (auto simp: verdict_le_def)

lemma k_or_mono: "verdict_le a a' \<Longrightarrow> verdict_le b b' \<Longrightarrow> verdict_le (k_or a b) (k_or a' b')"
  by (cases a; cases a'; cases b; cases b') (auto simp: verdict_le_def)

lemma all_verdict_mono:
  "(\<And>x. x \<in> set xs \<Longrightarrow> verdict_le (f x) (g x)) \<Longrightarrow>
   verdict_le (all_verdict (map f xs)) (all_verdict (map g xs))"
  by (induction xs) (auto simp: all_verdict_Cons intro: k_and_mono)

lemma any_verdict_mono:
  "(\<And>x. x \<in> set xs \<Longrightarrow> verdict_le (f x) (g x)) \<Longrightarrow>
   verdict_le (any_verdict (map f xs)) (any_verdict (map g xs))"
  by (induction xs) (auto simp: any_verdict_Cons intro: k_or_mono)


section \<open>Monotonicity in the measured facts\<close>

text \<open>\<open>g\<close> knows at least what \<open>f\<close> knows, and agrees with it.\<close>

definition facts_le :: "seed_facts \<Rightarrow> seed_facts \<Rightarrow> bool" where
  "facts_le f g = (\<forall>k v. fact_value f k = Some v \<longrightarrow> fact_value g k = Some v)"

lemma sc_compare_mono:
  "facts_le f g \<Longrightarrow>
   verdict_le (sc_compare rt operator (fact_value f k) e) (sc_compare rt operator (fact_value g k) e)"
  by (cases "fact_value f k") (auto simp: facts_le_def verdict_le_def sc_compare_def)

lemma eval_node_mono:
  "facts_le f g \<Longrightarrow> verdict_le (eval_node rt n f) (eval_node rt n g)"
proof (induction rt n f rule: eval_node.induct)
  case (1 rt children facts)
  then show ?case by (auto intro!: all_verdict_mono split: option.splits)
next
  case (2 rt children facts)
  then show ?case by (auto intro!: any_verdict_mono split: option.splits)
next
  case (3 rt facts)
  then show ?case by simp
next
  case (4 rt field operator expected facts)
  then show ?case by (auto intro: sc_compare_mono split: option.splits)
qed

text \<open>
  Unknown is not false. Once the condition tree of a seeding policy has decided a torrent,
  met or not met, measuring further facts about it never changes the verdict: the missing
  facts really were irrelevant to the decision.
\<close>

theorem evaluateSeedConditions_monotone:
  assumes "facts_le f g" and "evaluateSeedConditions rt node f \<noteq> Undecided"
  shows "evaluateSeedConditions rt node g = evaluateSeedConditions rt node f"
proof (cases node)
  case None
  then show ?thesis by (simp add: evaluateSeedConditions_def)
next
  case (Some n)
  then show ?thesis
    using assms(2) eval_node_mono [OF assms(1), of rt n]
    by (auto simp: evaluateSeedConditions_def verdict_le_def)
qed

definition no_facts :: seed_facts where
  "no_facts =
     \<lparr> sf_ratio = None, sf_ageDays = None, sf_sizeBytes = None, sf_tracker = None,
       sf_category = None, sf_label = None, sf_isPrivate = None, sf_name = None,
       sf_libraryId = None, sf_importCompleted = None, sf_libraryCopyVerified = None,
       sf_uploadedBytes = None, sf_seedMinutes = None \<rparr>"

definition demo_runtime :: js_runtime where
  "demo_runtime = \<lparr> rt_num_str = (\<lambda>q. int_digits \<lfloor>q\<rfloor>), rt_regex_test = (\<lambda>p s. None) \<rparr>"

definition demo_stop_when :: seed_condition_node where
  "demo_stop_when =
     SC_Any [Some (SC_Leaf ''seed.ratio'' ''gte'' (JNum 2)),
             Some (SC_Leaf ''seed.ageDays'' ''gte'' (JNum 30))]"

lemma facts_le_ratio:
  "facts_le (no_facts \<lparr> sf_ratio := r \<rparr>) (no_facts \<lparr> sf_ratio := r, sf_ageDays := a \<rparr>)"
  unfolding facts_le_def
proof (intro allI impI)
  fix k v
  assume "fact_value (no_facts \<lparr> sf_ratio := r \<rparr>) k = Some v"
  then show "fact_value (no_facts \<lparr> sf_ratio := r, sf_ageDays := a \<rparr>) k = Some v"
    by (cases k) (auto simp: no_facts_def)
qed

lemmas seed_eval_simps =
  seedConditionById_def SEED_CONDITIONS_def sc_def_def sc_compare_def compare_ord_def
  of_bool_v_def jn_le_def all_verdict_def any_verdict_def

theorem evaluateSeedConditions_monotone_witness:
  "evaluateSeedConditions demo_runtime (Some demo_stop_when) (no_facts \<lparr> sf_ratio := Some 3 \<rparr>) = Met \<and>
   evaluateSeedConditions demo_runtime (Some demo_stop_when)
     (no_facts \<lparr> sf_ratio := Some 3, sf_ageDays := Some 1 \<rparr>) = Met"
proof -
  have met: "evaluateSeedConditions demo_runtime (Some demo_stop_when)
               (no_facts \<lparr> sf_ratio := Some 3 \<rparr>) = Met"
    by (simp add: evaluateSeedConditions_def demo_stop_when_def seed_eval_simps)
  have "evaluateSeedConditions demo_runtime (Some demo_stop_when)
          (no_facts \<lparr> sf_ratio := Some 3, sf_ageDays := Some 1 \<rparr>) =
        evaluateSeedConditions demo_runtime (Some demo_stop_when) (no_facts \<lparr> sf_ratio := Some 3 \<rparr>)"
    by (rule evaluateSeedConditions_monotone [OF facts_le_ratio]) (simp add: met)
  with met show ?thesis by simp
qed


section \<open>Unmeasurable fields\<close>

fun leaf_fields :: "seed_condition_node \<Rightarrow> string set" where
  "leaf_fields (SC_All children) =
     (\<Union>c\<in>set children. case c of None \<Rightarrow> {} | Some n \<Rightarrow> leaf_fields n)"
| "leaf_fields (SC_Any children) =
     (\<Union>c\<in>set children. case c of None \<Rightarrow> {} | Some n \<Rightarrow> leaf_fields n)"
| "leaf_fields SC_Other = {}"
| "leaf_fields (SC_Leaf field operator expected) = {field}"

lemma set_add_field [simp]: "set (add_field x xs) = insert x (set xs)"
  by (auto simp: add_field_def)

lemma distinct_add_field [simp]: "distinct xs \<Longrightarrow> distinct (add_field x xs)"
  by (simp add: add_field_def)

lemma fold_walk:
  assumes "\<And>c acc. c \<in> set cs \<Longrightarrow> set (F c acc) = set acc \<union> S c"
    and "\<And>c acc. c \<in> set cs \<Longrightarrow> distinct acc \<Longrightarrow> distinct (F c acc)"
  shows "set (fold F cs found) = set found \<union> (\<Union>c\<in>set cs. S c) \<and>
         (distinct found \<longrightarrow> distinct (fold F cs found))"
  using assms
proof (induction cs arbitrary: found)
  case Nil
  then show ?case by simp
next
  case (Cons c cs)
  have "set (fold F cs (F c found)) = set (F c found) \<union> (\<Union>c\<in>set cs. S c) \<and>
        (distinct (F c found) \<longrightarrow> distinct (fold F cs (F c found)))"
    by (rule Cons.IH) (use Cons.prems in auto)
  then show ?case using Cons.prems by auto
qed

lemma walk_node_spec:
  "set (walk_node n found) = set found \<union> {f \<in> leaf_fields n. field_unavailable f} \<and>
   (distinct found \<longrightarrow> distinct (walk_node n found))"
proof (induction n arbitrary: found)
  case (SC_All cs)
  let ?S = "\<lambda>c. {f \<in> (case c of None \<Rightarrow> {} | Some n \<Rightarrow> leaf_fields n). field_unavailable f}"
  have "set (walk_node (SC_All cs) found) = set found \<union> (\<Union>c\<in>set cs. ?S c) \<and>
        (distinct found \<longrightarrow> distinct (walk_node (SC_All cs) found))"
    unfolding walk_node.simps
    by (rule fold_walk) (use SC_All in \<open>auto split: option.splits\<close>)
  then show ?case by auto
next
  case (SC_Any cs)
  let ?S = "\<lambda>c. {f \<in> (case c of None \<Rightarrow> {} | Some n \<Rightarrow> leaf_fields n). field_unavailable f}"
  have "set (walk_node (SC_Any cs) found) = set found \<union> (\<Union>c\<in>set cs. ?S c) \<and>
        (distinct found \<longrightarrow> distinct (walk_node (SC_Any cs) found))"
    unfolding walk_node.simps
    by (rule fold_walk) (use SC_Any in \<open>auto split: option.splits\<close>)
  then show ?case by auto
qed auto

lemma unmeasurableFields_spec:
  "set (unmeasurableFields (Some n)) = {f \<in> leaf_fields n. field_unavailable f}"
  "distinct (unmeasurableFields node)"
  using walk_node_spec [of _ "[]"]
  by (auto simp: unmeasurableFields_def split: option.splits)

text \<open>An empty group is met, whatever the facts, for \<open>all\<close> and for \<open>any\<close> alike.\<close>

lemma evaluateSeedConditions_empty_any [simp]:
  "evaluateSeedConditions rt (Some (SC_Any [])) facts = Met"
  "evaluateSeedConditions rt (Some (SC_All [])) facts = Met"
  "evaluateSeedConditions rt None facts = Met"
  by (simp_all add: evaluateSeedConditions_def)

end
