(* ===== verification/Sched_Policy.thy ===== *)
theory Sched_Policy
  imports Sched_Seed_Conditions
begin

text \<open>
  Scheduling policies (\<^verbatim>\<open>torrent-scheduler/domain/policy.ts\<close>): the resolution of the
  effective policy of a torrent over its scopes, the verdict on a seeding target and the
  seeding deadline.

  The lemmas show that every field is supplied by the first policy of the most specific scope
  that sets it, that the seeding verdict is three-valued logic over its two targets and
  monotone in the facts, and that the deadline is monotone in time.
\<close>

section \<open>Data\<close>

datatype policy_scope_type =
  Scope_global | Scope_engine | Scope_library | Scope_category | Scope_rss_rule | Scope_torrent
| Scope_other

record policy_scope =
  scope_type :: policy_scope_type
  scope_id :: "string option"

definition SCOPE_PRECEDENCE :: "policy_scope_type list" where
  "SCOPE_PRECEDENCE =
     [Scope_torrent, Scope_rss_rule, Scope_category, Scope_library, Scope_engine, Scope_global]"

datatype seeding_mode =
  SM_ratio | SM_time | SM_ratio_or_time | SM_ratio_and_time | SM_manual | SM_unlimited
| SM_other string

datatype post_seed_action =
  PSA_pause | PSA_stop | PSA_remove_torrent_keep_data | PSA_remove_torrent_and_staging_data
| PSA_leave_active

record seeding_policy =
  sp_mode :: seeding_mode
  sp_targetRatio :: "rat option"
  sp_targetSeedMinutes :: "rat option"
  sp_minimumSeedMinutes :: "rat option"
  sp_minimumRatio :: "rat option"
  sp_afterTarget :: post_seed_action
  sp_requireImportCompleted :: bool
  sp_requireLibraryCopyVerified :: bool
  sp_maxAgeDays :: "rat option"
  sp_stopWhen :: "seed_condition_node option"

record scheduling_policy =
  pol_id :: string
  pol_name :: string
  pol_enabled :: bool
  pol_scope :: policy_scope
  pol_maxConcurrentDownloads :: "int setting"
  pol_maxConcurrentSeeds :: "int setting"
  pol_maxTotalActive :: "int setting"
  pol_maxDownloadRateKbps :: "int setting"
  pol_maxUploadRateKbps :: "int setting"
  pol_reserveDownloadBandwidthPercent :: "int setting"
  pol_reserveSeedBandwidthPercent :: "int setting"
  pol_seedPolicy :: "seeding_policy setting"
  pol_activeScheduleId :: "string setting"

datatype policy_field =
  F_maxConcurrentDownloads | F_maxConcurrentSeeds | F_maxTotalActive | F_maxDownloadRateKbps
| F_maxUploadRateKbps | F_reserveDownloadBandwidthPercent | F_reserveSeedBandwidthPercent
| F_seedPolicy | F_activeScheduleId

record effective_policy =
  ep_maxConcurrentDownloads :: "int option"
  ep_maxConcurrentSeeds :: "int option"
  ep_maxTotalActive :: "int option"
  ep_maxDownloadRateKbps :: "int option"
  ep_maxUploadRateKbps :: "int option"
  ep_reserveDownloadBandwidthPercent :: "int option"
  ep_reserveSeedBandwidthPercent :: "int option"
  ep_seedPolicy :: "seeding_policy option"
  ep_activeScheduleId :: "string option"
  ep_sources :: "policy_field \<Rightarrow> string option"

record policy_match_context =
  ctx_torrentHash :: string
  ctx_engineId :: string
  ctx_libraryId :: "string option"
  ctx_categoryId :: "string option"
  ctx_rssRuleId :: "string option"


section \<open>Resolution\<close>

text \<open>\<open>opt_matches\<close>: the context names a non-empty id and the scope's id is that one.\<close>

definition opt_matches :: "string option \<Rightarrow> string option \<Rightarrow> bool" where
  "opt_matches sid cid = (case cid of None \<Rightarrow> False | Some c \<Rightarrow> c \<noteq> [] \<and> sid = Some c)"

definition scope_matches :: "policy_scope \<Rightarrow> policy_match_context \<Rightarrow> bool" where
  "scope_matches scope ctx =
     (case scope_type scope of
        Scope_global \<Rightarrow> True
      | Scope_engine \<Rightarrow> scope_id scope = Some (ctx_engineId ctx)
      | Scope_library \<Rightarrow> opt_matches (scope_id scope) (ctx_libraryId ctx)
      | Scope_category \<Rightarrow> opt_matches (scope_id scope) (ctx_categoryId ctx)
      | Scope_rss_rule \<Rightarrow> opt_matches (scope_id scope) (ctx_rssRuleId ctx)
      | Scope_torrent \<Rightarrow>
          map_option to_lower (scope_id scope) = Some (to_lower (ctx_torrentHash ctx))
      | Scope_other \<Rightarrow> False)"

definition applicable_policies ::
  "scheduling_policy list \<Rightarrow> policy_match_context \<Rightarrow> scheduling_policy list" where
  "applicable_policies policies ctx =
     filter (\<lambda>p. pol_enabled p \<and> scope_matches (pol_scope p) ctx) policies"

definition field_winner ::
  "(scheduling_policy \<Rightarrow> 'a setting) \<Rightarrow> scheduling_policy list \<Rightarrow> scheduling_policy option" where
  "field_winner get applicable =
     find_map (\<lambda>st. find (\<lambda>p. scope_type (pol_scope p) = st \<and> is_set (get p)) applicable)
       SCOPE_PRECEDENCE"

definition field_value ::
  "(scheduling_policy \<Rightarrow> 'a setting) \<Rightarrow> scheduling_policy list \<Rightarrow> 'a option" where
  "field_value get applicable =
     (case field_winner get applicable of None \<Rightarrow> None | Some w \<Rightarrow> setting_value (get w))"

definition field_source ::
  "(scheduling_policy \<Rightarrow> 'a setting) \<Rightarrow> scheduling_policy list \<Rightarrow> string option" where
  "field_source get applicable = map_option pol_id (field_winner get applicable)"

fun sources_of :: "scheduling_policy list \<Rightarrow> policy_field \<Rightarrow> string option" where
  "sources_of ps F_maxConcurrentDownloads = field_source pol_maxConcurrentDownloads ps"
| "sources_of ps F_maxConcurrentSeeds = field_source pol_maxConcurrentSeeds ps"
| "sources_of ps F_maxTotalActive = field_source pol_maxTotalActive ps"
| "sources_of ps F_maxDownloadRateKbps = field_source pol_maxDownloadRateKbps ps"
| "sources_of ps F_maxUploadRateKbps = field_source pol_maxUploadRateKbps ps"
| "sources_of ps F_reserveDownloadBandwidthPercent =
     field_source pol_reserveDownloadBandwidthPercent ps"
| "sources_of ps F_reserveSeedBandwidthPercent = field_source pol_reserveSeedBandwidthPercent ps"
| "sources_of ps F_seedPolicy = field_source pol_seedPolicy ps"
| "sources_of ps F_activeScheduleId = field_source pol_activeScheduleId ps"

definition resolveEffectivePolicy ::
  "scheduling_policy list \<Rightarrow> policy_match_context \<Rightarrow> effective_policy" where
  "resolveEffectivePolicy policies ctx =
     (let ps = applicable_policies policies ctx in
      \<lparr> ep_maxConcurrentDownloads = field_value pol_maxConcurrentDownloads ps,
        ep_maxConcurrentSeeds = field_value pol_maxConcurrentSeeds ps,
        ep_maxTotalActive = field_value pol_maxTotalActive ps,
        ep_maxDownloadRateKbps = field_value pol_maxDownloadRateKbps ps,
        ep_maxUploadRateKbps = field_value pol_maxUploadRateKbps ps,
        ep_reserveDownloadBandwidthPercent = field_value pol_reserveDownloadBandwidthPercent ps,
        ep_reserveSeedBandwidthPercent = field_value pol_reserveSeedBandwidthPercent ps,
        ep_seedPolicy = field_value pol_seedPolicy ps,
        ep_activeScheduleId = field_value pol_activeScheduleId ps,
        ep_sources = sources_of ps \<rparr>)"


section \<open>Seeding targets and deadlines\<close>

definition target_met :: "rat option \<Rightarrow> rat option \<Rightarrow> verdict" where
  "target_met target actual =
     (case target of
        None \<Rightarrow> Undecided
      | Some t \<Rightarrow> (case actual of None \<Rightarrow> Undecided | Some a \<Rightarrow> of_bool_v (t \<le> a)))"

text \<open>A floor either lets the evaluation go on (\<open>None\<close>) or settles the verdict.\<close>

definition floor_check :: "rat option \<Rightarrow> rat option \<Rightarrow> verdict option" where
  "floor_check minimum actual =
     (case minimum of
        None \<Rightarrow> None
      | Some m \<Rightarrow>
          (case actual of
             None \<Rightarrow> Some Undecided
           | Some a \<Rightarrow> if a < m then Some Not_met else None))"

definition mode_verdict :: "seeding_mode \<Rightarrow> verdict \<Rightarrow> verdict \<Rightarrow> verdict" where
  "mode_verdict mode r t =
     (case mode of
        SM_unlimited \<Rightarrow> Not_met
      | SM_manual \<Rightarrow> Not_met
      | SM_ratio \<Rightarrow> r
      | SM_time \<Rightarrow> t
      | SM_ratio_or_time \<Rightarrow>
          if r = Met \<or> t = Met then Met
          else if r = Undecided \<or> t = Undecided then Undecided else Not_met
      | SM_ratio_and_time \<Rightarrow>
          if r = Not_met \<or> t = Not_met then Not_met
          else if r = Undecided \<or> t = Undecided then Undecided else Met
      | SM_other _ \<Rightarrow> Undecided)"

definition evaluateSeedTarget :: "js_runtime \<Rightarrow> seeding_policy \<Rightarrow> seed_facts \<Rightarrow> verdict" where
  "evaluateSeedTarget rt policy facts =
     (case sp_stopWhen policy of
        Some n \<Rightarrow> evaluateSeedConditions rt (Some n) facts
      | None \<Rightarrow>
          (case floor_check (sp_minimumRatio policy) (sf_ratio facts) of
             Some v \<Rightarrow> v
           | None \<Rightarrow>
               (case floor_check (sp_minimumSeedMinutes policy) (sf_seedMinutes facts) of
                  Some v \<Rightarrow> v
                | None \<Rightarrow>
                    mode_verdict (sp_mode policy)
                      (target_met (sp_targetRatio policy) (sf_ratio facts))
                      (target_met (sp_targetSeedMinutes policy) (sf_seedMinutes facts)))))"

definition day_ms :: int where
  "day_ms = 24 * 60 * 60 * 1000"

definition evaluateSeedAgeDeadline :: "seeding_policy \<Rightarrow> time option \<Rightarrow> time \<Rightarrow> verdict" where
  "evaluateSeedAgeDeadline policy completedAt now =
     (case sp_maxAgeDays policy of
        None \<Rightarrow> Not_met
      | Some d \<Rightarrow>
          if \<not> d > 0 then Not_met
          else (case completedAt of
                  None \<Rightarrow> Undecided
                | Some c \<Rightarrow>
                    (let ageMs = now - c
                     in if ageMs < 0 then Not_met
                        else of_bool_v (d * of_int day_ms \<le> of_int ageMs))))"


section \<open>Properties of the resolution\<close>

text \<open>What the resolver finds: the first of least rank among the policies it keeps for a field.\<close>

abbreviation scope_rank :: "scheduling_policy \<Rightarrow> nat" where
  "scope_rank p \<equiv> rank_in SCOPE_PRECEDENCE (scope_type (pol_scope p))"

definition setters ::
  "(scheduling_policy \<Rightarrow> 'a setting) \<Rightarrow> scheduling_policy list \<Rightarrow> policy_match_context \<Rightarrow>
   scheduling_policy list" where
  "setters get policies ctx = filter (\<lambda>p. is_set (get p)) (applicable_policies policies ctx)"

lemma find_conj: "find (\<lambda>p. P p \<and> Q p) xs = find P (filter Q xs)"
  by (induction xs) auto

lemma scope_matches_known:
  "scope_matches sc ctx \<Longrightarrow> scope_type sc \<in> set SCOPE_PRECEDENCE"
  by (cases "scope_type sc") (auto simp: scope_matches_def SCOPE_PRECEDENCE_def)

lemma field_winner_setters:
  "field_winner get (applicable_policies policies ctx) =
     find_map (\<lambda>st. find (\<lambda>p. scope_type (pol_scope p) = st) (setters get policies ctx))
       SCOPE_PRECEDENCE"
  by (simp add: field_winner_def find_conj setters_def)

lemma field_winner_first_min:
  "field_winner get (applicable_policies policies ctx) = Some w \<Longrightarrow>
   is_first_min scope_rank (setters get policies ctx) w"
  unfolding field_winner_setters by (rule find_map_first_min)

lemma field_winner_None_iff:
  "field_winner get (applicable_policies policies ctx) = None \<longleftrightarrow> setters get policies ctx = []"
proof
  assume none: "field_winner get (applicable_policies policies ctx) = None"
  show "setters get policies ctx = []"
  proof (rule ccontr)
    assume "setters get policies ctx \<noteq> []"
    then obtain p where p: "p \<in> set (setters get policies ctx)" by (meson list.set_sel(1))
    then have "scope_type (pol_scope p) \<in> set SCOPE_PRECEDENCE"
      by (auto simp: setters_def applicable_policies_def intro: scope_matches_known)
    then show False
      using none p by (auto simp: field_winner_setters find_map_None_iff find_None_iff)
  qed
next
  assume "setters get policies ctx = []"
  then show "field_winner get (applicable_policies policies ctx) = None"
    by (simp add: field_winner_setters find_map_None_iff)
qed

text \<open>
  The specification, with nothing of the resolver in it: a policy governs a torrent when it is
  enabled and its scope names the torrent, the rule, category or library it belongs to, its engine,
  or everything; scopes are numbered from the most to the least specific; and a field is settled by
  the policy that governs, says something about the field, and comes before every other such policy
  in specificity and then in the order of the list.
\<close>

fun specificity :: "policy_scope_type \<Rightarrow> nat" where
  "specificity Scope_torrent = 1"
| "specificity Scope_rss_rule = 2"
| "specificity Scope_category = 3"
| "specificity Scope_library = 4"
| "specificity Scope_engine = 5"
| "specificity Scope_global = 6"
| "specificity Scope_other = 7"

definition governs :: "scheduling_policy \<Rightarrow> policy_match_context \<Rightarrow> bool" where
  "governs p ctx \<longleftrightarrow> pol_enabled p \<and>
     (let t = scope_type (pol_scope p); named = scope_id (pol_scope p) in
      t = Scope_global \<or>
      t = Scope_engine \<and> named = Some (ctx_engineId ctx) \<or>
      t = Scope_library \<and> named \<noteq> None \<and> named \<noteq> Some [] \<and> named = ctx_libraryId ctx \<or>
      t = Scope_category \<and> named \<noteq> None \<and> named \<noteq> Some [] \<and> named = ctx_categoryId ctx \<or>
      t = Scope_rss_rule \<and> named \<noteq> None \<and> named \<noteq> Some [] \<and> named = ctx_rssRuleId ctx \<or>
      t = Scope_torrent \<and> (\<exists>hash. named = Some hash \<and> to_lower hash = to_lower (ctx_torrentHash ctx)))"

definition settles ::
  "(scheduling_policy \<Rightarrow> 'a setting) \<Rightarrow> scheduling_policy list \<Rightarrow> policy_match_context \<Rightarrow>
   scheduling_policy \<Rightarrow> bool" where
  "settles get policies ctx w \<longleftrightarrow>
     governs w ctx \<and> get w \<noteq> Inherit \<and>
     (\<exists>before after. policies = before @ w # after \<and>
        (\<forall>q\<in>set before. governs q ctx \<and> get q \<noteq> Inherit \<longrightarrow>
           specificity (scope_type (pol_scope w)) < specificity (scope_type (pol_scope q))) \<and>
        (\<forall>q\<in>set after. governs q ctx \<and> get q \<noteq> Inherit \<longrightarrow>
           specificity (scope_type (pol_scope w)) \<le> specificity (scope_type (pol_scope q))))"

definition field_settled ::
  "(scheduling_policy \<Rightarrow> 'a setting) \<Rightarrow> scheduling_policy list \<Rightarrow> policy_match_context \<Rightarrow>
   'a option \<Rightarrow> string option \<Rightarrow> bool" where
  "field_settled get policies ctx val src \<longleftrightarrow>
     (\<forall>p\<in>set policies. \<not> (governs p ctx \<and> get p \<noteq> Inherit)) \<and> val = None \<and> src = None \<or>
     (\<exists>w. settles get policies ctx w \<and> src = Some (pol_id w) \<and>
          (get w = Unlimited \<and> val = None \<or> (\<exists>v. get w = Limit v \<and> val = Some v)))"

lemma governs_iff: "governs p ctx \<longleftrightarrow> pol_enabled p \<and> scope_matches (pol_scope p) ctx"
  by (cases "scope_type (pol_scope p)")
    (auto simp: governs_def scope_matches_def opt_matches_def Let_def split: option.splits)

lemma is_set_iff: "is_set x \<longleftrightarrow> x \<noteq> Inherit"
  by (cases x) auto

lemma setters_eq: "setters get policies ctx = filter (\<lambda>p. governs p ctx \<and> get p \<noteq> Inherit) policies"
  by (simp add: setters_def applicable_policies_def governs_iff is_set_iff conj_commute)

lemma specificity_rank: "governs p ctx \<Longrightarrow> specificity (scope_type (pol_scope p)) = Suc (scope_rank p)"
  by (cases "scope_type (pol_scope p)") (auto simp: governs_def SCOPE_PRECEDENCE_def)

lemma filter_split:
  "filter P xs = us @ w # vs \<Longrightarrow> \<exists>as bs. xs = as @ w # bs \<and> filter P as = us \<and> filter P bs = vs"
proof (induction xs arbitrary: us)
  case (Cons x xs)
  show ?case
  proof (cases "P x \<and> us = []")
    case True
    with Cons.prems show ?thesis by (intro exI [of _ "[]"] exI [of _ xs]) auto
  next
    case False
    obtain us' where us': "filter P xs = us' @ w # vs" "us = (if P x then x # us' else us')"
      using Cons.prems False by (cases us) (auto split: if_splits)
    from Cons.IH [OF us'(1)] obtain as bs where "xs = as @ w # bs" "filter P as = us'" "filter P bs = vs"
      by blast
    with us'(2) show ?thesis by (intro exI [of _ "x # as"] exI [of _ bs]) auto
  qed
qed simp

lemma settles_first_min:
  assumes "is_first_min scope_rank (setters get policies ctx) w"
  shows "settles get policies ctx w"
proof -
  let ?P = "\<lambda>p. governs p ctx \<and> get p \<noteq> Inherit"
  obtain us vs where uv: "filter ?P policies = us @ w # vs"
      "\<forall>u\<in>set us. scope_rank w < scope_rank u" "\<forall>v\<in>set vs. scope_rank w \<le> scope_rank v"
    using assms unfolding is_first_min_def setters_eq by blast
  then obtain before after where pol: "policies = before @ w # after"
      "filter ?P before = us" "filter ?P after = vs"
    using filter_split [OF uv(1)] by blast
  have "w \<in> set (filter ?P policies)" using uv(1) by simp
  then have w: "?P w" by simp
  have "\<forall>q\<in>set before. ?P q \<longrightarrow> scope_rank w < scope_rank q"
    "\<forall>q\<in>set after. ?P q \<longrightarrow> scope_rank w \<le> scope_rank q"
    using uv(2,3) pol(2,3) by auto
  with w pol(1) show ?thesis
    unfolding settles_def by (intro conjI exI [of _ before] exI [of _ after]) (auto simp: specificity_rank)
qed

lemma field_settled_ok:
  "field_settled get policies ctx (field_value get (applicable_policies policies ctx))
     (field_source get (applicable_policies policies ctx))"
proof (cases "field_winner get (applicable_policies policies ctx)")
  case None
  then have "setters get policies ctx = []" by (simp add: field_winner_None_iff)
  then have "\<forall>p\<in>set policies. \<not> (governs p ctx \<and> get p \<noteq> Inherit)"
    by (simp add: setters_eq filter_empty_conv)
  with None show ?thesis by (simp add: field_settled_def field_value_def field_source_def)
next
  case (Some w)
  then have w: "settles get policies ctx w" by (intro settles_first_min field_winner_first_min)
  then have "get w \<noteq> Inherit" by (simp add: settles_def)
  then have "get w = Unlimited \<and> setting_value (get w) = None \<or>
      (\<exists>v. get w = Limit v \<and> setting_value (get w) = Some v)"
    by (cases "get w") auto
  with Some w show ?thesis by (auto simp: field_settled_def field_value_def field_source_def)
qed

text \<open>
  C8. Field-by-field resolution. Every field of the effective policy of a torrent comes from
  the enabled policy of the most specific scope that names the torrent and does not leave the field
  to inherit, the first listed of equally specific ones, with that policy named as its source; scopes
  are ordered torrent, rule, category, library, engine, global; explicit unlimited wins exactly as a
  number does; and a field no such policy sets is unlimited, with no source.
\<close>

theorem resolveEffectivePolicy_most_specific:
  "let e = resolveEffectivePolicy policies ctx in
   field_settled pol_maxConcurrentDownloads policies ctx
     (ep_maxConcurrentDownloads e) (ep_sources e F_maxConcurrentDownloads) \<and>
   field_settled pol_maxConcurrentSeeds policies ctx
     (ep_maxConcurrentSeeds e) (ep_sources e F_maxConcurrentSeeds) \<and>
   field_settled pol_maxTotalActive policies ctx
     (ep_maxTotalActive e) (ep_sources e F_maxTotalActive) \<and>
   field_settled pol_maxDownloadRateKbps policies ctx
     (ep_maxDownloadRateKbps e) (ep_sources e F_maxDownloadRateKbps) \<and>
   field_settled pol_maxUploadRateKbps policies ctx
     (ep_maxUploadRateKbps e) (ep_sources e F_maxUploadRateKbps) \<and>
   field_settled pol_reserveDownloadBandwidthPercent policies ctx
     (ep_reserveDownloadBandwidthPercent e) (ep_sources e F_reserveDownloadBandwidthPercent) \<and>
   field_settled pol_reserveSeedBandwidthPercent policies ctx
     (ep_reserveSeedBandwidthPercent e) (ep_sources e F_reserveSeedBandwidthPercent) \<and>
   field_settled pol_seedPolicy policies ctx (ep_seedPolicy e) (ep_sources e F_seedPolicy) \<and>
   field_settled pol_activeScheduleId policies ctx
     (ep_activeScheduleId e) (ep_sources e F_activeScheduleId)"
  by (simp add: resolveEffectivePolicy_def Let_def field_settled_ok)

text \<open>A disabled policy, or one of another scope, leaves the result as it was.\<close>

lemma resolveEffectivePolicy_ignores_inapplicable:
  "\<not> (pol_enabled p \<and> scope_matches (pol_scope p) ctx) \<Longrightarrow>
   resolveEffectivePolicy (as @ p # bs) ctx = resolveEffectivePolicy (as @ bs) ctx"
  by (auto simp: resolveEffectivePolicy_def applicable_policies_def)


section \<open>Properties of the seeding verdicts\<close>

lemma mode_verdict_or: "mode_verdict SM_ratio_or_time r t = k_or r t"
  by (cases r; cases t) (simp_all add: mode_verdict_def)

lemma mode_verdict_and: "mode_verdict SM_ratio_and_time r t = k_and r t"
  by (cases r; cases t) (simp_all add: mode_verdict_def)

lemma mode_verdict_mono:
  "verdict_le r r' \<Longrightarrow> verdict_le t t' \<Longrightarrow> verdict_le (mode_verdict m r t) (mode_verdict m r' t')"
  by (cases m; cases r; cases r'; cases t; cases t') (simp_all add: mode_verdict_def verdict_le_def)

lemma facts_le_ratio_minutes:
  assumes "facts_le f g"
  shows "sf_ratio f = Some r \<Longrightarrow> sf_ratio g = Some r"
    and "sf_seedMinutes f = Some m \<Longrightarrow> sf_seedMinutes g = Some m"
  using assms unfolding facts_le_def
  by (auto dest: spec [of _ FK_ratio] spec [of _ FK_seedMinutes])

lemma target_met_mono:
  "(\<And>v. a = Some v \<Longrightarrow> b = Some v) \<Longrightarrow> verdict_le (target_met t a) (target_met t b)"
  by (cases a) (auto simp: target_met_def verdict_le_def split: option.splits)

lemma floor_check_mono:
  "(\<And>v. a = Some v \<Longrightarrow> b = Some v) \<Longrightarrow>
   floor_check m a = Some Undecided \<or> floor_check m b = floor_check m a"
  by (cases a) (auto simp: floor_check_def split: option.splits)

lemma evaluateSeedTarget_mono:
  assumes "facts_le f g"
  shows "verdict_le (evaluateSeedTarget rt p f) (evaluateSeedTarget rt p g)"
proof (cases "sp_stopWhen p")
  case (Some n)
  then show ?thesis
    using eval_node_mono [OF assms] by (simp add: evaluateSeedTarget_def evaluateSeedConditions_def)
next
  case None
  note R = floor_check_mono [of "sf_ratio f" "sf_ratio g" "sp_minimumRatio p"]
  note M = floor_check_mono [of "sf_seedMinutes f" "sf_seedMinutes g" "sp_minimumSeedMinutes p"]
  have "verdict_le (mode_verdict (sp_mode p) (target_met (sp_targetRatio p) (sf_ratio f))
          (target_met (sp_targetSeedMinutes p) (sf_seedMinutes f)))
        (mode_verdict (sp_mode p) (target_met (sp_targetRatio p) (sf_ratio g))
          (target_met (sp_targetSeedMinutes p) (sf_seedMinutes g)))"
    by (intro mode_verdict_mono target_met_mono) (auto intro: facts_le_ratio_minutes [OF assms])
  with None R M show ?thesis
    using facts_le_ratio_minutes [OF assms]
    by (auto simp: evaluateSeedTarget_def verdict_le_def split: option.splits)
qed

text \<open>
  A seeding target is decided by three-valued logic. Without a condition list and without
  floors the two combined modes are the strong Kleene disjunction and conjunction of the ratio
  and the time target; manual and unlimited seeding never complete by themselves; and whatever
  the mode, the floors and the condition list, a decided verdict is stable when more facts
  become known.
\<close>

theorem evaluateSeedTarget_kleene:
  "(sp_stopWhen p = None \<and> sp_minimumRatio p = None \<and> sp_minimumSeedMinutes p = None \<longrightarrow>
      (let r = target_met (sp_targetRatio p) (sf_ratio f);
           t = target_met (sp_targetSeedMinutes p) (sf_seedMinutes f)
       in (sp_mode p = SM_ratio_or_time \<longrightarrow> evaluateSeedTarget rt p f = k_or r t) \<and>
          (sp_mode p = SM_ratio_and_time \<longrightarrow> evaluateSeedTarget rt p f = k_and r t))) \<and>
   (sp_stopWhen p = None \<and> sp_mode p \<in> {SM_manual, SM_unlimited} \<longrightarrow>
      evaluateSeedTarget rt p f \<noteq> Met) \<and>
   (facts_le f g \<and> evaluateSeedTarget rt p f \<noteq> Undecided \<longrightarrow>
      evaluateSeedTarget rt p g = evaluateSeedTarget rt p f)"
proof (intro conjI impI)
  assume "sp_stopWhen p = None \<and> sp_minimumRatio p = None \<and> sp_minimumSeedMinutes p = None"
  then show "let r = target_met (sp_targetRatio p) (sf_ratio f);
           t = target_met (sp_targetSeedMinutes p) (sf_seedMinutes f)
       in (sp_mode p = SM_ratio_or_time \<longrightarrow> evaluateSeedTarget rt p f = k_or r t) \<and>
          (sp_mode p = SM_ratio_and_time \<longrightarrow> evaluateSeedTarget rt p f = k_and r t)"
    by (simp add: evaluateSeedTarget_def floor_check_def mode_verdict_or mode_verdict_and)
next
  assume "sp_stopWhen p = None \<and> sp_mode p \<in> {SM_manual, SM_unlimited}"
  then show "evaluateSeedTarget rt p f \<noteq> Met"
    by (auto simp: evaluateSeedTarget_def floor_check_def mode_verdict_def split: option.splits)
next
  assume "facts_le f g \<and> evaluateSeedTarget rt p f \<noteq> Undecided"
  then show "evaluateSeedTarget rt p g = evaluateSeedTarget rt p f"
    using evaluateSeedTarget_mono [of f g rt p] by (auto simp: verdict_le_def)
qed

definition demo_seed_policy :: seeding_policy where
  "demo_seed_policy =
     \<lparr> sp_mode = SM_ratio_or_time, sp_targetRatio = Some 2, sp_targetSeedMinutes = Some 60,
       sp_minimumSeedMinutes = None, sp_minimumRatio = None, sp_afterTarget = PSA_pause,
       sp_requireImportCompleted = False, sp_requireLibraryCopyVerified = False,
       sp_maxAgeDays = Some 30, sp_stopWhen = None \<rparr>"

theorem evaluateSeedTarget_kleene_witness:
  "evaluateSeedTarget demo_runtime demo_seed_policy (no_facts \<lparr> sf_ratio := Some 3 \<rparr>) = k_or Met Undecided \<and>
   evaluateSeedTarget demo_runtime demo_seed_policy
     (no_facts \<lparr> sf_ratio := Some 3, sf_ageDays := Some 1 \<rparr>) = Met"
  using evaluateSeedTarget_kleene [of demo_seed_policy "no_facts \<lparr> sf_ratio := Some 3 \<rparr>" demo_runtime
      "no_facts \<lparr> sf_ratio := Some 3, sf_ageDays := Some 1 \<rparr>"] facts_le_ratio [of "Some 3" "Some 1"]
  by (simp add: demo_seed_policy_def no_facts_def target_met_def of_bool_v_def)

text \<open>
  The seeding deadline. It fires only for a completed torrent whose age since completion
  has reached a positive number of days, never for a completion stamped in the future, and
  once it has fired it stays fired as time passes.
\<close>

theorem evaluateSeedAgeDeadline_met_iff:
  "(evaluateSeedAgeDeadline p completedAt now = Met \<longleftrightarrow>
     (\<exists>d c. sp_maxAgeDays p = Some d \<and> d > 0 \<and> completedAt = Some c \<and> c \<le> now \<and>
            d * of_int day_ms \<le> of_int (now - c))) \<and>
   (evaluateSeedAgeDeadline p completedAt now = Met \<and> now \<le> later \<longrightarrow>
      evaluateSeedAgeDeadline p completedAt later = Met)"
proof -
  have iff: "evaluateSeedAgeDeadline p completedAt n = Met \<longleftrightarrow>
     (\<exists>d c. sp_maxAgeDays p = Some d \<and> d > 0 \<and> completedAt = Some c \<and> c \<le> n \<and>
            d * of_int day_ms \<le> of_int (n - c))" for n
    by (auto simp: evaluateSeedAgeDeadline_def of_bool_v_def Let_def split: option.splits if_splits)
  show ?thesis
  proof (intro conjI impI iff)
    assume "evaluateSeedAgeDeadline p completedAt now = Met \<and> now \<le> later"
    then obtain d c where "sp_maxAgeDays p = Some d" "d > 0" "completedAt = Some c" "c \<le> now"
        "d * of_int day_ms \<le> of_int (now - c)" "now \<le> later"
      using iff [of now] by blast
    moreover from this have "(of_int (now - c) :: rat) \<le> of_int (later - c)" by simp
    ultimately show "evaluateSeedAgeDeadline p completedAt later = Met"
      using iff [of later] by force
  qed
qed

theorem evaluateSeedAgeDeadline_met_iff_witness:
  "evaluateSeedAgeDeadline demo_seed_policy (Some 0) (30 * day_ms) = Met \<and>
   evaluateSeedAgeDeadline demo_seed_policy (Some 0) (31 * day_ms) = Met"
proof -
  have "evaluateSeedAgeDeadline demo_seed_policy (Some 0) (30 * day_ms) = Met"
    by (simp add: evaluateSeedAgeDeadline_def demo_seed_policy_def day_ms_def of_bool_v_def)
  then show ?thesis
    using evaluateSeedAgeDeadline_met_iff [of demo_seed_policy "Some 0" "30 * day_ms" "31 * day_ms"]
    by (simp add: day_ms_def)
qed

end
