(* ===== verification/Sched_Schedule.thy ===== *)
theory Sched_Schedule
  imports Sched_Policy
begin

text \<open>
  Recurring schedule windows (\<^verbatim>\<open>torrent-scheduler/domain/schedule.ts\<close>).

  The wall clock of a time zone is the host's: \<open>intl now zone\<close> is the list of parts that
  \<^verbatim>\<open>Intl.DateTimeFormat(...).formatToParts\<close> yields, \<open>None\<close> where it throws. The
  locale \<open>wall_clock\<close> states what the code relies on.

  The lemmas show that a window covers an instant exactly when the instant lies, modulo a
  week, in the interval that begins on a selected day, also across midnight, and that the
  active windows are folded into the policy with the most authoritative one that sets a field
  winning it.
\<close>

section \<open>Windows\<close>

record schedule_window =
  win_id :: string
  win_name :: string
  win_enabled :: bool
  win_daysOfWeek :: "rat list"
  win_startMinute :: rat
  win_endMinute :: rat
  win_timeZone :: string
  win_priority :: int
  win_maxConcurrentDownloads :: "int setting"
  win_maxConcurrentSeeds :: "int setting"
  win_maxTotalActive :: "int setting"
  win_maxDownloadRateKbps :: "int setting"
  win_maxUploadRateKbps :: "int setting"
  win_allowNewDownloads :: "bool option"

type_synonym intl_parts = "(string \<times> string) list"
type_synonym intl_clock = "time \<Rightarrow> string \<Rightarrow> intl_parts option"

definition WEEKDAYS :: "string \<Rightarrow> nat option" where
  "WEEKDAYS s =
     map_of [(''Sun'', 0), (''Mon'', 1), (''Tue'', 2), (''Wed'', 3), (''Thu'', 4), (''Fri'', 5),
             (''Sat'', 6)] s"

text \<open>The remainder \<^verbatim>\<open>%\<close> of the language, which takes the sign of the dividend.\<close>

definition js_rem :: "rat \<Rightarrow> rat \<Rightarrow> rat" where
  "js_rem a m = a - m * of_int (if 0 \<le> a / m then \<lfloor>a / m\<rfloor> else \<lceil>a / m\<rceil>)"

definition part :: "intl_parts \<Rightarrow> string \<Rightarrow> string option" where
  "part parts ty = map_option snd (find (\<lambda>p. fst p = ty) parts)"

definition part_number :: "intl_parts \<Rightarrow> string \<Rightarrow> jsnum" where
  "part_number parts ty =
     (case part parts ty of None \<Rightarrow> NaN | Some s \<Rightarrow> string_to_number s)"

definition localPosition :: "intl_clock \<Rightarrow> time \<Rightarrow> string \<Rightarrow> (rat \<times> nat) option" where
  "localPosition intl now tz =
     (case intl now tz of
        None \<Rightarrow> None
      | Some parts \<Rightarrow>
          (case (WEEKDAYS (case part parts ''weekday'' of None \<Rightarrow> '''' | Some s \<Rightarrow> s),
                 part_number parts ''hour'', part_number parts ''minute'') of
             (Some weekday, Fin h, Fin minute) \<Rightarrow> Some (js_rem h 24 * 60 + minute, weekday)
           | _ \<Rightarrow> None))"

definition is_integer :: "rat \<Rightarrow> bool" where
  "is_integer q = (of_int \<lfloor>q\<rfloor> = q)"

definition minute_ok :: "rat \<Rightarrow> bool" where
  "minute_ok m = (\<not> (\<not> is_integer m \<or> m < 0 \<or> m > 1439))"

definition windowIsValid :: "schedule_window \<Rightarrow> bool" where
  "windowIsValid w =
     (if win_daysOfWeek w = [] then False
      else if list_ex (\<lambda>d. \<not> is_integer d \<or> d < 0 \<or> d > 6) (win_daysOfWeek w) then False
      else if \<not> minute_ok (win_startMinute w) then False
      else if \<not> minute_ok (win_endMinute w) then False
      else if win_startMinute w = win_endMinute w then False
      else True)"

definition windowCovers :: "intl_clock \<Rightarrow> schedule_window \<Rightarrow> time \<Rightarrow> bool" where
  "windowCovers intl w now =
     (if \<not> win_enabled w \<or> \<not> windowIsValid w then False
      else (case localPosition intl now (win_timeZone w) of
              None \<Rightarrow> False
            | Some (minutes, weekday) \<Rightarrow>
                (let today = of_nat weekday \<in> set (win_daysOfWeek w) in
                 if win_startMinute w < win_endMinute w
                 then today \<and> minutes \<ge> win_startMinute w \<and> minutes < win_endMinute w
                 else (let yesterday = of_nat ((weekday + 6) mod 7) \<in> set (win_daysOfWeek w) in
                       if today \<and> minutes \<ge> win_startMinute w then True
                       else yesterday \<and> minutes < win_endMinute w))))"

definition window_cmp :: "(string \<Rightarrow> string \<Rightarrow> int) \<Rightarrow> schedule_window \<Rightarrow> schedule_window \<Rightarrow> int" where
  "window_cmp lc a b =
     (if win_priority b - win_priority a \<noteq> 0 then win_priority b - win_priority a
      else lc (win_id a) (win_id b))"

definition activeWindows ::
  "intl_clock \<Rightarrow> (string \<Rightarrow> string \<Rightarrow> int) \<Rightarrow> schedule_window list \<Rightarrow> time \<Rightarrow> schedule_window list" where
  "activeWindows intl lc windows now =
     js_sort (window_cmp lc) (filter (\<lambda>w. windowCovers intl w now) windows)"


section \<open>Folding windows into a policy\<close>

record scheduled_policy = effective_policy +
  sched_activeWindowIds :: "string list"
  sched_allowNewDownloads :: bool

text \<open>
  \<open>take\<close> on one field: an absent value leaves the field and its source, null and a number
  replace both.
\<close>

definition take_value :: "'a setting \<Rightarrow> 'a option \<Rightarrow> 'a option" where
  "take_value s old = (if is_set s then setting_value s else old)"

definition take_source ::
  "string \<Rightarrow> policy_field \<Rightarrow> 'a setting \<Rightarrow> (policy_field \<Rightarrow> string option) \<Rightarrow>
   (policy_field \<Rightarrow> string option)" where
  "take_source wid field s srcs =
     (if is_set s then srcs(field \<mapsto> ''schedule:'' @ wid) else srcs)"

definition apply_window :: "schedule_window \<Rightarrow> scheduled_policy \<Rightarrow> scheduled_policy" where
  "apply_window w out =
     out\<lparr> ep_maxConcurrentDownloads :=
            take_value (win_maxConcurrentDownloads w) (ep_maxConcurrentDownloads out),
          ep_maxConcurrentSeeds :=
            take_value (win_maxConcurrentSeeds w) (ep_maxConcurrentSeeds out),
          ep_maxTotalActive := take_value (win_maxTotalActive w) (ep_maxTotalActive out),
          ep_maxDownloadRateKbps :=
            take_value (win_maxDownloadRateKbps w) (ep_maxDownloadRateKbps out),
          ep_maxUploadRateKbps := take_value (win_maxUploadRateKbps w) (ep_maxUploadRateKbps out),
          ep_sources :=
            take_source (win_id w) F_maxUploadRateKbps (win_maxUploadRateKbps w)
              (take_source (win_id w) F_maxDownloadRateKbps (win_maxDownloadRateKbps w)
                (take_source (win_id w) F_maxTotalActive (win_maxTotalActive w)
                  (take_source (win_id w) F_maxConcurrentSeeds (win_maxConcurrentSeeds w)
                    (take_source (win_id w) F_maxConcurrentDownloads
                       (win_maxConcurrentDownloads w) (ep_sources out))))),
          sched_allowNewDownloads :=
            (if win_allowNewDownloads w = Some False then False else sched_allowNewDownloads out) \<rparr>"

definition applySchedule ::
  "intl_clock \<Rightarrow> (string \<Rightarrow> string \<Rightarrow> int) \<Rightarrow> effective_policy \<Rightarrow> schedule_window list \<Rightarrow> time \<Rightarrow>
   scheduled_policy" where
  "applySchedule intl lc policy windows now =
     (let active = activeWindows intl lc windows now
      in foldl (\<lambda>out w. apply_window w out)
           (effective_policy.extend policy
              (scheduled_policy.fields (map win_id active) True))
           (rev active))"



section \<open>The wall clock\<close>

locale wall_clock =
  fixes intl :: intl_clock
  assumes clock_parts:
    "intl now tz = Some parts \<Longrightarrow>
     \<exists>name h m. part parts ''weekday'' = Some name \<and> WEEKDAYS name \<noteq> None \<and>
       part_number parts ''hour'' = Fin (of_nat h) \<and> h \<le> 24 \<and>
       part_number parts ''minute'' = Fin (of_nat m) \<and> m < 60"
begin

lemma weekday_range: "WEEKDAYS name = Some d \<Longrightarrow> d < 7"
  by (auto simp: WEEKDAYS_def split: if_splits)

lemma hour_rem: "h \<le> 24 \<Longrightarrow> js_rem (of_nat h) 24 = of_nat (if h = 24 then 0 else h)"
proof (cases "h = 24")
  case True
  then show ?thesis by (simp add: js_rem_def)
next
  case False
  assume "h \<le> 24"
  with False have "\<lfloor>(of_nat h :: rat) / 24\<rfloor> = 0" by (simp add: floor_eq_iff)
  with False show ?thesis by (simp add: js_rem_def)
qed

lemma position_range:
  assumes "localPosition intl now tz = Some (m, wd)"
  shows "wd < 7 \<and> (\<exists>k<1440. m = of_nat k)"
proof -
  from assms obtain parts where parts: "intl now tz = Some parts"
    by (auto simp: localPosition_def split: option.splits)
  then obtain name h mi where *: "part parts ''weekday'' = Some name" "WEEKDAYS name \<noteq> None"
      "part_number parts ''hour'' = Fin (of_nat h)" "h \<le> 24"
      "part_number parts ''minute'' = Fin (of_nat mi)" "mi < 60"
    using clock_parts by blast
  obtain d where d: "WEEKDAYS name = Some d" using *(2) by blast
  let ?h = "if h = 24 then 0 else h"
  from assms parts * d have "wd = d" and m: "m = of_nat (?h * 60 + mi)"
    using hour_rem [OF *(4)] by (auto simp: localPosition_def)
  moreover have "?h * 60 + mi < 1440" using * by auto
  ultimately show ?thesis using weekday_range [OF d] by blast
qed

lemma position_total: "localPosition intl now tz = None \<longleftrightarrow> intl now tz = None"
proof (cases "intl now tz")
  case None
  then show ?thesis by (simp add: localPosition_def)
next
  case (Some parts)
  then show ?thesis using clock_parts [OF Some] by (auto simp: localPosition_def)
qed

end

text \<open>The clock of the zone UTC.\<close>

definition utc_parts :: "time \<Rightarrow> intl_parts" where
  "utc_parts now =
     [(''weekday'',
       [''Sun'', ''Mon'', ''Tue'', ''Wed'', ''Thu'', ''Fri'', ''Sat''] !
         nat ((now div 86400000 + 4) mod 7)),
      (''literal'', '', ''),
      (''hour'', pad_left 2 (nat_digits (nat (now div 3600000 mod 24)))),
      (''literal'', '':''),
      (''minute'', pad_left 2 (nat_digits (nat (now div 60000 mod 60))))]"

definition utc_clock :: intl_clock where
  "utc_clock now tz = (if tz = ''UTC'' then Some (utc_parts now) else None)"

lemma utc_weekday:
  "\<exists>name. part (utc_parts now) ''weekday'' = Some name \<and> WEEKDAYS name \<noteq> None"
proof -
  let ?i = "nat ((now div 86400000 + 4) mod 7)"
  have "?i < 7" by (simp add: nat_less_iff)
  then have "?i = 0 \<or> ?i = 1 \<or> ?i = 2 \<or> ?i = 3 \<or> ?i = 4 \<or> ?i = 5 \<or> ?i = 6" by linarith
  then show ?thesis
    by (auto simp: part_def utc_parts_def WEEKDAYS_def)
qed

interpretation utc: wall_clock utc_clock
proof
  fix now tz parts
  assume "utc_clock now tz = Some parts"
  then have parts: "parts = utc_parts now" by (simp add: utc_clock_def split: if_splits)
  have "part_number parts ''hour'' = Fin (of_nat (nat (now div 3600000 mod 24)))"
    and "part_number parts ''minute'' = Fin (of_nat (nat (now div 60000 mod 60)))"
    by (simp_all add: parts part_number_def part_def utc_parts_def string_to_number_padded)
  moreover have "nat (now div 3600000 mod 24) \<le> 24" "nat (now div 60000 mod 60) < 60"
    by (simp_all add: nat_less_iff order_less_imp_le)
  ultimately show "\<exists>name h m. part parts ''weekday'' = Some name \<and> WEEKDAYS name \<noteq> None \<and>
       part_number parts ''hour'' = Fin (of_nat h) \<and> h \<le> 24 \<and>
       part_number parts ''minute'' = Fin (of_nat m) \<and> m < 60"
    using utc_weekday [of now] parts by blast
qed


section \<open>What a window covers\<close>

lemma week_interval:
  assumes "0 \<le> wd" "wd < 7" "0 \<le> d" "d < 7" "0 \<le> m" "m < 1440" "0 \<le> s" "s < 1440"
    "0 \<le> e" "e < 1440" "s \<noteq> (e::int)"
  shows "((wd - d) * 1440 + (m - s)) mod 10080 < (e - s) mod 1440 \<longleftrightarrow>
    (if s < e then d = wd \<and> s \<le> m \<and> m < e
     else (d = wd \<and> s \<le> m) \<or> (d = (wd + 6) mod 7 \<and> m < e))"
proof -
  have e: "(e - s) mod 1440 = (if s < e then e - s else e - s + 1440)"
    using assms by (subst mod_range) auto
  have y: "(wd + 6) mod 7 = (if wd = 0 then 6 else wd - 1)"
    using assms mod_range [of 7 "wd - 1"] mod_add_self2 [of "wd - 1" 7] by (auto simp: add.commute)
  have x: "((wd - d) * 1440 + (m - s)) mod 10080 =
     (if (wd - d) * 1440 + (m - s) < 0 then (wd - d) * 1440 + (m - s) + 10080
      else (wd - d) * 1440 + (m - s))"
    using assms by (subst mod_range) auto
  consider "d = wd" | "d = wd - 1" | "d = wd + 6" | "d \<le> wd - 2" | "wd + 1 \<le> d" "d \<le> wd + 5"
    using assms by linarith
  then show ?thesis
    unfolding e x y using assms by cases (auto split: if_splits)
qed

lemma is_integerE: "is_integer q \<Longrightarrow> (\<And>z. q = of_int z \<Longrightarrow> P) \<Longrightarrow> P"
  by (metis is_integer_def)

lemma windowIsValidE:
  assumes "windowIsValid w"
  obtains s e where "win_startMinute w = of_int s" "win_endMinute w = of_int e"
    "0 \<le> s" "s < 1440" "0 \<le> e" "e < 1440" "s \<noteq> e"
    "\<And>d. d \<in> set (win_daysOfWeek w) \<Longrightarrow> \<exists>z. d = of_int z \<and> 0 \<le> z \<and> z < 7"
proof -
  from assms have ok: "minute_ok (win_startMinute w)" "minute_ok (win_endMinute w)"
      "win_startMinute w \<noteq> win_endMinute w"
    and days: "\<And>d. d \<in> set (win_daysOfWeek w) \<Longrightarrow> is_integer d \<and> 0 \<le> d \<and> d \<le> 6"
    by (auto simp: windowIsValid_def list_ex_iff not_less split: if_splits)
  from ok obtain s e where se: "win_startMinute w = of_int s" "win_endMinute w = of_int e"
    by (auto simp: minute_ok_def elim!: is_integerE)
  have "\<exists>z. d = of_int z \<and> 0 \<le> z \<and> z < 7" if "d \<in> set (win_daysOfWeek w)" for d
    using days [OF that] by (auto elim!: is_integerE)
  with se ok show ?thesis by (intro that [of s e]) (auto simp: minute_ok_def)
qed

text \<open>
  The reference reading of a window: some selected day \<open>d\<close>, at whose start minute the window
  opens, lies at most the length of the window in the past, counted around the week.
\<close>

definition in_weekly_interval :: "schedule_window \<Rightarrow> rat \<Rightarrow> nat \<Rightarrow> bool" where
  "in_weekly_interval w minutes weekday \<longleftrightarrow>
     (\<exists>d\<in>set (win_daysOfWeek w).
        ((int weekday - \<lfloor>d\<rfloor>) * 1440 + (\<lfloor>minutes\<rfloor> - \<lfloor>win_startMinute w\<rfloor>)) mod 10080
          < (\<lfloor>win_endMinute w\<rfloor> - \<lfloor>win_startMinute w\<rfloor>) mod 1440)"

lemma weekly_interval_days:
  assumes valid: "windowIsValid w" and wd: "weekday < 7" and m: "minutes = of_nat k" "k < 1440"
  shows "in_weekly_interval w minutes weekday \<longleftrightarrow>
    (if win_startMinute w < win_endMinute w
     then of_nat weekday \<in> set (win_daysOfWeek w) \<and> minutes \<ge> win_startMinute w
          \<and> minutes < win_endMinute w
     else (of_nat weekday \<in> set (win_daysOfWeek w) \<and> minutes \<ge> win_startMinute w) \<or>
          (of_nat ((weekday + 6) mod 7) \<in> set (win_daysOfWeek w) \<and> minutes < win_endMinute w))"
proof -
  obtain s e where se: "win_startMinute w = of_int s" "win_endMinute w = of_int e"
      "0 \<le> s" "s < 1440" "0 \<le> e" "e < 1440" "s \<noteq> e"
    and days: "\<And>d. d \<in> set (win_daysOfWeek w) \<Longrightarrow> \<exists>z. d = of_int z \<and> 0 \<le> z \<and> z < 7"
    using windowIsValidE [OF valid] by blast
  have fl: "\<lfloor>minutes\<rfloor> = int k" "\<lfloor>win_startMinute w\<rfloor> = s" "\<lfloor>win_endMinute w\<rfloor> = e"
    using m se by simp_all
  have cmp: "(of_int a \<le> (of_nat k :: rat)) = (a \<le> int k)" "((of_nat k :: rat) < of_int a) = (int k < a)"
    for a :: int
    by (metis of_int_le_iff of_int_of_nat_eq) (metis of_int_less_iff of_int_of_nat_eq)
  have one: "((int weekday - \<lfloor>d\<rfloor>) * 1440 + (int k - s)) mod 10080 < (e - s) mod 1440 \<longleftrightarrow>
      (if s < e then d = of_nat weekday \<and> s \<le> int k \<and> int k < e
       else (d = of_nat weekday \<and> s \<le> int k) \<or> (d = of_nat ((weekday + 6) mod 7) \<and> int k < e))"
    if "d \<in> set (win_daysOfWeek w)" for d
  proof -
    from days [OF \<open>d \<in> set (win_daysOfWeek w)\<close>]
    obtain z where z: "d = of_int z" "0 \<le> z" "z < 7" by blast
    have "(d = of_nat n) = (z = int n)" for n
      using z(1) by (metis of_int_eq_iff of_int_of_nat_eq)
    moreover have "int ((weekday + 6) mod 7) = (int weekday + 6) mod 7"
      by (simp add: zmod_int)
    ultimately show ?thesis
      using week_interval [of "int weekday" z "int k" s e] wd m(2) se z by simp
  qed
  show ?thesis
    unfolding in_weekly_interval_def fl using one by (auto simp: se m(1) cmp)
qed

text \<open>
  A window covers an instant exactly when it is enabled, valid, its zone is recognised, and
  the local wall-clock position falls, around the week, within the window's length after its
  start minute on a selected day. In particular a window that crosses midnight belongs to the
  day it began on.
\<close>

theorem windowCovers_iff_interval:
  assumes "wall_clock intl"
  shows "windowCovers intl w now \<longleftrightarrow>
    win_enabled w \<and> windowIsValid w \<and>
    (case localPosition intl now (win_timeZone w) of
       None \<Rightarrow> False
     | Some (minutes, weekday) \<Rightarrow> in_weekly_interval w minutes weekday)"
proof (cases "win_enabled w \<and> windowIsValid w")
  case False
  then show ?thesis by (auto simp: windowCovers_def)
next
  case True
  show ?thesis
  proof (cases "localPosition intl now (win_timeZone w)")
    case None
    then show ?thesis by (simp add: windowCovers_def)
  next
    case (Some pos)
    obtain minutes weekday where pos: "pos = (minutes, weekday)" by (cases pos)
    obtain k where "weekday < 7" "minutes = of_nat k" "k < 1440"
      using wall_clock.position_range [OF assms, of now "win_timeZone w" minutes weekday] Some pos
      by blast
    with True Some pos show ?thesis
      using weekly_interval_days [of w weekday minutes k] by (auto simp: windowCovers_def Let_def)
  qed
qed


definition demo_window :: schedule_window where
  "demo_window =
     \<lparr> win_id = ''w1'', win_name = ''Friday night'', win_enabled = True, win_daysOfWeek = [5],
       win_startMinute = 1320, win_endMinute = 120, win_timeZone = ''UTC'', win_priority = 0,
       win_maxConcurrentDownloads = Limit 1, win_maxConcurrentSeeds = Inherit,
       win_maxTotalActive = Inherit, win_maxDownloadRateKbps = Unlimited,
       win_maxUploadRateKbps = Inherit, win_allowNewDownloads = Some False \<rparr>"

text \<open>Saturday, 3 January 1970, 01:00 UTC lies in the window that began on Friday at 22:00.\<close>

lemma demo_position: "localPosition utc_clock 176400000 ''UTC'' = Some (60, 6)"
  by (simp add: localPosition_def utc_clock_def utc_parts_def part_def part_number_def
      WEEKDAYS_def string_to_number_padded js_rem_def floor_eq_iff)

lemma demo_window_valid: "windowIsValid demo_window"
  by (simp add: windowIsValid_def demo_window_def minute_ok_def is_integer_def)

theorem windowCovers_iff_interval_witness:
  "wall_clock utc_clock \<and> in_weekly_interval demo_window 60 6 \<and>
   windowCovers utc_clock demo_window 176400000"
proof -
  have int: "in_weekly_interval demo_window 60 6"
    by (simp add: in_weekly_interval_def demo_window_def)
  have "win_enabled demo_window" "win_timeZone demo_window = ''UTC''"
    by (simp_all add: demo_window_def)
  then have "windowCovers utc_clock demo_window 176400000"
    using windowCovers_iff_interval [OF utc.wall_clock_axioms, of demo_window 176400000]
      demo_position demo_window_valid int by simp
  with int show ?thesis using utc.wall_clock_axioms by blast
qed


section \<open>The windows in force and what they override\<close>

context collation
begin

lemma window_cmp_comparator: "js_comparator (window_cmp lc)"
proof
  fix a b
  show "sgn (window_cmp lc b a) = - sgn (window_cmp lc a b)"
    using cmp_swap [of "win_id b" "win_id a"]
    by (auto simp: window_cmp_def sgn_if split: if_splits)
next
  fix a b c
  assume "window_cmp lc a b \<le> 0" "window_cmp lc b c \<le> 0"
  then show "window_cmp lc a c \<le> 0"
    using cmp_trans [of "win_id a" "win_id b" "win_id c"]
    by (auto simp: window_cmp_def split: if_splits)
qed

end

sublocale collation \<subseteq> window_order: js_comparator "window_cmp lc"
  by (rule window_cmp_comparator)

lemma activeWindows_sorted:
  assumes "collation lc"
  shows "sorted_wrt (\<lambda>a b. win_priority b \<le> win_priority a) (activeWindows intl lc windows now)"
proof -
  have "sorted_wrt (\<lambda>a b. window_cmp lc a b \<le> 0) (activeWindows intl lc windows now)"
    unfolding activeWindows_def
    by (rule js_comparator.sort_sorted, rule collation.window_cmp_comparator, rule assms)
  then show ?thesis
    by (rule sorted_wrt_mono_rel [rotated]) (auto simp: window_cmp_def split: if_splits)
qed

text \<open>The first window in order of authority that sets a field decides it.\<close>

definition sched_value ::
  "(schedule_window \<Rightarrow> 'a setting) \<Rightarrow> schedule_window list \<Rightarrow> 'a option \<Rightarrow> 'a option" where
  "sched_value get active old =
     (case find (\<lambda>w. is_set (get w)) active of None \<Rightarrow> old | Some w \<Rightarrow> setting_value (get w))"

definition sched_source ::
  "(schedule_window \<Rightarrow> 'a setting) \<Rightarrow> schedule_window list \<Rightarrow> string option \<Rightarrow> string option" where
  "sched_source get active old =
     (case find (\<lambda>w. is_set (get w)) active of None \<Rightarrow> old | Some w \<Rightarrow> Some (''schedule:'' @ win_id w))"

lemma sched_Cons:
  "sched_value get (w # ws) old = take_value (get w) (sched_value get ws old)"
  "sched_source get (w # ws) src =
     (if is_set (get w) then Some (''schedule:'' @ win_id w) else sched_source get ws src)"
  by (simp_all add: sched_value_def sched_source_def take_value_def)

lemma sched_Nil [simp]: "sched_value get [] old = old" "sched_source get [] old' = old'"
  by (simp_all add: sched_value_def sched_source_def)

definition applied :: "scheduled_policy \<Rightarrow> schedule_window list \<Rightarrow> scheduled_policy" where
  "applied base active = foldr apply_window active base"

lemma applySchedule_applied:
  "applySchedule intl lc policy windows now =
     (let active = activeWindows intl lc windows now in
      applied (effective_policy.extend policy (scheduled_policy.fields (map win_id active) True))
        active)"
  by (simp add: applySchedule_def applied_def foldl_conv_foldr Let_def)

lemma applied_Cons:
  "applied b [] = b" "applied b (w # ws) = apply_window w (applied b ws)"
  by (simp_all add: applied_def)

lemma applied_fields:
  "ep_maxConcurrentDownloads (applied b ws) =
     sched_value win_maxConcurrentDownloads ws (ep_maxConcurrentDownloads b)"
  "ep_maxConcurrentSeeds (applied b ws) =
     sched_value win_maxConcurrentSeeds ws (ep_maxConcurrentSeeds b)"
  "ep_maxTotalActive (applied b ws) = sched_value win_maxTotalActive ws (ep_maxTotalActive b)"
  "ep_maxDownloadRateKbps (applied b ws) =
     sched_value win_maxDownloadRateKbps ws (ep_maxDownloadRateKbps b)"
  "ep_maxUploadRateKbps (applied b ws) =
     sched_value win_maxUploadRateKbps ws (ep_maxUploadRateKbps b)"
  "ep_seedPolicy (applied b ws) = ep_seedPolicy b"
  by (induction ws) (simp_all add: applied_Cons apply_window_def sched_Cons)

lemma applied_sources:
  "ep_sources (applied b ws) F_maxConcurrentDownloads =
     sched_source win_maxConcurrentDownloads ws (ep_sources b F_maxConcurrentDownloads)"
  "ep_sources (applied b ws) F_maxConcurrentSeeds =
     sched_source win_maxConcurrentSeeds ws (ep_sources b F_maxConcurrentSeeds)"
  "ep_sources (applied b ws) F_maxTotalActive =
     sched_source win_maxTotalActive ws (ep_sources b F_maxTotalActive)"
  "ep_sources (applied b ws) F_maxDownloadRateKbps =
     sched_source win_maxDownloadRateKbps ws (ep_sources b F_maxDownloadRateKbps)"
  "ep_sources (applied b ws) F_maxUploadRateKbps =
     sched_source win_maxUploadRateKbps ws (ep_sources b F_maxUploadRateKbps)"
  by (induction ws)
    (simp_all add: applied_Cons apply_window_def sched_Cons take_source_def)

lemma applied_flags:
  "sched_allowNewDownloads (applied b ws) \<longleftrightarrow>
     sched_allowNewDownloads b \<and> (\<forall>w\<in>set ws. win_allowNewDownloads w \<noteq> Some False)"
  "sched_activeWindowIds (applied b ws) = sched_activeWindowIds b"
  by (induction ws) (auto simp: applied_Cons apply_window_def)

text \<open>
  Schedules override field by field. In the scheduled policy each concurrency and rate
  limit is the one of the most authoritative open window that mentions it, with the schedule
  named as its source, and otherwise the one the scopes resolved; new downloads are allowed
  exactly when no open window forbids them, which never turns into a limit; and the seeding
  policy is left as it was.
\<close>

theorem applySchedule_overrides:
  "let active = activeWindows intl lc windows now; out = applySchedule intl lc p windows now in
   ep_maxConcurrentDownloads out =
     sched_value win_maxConcurrentDownloads active (ep_maxConcurrentDownloads p) \<and>
   ep_maxConcurrentSeeds out =
     sched_value win_maxConcurrentSeeds active (ep_maxConcurrentSeeds p) \<and>
   ep_maxTotalActive out = sched_value win_maxTotalActive active (ep_maxTotalActive p) \<and>
   ep_maxDownloadRateKbps out =
     sched_value win_maxDownloadRateKbps active (ep_maxDownloadRateKbps p) \<and>
   ep_maxUploadRateKbps out =
     sched_value win_maxUploadRateKbps active (ep_maxUploadRateKbps p) \<and>
   ep_sources out F_maxConcurrentDownloads =
     sched_source win_maxConcurrentDownloads active (ep_sources p F_maxConcurrentDownloads) \<and>
   ep_sources out F_maxTotalActive =
     sched_source win_maxTotalActive active (ep_sources p F_maxTotalActive) \<and>
   ep_sources out F_maxDownloadRateKbps =
     sched_source win_maxDownloadRateKbps active (ep_sources p F_maxDownloadRateKbps) \<and>
   ep_seedPolicy out = ep_seedPolicy p \<and>
   sched_activeWindowIds out = map win_id active \<and>
   (sched_allowNewDownloads out \<longleftrightarrow> list_all (\<lambda>w. win_allowNewDownloads w \<noteq> Some False) active)"
  by (simp add: applySchedule_applied Let_def applied_fields applied_sources applied_flags
      effective_policy.extend_def scheduled_policy.fields_def list_all_iff)

end
