(* ===== verification/Sched_Planner.thy ===== *)
theory Sched_Planner
  imports Sched_Classification Sched_Priority Sched_Schedule
begin

text \<open>
  The planner (\<^verbatim>\<open>torrent-scheduler/domain/planner.ts\<close>): what should be running on one
  engine, as a fold over the ranking of the torrents in contention. The loop's mutable state
  (the three slot counters, the action counter, the decisions and the limitations) is the
  record \<open>sweep\<close>; \<open>plan_step\<close> is the body of the loop.

  \<open>seedFactsOf\<close> reads \<^verbatim>\<open>Date.now()\<close> while everything else reads the \<^verbatim>\<open>now\<close>
  it was given, so the two clocks are separate fields of the planner's environment.

  The lemmas show that every torrent gets exactly one decision, under which conditions a
  decision may resume, pause or remove a torrent, that slots are given out only under the caps
  and are never left idle while a torrent waits, and how far the action budget reaches.
\<close>

section \<open>Data\<close>

datatype desired_state = Want_active | Want_paused | Want_unchanged | Want_removed

datatype plan_action = Act_pause | Act_resume | Act_none | Act_remove_and_cleanup

record planner_torrent =
  pt_hash :: string
  pt_engineId :: string
  pt_occupancy :: occupancy_class
  pt_decision :: torrent_priority_decision
  pt_policy :: effective_policy
  pt_addedAt :: "time option"
  pt_protectedFromPause :: bool
  pt_forceStarted :: bool
  pt_lastActionAt :: "time option"
  pt_complete :: bool
  pt_ratio :: "rat option"
  pt_sizeBytes :: "rat option"
  pt_uploadedBytes :: "rat option"
  pt_tracker :: "string option"
  pt_category :: "string option"
  pt_label :: "string option"
  pt_isPrivate :: "bool option"
  pt_name :: "string option"
  pt_libraryId :: "string option"
  pt_seedMinutes :: "rat option"
  pt_completedAt :: "time option"
  pt_intakeImported :: "bool option"
  pt_libraryCopyVerified :: "bool option"
  pt_protectedFromRemoval :: bool
  pt_allowNewDownloads :: "bool option"

record planner_options =
  po_now :: time
  po_minimumActiveSeconds :: "rat option"
  po_priorityDisplacementThreshold :: "rat option"
  po_maxActionsPerSweep :: "int option"

record plan_bandwidth =
  pb_sourceDownloadRate :: "string option"
  pb_sourceUploadRate :: "string option"
  pb_maxDownloadRateKbps :: "int option"
  pb_maxUploadRateKbps :: "int option"
  pb_reserveDownloadPercent :: "int option"
  pb_reserveSeedPercent :: "int option"

record torrent_decision =
  td_hash :: string
  td_name :: "string option"
  td_engineId :: string
  td_currentOccupancy :: occupancy_class
  td_desiredState :: desired_state
  td_action :: plan_action
  td_reasonCode :: string
  td_messageKey :: string
  td_values :: "(string \<times> jsval) list option"
  td_score :: int
  td_protectedFromPause :: bool
  td_policySource :: "string option"
  td_bandwidth :: plan_bandwidth

record plan_summary =
  ps_activeDownloads :: int
  ps_activeSeeds :: int
  ps_totalActive :: int
  ps_queuedDownloads :: int
  ps_queuedSeeds :: int

record engine_activity_plan =
  eap_engineId :: string
  eap_decisions :: "torrent_decision list"
  eap_summary :: plan_summary
  eap_limitations :: "scheduler_limitation list"

record torrent_activity_plan =
  tap_generatedAt :: string
  tap_enginePlans :: "engine_activity_plan list"
  tap_summary :: plan_summary
  tap_limitations :: "scheduler_limitation list"

text \<open>
  The configuration after \<^verbatim>\<open>{ ...DEFAULTS, ...opts }\<close>, with the host's clock and
  runtime beside it.
\<close>

record planner_env =
  env_rt :: js_runtime
  env_collate :: "string \<Rightarrow> string \<Rightarrow> int"
  env_date_now :: time

record planner_cfg =
  cfg_now :: time
  cfg_minimumActiveSeconds :: rat
  cfg_priorityDisplacementThreshold :: rat
  cfg_maxActionsPerSweep :: int

definition with_defaults :: "planner_options \<Rightarrow> planner_cfg" where
  "with_defaults opts =
     \<lparr> cfg_now = po_now opts,
       cfg_minimumActiveSeconds = (case po_minimumActiveSeconds opts of None \<Rightarrow> 120 | Some v \<Rightarrow> v),
       cfg_priorityDisplacementThreshold =
         (case po_priorityDisplacementThreshold opts of None \<Rightarrow> 100 | Some v \<Rightarrow> v),
       cfg_maxActionsPerSweep = (case po_maxActionsPerSweep opts of None \<Rightarrow> 25 | Some v \<Rightarrow> v) \<rparr>"

definition withinLimit :: "int \<Rightarrow> int option \<Rightarrow> bool" where
  "withinLimit n limit = (case limit of None \<Rightarrow> True | Some l \<Rightarrow> n < l)"

definition decide ::
  "planner_torrent \<Rightarrow> desired_state \<Rightarrow> plan_action \<Rightarrow> string \<Rightarrow> (string \<times> jsval) list option \<Rightarrow>
   torrent_decision" where
  "decide t desired action reasonCode vals =
     \<lparr> td_hash = pt_hash t, td_name = pt_name t, td_engineId = pt_engineId t,
       td_currentOccupancy = pt_occupancy t, td_desiredState = desired, td_action = action,
       td_reasonCode = reasonCode, td_messageKey = ''scheduler.reason.'' @ reasonCode,
       td_values = vals, td_score = pd_score (pt_decision t),
       td_protectedFromPause = pt_protectedFromPause t,
       td_policySource = or_else (ep_sources (pt_policy t) F_maxConcurrentDownloads)
                           (ep_sources (pt_policy t) F_maxTotalActive),
       td_bandwidth =
         \<lparr> pb_sourceDownloadRate = ep_sources (pt_policy t) F_maxDownloadRateKbps,
           pb_sourceUploadRate = ep_sources (pt_policy t) F_maxUploadRateKbps,
           pb_maxDownloadRateKbps = ep_maxDownloadRateKbps (pt_policy t),
           pb_maxUploadRateKbps = ep_maxUploadRateKbps (pt_policy t),
           pb_reserveDownloadPercent = ep_reserveDownloadBandwidthPercent (pt_policy t),
           pb_reserveSeedPercent = ep_reserveSeedBandwidthPercent (pt_policy t) \<rparr> \<rparr>"


section \<open>Seeding targets\<close>

definition seedFactsOf :: "time \<Rightarrow> planner_torrent \<Rightarrow> seed_facts" where
  "seedFactsOf dateNow t =
     \<lparr> sf_ratio = pt_ratio t,
       sf_ageDays = map_option (\<lambda>c. of_int (dateNow - c) / 86400000) (pt_completedAt t),
       sf_sizeBytes = pt_sizeBytes t,
       sf_tracker = pt_tracker t, sf_category = pt_category t, sf_label = pt_label t,
       sf_isPrivate = pt_isPrivate t, sf_name = pt_name t, sf_libraryId = pt_libraryId t,
       sf_importCompleted = pt_intakeImported t,
       sf_libraryCopyVerified = pt_libraryCopyVerified t,
       sf_uploadedBytes = pt_uploadedBytes t, sf_seedMinutes = pt_seedMinutes t \<rparr>"

fun mode_str :: "seeding_mode \<Rightarrow> string" where
  "mode_str SM_ratio = ''ratio''"
| "mode_str SM_time = ''time''"
| "mode_str SM_ratio_or_time = ''ratio_or_time''"
| "mode_str SM_ratio_and_time = ''ratio_and_time''"
| "mode_str SM_manual = ''manual''"
| "mode_str SM_unlimited = ''unlimited''"
| "mode_str (SM_other s) = s"

fun after_str :: "post_seed_action \<Rightarrow> string" where
  "after_str PSA_pause = ''pause''"
| "after_str PSA_stop = ''stop''"
| "after_str PSA_remove_torrent_keep_data = ''remove_torrent_keep_data''"
| "after_str PSA_remove_torrent_and_staging_data = ''remove_torrent_and_staging_data''"
| "after_str PSA_leave_active = ''leave_active''"

fun num_or_undef :: "rat option \<Rightarrow> jsval" where
  "num_or_undef None = JUndef"
| "num_or_undef (Some q) = JNum q"

fun limit_value :: "int option \<Rightarrow> jsval" where
  "limit_value None = JNull"
| "limit_value (Some l) = JNum (of_int l)"

fun iso_or_undef :: "time option \<Rightarrow> jsval" where
  "iso_or_undef None = JUndef"
| "iso_or_undef (Some c) = JStr (to_iso c)"

text \<open>The limitation pushed for an undecidable target, once per code.\<close>

definition note_undecidable ::
  "string \<Rightarrow> seeding_policy \<Rightarrow> scheduler_limitation list \<Rightarrow> scheduler_limitation list" where
  "note_undecidable engineId policy lims =
     (let unmeasurable = filter (\<lambda>field. field \<noteq> ''seed.seedMinutes'')
                           (unmeasurableFields (sp_stopWhen policy));
          code = (if unmeasurable \<noteq> [] then Unmeasurable_seed_condition else No_seed_time_data)
      in if list_ex (\<lambda>l. lim_code l = code) lims then lims
         else lims @ [mk_limitation engineId code
                (if unmeasurable \<noteq> []
                 then Some [(''fields'', JStr (join_with '', '' unmeasurable))] else None)])"

definition is_destructive :: "post_seed_action \<Rightarrow> bool" where
  "is_destructive a =
     (a = PSA_remove_torrent_keep_data \<or> a = PSA_remove_torrent_and_staging_data)"

text \<open>The outcome of a target that is met.\<close>

definition met_decision :: "planner_torrent \<Rightarrow> seeding_policy \<Rightarrow> torrent_decision" where
  "met_decision t policy =
     (if sp_requireImportCompleted policy \<and> pt_intakeImported t \<noteq> Some True
        then decide t Want_active Act_none ''seed_target_waiting_for_import'' None
      else if sp_requireLibraryCopyVerified policy \<and> pt_libraryCopyVerified t \<noteq> Some True
        then decide t Want_active Act_none ''seed_target_waiting_for_library_copy'' None
      else if pt_protectedFromRemoval t
        then decide t Want_active Act_none ''protected_from_removal'' None
      else if is_destructive (sp_afterTarget policy)
        then decide t Want_removed Act_remove_and_cleanup ''seed_target_reached_removed''
               (Some [(''afterTarget'', JStr (after_str (sp_afterTarget policy))),
                      (''ratio'', num_or_undef (pt_ratio t))])
      else if sp_afterTarget policy = PSA_leave_active
        then decide t Want_active Act_none ''seed_target_reached_left_active'' None
      else decide t Want_paused Act_pause ''seed_target_reached''
             (Some [(''mode'', JStr (mode_str (sp_mode policy))),
                    (''ratio'', num_or_undef (pt_ratio t))]))"

definition seedTargetDecision ::
  "planner_env \<Rightarrow> planner_torrent \<Rightarrow> scheduler_limitation list \<Rightarrow> string \<Rightarrow> time \<Rightarrow>
   torrent_decision option \<times> scheduler_limitation list" where
  "seedTargetDecision env t lims engineId now =
     (case ep_seedPolicy (pt_policy t) of
        None \<Rightarrow> (None, lims)
      | Some policy \<Rightarrow>
          (let verdict = evaluateSeedTarget (env_rt env) policy (seedFactsOf (env_date_now env) t)
           in if verdict \<noteq> Met \<and> \<not> pt_protectedFromRemoval t \<and>
                 evaluateSeedAgeDeadline policy (pt_completedAt t) now = Met
              then (Some (decide t Want_removed Act_remove_and_cleanup ''seed_age_deadline_reached''
                      (Some [(''maxAgeDays'', num_or_undef (sp_maxAgeDays policy)),
                             (''completedAt'', iso_or_undef (pt_completedAt t)),
                             (''ratio'', num_or_undef (pt_ratio t))])), lims)
              else (case verdict of
                      Not_met \<Rightarrow> (None, lims)
                    | Undecided \<Rightarrow>
                        (Some (decide t Want_active Act_none ''seed_target_unknown'' None),
                         note_undecidable engineId policy lims)
                    | Met \<Rightarrow> (Some (met_decision t policy), lims))))"


section \<open>Planning one engine\<close>

definition is_untouchable :: "planner_torrent \<Rightarrow> bool" where
  "is_untouchable t =
     (pt_occupancy t = User_paused \<or> pt_occupancy t = Provider_paused \<or> pt_occupancy t = Parked \<or>
      pt_occupancy t = Excluded \<or> pt_occupancy t = Occ_error \<or> pt_occupancy t = Checking \<or>
      pt_occupancy t = Occ_unknown)"

fun reasonForUntouchable :: "occupancy_class \<Rightarrow> string" where
  "reasonForUntouchable User_paused = ''paused_by_user''"
| "reasonForUntouchable Provider_paused = ''paused_outside_scheduler''"
| "reasonForUntouchable Parked = ''parked_dead_swarm''"
| "reasonForUntouchable Excluded = ''excluded_by_operator''"
| "reasonForUntouchable Occ_error = ''engine_error''"
| "reasonForUntouchable Checking = ''verifying''"
| "reasonForUntouchable _ = ''state_unknown''"

definition summarize :: "planner_torrent list \<Rightarrow> plan_summary" where
  "summarize torrents =
     \<lparr> ps_activeDownloads = count_if (\<lambda>t. holdsDownloadSlot (pt_occupancy t)) torrents,
       ps_activeSeeds = count_if (\<lambda>t. holdsSeedSlot (pt_occupancy t)) torrents,
       ps_totalActive = count_if (\<lambda>t. holdsTotalActiveSlot (pt_occupancy t)) torrents,
       ps_queuedDownloads = count_if (\<lambda>t. pt_occupancy t = Download_queued) torrents,
       ps_queuedSeeds = count_if (\<lambda>t. pt_occupancy t = Seed_queued) torrents \<rparr>"

text \<open>The state of the loop, and the statements that change it.\<close>

record sweep =
  sw_downloads :: int
  sw_seeds :: int
  sw_total :: int
  sw_actions :: int
  sw_decisions :: "torrent_decision list"
  sw_limitations :: "scheduler_limitation list"

definition push :: "torrent_decision \<Rightarrow> sweep \<Rightarrow> sweep" where
  "push d st = st\<lparr> sw_decisions := sw_decisions st @ [d] \<rparr>"

definition acted :: "sweep \<Rightarrow> sweep" where
  "acted st = st\<lparr> sw_actions := sw_actions st + 1 \<rparr>"

definition occupy :: "bool \<Rightarrow> sweep \<Rightarrow> sweep" where
  "occupy wantsSeed st =
     (if wantsSeed then st\<lparr> sw_seeds := sw_seeds st + 1, sw_total := sw_total st + 1 \<rparr>
      else st\<lparr> sw_downloads := sw_downloads st + 1, sw_total := sw_total st + 1 \<rparr>)"

record engine_caps =
  ec_maxDownloads :: "int option"
  ec_maxSeeds :: "int option"
  ec_maxTotal :: "int option"

definition heldFor :: "time \<Rightarrow> planner_torrent \<Rightarrow> rat" where
  "heldFor now t =
     (case pt_lastActionAt t of
        Some l \<Rightarrow> of_int (now - l) / 1000
      | None \<Rightarrow> of_int max_safe_integer)"

definition slotFree :: "engine_caps \<Rightarrow> sweep \<Rightarrow> bool \<Rightarrow> bool" where
  "slotFree ec st wantsSeed =
     (if wantsSeed
      then withinLimit (sw_seeds st) (ec_maxSeeds ec) \<and> withinLimit (sw_total st) (ec_maxTotal ec)
      else withinLimit (sw_downloads st) (ec_maxDownloads ec) \<and>
           withinLimit (sw_total st) (ec_maxTotal ec))"

definition limit_values :: "engine_caps \<Rightarrow> bool \<Rightarrow> (string \<times> jsval) list" where
  "limit_values ec wantsSeed =
     [(''limit'', limit_value (if wantsSeed then ec_maxSeeds ec else ec_maxDownloads ec))]"

definition budgetLeft :: "planner_cfg \<Rightarrow> sweep \<Rightarrow> bool" where
  "budgetLeft cfg st = (sw_actions st < cfg_maxActionsPerSweep cfg)"

definition force_step :: "planner_cfg \<Rightarrow> planner_torrent \<Rightarrow> sweep \<Rightarrow> sweep" where
  "force_step cfg t st =
     occupy (pt_complete t)
       (if holdsTotalActiveSlot (pt_occupancy t)
          then push (decide t Want_active Act_none ''force_started_active'' None) st
        else if budgetLeft cfg st
          then acted (push (decide t Want_active Act_resume ''force_started_resume'' None) st)
        else push (decide t Want_active Act_none ''action_budget_exhausted'' None) st)"

definition active_step ::
  "planner_cfg \<Rightarrow> engine_caps \<Rightarrow> planner_torrent \<Rightarrow> sweep \<Rightarrow> sweep" where
  "active_step cfg ec t st =
     (let wantsSeed = pt_complete t in
      if slotFree ec st wantsSeed
        then occupy wantsSeed (push (decide t Want_active Act_none
               (if wantsSeed then ''seeding_within_limit'' else ''downloading_within_limit'') None) st)
      else if pt_protectedFromPause t
        then occupy wantsSeed (push (decide t Want_active Act_none ''protected_from_pause'' None) st)
      else if heldFor (cfg_now cfg) t < cfg_minimumActiveSeconds cfg
        then occupy wantsSeed (push (decide t Want_active Act_none ''too_recently_started''
               (Some [(''seconds'', JNum (of_int (math_round (heldFor (cfg_now cfg) t))))])) st)
      else if \<not> budgetLeft cfg st
        then occupy wantsSeed (push (decide t Want_active Act_none ''action_budget_exhausted'' None) st)
      else acted (push (decide t Want_paused Act_pause
             (if wantsSeed then ''seed_limit_reached'' else ''download_limit_reached'')
             (Some (limit_values ec wantsSeed))) st))"

definition inactive_step ::
  "planner_cfg \<Rightarrow> engine_caps \<Rightarrow> planner_torrent \<Rightarrow> sweep \<Rightarrow> sweep" where
  "inactive_step cfg ec t st =
     (let wantsSeed = pt_complete t in
      if \<not> isResumable (pt_occupancy t)
        then push (decide t Want_unchanged Act_none ''not_resumable_by_scheduler'' None) st
      else if \<not> wantsSeed \<and> pt_allowNewDownloads t = Some False
        then push (decide t Want_paused Act_none ''schedule_blocks_new_downloads'' None) st
      else if \<not> slotFree ec st wantsSeed
        then push (decide t Want_paused Act_none
               (if wantsSeed then ''waiting_for_seed_slot'' else ''waiting_for_download_slot'')
               (Some (limit_values ec wantsSeed))) st
      else if \<not> budgetLeft cfg st
        then push (decide t Want_paused Act_none ''action_budget_exhausted'' None) st
      else occupy wantsSeed (acted (push (decide t Want_active Act_resume
             (if wantsSeed then ''seed_slot_available'' else ''download_slot_available'') None) st)))"

definition slot_step ::
  "planner_cfg \<Rightarrow> engine_caps \<Rightarrow> planner_torrent \<Rightarrow> sweep \<Rightarrow> sweep" where
  "slot_step cfg ec t st =
     (if pt_forceStarted t then force_step cfg t st
      else if holdsTotalActiveSlot (pt_occupancy t) then active_step cfg ec t st
      else inactive_step cfg ec t st)"

definition seed_target_applies :: "planner_torrent \<Rightarrow> bool" where
  "seed_target_applies t =
     (pt_complete t \<and> holdsTotalActiveSlot (pt_occupancy t) \<and>
      ep_seedPolicy (pt_policy t) \<noteq> None \<and> \<not> pt_protectedFromPause t)"

definition plan_step ::
  "planner_env \<Rightarrow> planner_cfg \<Rightarrow> string \<Rightarrow> engine_caps \<Rightarrow> planner_torrent \<Rightarrow> sweep \<Rightarrow> sweep" where
  "plan_step env cfg engineId ec t st =
     (if seed_target_applies t then
        (case seedTargetDecision env t (sw_limitations st) engineId (cfg_now cfg) of
           (Some d, lims) \<Rightarrow>
             (let st1 = push d (st\<lparr> sw_limitations := lims \<rparr>)
              in if td_action d = Act_pause \<or> td_action d = Act_remove_and_cleanup
                 then acted st1
                 else occupy True st1)
         | (None, lims) \<Rightarrow> slot_step cfg ec t (st\<lparr> sw_limitations := lims \<rparr>))
      else slot_step cfg ec t st)"

record ranked_torrent = orderable_torrent +
  ot_torrent :: planner_torrent

definition rank_entry :: "planner_torrent \<Rightarrow> ranked_torrent" where
  "rank_entry t =
     \<lparr> ot_decision = pt_decision t, ot_currentlyActive = holdsTotalActiveSlot (pt_occupancy t),
       ot_addedAt = pt_addedAt t, ot_torrent = t \<rparr>"

definition ranked :: "planner_env \<Rightarrow> planner_torrent list \<Rightarrow> planner_torrent list" where
  "ranked env ts = map ot_torrent (orderByPriority (env_collate env) (map rank_entry ts))"

definition untouchable_decision :: "planner_torrent \<Rightarrow> torrent_decision" where
  "untouchable_decision t =
     decide t Want_unchanged Act_none (reasonForUntouchable (pt_occupancy t)) None"

definition engine_limitations ::
  "string \<Rightarrow> torrent_queue_capabilities \<Rightarrow> scheduler_limitation list" where
  "engine_limitations engineId caps =
     (if \<not> canDo (cap_reportsQueuedState caps)
      then [mk_limitation engineId No_queued_state None] else []) @
     (if cap_forceStart caps = Approximated
      then [mk_limitation engineId Force_start_approximated None] else [])"

definition engine_caps_of :: "planner_torrent list \<Rightarrow> engine_caps" where
  "engine_caps_of torrents =
     (case torrents of
        [] \<Rightarrow> \<lparr> ec_maxDownloads = None, ec_maxSeeds = None, ec_maxTotal = None \<rparr>
      | t # _ \<Rightarrow>
          \<lparr> ec_maxDownloads = ep_maxConcurrentDownloads (pt_policy t),
            ec_maxSeeds = ep_maxConcurrentSeeds (pt_policy t),
            ec_maxTotal = ep_maxTotalActive (pt_policy t) \<rparr>)"

definition initial_sweep ::
  "string \<Rightarrow> torrent_queue_capabilities \<Rightarrow> planner_torrent list \<Rightarrow> sweep" where
  "initial_sweep engineId caps torrents =
     (let untouchable = filter is_untouchable torrents
      in \<lparr> sw_downloads = count_if (\<lambda>t. holdsDownloadSlot (pt_occupancy t)) untouchable,
           sw_seeds = count_if (\<lambda>t. holdsSeedSlot (pt_occupancy t)) untouchable,
           sw_total = count_if (\<lambda>t. holdsTotalActiveSlot (pt_occupancy t)) untouchable,
           sw_actions = 0, sw_decisions = map untouchable_decision untouchable,
           sw_limitations = engine_limitations engineId caps \<rparr>)"

definition final_sweep ::
  "planner_env \<Rightarrow> string \<Rightarrow> planner_torrent list \<Rightarrow> torrent_queue_capabilities \<Rightarrow> planner_cfg \<Rightarrow>
   sweep" where
  "final_sweep env engineId torrents caps cfg =
     fold (plan_step env cfg engineId (engine_caps_of torrents))
       (ranked env (filter (\<lambda>t. \<not> is_untouchable t) torrents))
       (initial_sweep engineId caps torrents)"

definition planEngine ::
  "planner_env \<Rightarrow> string \<Rightarrow> planner_torrent list \<Rightarrow> torrent_queue_capabilities \<Rightarrow>
   planner_options \<Rightarrow> engine_activity_plan" where
  "planEngine env engineId torrents caps opts =
     (if \<not> canDo (cap_pause caps) then
        \<lparr> eap_engineId = engineId,
          eap_decisions =
            map (\<lambda>t. decide t Want_unchanged Act_none ''engine_cannot_pause'' None) torrents,
          eap_summary = summarize torrents,
          eap_limitations = [mk_limitation engineId No_pause_support None] \<rparr>
      else
        (let st = final_sweep env engineId torrents caps (with_defaults opts)
         in \<lparr> eap_engineId = engineId,
              eap_decisions = sw_decisions st,
              eap_summary =
                \<lparr> ps_activeDownloads = sw_downloads st, ps_activeSeeds = sw_seeds st,
                  ps_totalActive = sw_total st,
                  ps_queuedDownloads =
                    count_if (\<lambda>d. td_reasonCode d = ''waiting_for_download_slot'') (sw_decisions st),
                  ps_queuedSeeds =
                    count_if (\<lambda>d. td_reasonCode d = ''waiting_for_seed_slot'') (sw_decisions st) \<rparr>,
              eap_limitations = sw_limitations st \<rparr>))"

definition add_summary :: "plan_summary \<Rightarrow> plan_summary \<Rightarrow> plan_summary" where
  "add_summary a b =
     \<lparr> ps_activeDownloads = ps_activeDownloads a + ps_activeDownloads b,
       ps_activeSeeds = ps_activeSeeds a + ps_activeSeeds b,
       ps_totalActive = ps_totalActive a + ps_totalActive b,
       ps_queuedDownloads = ps_queuedDownloads a + ps_queuedDownloads b,
       ps_queuedSeeds = ps_queuedSeeds a + ps_queuedSeeds b \<rparr>"

definition planActivity ::
  "planner_env \<Rightarrow> (string \<times> planner_torrent list \<times> torrent_queue_capabilities) list \<Rightarrow>
   planner_options \<Rightarrow> torrent_activity_plan" where
  "planActivity env engines opts =
     (let plans = map (\<lambda>(e, ts, caps). planEngine env e ts caps opts) engines
      in \<lparr> tap_generatedAt = to_iso (po_now opts), tap_enginePlans = plans,
           tap_summary = foldl (\<lambda>acc p. add_summary acc (eap_summary p))
             \<lparr> ps_activeDownloads = 0, ps_activeSeeds = 0, ps_totalActive = 0,
               ps_queuedDownloads = 0, ps_queuedSeeds = 0 \<rparr> plans,
           tap_limitations = concat (map eap_limitations plans) \<rparr>)"


section \<open>The specification of a plan\<close>

text \<open>
  A plan is read as the sequence of the torrents with their decisions, in the order in which
  they were taken. What is running at a point of that sequence is a count over its prefix.
\<close>

type_synonym plan_trace = "(planner_torrent \<times> torrent_decision) list"

definition n_downloads :: "plan_trace \<Rightarrow> int" where
  "n_downloads tr = count_if (\<lambda>(t, d). td_desiredState d = Want_active \<and> \<not> pt_complete t) tr"

definition n_seeds :: "plan_trace \<Rightarrow> int" where
  "n_seeds tr = count_if (\<lambda>(t, d). td_desiredState d = Want_active \<and> pt_complete t) tr"

definition n_total :: "plan_trace \<Rightarrow> int" where
  "n_total tr =
     count_if (\<lambda>(t, d). td_desiredState d = Want_active \<or> pt_occupancy t = Checking) tr"

definition n_actions :: "plan_trace \<Rightarrow> int" where
  "n_actions tr = count_if (\<lambda>(t, d). td_action d \<noteq> Act_none) tr"

lemmas trace_counts = n_downloads_def n_seeds_def n_total_def n_actions_def

definition room_for :: "engine_caps \<Rightarrow> plan_trace \<Rightarrow> bool \<Rightarrow> bool" where
  "room_for ec tr wantsSeed \<longleftrightarrow>
     (if wantsSeed then withinLimit (n_seeds tr) (ec_maxSeeds ec)
      else withinLimit (n_downloads tr) (ec_maxDownloads ec)) \<and>
     withinLimit (n_total tr) (ec_maxTotal ec)"

definition about :: "planner_torrent \<Rightarrow> torrent_decision \<Rightarrow> bool" where
  "about t d \<longleftrightarrow>
     td_hash d = pt_hash t \<and> td_engineId d = pt_engineId t \<and>
     td_currentOccupancy d = pt_occupancy t \<and>
     td_protectedFromPause d = pt_protectedFromPause t \<and> td_score d = pd_score (pt_decision t)"

text \<open>A target or deadline that ends the seeding of \<open>t\<close>, and whether by removal.\<close>

definition import_guards :: "planner_torrent \<Rightarrow> seeding_policy \<Rightarrow> bool" where
  "import_guards t policy \<longleftrightarrow>
     (sp_requireImportCompleted policy \<longrightarrow> pt_intakeImported t = Some True) \<and>
     (sp_requireLibraryCopyVerified policy \<longrightarrow> pt_libraryCopyVerified t = Some True)"

definition seeding_ends :: "planner_env \<Rightarrow> time \<Rightarrow> planner_torrent \<Rightarrow> bool \<Rightarrow> bool" where
  "seeding_ends env now t removal \<longleftrightarrow>
     seed_target_applies t \<and> \<not> pt_protectedFromRemoval t \<and>
     (\<exists>policy. ep_seedPolicy (pt_policy t) = Some policy \<and>
        (if evaluateSeedTarget (env_rt env) policy (seedFactsOf (env_date_now env) t) = Met
         then import_guards t policy \<and> sp_afterTarget policy \<noteq> PSA_leave_active \<and>
              removal = is_destructive (sp_afterTarget policy)
         else removal \<and> evaluateSeedAgeDeadline policy (pt_completedAt t) now = Met))"

definition no_seeding_end :: "planner_env \<Rightarrow> time \<Rightarrow> planner_torrent \<Rightarrow> bool" where
  "no_seeding_end env now t \<longleftrightarrow> \<not> seeding_ends env now t True \<and> \<not> seeding_ends env now t False"

definition may_start :: "planner_torrent \<Rightarrow> bool" where
  "may_start t \<longleftrightarrow> isResumable (pt_occupancy t) \<and>
     (pt_forceStarted t \<or> pt_complete t \<or> pt_allowNewDownloads t \<noteq> Some False)"

text \<open>What justifies a decision taken after \<open>pre\<close>.\<close>

fun justified ::
  "planner_env \<Rightarrow> planner_cfg \<Rightarrow> engine_caps \<Rightarrow> plan_trace \<Rightarrow> planner_torrent \<Rightarrow>
   plan_action \<Rightarrow> desired_state \<Rightarrow> bool" where
  "justified env cfg ec pre t Act_resume want \<longleftrightarrow>
     want = Want_active \<and> may_start t \<and> n_actions pre < cfg_maxActionsPerSweep cfg \<and>
     (pt_forceStarted t \<or> room_for ec pre (pt_complete t))"
| "justified env cfg ec pre t Act_pause want \<longleftrightarrow>
     want = Want_paused \<and> \<not> is_untouchable t \<and> holdsTotalActiveSlot (pt_occupancy t) \<and>
     \<not> pt_protectedFromPause t \<and>
     (seeding_ends env (cfg_now cfg) t False \<or>
      no_seeding_end env (cfg_now cfg) t \<and>
      \<not> pt_forceStarted t \<and> \<not> room_for ec pre (pt_complete t) \<and>
      cfg_minimumActiveSeconds cfg \<le> heldFor (cfg_now cfg) t \<and>
      n_actions pre < cfg_maxActionsPerSweep cfg)"
| "justified env cfg ec pre t Act_remove_and_cleanup want \<longleftrightarrow>
     want = Want_removed \<and> \<not> is_untouchable t \<and> seeding_ends env (cfg_now cfg) t True"
| "justified env cfg ec pre t Act_none want \<longleftrightarrow>
     want \<noteq> Want_removed \<and>
     (is_untouchable t \<or> no_seeding_end env (cfg_now cfg) t) \<and>
     (may_start t \<longrightarrow>
        cfg_maxActionsPerSweep cfg \<le> n_actions pre \<or>
        \<not> pt_forceStarted t \<and> \<not> room_for ec pre (pt_complete t))"

inductive justified_plan ::
  "planner_env \<Rightarrow> planner_cfg \<Rightarrow> engine_caps \<Rightarrow> plan_trace \<Rightarrow> bool"
  for env cfg ec where
  jp_empty: "justified_plan env cfg ec []"
| jp_step: "justified_plan env cfg ec pre \<Longrightarrow> about t d \<Longrightarrow>
    justified env cfg ec pre t (td_action d) (td_desiredState d) \<Longrightarrow>
    justified_plan env cfg ec (pre @ [(t, d)])"


section \<open>The planner implements the specification\<close>

definition sim :: "sweep \<Rightarrow> plan_trace \<Rightarrow> bool" where
  "sim st tr \<longleftrightarrow>
     sw_decisions st = map snd tr \<and> sw_downloads st = n_downloads tr \<and>
     sw_seeds st = n_seeds tr \<and> sw_total st = n_total tr \<and> sw_actions st = n_actions tr"

lemma decide_simps [simp]:
  "about t (decide t w a r v)"
  "td_action (decide t w a r v) = a" "td_desiredState (decide t w a r v) = w"
  "td_reasonCode (decide t w a r v) = r"
  by (simp_all add: decide_def about_def)

lemma sim_slotFree: "sim st tr \<Longrightarrow> slotFree ec st s = room_for ec tr s"
  by (simp add: sim_def slotFree_def room_for_def)

lemma sim_budgetLeft: "sim st tr \<Longrightarrow> budgetLeft cfg st \<longleftrightarrow> n_actions tr < cfg_maxActionsPerSweep cfg"
  by (simp add: sim_def budgetLeft_def)

lemma sim_limitations [simp]: "sim (st\<lparr> sw_limitations := l \<rparr>) tr = sim st tr"
  by (simp add: sim_def)

text \<open>The four ways in which the loop records a decision.\<close>

lemma sim_kept:
  assumes "sim st tr" "pt_occupancy t \<noteq> Checking"
    and "td_action d = Act_none" "td_desiredState d = Want_active" "s = pt_complete t"
  shows "sim (occupy s (push d st)) (tr @ [(t, d)])"
  using assms by (simp add: sim_def occupy_def push_def trace_counts)

lemma sim_started:
  assumes "sim st tr" "pt_occupancy t \<noteq> Checking"
    and "td_action d \<noteq> Act_none" "td_desiredState d = Want_active" "s = pt_complete t"
  shows "sim (occupy s (acted (push d st))) (tr @ [(t, d)])"
  using assms by (simp add: sim_def occupy_def push_def acted_def trace_counts)

lemma sim_stopped:
  assumes "sim st tr" "pt_occupancy t \<noteq> Checking"
    and "td_action d \<noteq> Act_none" "td_desiredState d \<noteq> Want_active"
  shows "sim (acted (push d st)) (tr @ [(t, d)])"
  using assms by (simp add: sim_def push_def acted_def trace_counts)

lemma sim_waiting:
  assumes "sim st tr" "pt_occupancy t \<noteq> Checking"
    and "td_action d = Act_none" "td_desiredState d \<noteq> Want_active"
  shows "sim (push d st) (tr @ [(t, d)])"
  using assms by (simp add: sim_def push_def trace_counts)

lemmas sim_intros = sim_kept sim_started sim_stopped sim_waiting

definition refines_step ::
  "planner_env \<Rightarrow> planner_cfg \<Rightarrow> engine_caps \<Rightarrow> plan_trace \<Rightarrow> planner_torrent \<Rightarrow> sweep \<Rightarrow> bool" where
  "refines_step env cfg ec tr t st' \<longleftrightarrow>
     (\<exists>d. sim st' (tr @ [(t, d)]) \<and> about t d \<and>
          justified env cfg ec tr t (td_action d) (td_desiredState d))"

lemma refines_stepI:
  "sim st' (tr @ [(t, decide t w a r v)]) \<Longrightarrow> justified env cfg ec tr t a w \<Longrightarrow>
   refines_step env cfg ec tr t st'"
  unfolding refines_step_def by (rule exI [of _ "decide t w a r v"]) simp

lemma contender_occupancy:
  "\<not> is_untouchable t \<Longrightarrow> pt_occupancy t \<noteq> Checking"
  "\<not> is_untouchable t \<Longrightarrow> isResumable (pt_occupancy t) = (\<not> holdsTotalActiveSlot (pt_occupancy t))"
  by (cases "pt_occupancy t"; auto simp: is_untouchable_def occ_simps)+

lemma contender_active_iff:
  "\<not> is_untouchable t \<Longrightarrow>
   holdsTotalActiveSlot (pt_occupancy t) \<longleftrightarrow> pt_occupancy t = Download_active \<or> pt_occupancy t = Seed_active"
  by (auto simp: is_untouchable_def occ_simps)

lemmas step_facts = contender_occupancy sim_slotFree sim_budgetLeft

lemma force_step_refines:
  assumes "sim st tr" "\<not> is_untouchable t" "no_seeding_end env (cfg_now cfg) t" "pt_forceStarted t"
  shows "refines_step env cfg ec tr t (force_step cfg t st)"
proof (cases "holdsTotalActiveSlot (pt_occupancy t)")
  case True
  with assms show ?thesis
    by (auto simp: force_step_def step_facts may_start_def
        intro!: refines_stepI [where a = Act_none and w = Want_active] sim_kept)
next
  case False
  show ?thesis
  proof (cases "budgetLeft cfg st")
    case True
    with False assms show ?thesis
      by (auto simp: force_step_def step_facts may_start_def
          intro!: refines_stepI [where a = Act_resume and w = Want_active] sim_started)
  next
    case nob: False
    with False assms show ?thesis
      by (auto simp: force_step_def step_facts may_start_def
          intro!: refines_stepI [where a = Act_none and w = Want_active] sim_kept)
  qed
qed

lemma active_step_refines:
  assumes "sim st tr" "\<not> is_untouchable t" "no_seeding_end env (cfg_now cfg) t"
    and "\<not> pt_forceStarted t"
    and "holdsTotalActiveSlot (pt_occupancy t)"
  shows "refines_step env cfg ec tr t (active_step cfg ec t st)"
proof -
  have no_start: "\<not> may_start t"
    using assms(5) resumable_holds_no_slot by (auto simp: may_start_def)
  let ?keep = "slotFree ec st (pt_complete t) \<or> pt_protectedFromPause t \<or>
      heldFor (cfg_now cfg) t < cfg_minimumActiveSeconds cfg \<or> \<not> budgetLeft cfg st"
  show ?thesis
  proof (cases ?keep)
    case True
    then show ?thesis using assms no_start unfolding active_step_def Let_def
      by (auto simp: step_facts
          intro!: refines_stepI [where a = Act_none and w = Want_active] sim_kept)
  next
    case False
    then show ?thesis using assms unfolding active_step_def Let_def
      by (auto simp: step_facts
          intro!: refines_stepI [where a = Act_pause and w = Want_paused] sim_stopped)
  qed
qed

lemma inactive_step_refines:
  assumes "sim st tr" "\<not> is_untouchable t" "no_seeding_end env (cfg_now cfg) t"
    and "\<not> pt_forceStarted t"
    and "\<not> holdsTotalActiveSlot (pt_occupancy t)"
  shows "refines_step env cfg ec tr t (inactive_step cfg ec t st)"
proof -
  have res: "isResumable (pt_occupancy t)" using assms contender_occupancy by blast
  let ?wait = "\<not> pt_complete t \<and> pt_allowNewDownloads t = Some False \<or>
      \<not> slotFree ec st (pt_complete t) \<or> \<not> budgetLeft cfg st"
  show ?thesis
  proof (cases ?wait)
    case True
    then show ?thesis using assms res unfolding inactive_step_def Let_def
      by (auto simp: step_facts may_start_def
          intro!: refines_stepI [where a = Act_none and w = Want_paused] sim_waiting)
  next
    case False
    then show ?thesis using assms res unfolding inactive_step_def Let_def
      by (auto simp: step_facts may_start_def
          intro!: refines_stepI [where a = Act_resume and w = Want_active] sim_started)
  qed
qed

lemma slot_step_refines:
  "sim st tr \<Longrightarrow> \<not> is_untouchable t \<Longrightarrow> no_seeding_end env (cfg_now cfg) t \<Longrightarrow>
   refines_step env cfg ec tr t (slot_step cfg ec t st)"
  by (simp add: slot_step_def force_step_refines active_step_refines inactive_step_refines)


lemma met_decision_cases:
  assumes "seed_target_applies t" "ep_seedPolicy (pt_policy t) = Some policy"
    and "evaluateSeedTarget (env_rt env) policy (seedFactsOf (env_date_now env) t) = Met"
    and "d = met_decision t policy"
  shows "about t d"
    and "td_action d = Act_none \<and> td_desiredState d = Want_active \<and> no_seeding_end env now t \<or>
         td_action d = Act_pause \<and> td_desiredState d = Want_paused \<and> seeding_ends env now t False \<or>
         td_action d = Act_remove_and_cleanup \<and> td_desiredState d = Want_removed \<and>
           seeding_ends env now t True"
  using assms
  by (auto simp: met_decision_def seeding_ends_def no_seeding_end_def import_guards_def
      is_destructive_def)

lemma seedTargetDecision_cases:
  assumes "seed_target_applies t" "seedTargetDecision env t lims e now = (Some d, lims')"
  shows "about t d"
    and "td_action d = Act_none \<and> td_desiredState d = Want_active \<and> no_seeding_end env now t \<or>
         td_action d = Act_pause \<and> td_desiredState d = Want_paused \<and> seeding_ends env now t False \<or>
         td_action d = Act_remove_and_cleanup \<and> td_desiredState d = Want_removed \<and>
           seeding_ends env now t True"
proof -
  obtain policy where pol: "ep_seedPolicy (pt_policy t) = Some policy"
    using assms(1) by (auto simp: seed_target_applies_def)
  let ?v = "evaluateSeedTarget (env_rt env) policy (seedFactsOf (env_date_now env) t)"
  consider (met) "?v = Met" "d = met_decision t policy"
    | (late) "?v \<noteq> Met" "\<not> pt_protectedFromRemoval t"
        "evaluateSeedAgeDeadline policy (pt_completedAt t) now = Met"
        "td_action d = Act_remove_and_cleanup" "td_desiredState d = Want_removed" "about t d"
    | (undecided) "td_action d = Act_none" "td_desiredState d = Want_active" "about t d" "?v \<noteq> Met"
        "pt_protectedFromRemoval t \<or> evaluateSeedAgeDeadline policy (pt_completedAt t) now \<noteq> Met"
    using assms(2) pol
    by (cases ?v) (auto simp: seedTargetDecision_def Let_def split: if_splits)
  note cs = this
  show "about t d"
    using cs by cases (auto intro: met_decision_cases(1) [OF assms(1) pol])
  show "td_action d = Act_none \<and> td_desiredState d = Want_active \<and> no_seeding_end env now t \<or>
         td_action d = Act_pause \<and> td_desiredState d = Want_paused \<and> seeding_ends env now t False \<or>
         td_action d = Act_remove_and_cleanup \<and> td_desiredState d = Want_removed \<and>
           seeding_ends env now t True"
    using cs
  proof cases
    case met
    then show ?thesis by (intro met_decision_cases(2) [OF assms(1) pol])
  next
    case late
    then show ?thesis using assms(1) pol by (auto simp: seeding_ends_def)
  next
    case undecided
    then show ?thesis using pol by (auto simp: no_seeding_end_def seeding_ends_def)
  qed
qed

lemma seedTargetDecision_None:
  assumes "seedTargetDecision env t lims e now = (None, lims')"
  shows "no_seeding_end env now t"
  using assms
  by (auto simp: seedTargetDecision_def no_seeding_end_def seeding_ends_def Let_def
      split: option.splits verdict.splits if_splits)

lemma applies_active: "seed_target_applies t \<Longrightarrow> holdsTotalActiveSlot (pt_occupancy t) \<and>
    \<not> pt_protectedFromPause t \<and> pt_complete t \<and> \<not> may_start t"
  by (auto simp: seed_target_applies_def may_start_def dest: resumable_holds_no_slot)

lemma plan_step_refines:
  assumes "sim st tr" "\<not> is_untouchable t"
  shows "refines_step env cfg ec tr t (plan_step env cfg e ec t st)"
proof (cases "seed_target_applies t")
  case False
  then have "no_seeding_end env (cfg_now cfg) t" by (simp add: no_seeding_end_def seeding_ends_def)
  with False show ?thesis using assms by (simp add: plan_step_def slot_step_refines)
next
  case True
  obtain od lims where sd:
    "seedTargetDecision env t (sw_limitations st) e (cfg_now cfg) = (od, lims)" by fastforce
  show ?thesis
  proof (cases od)
    case None
    then have "no_seeding_end env (cfg_now cfg) t" using sd seedTargetDecision_None by blast
    with None show ?thesis using assms True sd by (simp add: plan_step_def slot_step_refines)
  next
    case (Some d)
    note cases = seedTargetDecision_cases [OF True sd [unfolded Some]]
    note act = applies_active [OF True]
    let ?st = "st\<lparr> sw_limitations := lims \<rparr>"
    have sim: "sim ?st tr" using assms(1) by simp
    have "plan_step env cfg e ec t st =
        (if td_action d = Act_pause \<or> td_action d = Act_remove_and_cleanup
         then acted (push d ?st) else occupy True (push d ?st))"
      using True sd Some by (simp add: plan_step_def Let_def)
    moreover have "sim (acted (push d ?st)) (tr @ [(t, d)])"
      if "td_action d = Act_pause \<or> td_action d = Act_remove_and_cleanup"
      using that cases(2) sim assms(2) by (intro sim_stopped) (auto simp: step_facts)
    moreover have "sim (occupy True (push d ?st)) (tr @ [(t, d)])"
      if "\<not> (td_action d = Act_pause \<or> td_action d = Act_remove_and_cleanup)"
      using that cases(2) sim assms(2) act by (intro sim_kept) (auto simp: step_facts)
    moreover have "justified env cfg ec tr t (td_action d) (td_desiredState d)"
      using cases(2) act assms(2) by auto
    ultimately show ?thesis
      unfolding refines_step_def using cases(1) by (intro exI [of _ d]) auto
  qed
qed

lemma plan_fold_refines:
  assumes "sim st tr" "justified_plan env cfg ec tr" "\<forall>t\<in>set ts. \<not> is_untouchable t"
  shows "\<exists>tr'. sim (fold (plan_step env cfg e ec) ts st) (tr @ tr') \<and>
               justified_plan env cfg ec (tr @ tr') \<and> map fst tr' = ts"
  using assms
proof (induction ts arbitrary: st tr)
  case Nil
  then show ?case by auto
next
  case (Cons t ts)
  have "refines_step env cfg ec tr t (plan_step env cfg e ec t st)"
    using Cons.prems by (intro plan_step_refines) auto
  then obtain d where d: "sim (plan_step env cfg e ec t st) (tr @ [(t, d)])" "about t d"
      "justified env cfg ec tr t (td_action d) (td_desiredState d)"
    by (auto simp: refines_step_def)
  then have "justified_plan env cfg ec (tr @ [(t, d)])"
    using Cons.prems(2) by (intro jp_step)
  then obtain tr' where
    "sim (fold (plan_step env cfg e ec) ts (plan_step env cfg e ec t st)) ((tr @ [(t, d)]) @ tr')"
    "justified_plan env cfg ec ((tr @ [(t, d)]) @ tr')" "map fst tr' = ts"
    using Cons.IH [OF d(1)] Cons.prems(3) by auto
  then show ?case by (intro exI [of _ "(t, d) # tr'"]) auto
qed

lemma untouchable_no_slot:
  "is_untouchable t \<Longrightarrow> \<not> holdsDownloadSlot (pt_occupancy t) \<and> \<not> holdsSeedSlot (pt_occupancy t) \<and>
     holdsTotalActiveSlot (pt_occupancy t) = (pt_occupancy t = Checking) \<and> \<not> may_start t"
  by (cases "pt_occupancy t") (auto simp: is_untouchable_def occ_simps may_start_def)

abbreviation settled_trace :: "planner_torrent list \<Rightarrow> plan_trace" where
  "settled_trace ts \<equiv> map (\<lambda>t. (t, untouchable_decision t)) (filter is_untouchable ts)"

lemma untouchable_counts:
  assumes "\<forall>t\<in>set us. is_untouchable t" and "tr = map (\<lambda>t. (t, untouchable_decision t)) us"
  shows "n_downloads tr = 0" "n_seeds tr = 0" "n_actions tr = 0"
    and "n_total tr = count_if (\<lambda>t. holdsTotalActiveSlot (pt_occupancy t)) us"
    and "count_if (\<lambda>t. holdsDownloadSlot (pt_occupancy t)) us = 0"
    and "count_if (\<lambda>t. holdsSeedSlot (pt_occupancy t)) us = 0"
  using assms
  by (induction us arbitrary: tr) (auto simp: trace_counts untouchable_decision_def untouchable_no_slot)

lemma initial_sim: "sim (initial_sweep e caps ts) (settled_trace ts)"
  using untouchable_counts [of "filter is_untouchable ts"]
  by (simp add: sim_def initial_sweep_def Let_def comp_def)

lemma initial_justified: "justified_plan env cfg ec (settled_trace ts)"
proof (induction ts rule: rev_induct)
  case (snoc t ts)
  show ?case
  proof (cases "is_untouchable t")
    case True
    then have "justified_plan env cfg ec (settled_trace ts @ [(t, untouchable_decision t)])"
      using snoc untouchable_no_slot [OF True]
      by (intro jp_step) (auto simp: untouchable_decision_def)
    then show ?thesis using True by simp
  qed (use snoc in simp)
qed (simp add: jp_empty)

lemma mset_ranked [simp]: "mset (ranked env ts) = mset ts"
proof -
  have "mset (orderByPriority (env_collate env) (map rank_entry ts)) = mset (map rank_entry ts)"
    by (simp add: orderByPriority_def)
  then have "mset (ranked env ts) = mset (map ot_torrent (map rank_entry ts))"
    unfolding ranked_def by (metis mset_map)
  also have "map ot_torrent (map rank_entry ts) = ts"
    by (simp add: rank_entry_def comp_def)
  finally show ?thesis .
qed

lemma final_sweep_refines:
  "\<exists>tr. sim (final_sweep env e ts caps cfg) tr \<and> justified_plan env cfg (engine_caps_of ts) tr \<and>
        mset (map fst tr) = mset ts"
proof -
  have "set (ranked env (filter (\<lambda>t. \<not> is_untouchable t) ts)) = {t \<in> set ts. \<not> is_untouchable t}"
    by (metis mset_ranked set_filter set_mset_mset)
  then obtain tr' where tr': "sim (final_sweep env e ts caps cfg) (settled_trace ts @ tr')"
      "justified_plan env cfg (engine_caps_of ts) (settled_trace ts @ tr')"
      "map fst tr' = ranked env (filter (\<lambda>t. \<not> is_untouchable t) ts)"
    using plan_fold_refines [OF initial_sim initial_justified,
        of "ranked env (filter (\<lambda>t. \<not> is_untouchable t) ts)" env cfg e "engine_caps_of ts" e caps ts]
    by (auto simp: final_sweep_def)
  have "mset (map fst (settled_trace ts @ tr')) =
        mset (filter is_untouchable ts) + mset (filter (\<lambda>t. \<not> is_untouchable t) ts)"
    using tr'(3) by (simp add: comp_def)
  then show ?thesis using tr' by (metis mset_filter multiset_partition)
qed


section \<open>What the plans guarantee\<close>

lemma justified_plan_at:
  "justified_plan env cfg ec tr \<Longrightarrow> tr = pre @ (t, d) # post \<Longrightarrow>
   about t d \<and> justified env cfg ec pre t (td_action d) (td_desiredState d)"
proof (induction arbitrary: post rule: justified_plan.induct)
  case (jp_step pre' t' d')
  then show ?case by (cases post rule: rev_cases) auto
qed simp

lemma justified_plan_mem:
  assumes "justified_plan env cfg ec tr" "(t, d) \<in> set tr"
  obtains pre post where "tr = pre @ (t, d) # post" "about t d"
    "justified env cfg ec pre t (td_action d) (td_desiredState d)"
  using assms justified_plan_at by (metis split_list)

abbreviation engine_decisions where
  "engine_decisions env e ts caps opts \<equiv> eap_decisions (planEngine env e ts caps opts)"

text \<open>
  C1. The planner implements its specification. On an engine that can pause, the decisions are
  those of a justified plan over exactly the given torrents: read in order, every resume had
  room under the caps (or was force-started) and budget, every pause was forced by the caps or
  ended a seed, every removal ended a seed, and every torrent left waiting had no room or no
  budget. The summary counts what that plan leaves running.
\<close>

theorem planEngine_refines:
  assumes "canDo (cap_pause caps)"
  shows "\<exists>tr. map snd tr = eap_decisions (planEngine env e ts caps opts) \<and>
              mset (map fst tr) = mset ts \<and>
              justified_plan env (with_defaults opts) (engine_caps_of ts) tr \<and>
              ps_activeDownloads (eap_summary (planEngine env e ts caps opts)) = n_downloads tr \<and>
              ps_activeSeeds (eap_summary (planEngine env e ts caps opts)) = n_seeds tr \<and>
              ps_totalActive (eap_summary (planEngine env e ts caps opts)) = n_total tr"
proof -
  obtain tr where "sim (final_sweep env e ts caps (with_defaults opts)) tr"
      "justified_plan env (with_defaults opts) (engine_caps_of ts) tr" "mset (map fst tr) = mset ts"
    using final_sweep_refines by blast
  with assms show ?thesis by (intro exI [of _ tr]) (simp add: planEngine_def sim_def Let_def)
qed

text \<open>The same facts in elimination form, for the theorems below.\<close>

lemma planEngine_trace:
  assumes "canDo (cap_pause caps)"
  obtains tr where "map snd tr = engine_decisions env e ts caps opts" "mset (map fst tr) = mset ts"
    "justified_plan env (with_defaults opts) (engine_caps_of ts) tr"
    "ps_activeDownloads (eap_summary (planEngine env e ts caps opts)) = n_downloads tr"
    "ps_activeSeeds (eap_summary (planEngine env e ts caps opts)) = n_seeds tr"
    "ps_totalActive (eap_summary (planEngine env e ts caps opts)) = n_total tr"
proof -
  obtain tr where "sim (final_sweep env e ts caps (with_defaults opts)) tr"
      "justified_plan env (with_defaults opts) (engine_caps_of ts) tr" "mset (map fst tr) = mset ts"
    using final_sweep_refines by blast
  with assms that [of tr] show thesis by (simp add: planEngine_def sim_def Let_def)
qed

lemma planEngine_unmanaged:
  "\<not> canDo (cap_pause caps) \<Longrightarrow>
   engine_decisions env e ts caps opts =
     map (\<lambda>t. decide t Want_unchanged Act_none ''engine_cannot_pause'' None) ts"
  by (simp add: planEngine_def)

lemma planEngine_decision_about:
  assumes "d \<in> set (engine_decisions env e ts caps opts)"
  obtains t where "t \<in> set ts" "about t d" "\<not> canDo (cap_pause caps)" "td_action d = Act_none"
    | t pre where "t \<in> set ts" "about t d" "canDo (cap_pause caps)"
      "justified env (with_defaults opts) (engine_caps_of ts) pre t (td_action d) (td_desiredState d)"
proof (cases "canDo (cap_pause caps)")
  case False
  then show ?thesis using assms that(1) by (auto simp: planEngine_unmanaged)
next
  case True
  obtain tr where tr: "map snd tr = engine_decisions env e ts caps opts" "mset (map fst tr) = mset ts"
    "justified_plan env (with_defaults opts) (engine_caps_of ts) tr"
    using True by (rule planEngine_trace)
  have sets: "fst ` set tr = set ts" using tr(2) by (metis list.set_map set_mset_mset)
  have "d \<in> snd ` set tr" using assms tr(1) by (metis list.set_map)
  then obtain t where t: "(t, d) \<in> set tr" by force
  then have "t \<in> set ts" using sets by force
  with t tr(3) True show ?thesis by (metis justified_plan_mem that(2))
qed

text \<open>
  Every torrent gets exactly one decision, which reports that torrent's hash, engine,
  occupancy, score and protection.
\<close>

theorem planEngine_decides_each_once:
  "mset (map (\<lambda>d. (td_hash d, td_engineId d, td_currentOccupancy d, td_score d,
                     td_protectedFromPause d)) (eap_decisions (planEngine env e ts caps opts))) =
   mset (map (\<lambda>t. (pt_hash t, pt_engineId t, pt_occupancy t, pd_score (pt_decision t),
                     pt_protectedFromPause t)) ts)"
  (is "mset (map ?fd _) = mset (map ?ft ts)")
proof (cases "canDo (cap_pause caps)")
  case False
  then show ?thesis by (simp add: planEngine_unmanaged decide_def comp_def)
next
  case True
  obtain tr where tr: "map snd tr = engine_decisions env e ts caps opts" "mset (map fst tr) = mset ts"
    "justified_plan env (with_defaults opts) (engine_caps_of ts) tr"
    using True by (rule planEngine_trace)
  have "about t d" if "(t, d) \<in> set tr" for t d
    using tr(3) that by (rule justified_plan_mem)
  then have "map ?fd (map snd tr) = map ?ft (map fst tr)"
    by (auto simp: about_def)
  then have "map ?fd (engine_decisions env e ts caps opts) = map ?ft (map fst tr)"
    using tr(1) by simp
  then have "mset (map ?fd (engine_decisions env e ts caps opts)) = mset (map ?ft (map fst tr))"
    by (rule arg_cong)
  also have "\<dots> = image_mset ?ft (mset (map fst tr))" by (rule mset_map)
  also have "\<dots> = image_mset ?ft (mset ts)" by (simp only: tr(2))
  finally show ?thesis by (simp only: mset_map)
qed

text \<open>
  C3. The limits of the scheduler's authority. It acts only on an engine that can pause. It
  resumes only a torrent whose class it may resume, and a download only when the schedule
  allows new downloads or the operator forced it. It pauses only a running torrent that is not
  protected from pausing, and except where a seeding target ends it, only one that is not
  force-started and was left alone for the minimum active time.
\<close>

theorem planEngine_authority:
  assumes "d \<in> set (eap_decisions (planEngine env e ts caps opts))" and "td_action d \<noteq> Act_none"
  shows "canDo (cap_pause caps) \<and>
    (\<exists>t\<in>set ts. about t d \<and>
      (td_action d = Act_resume \<longrightarrow>
         isResumable (pt_occupancy t) \<and>
         (pt_forceStarted t \<or> pt_complete t \<or> pt_allowNewDownloads t \<noteq> Some False)) \<and>
      (td_action d = Act_pause \<longrightarrow>
         pt_occupancy t \<in> {Download_active, Seed_active} \<and> \<not> pt_protectedFromPause t \<and>
         (seeding_ends env (po_now opts) t False \<or>
          \<not> pt_forceStarted t \<and>
          cfg_minimumActiveSeconds (with_defaults opts) \<le> heldFor (po_now opts) t)))"
  using assms(1)
proof (cases rule: planEngine_decision_about)
  case (1 t)
  then show ?thesis using assms(2) by simp
next
  case (2 t pre)
  have now: "cfg_now (with_defaults opts) = po_now opts" by (simp add: with_defaults_def)
  show ?thesis
  proof (intro conjI bexI [of _ t] impI)
    show "canDo (cap_pause caps)" "about t d" "t \<in> set ts" by (rule 2)+
  next
    assume "td_action d = Act_resume"
    with 2(4) have "may_start t" by simp
    then show "isResumable (pt_occupancy t)"
      and "pt_forceStarted t \<or> pt_complete t \<or> pt_allowNewDownloads t \<noteq> Some False"
      by (simp_all add: may_start_def)
  next
    assume "td_action d = Act_pause"
    with 2(4) show "pt_occupancy t \<in> {Download_active, Seed_active}" "\<not> pt_protectedFromPause t"
      "seeding_ends env (po_now opts) t False \<or> \<not> pt_forceStarted t \<and>
       cfg_minimumActiveSeconds (with_defaults opts) \<le> heldFor (po_now opts) t"
      by (auto simp: now contender_active_iff)
  qed
qed

text \<open>
  C2. When data may be deleted. A removal is planned only for a complete, running torrent
  whose effective policy has a seeding policy, that is protected neither from pausing nor from
  removal, and only in two cases: its target is met, the policy's action after the target is a
  removal and the import guards it asks for hold; or its target is not met and at least the
  policy's maximum age in days has passed since it completed.
\<close>

theorem planEngine_removal_conditions:
  assumes "d \<in> set (eap_decisions (planEngine env e ts caps opts))"
    and "td_action d = Act_remove_and_cleanup"
  shows "\<exists>t\<in>set ts. \<exists>policy. about t d \<and>
    pt_complete t \<and> pt_occupancy t \<in> {Download_active, Seed_active} \<and>
    \<not> pt_protectedFromPause t \<and> \<not> pt_protectedFromRemoval t \<and>
    ep_seedPolicy (pt_policy t) = Some policy \<and>
    (if evaluateSeedTarget (env_rt env) policy (seedFactsOf (env_date_now env) t) = Met
     then sp_afterTarget policy \<in>
            {PSA_remove_torrent_keep_data, PSA_remove_torrent_and_staging_data} \<and>
          (sp_requireImportCompleted policy \<longrightarrow> pt_intakeImported t = Some True) \<and>
          (sp_requireLibraryCopyVerified policy \<longrightarrow> pt_libraryCopyVerified t = Some True)
     else \<exists>c days. pt_completedAt t = Some c \<and> sp_maxAgeDays policy = Some days \<and> 0 < days \<and>
            days * of_int day_ms \<le> of_int (po_now opts - c))"
  using assms(1)
proof (cases rule: planEngine_decision_about)
  case (1 t)
  then show ?thesis using assms(2) by simp
next
  case (2 t pre)
  have now: "cfg_now (with_defaults opts) = po_now opts" by (simp add: with_defaults_def)
  from 2 assms(2) have ends: "seeding_ends env (po_now opts) t True" "\<not> is_untouchable t"
    by (simp_all add: now)
  then obtain policy where pol: "ep_seedPolicy (pt_policy t) = Some policy"
    by (auto simp: seeding_ends_def)
  have age: "\<exists>c days. pt_completedAt t = Some c \<and> sp_maxAgeDays policy = Some days \<and> 0 < days \<and>
            days * of_int day_ms \<le> of_int (po_now opts - c)"
    if "evaluateSeedAgeDeadline policy (pt_completedAt t) (po_now opts) = Met"
    using that by (auto simp: evaluateSeedAgeDeadline_def of_bool_v_def Let_def
        split: option.splits if_splits)
  show ?thesis
    using 2(1,2) ends pol age
    by (intro bexI [of _ t] exI [of _ policy])
      (auto simp: seeding_ends_def seed_target_applies_def import_guards_def is_destructive_def
          contender_active_iff
        simp del: if_split split: if_split_asm)
qed


lemma count_if_le: "(\<And>x. P x \<Longrightarrow> Q x) \<Longrightarrow> count_if P xs \<le> count_if Q xs"
  by (induction xs) auto

lemma justified_count_bound:
  assumes "justified_plan env cfg ec tr" and "\<And>x. P x \<Longrightarrow> Q x"
    and "\<And>pre t d. justified env cfg ec pre t (td_action d) (td_desiredState d) \<Longrightarrow>
            P (t, d) \<Longrightarrow> count_if Q pre < M"
  shows "count_if P tr \<le> max 0 M"
  using assms(1)
proof (induction rule: justified_plan.induct)
  case (jp_step pre t d)
  have "count_if P pre \<le> count_if Q pre" by (rule count_if_le) (rule assms(2))
  then show ?case using jp_step assms(3) [of pre t d] by auto
qed simp

definition starts :: "bool \<Rightarrow> planner_torrent \<times> torrent_decision \<Rightarrow> bool" where
  "starts seed x \<longleftrightarrow>
     td_action (snd x) = Act_resume \<and> \<not> pt_forceStarted (fst x) \<and> pt_complete (fst x) = seed \<and>
     td_desiredState (snd x) = Want_active"

text \<open>
  C4. The scheduler never starts its way over a limit, nor past its budget. Pairing each
  torrent with its decision, the downloads it starts of its own accord are at most the engine's
  download cap, the seeds at most the seed cap, both together at most the total cap; and the
  resumes and limit pauses of one sweep are at most the action budget.
\<close>

theorem planEngine_bounded:
  assumes "canDo (cap_pause caps)"
  shows "\<exists>tr. map snd tr = eap_decisions (planEngine env e ts caps opts) \<and>
    mset (map fst tr) = mset ts \<and>
    (\<forall>m. ec_maxDownloads (engine_caps_of ts) = Some m \<longrightarrow> count_if (starts False) tr \<le> max 0 m) \<and>
    (\<forall>m. ec_maxSeeds (engine_caps_of ts) = Some m \<longrightarrow> count_if (starts True) tr \<le> max 0 m) \<and>
    (\<forall>m. ec_maxTotal (engine_caps_of ts) = Some m \<longrightarrow>
       count_if (\<lambda>x. starts False x \<or> starts True x) tr \<le> max 0 m) \<and>
    count_if (\<lambda>(t, d). td_action d = Act_resume \<or>
        td_action d = Act_pause \<and> \<not> seeding_ends env (po_now opts) t False) tr
      \<le> max 0 (cfg_maxActionsPerSweep (with_defaults opts))"
proof -
  obtain tr where tr: "map snd tr = engine_decisions env e ts caps opts" "mset (map fst tr) = mset ts"
    and jp: "justified_plan env (with_defaults opts) (engine_caps_of ts) tr"
    using assms by (rule planEngine_trace)
  have now: "cfg_now (with_defaults opts) = po_now opts" by (simp add: with_defaults_def)
  have "count_if (starts False) tr \<le> max 0 m" if "ec_maxDownloads (engine_caps_of ts) = Some m" for m
    by (rule justified_count_bound [OF jp,
          of _ "\<lambda>(t, d). td_desiredState d = Want_active \<and> \<not> pt_complete t"])
      (use that in \<open>auto simp: starts_def room_for_def withinLimit_def n_downloads_def\<close>)
  moreover have "count_if (starts True) tr \<le> max 0 m" if "ec_maxSeeds (engine_caps_of ts) = Some m" for m
    by (rule justified_count_bound [OF jp,
          of _ "\<lambda>(t, d). td_desiredState d = Want_active \<and> pt_complete t"])
      (use that in \<open>auto simp: starts_def room_for_def withinLimit_def n_seeds_def\<close>)
  moreover have "count_if (\<lambda>x. starts False x \<or> starts True x) tr \<le> max 0 m"
    if "ec_maxTotal (engine_caps_of ts) = Some m" for m
    by (rule justified_count_bound [OF jp,
          of _ "\<lambda>(t, d). td_desiredState d = Want_active \<or> pt_occupancy t = Checking"])
      (use that in \<open>auto simp: starts_def room_for_def withinLimit_def n_total_def\<close>)
  moreover have "count_if (\<lambda>(t, d). td_action d = Act_resume \<or>
        td_action d = Act_pause \<and> \<not> seeding_ends env (po_now opts) t False) tr
      \<le> max 0 (cfg_maxActionsPerSweep (with_defaults opts))"
    by (rule justified_count_bound [OF jp, of _ "\<lambda>(t, d). td_action d \<noteq> Act_none"])
      (auto simp: n_actions_def now)
  ultimately show ?thesis using tr by blast
qed

text \<open>
  C5. No slot is left idle. When a torrent that may start is not started, the whole sweep
  either used up its action budget, or the plan leaves the engine full for that kind of
  torrent: its download or seed cap, or its total cap, is reached by what the summary counts.
\<close>

theorem planEngine_work_conserving:
  assumes "canDo (cap_pause caps)" and "t \<in> set ts" and "may_start t"
  shows "\<exists>d\<in>set (eap_decisions (planEngine env e ts caps opts)). about t d \<and>
    (td_action d = Act_resume \<or>
     cfg_maxActionsPerSweep (with_defaults opts) \<le>
       count_if (\<lambda>d. td_action d \<noteq> Act_none) (eap_decisions (planEngine env e ts caps opts)) \<or>
     (\<not> pt_forceStarted t \<and>
      (let sm = eap_summary (planEngine env e ts caps opts) in
       (if pt_complete t
        then \<not> withinLimit (ps_activeSeeds sm) (ep_maxConcurrentSeeds (pt_policy (hd ts)))
        else \<not> withinLimit (ps_activeDownloads sm) (ep_maxConcurrentDownloads (pt_policy (hd ts)))) \<or>
       \<not> withinLimit (ps_totalActive sm) (ep_maxTotalActive (pt_policy (hd ts))))))"
proof -
  obtain tr where tr: "map snd tr = engine_decisions env e ts caps opts" "mset (map fst tr) = mset ts"
    and jp: "justified_plan env (with_defaults opts) (engine_caps_of ts) tr"
    and sm: "ps_activeDownloads (eap_summary (planEngine env e ts caps opts)) = n_downloads tr"
      "ps_activeSeeds (eap_summary (planEngine env e ts caps opts)) = n_seeds tr"
      "ps_totalActive (eap_summary (planEngine env e ts caps opts)) = n_total tr"
    using assms(1) by (rule planEngine_trace)
  have "fst ` set tr = set ts" using tr(2) by (metis list.set_map set_mset_mset)
  then obtain d where mem: "(t, d) \<in> set tr" using assms(2) by force
  obtain pre post where split: "tr = pre @ (t, d) # post" and ab: "about t d"
    and just: "justified env (with_defaults opts) (engine_caps_of ts) pre t (td_action d) (td_desiredState d)"
    using justified_plan_mem [OF jp mem] .
  have dmem: "d \<in> set (engine_decisions env e ts caps opts)"
    using mem tr(1) by (metis list.set_map image_eqI snd_conv)
  have mono: "n_downloads pre \<le> n_downloads tr" "n_seeds pre \<le> n_seeds tr"
      "n_total pre \<le> n_total tr" "n_actions pre \<le> n_actions tr"
    using split by (simp_all add: trace_counts)
  have acts: "n_actions tr = count_if (\<lambda>d. td_action d \<noteq> Act_none) (engine_decisions env e ts caps opts)"
    unfolding tr(1) [symmetric] n_actions_def count_if_def by (simp add: filter_map comp_def case_prod_unfold)
  have first: "engine_caps_of ts =
      \<lparr> ec_maxDownloads = ep_maxConcurrentDownloads (pt_policy (hd ts)),
        ec_maxSeeds = ep_maxConcurrentSeeds (pt_policy (hd ts)),
        ec_maxTotal = ep_maxTotalActive (pt_policy (hd ts)) \<rparr>"
    using assms(2) by (cases ts) (simp_all add: engine_caps_of_def)
  have limit_mono: "withinLimit b l \<Longrightarrow> a \<le> b \<Longrightarrow> withinLimit a l" for a b l
    by (auto simp: withinLimit_def split: option.splits)
  have "\<not> holdsTotalActiveSlot (pt_occupancy t)" "\<not> seed_target_applies t"
    using assms(3) resumable_holds_no_slot by (auto simp: may_start_def seed_target_applies_def)
  with just assms(3) consider "td_action d = Act_resume"
    | "cfg_maxActionsPerSweep (with_defaults opts) \<le> n_actions pre"
    | "\<not> pt_forceStarted t" "\<not> room_for (engine_caps_of ts) pre (pt_complete t)"
    by (cases "td_action d") (auto simp: seeding_ends_def)
  then show ?thesis
  proof cases
    case 3
    then show ?thesis using dmem ab mono sm first limit_mono
      by (intro bexI [of _ d]) (auto simp: room_for_def Let_def split: if_splits)
  qed (use dmem ab mono acts in auto)
qed

text \<open>
  C6. A met target or an expired deadline always ends the seeding in the same sweep: the
  torrent is removed or paused whatever its rank, whatever slots are free and however many
  actions the sweep has taken, so the action budget does not bound these. The documentation says
  otherwise: that the scheduler never removes a torrent, that the planner refuses the removing
  post-seed actions, and that the actions of a sweep are bounded; the theorem is about the code.
\<close>

theorem planEngine_ends_seeding:
  assumes "canDo (cap_pause caps)" and "t \<in> set ts" and "pt_occupancy t = Seed_active"
    and "seeding_ends env (po_now opts) t removal"
  shows "\<exists>d\<in>set (eap_decisions (planEngine env e ts caps opts)). about t d \<and>
           td_action d = (if removal then Act_remove_and_cleanup else Act_pause)"
proof -
  obtain tr where tr: "map snd tr = engine_decisions env e ts caps opts" "mset (map fst tr) = mset ts"
    and jp: "justified_plan env (with_defaults opts) (engine_caps_of ts) tr"
    using assms(1) by (rule planEngine_trace)
  have "fst ` set tr = set ts" using tr(2) by (metis list.set_map set_mset_mset)
  then obtain d where mem: "(t, d) \<in> set tr" using assms(2) by force
  obtain pre post where ab: "about t d"
    and just: "justified env (with_defaults opts) (engine_caps_of ts) pre t (td_action d) (td_desiredState d)"
    using justified_plan_mem [OF jp mem] .
  have dmem: "d \<in> set (engine_decisions env e ts caps opts)"
    using mem tr(1) by (metis list.set_map image_eqI snd_conv)
  have now: "cfg_now (with_defaults opts) = po_now opts" by (simp add: with_defaults_def)
  have one: "seeding_ends env (po_now opts) t r \<Longrightarrow> r = removal" for r
    using assms(4) by (auto simp: seeding_ends_def split: if_splits)
  have ends: "\<not> no_seeding_end env (po_now opts) t"
    using assms(4) by (cases removal) (auto simp: no_seeding_end_def)
  have "\<not> may_start t" "\<not> is_untouchable t"
    using assms(3) by (auto simp: may_start_def is_untouchable_def occ_simps)
  with just ends one have "td_action d = (if removal then Act_remove_and_cleanup else Act_pause)"
    by (cases "td_action d") (auto simp: now)
  with ab dmem show ?thesis by blast
qed


section \<open>A sample engine\<close>

definition demo_env :: planner_env where
  "demo_env = \<lparr> env_rt = demo_runtime, env_collate = alnum_collate, env_date_now = 0 \<rparr>"

definition demo_caps :: torrent_queue_capabilities where
  "demo_caps = unknown_queue_capabilities\<lparr> cap_pause := Native \<rparr>"

definition demo_opts :: planner_options where
  "demo_opts = \<lparr> po_now = 0, po_minimumActiveSeconds = None,
     po_priorityDisplacementThreshold = None, po_maxActionsPerSweep = Some 1 \<rparr>"

definition demo_effective :: effective_policy where
  "demo_effective =
     \<lparr> ep_maxConcurrentDownloads = Some 1, ep_maxConcurrentSeeds = None, ep_maxTotalActive = None,
       ep_maxDownloadRateKbps = None, ep_maxUploadRateKbps = None,
       ep_reserveDownloadBandwidthPercent = None, ep_reserveSeedBandwidthPercent = None,
       ep_seedPolicy = Some
         \<lparr> sp_mode = SM_ratio, sp_targetRatio = Some 2, sp_targetSeedMinutes = None,
           sp_minimumSeedMinutes = None, sp_minimumRatio = None,
           sp_afterTarget = PSA_remove_torrent_keep_data, sp_requireImportCompleted = True,
           sp_requireLibraryCopyVerified = False, sp_maxAgeDays = None, sp_stopWhen = None \<rparr>,
       ep_activeScheduleId = None, ep_sources = Map.empty \<rparr>"

definition demo_torrent :: "string \<Rightarrow> int \<Rightarrow> occupancy_class \<Rightarrow> bool \<Rightarrow> planner_torrent" where
  "demo_torrent h score occ fin =
     \<lparr> pt_hash = h, pt_engineId = ''e1'', pt_occupancy = occ,
       pt_decision = \<lparr> pd_torrentHash = h, pd_score = score, pd_band = band score, pd_reasons = [] \<rparr>,
       pt_policy = demo_effective, pt_addedAt = None, pt_protectedFromPause = False,
       pt_forceStarted = False, pt_lastActionAt = None, pt_complete = fin,
       pt_ratio = Some 3, pt_sizeBytes = None, pt_uploadedBytes = None, pt_tracker = None,
       pt_category = None, pt_label = None, pt_isPrivate = None, pt_name = None,
       pt_libraryId = None, pt_seedMinutes = None, pt_completedAt = None,
       pt_intakeImported = Some True, pt_libraryCopyVerified = None,
       pt_protectedFromRemoval = False, pt_allowNewDownloads = None \<rparr>"

definition demo_torrents :: "planner_torrent list" where
  "demo_torrents =
     [demo_torrent ''a1'' 300 Download_queued False, demo_torrent ''b2'' 200 Download_queued False,
      demo_torrent ''c3'' 100 Seed_active True, demo_torrent ''d4'' 900 User_paused False]"

lemma demo_plan:
  "map (\<lambda>d. (td_hash d, td_action d, td_reasonCode d))
     (engine_decisions demo_env ''e1'' demo_torrents demo_caps demo_opts) =
   [(''d4'', Act_none, ''paused_by_user''),
    (''a1'', Act_resume, ''download_slot_available''),
    (''b2'', Act_none, ''waiting_for_download_slot''),
    (''c3'', Act_remove_and_cleanup, ''seed_target_reached_removed'')]"
  by (simp add: planEngine_def final_sweep_def demo_torrents_def demo_caps_def canDo_def
     ranked_def orderByPriority_def rank_entry_def priority_cmp_def is_untouchable_def
     demo_torrent_def initial_sweep_def plan_step_def occ_simps seed_target_applies_def
     slot_step_def inactive_step_def demo_effective_def engine_caps_of_def slotFree_def
     withinLimit_def budgetLeft_def with_defaults_def demo_opts_def occupy_def acted_def push_def
     decide_def untouchable_decision_def seedTargetDecision_def evaluateSeedTarget_def
     seedFactsOf_def floor_check_def target_met_def of_bool_v_def mode_verdict_def
     evaluateSeedAgeDeadline_def met_decision_def is_destructive_def Let_def)

abbreviation demo_decisions :: "torrent_decision list" where
  "demo_decisions \<equiv> engine_decisions demo_env ''e1'' demo_torrents demo_caps demo_opts"

lemma demo_can_pause: "canDo (cap_pause demo_caps)"
  by (simp add: demo_caps_def canDo_def)

lemma demo_decision_at:
  assumes "(h, a, r) \<in> set (map (\<lambda>d. (td_hash d, td_action d, td_reasonCode d)) demo_decisions)"
  obtains d where "d \<in> set demo_decisions" "td_hash d = h" "td_action d = a"
  using assms by auto

theorem planEngine_refines_witness:
  "\<exists>tr. map snd tr = demo_decisions \<and> length tr = 4 \<and>
        justified_plan demo_env (with_defaults demo_opts) (engine_caps_of demo_torrents) tr"
proof -
  obtain tr where tr: "map snd tr = demo_decisions"
    "justified_plan demo_env (with_defaults demo_opts) (engine_caps_of demo_torrents) tr"
    using planEngine_refines [OF demo_can_pause] by blast
  have "length demo_decisions = 4" using arg_cong [OF demo_plan, of length] by simp
  with tr show ?thesis by (metis length_map)
qed

theorem planEngine_authority_witness:
  "\<exists>d\<in>set demo_decisions. td_hash d = ''a1'' \<and> td_action d = Act_resume \<and>
     (\<exists>t\<in>set demo_torrents. about t d \<and> isResumable (pt_occupancy t))"
proof -
  obtain d where d: "d \<in> set demo_decisions" "td_hash d = ''a1''" "td_action d = Act_resume"
    by (rule demo_decision_at [of "''a1''" Act_resume "''download_slot_available''"])
      (simp add: demo_plan del: set_map list.set_map)
  with planEngine_authority [OF d(1)] show ?thesis by auto
qed

theorem planEngine_removal_conditions_witness:
  "\<exists>d\<in>set demo_decisions. td_hash d = ''c3'' \<and> td_action d = Act_remove_and_cleanup \<and>
     (\<exists>t\<in>set demo_torrents. about t d \<and> \<not> pt_protectedFromRemoval t)"
proof -
  obtain d where d: "d \<in> set demo_decisions" "td_hash d = ''c3''"
      "td_action d = Act_remove_and_cleanup"
    by (rule demo_decision_at [of "''c3''" Act_remove_and_cleanup "''seed_target_reached_removed''"])
      (simp add: demo_plan del: set_map list.set_map)
  with planEngine_removal_conditions [OF d(1) d(3)] show ?thesis by blast
qed

theorem planEngine_bounded_witness:
  "\<exists>tr. map snd tr = demo_decisions \<and> count_if (starts False) tr \<le> 1"
  using planEngine_bounded [OF demo_can_pause, of demo_env "''e1''" demo_torrents demo_opts]
  by (auto simp: engine_caps_of_def demo_torrents_def demo_torrent_def demo_effective_def)

theorem planEngine_work_conserving_witness:
  "\<exists>d\<in>set demo_decisions. td_hash d = ''b2'' \<and>
     (td_action d = Act_resume \<or> 1 \<le> count_if (\<lambda>d. td_action d \<noteq> Act_none) demo_decisions \<or>
      1 \<le> ps_activeDownloads (eap_summary (planEngine demo_env ''e1'' demo_torrents demo_caps demo_opts)))"
proof -
  let ?t = "demo_torrent ''b2'' 200 Download_queued False"
  have start: "may_start ?t" by (simp add: may_start_def demo_torrent_def occ_simps)
  have mem: "?t \<in> set demo_torrents" by (simp add: demo_torrents_def)
  have head: "ep_maxConcurrentDownloads (pt_policy (hd demo_torrents)) = Some 1"
      "ep_maxTotalActive (pt_policy (hd demo_torrents)) = None"
    by (simp_all add: demo_torrents_def demo_torrent_def demo_effective_def)
  have t: "pt_hash ?t = ''b2''" "pt_complete ?t = False" by (simp_all add: demo_torrent_def)
  have "cfg_maxActionsPerSweep (with_defaults demo_opts) = 1"
    by (simp add: demo_opts_def with_defaults_def)
  with planEngine_work_conserving [OF demo_can_pause mem start, of demo_env "''e1''" demo_opts]
  show ?thesis by (auto simp: head t withinLimit_def about_def Let_def)
qed

theorem planEngine_ends_seeding_witness:
  "\<exists>d\<in>set demo_decisions. td_hash d = ''c3'' \<and> td_action d = Act_remove_and_cleanup \<and>
     cfg_maxActionsPerSweep (with_defaults demo_opts) <
       count_if (\<lambda>d. td_action d \<noteq> Act_none) demo_decisions"
proof -
  let ?t = "demo_torrent ''c3'' 100 Seed_active True"
  have "seeding_ends demo_env (po_now demo_opts) ?t True"
    by (simp add: seeding_ends_def seed_target_applies_def demo_torrent_def demo_effective_def
        occ_simps evaluateSeedTarget_def floor_check_def target_met_def of_bool_v_def
        mode_verdict_def seedFactsOf_def import_guards_def is_destructive_def)
  moreover have "?t \<in> set demo_torrents" by (simp add: demo_torrents_def)
  moreover have "pt_occupancy ?t = Seed_active" by (simp add: demo_torrent_def)
  ultimately obtain d where d: "d \<in> set demo_decisions" "about ?t d"
      "td_action d = Act_remove_and_cleanup"
    using planEngine_ends_seeding [OF demo_can_pause] by fastforce
  have "count_if (\<lambda>(h, a, r). a \<noteq> Act_none)
          (map (\<lambda>d. (td_hash d, td_action d, td_reasonCode d)) demo_decisions) = 2"
    by (simp add: demo_plan)
  then have "count_if (\<lambda>d. td_action d \<noteq> Act_none) demo_decisions = 2"
    by (simp add: count_if_def filter_map comp_def)
  with d show ?thesis
    by (intro bexI [of _ d]) (auto simp: about_def demo_torrent_def demo_opts_def with_defaults_def)
qed

end
