(* ===== verification/Sched_Scopes.thy ===== *)
theory Sched_Scopes
  imports Js_Prelude
begin

text \<open>
  The lookups that connect a torrent to the rest of the platform: the RSS rule that downloaded
  it (\<^verbatim>\<open>domain/rss-scope.ts\<close>), the library its files belong to
  (\<^verbatim>\<open>domain/library-scope.ts\<close>, with the POSIX functions of \<^verbatim>\<open>node:path\<close> it uses),
  and which of its files may be deleted (\<^verbatim>\<open>domain/staging-cleanup.ts\<close>).

  The lemmas show that the most recent download decides the rule, the most specific library
  root that contains the path is the one returned, and no file inside a library root is ever
  planned for deletion.
\<close>

section \<open>RSS rules\<close>

record rule_match_row =
  rm_torrentHash :: "string option"
  rm_rssRuleId :: string
  rm_actionTaken :: "string option"
  rm_createdAt :: time

text \<open>The two maps of the loop: the rule per hash, and when it was recorded.\<close>

type_synonym rule_maps = "(string \<rightharpoonup> string) \<times> (string \<rightharpoonup> time)"

definition rule_step :: "rule_maps \<Rightarrow> rule_match_row \<Rightarrow> rule_maps" where
  "rule_step st row =
     (case st of (out, seenAt) \<Rightarrow>
        case rm_torrentHash row of
          None \<Rightarrow> st
        | Some h0 \<Rightarrow>
            if h0 = [] then st
            else if rm_actionTaken row \<noteq> Some ''download'' then st
            else (let hash = to_lower h0; ts = rm_createdAt row
                  in case seenAt hash of
                       Some prior \<Rightarrow>
                         if ts \<le> prior then st
                         else (out(hash \<mapsto> rm_rssRuleId row), seenAt(hash \<mapsto> ts))
                     | None \<Rightarrow> (out(hash \<mapsto> rm_rssRuleId row), seenAt(hash \<mapsto> ts))))"

definition rulesByTorrentHash :: "rule_match_row list \<Rightarrow> (string \<rightharpoonup> string)" where
  "rulesByTorrentHash rows = fst (foldl rule_step (Map.empty, Map.empty) rows)"

text \<open>A set in insertion order, as \<^verbatim>\<open>[...new Set()]\<close> reads it.\<close>

definition set_add :: "'a \<Rightarrow> 'a list \<Rightarrow> 'a list" where
  "set_add x xs = (if x \<in> set xs then xs else xs @ [x])"

definition hashCaseVariants :: "string list \<Rightarrow> string list" where
  "hashCaseVariants hashes =
     foldl (\<lambda>acc h. set_add (to_upper h) (set_add (to_lower h) acc)) [] hashes"


section \<open>POSIX paths\<close>

definition starts_with_slash :: "string \<Rightarrow> bool" where
  "starts_with_slash p = (case p of [] \<Rightarrow> False | c # _ \<Rightarrow> c = CHR ''/'')"

text \<open>Segments of an absolute path: empty ones and \<open>.\<close> dropped, \<open>..\<close> removes its parent.\<close>

definition push_segment :: "string list \<Rightarrow> string \<Rightarrow> string list" where
  "push_segment acc seg =
     (if seg = [] \<or> seg = ''.'' then acc
      else if seg = ''..'' then butlast acc
      else acc @ [seg])"

definition resolve_segments :: "string \<Rightarrow> string \<Rightarrow> string list" where
  "resolve_segments cwd p =
     foldl push_segment []
       ((if starts_with_slash p then [] else split_on (CHR ''/'') cwd) @ split_on (CHR ''/'') p)"

definition path_resolve :: "string \<Rightarrow> string \<Rightarrow> string" where
  "path_resolve cwd p = ''/'' @ join_with ''/'' (resolve_segments cwd p)"

fun strip_common :: "string list \<Rightarrow> string list \<Rightarrow> string list \<times> string list" where
  "strip_common (x # xs) (y # ys) = (if x = y then strip_common xs ys else (x # xs, y # ys))"
| "strip_common xs ys = (xs, ys)"

definition path_relative :: "string \<Rightarrow> string \<Rightarrow> string \<Rightarrow> string" where
  "path_relative cwd from to =
     (let (up, down) = strip_common (resolve_segments cwd from) (resolve_segments cwd to)
      in join_with ''/'' (replicate (length up) ''..'' @ down))"


section \<open>Libraries\<close>

record library_root =
  lib_id :: string
  lib_path :: string

definition isWithin :: "string \<Rightarrow> string \<Rightarrow> string \<Rightarrow> bool" where
  "isWithin cwd child parent =
     (let c = path_resolve cwd child; p = path_resolve cwd parent
      in if c = p then True
         else (let rel = path_relative cwd p c
               in rel \<noteq> [] \<and> \<not> is_prefix_of ''..'' rel \<and> \<not> starts_with_slash rel))"

definition better_library ::
  "string \<Rightarrow> string \<Rightarrow> library_root option \<Rightarrow> library_root \<Rightarrow> library_root option" where
  "better_library cwd savePath best lib =
     (if lib_path lib = [] \<or> \<not> isWithin cwd savePath (lib_path lib) then best
      else (case best of
              None \<Rightarrow> Some lib
            | Some b \<Rightarrow>
                if length (path_resolve cwd (lib_path lib)) > length (path_resolve cwd (lib_path b))
                then Some lib else best))"

definition libraryForPath ::
  "string \<Rightarrow> string option \<Rightarrow> library_root list \<Rightarrow> string option" where
  "libraryForPath cwd savePath libraries =
     (case savePath of
        None \<Rightarrow> None
      | Some sp \<Rightarrow>
          if sp = [] then None
          else map_option lib_id (foldl (better_library cwd sp) None libraries))"


section \<open>Staging cleanup\<close>

definition is_sep :: "char \<Rightarrow> bool" where
  "is_sep c = (c = CHR ''/'' \<or> c = CHR 0x5C)"

definition norm_path :: "string \<Rightarrow> string" where
  "norm_path p = to_lower (rev (dropWhile is_sep (rev p)))"

definition isWithinRoot :: "string \<Rightarrow> string \<Rightarrow> bool" where
  "isWithinRoot file folder =
     (let f = norm_path folder; p = norm_path file
      in if f = [] \<or> p = [] then False
         else p = f \<or> is_prefix_of (f @ ''/'') p \<or> is_prefix_of (f @ [CHR 0x5C]) p)"

record staging_cleanup_input =
  sci_paths :: "string list"
  sci_stagingRoots :: "string list"
  sci_libraryRoots :: "string list"

datatype cleanup_keep_reason = In_library | Outside_staging

record staging_cleanup_plan =
  scp_deletable :: "string list"
  scp_kept :: "(string \<times> cleanup_keep_reason) list"

definition cleanup_step ::
  "staging_cleanup_input \<Rightarrow> staging_cleanup_plan \<Rightarrow> string \<Rightarrow> staging_cleanup_plan" where
  "cleanup_step input plan path =
     (if path = [] then plan
      else if list_ex (\<lambda>root. isWithinRoot path root) (sci_libraryRoots input)
        then plan\<lparr> scp_kept := scp_kept plan @ [(path, In_library)] \<rparr>
      else if list_ex (\<lambda>root. isWithinRoot path root) (sci_stagingRoots input)
        then plan\<lparr> scp_deletable := scp_deletable plan @ [path] \<rparr>
      else plan\<lparr> scp_kept := scp_kept plan @ [(path, Outside_staging)] \<rparr>)"

definition planStagingCleanup :: "staging_cleanup_input \<Rightarrow> staging_cleanup_plan" where
  "planStagingCleanup input =
     foldl (cleanup_step input) \<lparr> scp_deletable = [], scp_kept = [] \<rparr> (sci_paths input)"



section \<open>The rule that downloaded a torrent\<close>

definition downloads_hash :: "string \<Rightarrow> rule_match_row \<Rightarrow> bool" where
  "downloads_hash h row =
     (case rm_torrentHash row of
        None \<Rightarrow> False
      | Some h0 \<Rightarrow> h0 \<noteq> [] \<and> rm_actionTaken row = Some ''download'' \<and> to_lower h0 = h)"

lemma rule_fold_spec:
  "let (out, seenAt) = foldl rule_step (Map.empty, Map.empty) rows;
       F = filter (downloads_hash h) rows in
   (F = [] \<and> out h = None \<and> seenAt h = None) \<or>
   (\<exists>w. is_first_min (\<lambda>r. - rm_createdAt r) F w \<and> out h = Some (rm_rssRuleId w) \<and>
        seenAt h = Some (rm_createdAt w))"
proof (induction rows rule: rev_induct)
  case Nil
  then show ?case by simp
next
  case (snoc row rows)
  obtain out seenAt where st: "foldl rule_step (Map.empty, Map.empty) rows = (out, seenAt)"
    by (cases "foldl rule_step (Map.empty, Map.empty) rows") auto
  show ?case
  proof (cases "downloads_hash h row")
    case False
    then have "fst (rule_step (out, seenAt) row) h = out h"
      and "snd (rule_step (out, seenAt) row) h = seenAt h"
      by (auto simp: rule_step_def downloads_hash_def Let_def split: option.splits)
    with snoc False st show ?thesis by (auto simp: case_prod_unfold)
  next
    case True
    then have step: "rule_step (out, seenAt) row =
        (case seenAt h of
           Some prior \<Rightarrow> if rm_createdAt row \<le> prior then (out, seenAt)
             else (out(h \<mapsto> rm_rssRuleId row), seenAt(h \<mapsto> rm_createdAt row))
         | None \<Rightarrow> (out(h \<mapsto> rm_rssRuleId row), seenAt(h \<mapsto> rm_createdAt row)))"
      by (auto simp: rule_step_def downloads_hash_def Let_def split: option.splits)
    from snoc st consider
      "filter (downloads_hash h) rows = []" "seenAt h = None"
    | w where "is_first_min (\<lambda>r. - rm_createdAt r) (filter (downloads_hash h) rows) w"
        "out h = Some (rm_rssRuleId w)" "seenAt h = Some (rm_createdAt w)"
      by (auto simp: Let_def)
    then show ?thesis
    proof cases
      case 1
      then show ?thesis using True st step by (auto intro!: is_first_min_single)
    next
      case (2 w)
      show ?thesis
      proof (cases "rm_createdAt row \<le> rm_createdAt w")
        case le: True
        have "is_first_min (\<lambda>r. - rm_createdAt r) (filter (downloads_hash h) rows @ [row]) w"
          using le by (intro is_first_min_keep [OF 2(1)]) simp
        with 2 le True st step show ?thesis by auto
      next
        case gt: False
        have "is_first_min (\<lambda>r. - rm_createdAt r) (filter (downloads_hash h) rows @ [row]) row"
          using 2(1) gt by (intro is_first_min_replace [where w = w]) auto
        with 2 gt True st step show ?thesis by auto
      qed
    qed
  qed
qed

text \<open>
  Attribution to an RSS rule. A torrent is attributed to the rule of its most recent
  download row, comparing hashes without regard to case, the earlier of two equally recent
  rows winning; rows that declined or skipped the torrent never attribute it.
\<close>

theorem rulesByTorrentHash_latest_download:
  "(rulesByTorrentHash rows h = None \<longleftrightarrow> filter (downloads_hash h) rows = []) \<and>
   (rulesByTorrentHash rows h = Some r \<longleftrightarrow>
      (\<exists>w. is_first_min (\<lambda>row. - rm_createdAt row) (filter (downloads_hash h) rows) w \<and>
           rm_rssRuleId w = r))"
proof -
  obtain out seenAt where st: "foldl rule_step (Map.empty, Map.empty) rows = (out, seenAt)"
    by (cases "foldl rule_step (Map.empty, Map.empty) rows") auto
  from rule_fold_spec [of rows h] st consider
    "filter (downloads_hash h) rows = []" "out h = None"
  | w where "is_first_min (\<lambda>r. - rm_createdAt r) (filter (downloads_hash h) rows) w"
      "out h = Some (rm_rssRuleId w)"
    by (auto simp: Let_def)
  then show ?thesis
  proof cases
    case 1
    then show ?thesis using st by (auto simp: rulesByTorrentHash_def dest: is_first_min_in)
  next
    case (2 w)
    then have "filter (downloads_hash h) rows \<noteq> []" using is_first_min_in by fastforce
    with 2 st show ?thesis
      by (auto simp: rulesByTorrentHash_def dest: is_first_min_unique)
  qed
qed

lemma set_set_add [simp]: "set (set_add x xs) = insert x (set xs)"
  by (auto simp: set_add_def)

lemma set_hashCaseVariants: "set (hashCaseVariants hs) = to_lower ` set hs \<union> to_upper ` set hs"
proof -
  have "set (foldl (\<lambda>acc h. set_add (to_upper h) (set_add (to_lower h) acc)) acc hs) =
        set acc \<union> to_lower ` set hs \<union> to_upper ` set hs" for acc
    by (induction hs arbitrary: acc) auto
  then show ?thesis by (simp add: hashCaseVariants_def)
qed


section \<open>The library that contains a path\<close>

text \<open>A resolved path is its list of proper segments, and printing it loses nothing.\<close>

definition proper_segment :: "string \<Rightarrow> bool" where
  "proper_segment seg \<longleftrightarrow> seg \<noteq> [] \<and> seg \<noteq> ''.'' \<and> seg \<noteq> ''..'' \<and> CHR ''/'' \<notin> set seg"

lemma push_segments_proper:
  assumes "\<forall>s\<in>set segs. CHR ''/'' \<notin> set s" and "\<forall>s\<in>set acc. proper_segment s"
  shows "\<forall>s\<in>set (foldl push_segment acc segs). proper_segment s"
  using assms
proof (induction segs arbitrary: acc)
  case (Cons seg segs)
  have "\<forall>s\<in>set (push_segment acc seg). proper_segment s"
    using Cons.prems by (auto simp: push_segment_def proper_segment_def dest: in_set_butlastD)
  then show ?case using Cons by simp
qed simp

lemma resolve_segments_proper: "\<forall>s\<in>set (resolve_segments cwd p). proper_segment s"
  unfolding resolve_segments_def
  by (rule push_segments_proper) (auto dest: split_on_no_sep split: if_splits)

lemma split_on_word: "d \<notin> set w \<Longrightarrow> split_on d w = [w]"
  by (induction w) auto

lemma split_on_word_sep: "d \<notin> set w \<Longrightarrow> split_on d (w @ d # s) = w # split_on d s"
  by (induction w) auto

lemma split_join:
  assumes "\<forall>w\<in>set ws. d \<notin> set w" "ws \<noteq> []"
  shows "split_on d (join_with [d] ws) = ws"
  using assms
proof (induction ws)
  case (Cons w ws)
  then show ?case by (cases ws) (simp_all add: split_on_word split_on_word_sep)
qed simp

lemma push_segments_id:
  "\<forall>s\<in>set segs. proper_segment s \<Longrightarrow> foldl push_segment acc segs = acc @ segs"
  by (induction segs arbitrary: acc) (auto simp: push_segment_def proper_segment_def)

lemma resolve_segments_resolve [simp]:
  "resolve_segments cwd (path_resolve cwd' p) = resolve_segments cwd' p"
proof (cases "resolve_segments cwd' p = []")
  case True
  then show ?thesis
    by (simp add: path_resolve_def resolve_segments_def [of cwd] starts_with_slash_def
        push_segment_def)
next
  case False
  have "split_on (CHR ''/'') (join_with ''/'' (resolve_segments cwd' p)) = resolve_segments cwd' p"
    using False resolve_segments_proper [of cwd' p]
    by (intro split_join) (auto simp: proper_segment_def)
  moreover have "foldl push_segment [] (resolve_segments cwd' p) = resolve_segments cwd' p"
    using push_segments_id [OF resolve_segments_proper] by simp
  ultimately show ?thesis
    by (simp add: path_resolve_def resolve_segments_def [of cwd] starts_with_slash_def
        push_segment_def)
qed

lemma path_resolve_eq_iff:
  "path_resolve cwd a = path_resolve cwd b \<longleftrightarrow> resolve_segments cwd a = resolve_segments cwd b"
  by (metis path_resolve_def resolve_segments_resolve)

lemma strip_common_spec:
  "strip_common xs ys = (us, ds) \<Longrightarrow>
     \<exists>com. xs = com @ us \<and> ys = com @ ds \<and> (us = [] \<or> ds = [] \<or> hd us \<noteq> hd ds)"
proof (induction xs ys rule: strip_common.induct)
  case (1 x xs y ys)
  show ?case
  proof (cases "x = y")
    case True
    with 1 obtain com where "xs = com @ us" "ys = com @ ds" "us = [] \<or> ds = [] \<or> hd us \<noteq> hd ds"
      by auto
    with True show ?thesis by (intro exI [of _ "y # com"]) simp
  qed (use 1 in auto)
qed auto

lemma strip_common_prefix [simp]: "strip_common xs (xs @ ds) = ([], ds)"
  by (induction xs) auto

lemma join_with_hd: "ws \<noteq> [] \<Longrightarrow> \<exists>r. join_with sep ws = hd ws @ r"
  by (induction sep ws rule: join_with.induct) auto

lemma is_prefix_dots_join:
  assumes "\<forall>w\<in>set ws. CHR ''/'' \<notin> set w \<and> w \<noteq> []" "ws \<noteq> []"
  shows "is_prefix_of ''..'' (join_with ''/'' ws) \<longleftrightarrow> is_prefix_of ''..'' (hd ws)"
proof (cases ws)
  case (Cons w vs)
  obtain c w' where w: "w = c # w'" using assms Cons by (cases w) auto
  show ?thesis
  proof (cases vs)
    case (Cons v us)
    then show ?thesis using \<open>ws = w # vs\<close> w by (cases w') auto
  qed (use Cons in simp)
qed (use assms in simp)

text \<open>
  What the containment test decides: the path continues the root segment by segment, and the
  first segment below the root does not begin with two dots.
\<close>

lemma isWithin_iff:
  "isWithin cwd child parent \<longleftrightarrow>
     (\<exists>down. resolve_segments cwd child = resolve_segments cwd parent @ down \<and>
            (down = [] \<or> \<not> is_prefix_of ''..'' (hd down)))"
proof -
  obtain us ds where sc:
    "strip_common (resolve_segments cwd parent) (resolve_segments cwd child) = (us, ds)"
    by (cases "strip_common (resolve_segments cwd parent) (resolve_segments cwd child)")
  then obtain com where com: "resolve_segments cwd parent = com @ us"
      "resolve_segments cwd child = com @ ds" "us = [] \<or> ds = [] \<or> hd us \<noteq> hd ds"
    using strip_common_spec by blast
  have proper: "\<forall>w\<in>set ds. proper_segment w"
    using resolve_segments_proper [of cwd child] com(2) by simp
  let ?rel = "join_with ''/'' (replicate (length us) ''..'' @ ds)"
  have within: "isWithin cwd child parent \<longleftrightarrow> us = [] \<and> ds = [] \<or>
      \<not> (us = [] \<and> ds = []) \<and> ?rel \<noteq> [] \<and> \<not> is_prefix_of ''..'' ?rel \<and> \<not> starts_with_slash ?rel"
    using sc com by (auto simp: isWithin_def path_relative_def path_resolve_eq_iff Let_def)
  show ?thesis
  proof (cases us)
    case Nil
    show ?thesis
    proof (cases ds)
      case (Cons d ds')
      obtain r where r: "?rel = d @ r"
        using join_with_hd [of ds "''/''"] Nil Cons by auto
      have d: "d \<noteq> []" "CHR ''/'' \<notin> set d"
        using proper Cons by (auto simp: proper_segment_def)
      then have "?rel \<noteq> []" "\<not> starts_with_slash ?rel"
        using r by (auto simp: starts_with_slash_def neq_Nil_conv)
      moreover have "is_prefix_of ''..'' ?rel \<longleftrightarrow> is_prefix_of ''..'' d"
        using is_prefix_dots_join [of ds] proper Nil Cons by (simp add: proper_segment_def)
      ultimately show ?thesis using within com Nil Cons by auto
    qed (use within com Nil in auto)
  next
    case (Cons u us')
    have "is_prefix_of ''..'' ?rel"
      using join_with_hd [of "replicate (length us) ''..'' @ ds" "''/''"] Cons by auto
    moreover have "\<nexists>down. resolve_segments cwd child = resolve_segments cwd parent @ down"
      using com Cons by auto
    ultimately show ?thesis using within Cons by auto
  qed
qed

definition covers :: "string \<Rightarrow> string \<Rightarrow> library_root \<Rightarrow> bool" where
  "covers cwd savePath lib \<longleftrightarrow> lib_path lib \<noteq> [] \<and> isWithin cwd savePath (lib_path lib)"

lemma better_library_covers:
  "better_library cwd sp best lib =
     (if \<not> covers cwd sp lib then best
      else case best of
             None \<Rightarrow> Some lib
           | Some b \<Rightarrow>
               if length (path_resolve cwd (lib_path b)) < length (path_resolve cwd (lib_path lib))
               then Some lib else best)"
  by (auto simp: better_library_def covers_def)

lemma better_library_fold:
  "case foldl (better_library cwd sp) None libs of
     None \<Rightarrow> filter (covers cwd sp) libs = []
   | Some b \<Rightarrow> is_first_min (\<lambda>l. - int (length (path_resolve cwd (lib_path l))))
                 (filter (covers cwd sp) libs) b"
proof (induction libs rule: rev_induct)
  case (snoc lib libs)
  show ?case
  proof (cases "foldl (better_library cwd sp) None libs")
    case None
    with snoc show ?thesis
      by (auto simp: better_library_covers [of _ _ _ lib] intro: is_first_min_single)
  next
    case (Some b)
    with snoc show ?thesis
      by (auto simp: better_library_covers [of _ _ _ lib] intro: is_first_min_keep is_first_min_replace)
  qed
qed simp

text \<open>
  The most specific library wins. A torrent belongs to the library whose resolved root is
  the longest among those that contain its save path (the first listed of equally long ones),
  and to none when no root contains it, where containing means that the segments of the path
  continue those of the root and the next segment does not begin with two dots.
\<close>

theorem libraryForPath_most_specific:
  "(libraryForPath cwd (Some sp) libs = None \<longleftrightarrow> sp = [] \<or> (\<forall>l\<in>set libs. \<not> covers cwd sp l)) \<and>
   (libraryForPath cwd (Some sp) libs = Some i \<longleftrightarrow>
      sp \<noteq> [] \<and>
      (\<exists>b. is_first_min (\<lambda>l. - int (length (path_resolve cwd (lib_path l))))
             (filter (covers cwd sp) libs) b \<and> lib_id b = i)) \<and>
   (covers cwd sp l \<longleftrightarrow> lib_path l \<noteq> [] \<and>
      (\<exists>down. resolve_segments cwd sp = resolve_segments cwd (lib_path l) @ down \<and>
             (down = [] \<or> \<not> is_prefix_of ''..'' (hd down))))"
proof (cases "foldl (better_library cwd sp) None libs")
  case None
  with better_library_fold [of cwd sp libs]
  have empty: "filter (covers cwd sp) libs = []" by simp
  then have "\<not> is_first_min rank (filter (covers cwd sp) libs) b" for b and rank :: "library_root \<Rightarrow> int"
    by (auto dest: is_first_min_in)
  with None empty show ?thesis
    by (auto simp: libraryForPath_def covers_def isWithin_iff filter_empty_conv)
next
  case (Some b)
  with better_library_fold [of cwd sp libs]
  have b: "is_first_min (\<lambda>l. - int (length (path_resolve cwd (lib_path l))))
             (filter (covers cwd sp) libs) b" by simp
  then have "b \<in> set libs" "covers cwd sp b" by (auto dest: is_first_min_in)
  with Some b show ?thesis
    by (auto simp: libraryForPath_def isWithin_iff covers_def [of cwd sp l]
        dest: is_first_min_unique)
qed

definition nested_libraries :: "library_root list" where
  "nested_libraries =
     [\<lparr> lib_id = ''movies'', lib_path = ''/d/Movies/'' \<rparr>,
      \<lparr> lib_id = ''hd'', lib_path = ''/d/Movies/HD'' \<rparr>,
      \<lparr> lib_id = ''tv'', lib_path = ''/d/TV'' \<rparr>]"

theorem libraryForPath_most_specific_witness:
  "libraryForPath ''/srv'' (Some ''/d/Movies/HD/a'') nested_libraries = Some ''hd'' \<and>
   covers ''/srv'' ''/d/Movies/HD/a'' (hd nested_libraries) \<and>
   libraryForPath ''/srv'' (Some ''/d/Movies/..a'') nested_libraries = None"
proof -
  have cov: "covers ''/srv'' ''/d/Movies/HD/a'' (hd nested_libraries)"
    "\<forall>l\<in>set nested_libraries. \<not> covers ''/srv'' ''/d/Movies/..a'' l"
    by (simp_all add: nested_libraries_def covers_def isWithin_def path_resolve_def
        resolve_segments_def starts_with_slash_def push_segment_def path_relative_def)
  have "libraryForPath ''/srv'' (Some ''/d/Movies/HD/a'') nested_libraries = Some ''hd''"
    by (simp add: nested_libraries_def libraryForPath_def better_library_def isWithin_def
        path_resolve_def resolve_segments_def starts_with_slash_def push_segment_def
        path_relative_def)
  with cov show ?thesis
    using libraryForPath_most_specific [of "''/srv''" "''/d/Movies/..a''" nested_libraries] by blast
qed

text \<open>
  A resolved path extends another one and a slash exactly when it has the same segments and more.
\<close>

lemma split_on_append: "split_on d (a @ d # b) = split_on d a @ split_on d b"
proof (induction a)
  case (Cons c a)
  then show ?case by (cases "split_on d a") auto
qed simp

lemma join_with_append: "us \<noteq> [] \<Longrightarrow> vs \<noteq> [] \<Longrightarrow> join_with sep (us @ vs) = join_with sep us @ sep @ join_with sep vs"
proof (induction us)
  case (Cons u us)
  then show ?case by (cases us; cases vs) auto
qed simp

lemma split_segments:
  "split_on (CHR ''/'') (join_with ''/'' (resolve_segments cwd p)) =
     (if resolve_segments cwd p = [] then [[]] else resolve_segments cwd p)"
  using resolve_segments_proper [of cwd p] split_join [of "resolve_segments cwd p" "CHR ''/''"]
  by (auto simp: proper_segment_def)

lemma below_iff:
  "is_prefix_of (path_resolve c' b @ ''/'') (path_resolve c a) \<longleftrightarrow>
     resolve_segments c' b \<noteq> [] \<and> (\<exists>down. down \<noteq> [] \<and> resolve_segments c a = resolve_segments c' b @ down)"
proof
  let ?as = "resolve_segments c a" and ?bs = "resolve_segments c' b"
  assume "is_prefix_of (path_resolve c' b @ ''/'') (path_resolve c a)"
  then obtain r where r: "join_with ''/'' ?as = join_with ''/'' ?bs @ CHR ''/'' # r"
    by (auto simp: is_prefix_of_iff path_resolve_def)
  have ne: "?as \<noteq> []" using r by auto
  have "?as = (if ?bs = [] then [[]] else ?bs) @ split_on (CHR ''/'') r"
    using arg_cong [OF r, of "split_on (CHR ''/'')"] ne by (simp only: split_on_append split_segments if_False)
  moreover have "[] \<notin> set ?as" using resolve_segments_proper [of c a] by (auto simp: proper_segment_def)
  ultimately show "?bs \<noteq> [] \<and> (\<exists>down. down \<noteq> [] \<and> ?as = ?bs @ down)"
    by (metis list.set_intros(1) split_on_nonempty append_Cons)
next
  assume "resolve_segments c' b \<noteq> [] \<and> (\<exists>down. down \<noteq> [] \<and> resolve_segments c a = resolve_segments c' b @ down)"
  then show "is_prefix_of (path_resolve c' b @ ''/'') (path_resolve c a)"
    by (auto simp: is_prefix_of_iff path_resolve_def join_with_append)
qed

lemma path_resolve_inject: "path_resolve c a = path_resolve c' b \<longleftrightarrow> resolve_segments c a = resolve_segments c' b"
  by (metis path_resolve_def resolve_segments_resolve)


section \<open>Containment of paths by segments\<close>

text \<open>
  What it means that a path lies at or below a folder, said without comparing strings: a path is
  the list of its segments, a new one beginning at every separator of either kind, trailing
  separators set aside and letter case ignored; it lies at or below a folder when its segments
  continue those of the folder. A path of separators alone has no segments and contains nothing.
\<close>

fun pieces :: "string \<Rightarrow> string list" where
  "pieces [] = [[]]"
| "pieces (c # s) =
     (case pieces s of
        [] \<Rightarrow> []
      | seg # segs \<Rightarrow>
          if c = CHR ''/'' \<or> c = CHR 0x5C then [] # (c # seg) # segs else (c # seg) # segs)"

definition bare :: "string \<Rightarrow> bool" where
  "bare seg \<longleftrightarrow> seg = [] \<or> seg = ''/'' \<or> seg = [CHR 0x5C]"

definition path_segments :: "string \<Rightarrow> string list" where
  "path_segments p = rev (dropWhile bare (rev (pieces (to_lower p))))"

definition at_or_below :: "string \<Rightarrow> string \<Rightarrow> bool" where
  "at_or_below file folder \<longleftrightarrow>
     path_segments folder \<noteq> [] \<and>
     take (length (path_segments folder)) (path_segments file) = path_segments folder"

lemma at_or_below_examples:
  "at_or_below ''/Staging/show/a.mkv'' ''/staging/''" "at_or_below ''/staging'' ''/staging''"
  "\<not> at_or_below ''/staging2/a.mkv'' ''/staging''" "\<not> at_or_below ''/staging'' ''/staging/show''"
  "\<not> at_or_below ''/a'' ''/''"
  by code_simp+

lemma pieces_nonempty [simp]: "pieces s \<noteq> []"
  by (induction s) (auto split: list.splits)

lemma concat_pieces [simp]: "concat (pieces s) = s"
proof (induction s)
  case (Cons c s)
  then show ?case by (cases "pieces s") auto
qed simp

lemma pieces_tl_sep: "d \<in> set (tl (pieces s)) \<Longrightarrow> \<exists>c rest. d = c # rest \<and> is_sep c"
proof (induction s)
  case (Cons c s)
  then show ?case by (cases "pieces s") (auto simp: is_sep_def split: if_splits)
qed simp

lemma pieces_append_sep: "is_sep c \<Longrightarrow> pieces (f @ c # r) = pieces f @ tl (pieces (c # r))"
proof (induction f)
  case (Cons x f)
  then show ?case by (cases "pieces f") auto
qed (cases "pieces r"; auto simp: is_sep_def)

lemma pieces_snoc:
  "pieces (s @ [c]) =
     (if is_sep c then pieces s @ [[c]] else butlast (pieces s) @ [last (pieces s) @ [c]])"
proof (induction s)
  case (Cons x s)
  then show ?case by (cases "pieces s") (auto simp: is_sep_def)
qed (auto simp: is_sep_def)

lemma is_sep_lower [simp]: "is_sep (ascii_lower c) = is_sep c"
proof -
  have "of_char (ascii_lower c) \<noteq> (47 :: nat)" "of_char (ascii_lower c) \<noteq> (92 :: nat)"
    if "65 \<le> (of_char c :: nat)" "of_char c \<le> (90 :: nat)"
    using that by (auto simp: of_char_ascii_lower)
  moreover have "is_sep d \<longleftrightarrow> (of_char d :: nat) = 47 \<or> (of_char d :: nat) = 92" for d
    using of_char_eq_iff [of d "CHR ''/''", where 'a = nat] of_char_eq_iff [of d "CHR 0x5C", where 'a = nat]
    unfolding is_sep_def by simp
  ultimately show ?thesis by (auto simp: of_char_ascii_lower)
qed

lemma norm_path_lower: "norm_path p = rev (dropWhile is_sep (rev (to_lower p)))"
  by (simp add: norm_path_def to_lower_def rev_map dropWhile_map comp_def)

lemma strip_pieces:
  "rev (dropWhile bare (rev (pieces s))) =
     (let t = rev (dropWhile is_sep (rev s)) in if t = [] then [] else pieces t)"
proof (induction s rule: rev_induct)
  case (snoc c s)
  show ?case
  proof (cases "is_sep c")
    case True
    then have "bare [c]" by (auto simp: bare_def is_sep_def)
    with True snoc show ?thesis by (simp add: pieces_snoc Let_def)
  next
    case False
    then have "\<not> bare (last (pieces s) @ [c])"
      by (cases "last (pieces s)") (auto simp: bare_def is_sep_def)
    with False show ?thesis by (simp add: pieces_snoc Let_def)
  qed
qed (simp add: bare_def)

lemma path_segments_norm:
  "path_segments p = (if norm_path p = [] then [] else pieces (norm_path p))"
  by (simp add: path_segments_def strip_pieces norm_path_lower Let_def)

lemma pieces_continue:
  "(\<exists>down. pieces p = pieces f @ down) \<longleftrightarrow> p = f \<or> (\<exists>c rest. is_sep c \<and> p = f @ c # rest)"
proof
  assume "\<exists>down. pieces p = pieces f @ down"
  then obtain down where down: "pieces p = pieces f @ down" by blast
  show "p = f \<or> (\<exists>c rest. is_sep c \<and> p = f @ c # rest)"
  proof (cases down)
    case Nil
    with down have "concat (pieces p) = concat (pieces f)" by simp
    then show ?thesis by simp
  next
    case (Cons d ds)
    with down have "d \<in> set (tl (pieces p))" by (cases "pieces f") auto
    then obtain c rest where "d = c # rest" "is_sep c" using pieces_tl_sep by blast
    moreover have "concat (pieces p) = f @ d @ concat ds" using down Cons by simp
    ultimately show ?thesis by auto
  qed
next
  assume "p = f \<or> (\<exists>c rest. is_sep c \<and> p = f @ c # rest)"
  then show "\<exists>down. pieces p = pieces f @ down" using pieces_append_sep by auto
qed

text \<open>
  The test on strings is decided at a separator: the file is the root itself, or continues it with
  a separator, so a sibling whose name merely starts the same way is outside.
\<close>

lemma isWithinRoot_iff:
  "isWithinRoot file folder \<longleftrightarrow>
     norm_path folder \<noteq> [] \<and>
     (norm_path file = norm_path folder \<or>
      (\<exists>c rest. is_sep c \<and> norm_path file = norm_path folder @ c # rest))"
  by (auto simp: isWithinRoot_def is_prefix_of_iff is_sep_def Let_def)

lemma isWithinRoot_segments: "isWithinRoot = at_or_below"
proof (intro ext)
  fix path folder
  have pre: "take (length xs) ys = xs \<longleftrightarrow> (\<exists>down. ys = xs @ down)" for xs ys :: "string list"
    by (metis append_eq_conv_conj append_take_drop_id)
  show "isWithinRoot path folder = at_or_below path folder"
    using pieces_continue [of "norm_path path" "norm_path folder"]
    by (auto simp: isWithinRoot_iff at_or_below_def path_segments_norm pre)
qed


section \<open>Deleting staging copies\<close>

lemma cleanup_fold:
  "scp_deletable (foldl (cleanup_step input) plan ps) =
     scp_deletable plan @
     filter (\<lambda>p. p \<noteq> [] \<and> \<not> list_ex (at_or_below p) (sci_libraryRoots input) \<and>
                 list_ex (at_or_below p) (sci_stagingRoots input)) ps"
  "scp_kept (foldl (cleanup_step input) plan ps) =
     scp_kept plan @
     map (\<lambda>p. (p, if list_ex (at_or_below p) (sci_libraryRoots input) then In_library
                  else Outside_staging))
       (filter (\<lambda>p. p \<noteq> [] \<and> (list_ex (at_or_below p) (sci_libraryRoots input) \<or>
                              \<not> list_ex (at_or_below p) (sci_stagingRoots input))) ps)"
  by (induction ps arbitrary: plan) (simp_all add: cleanup_step_def isWithinRoot_segments)

lemmas planStagingCleanup_eq =
  cleanup_fold [of input "\<lparr> scp_deletable = [], scp_kept = [] \<rparr>" "sci_paths input" for input,
    folded planStagingCleanup_def, simplified]

text \<open>
  C7. No library file is ever deleted. A path of an aged-out torrent is planned for deletion
  exactly when it is non-empty, its segments continue those of a staging root and those of no
  library root; every other non-empty path is kept, with its reason, and none is dropped or
  counted twice. Library containment wins even where a root is both a library and a staging root,
  and a folder whose name only starts like a root's is outside it. Letter case is ignored, as in
  the code.
\<close>

theorem planStagingCleanup_safe:
  "(p \<in> set (scp_deletable (planStagingCleanup input)) \<longleftrightarrow>
      p \<in> set (sci_paths input) \<and> p \<noteq> [] \<and>
      (\<exists>r\<in>set (sci_stagingRoots input). at_or_below p r) \<and>
      \<not> (\<exists>r\<in>set (sci_libraryRoots input). at_or_below p r)) \<and>
   ((p, why) \<in> set (scp_kept (planStagingCleanup input)) \<longleftrightarrow>
      p \<in> set (sci_paths input) \<and> p \<noteq> [] \<and>
      (if \<exists>r\<in>set (sci_libraryRoots input). at_or_below p r then why = In_library
       else \<not> (\<exists>r\<in>set (sci_stagingRoots input). at_or_below p r) \<and> why = Outside_staging)) \<and>
   length (scp_deletable (planStagingCleanup input)) + length (scp_kept (planStagingCleanup input)) =
     length (filter (\<lambda>p. p \<noteq> []) (sci_paths input))"
proof (intro conjI)
  let ?lib = "\<lambda>p. list_ex (at_or_below p) (sci_libraryRoots input)"
  let ?stg = "\<lambda>p. list_ex (at_or_below p) (sci_stagingRoots input)"
  have "length (filter (\<lambda>p. p \<noteq> [] \<and> \<not> ?lib p \<and> ?stg p) ps) +
        length (filter (\<lambda>p. p \<noteq> [] \<and> (?lib p \<or> \<not> ?stg p)) ps) =
        length (filter (\<lambda>p. p \<noteq> []) ps)" for ps
    by (induction ps) auto
  then show "length (scp_deletable (planStagingCleanup input)) +
      length (scp_kept (planStagingCleanup input)) = length (filter (\<lambda>p. p \<noteq> []) (sci_paths input))"
    by (simp add: planStagingCleanup_eq)
qed (auto simp: planStagingCleanup_eq list_ex_iff image_iff)

end
