(* ===== verification/Sched_Preview.thy ===== *)
theory Sched_Preview
  imports Sched_Planner Sched_Scopes
begin

text \<open>
  From the stored rows to a plan: the capability table
  (\<^verbatim>\<open>scheduler-capability.service.ts\<close>), the operator's overrides in force
  (\<^verbatim>\<open>scheduler-override.service.ts\<close>, \<^verbatim>\<open>active\<close>) and
  \<^verbatim>\<open>scheduler-preview.service.ts\<close>, which loads an engine's rows, classifies and scores
  every torrent, resolves its policy and hands the result to the planner. A database query is
  the filter and the order its \<^verbatim>\<open>where\<close> and \<^verbatim>\<open>orderBy\<close> state, over the list of the
  table's rows.

  The lemmas carry the planner's guarantees to the stored data: whose pause may be undone,
  which instructions of an operator hold, and what a null column of a policy means.
\<close>

section \<open>Capabilities per engine kind\<close>

datatype engine_kind = Qbittorrent | Rtorrent | Other_kind

definition byKind_qbittorrent :: torrent_queue_capabilities where
  "byKind_qbittorrent = unknown_queue_capabilities
     \<lparr> cap_pause := Native, cap_resume := Native, cap_queuePosition := Native,
       cap_forceStart := Native, cap_reportsQueuedState := Native,
       cap_ratioReporting := Native,
       cap_perTorrentDownloadRateLimit := Native, cap_perTorrentUploadRateLimit := Native,
       cap_globalDownloadRateLimit := Native, cap_globalUploadRateLimit := Native,
       cap_activeDownloadLimit := Unsupported, cap_activeSeedLimit := Unsupported,
       cap_totalActiveLimit := Unsupported,
       cap_nativeQueueModel := QueueSeparateDownloadSeed \<rparr>"

definition byKind_rtorrent :: torrent_queue_capabilities where
  "byKind_rtorrent = unknown_queue_capabilities
     \<lparr> cap_pause := Native, cap_resume := Native, cap_forceStart := Approximated,
       cap_reportsQueuedState := Unsupported, cap_ratioReporting := Native,
       cap_perTorrentDownloadRateLimit := Native, cap_perTorrentUploadRateLimit := Native,
       cap_globalDownloadRateLimit := Native, cap_globalUploadRateLimit := Native,
       cap_nativeQueueModel := QueueProviderSpecific \<rparr>"

fun capabilities_for :: "engine_kind \<Rightarrow> torrent_queue_capabilities" where
  "capabilities_for Qbittorrent = byKind_qbittorrent"
| "capabilities_for Rtorrent = byKind_rtorrent"
| "capabilities_for Other_kind = unknown_queue_capabilities"


section \<open>Rows\<close>

datatype override_kind = OK_protect_from_pause | OK_protect_from_removal | OK_exclude | OK_force_start

record override_row =
  ov_engineId :: string
  ov_hash :: string
  ov_kind :: override_kind
  ov_expiresAt :: "time option"
  ov_clearedAt :: "time option"
  ov_reason :: "string option"
  ov_createdBy :: "string option"

record state_row =
  st_engineId :: string
  st_hash :: string
  st_schedulerPausedAt :: "time option"
  st_reasonCode :: "string option"
  st_lastActionAt :: "time option"

record policy_row =
  row_id :: string
  row_name :: string
  row_enabled :: bool
  row_scopeType :: policy_scope_type
  row_scopeId :: "string option"
  row_maxConcurrentDownloads :: "int option"
  row_maxConcurrentSeeds :: "int option"
  row_maxTotalActive :: "int option"
  row_maxDownloadRateKbps :: "int option"
  row_maxUploadRateKbps :: "int option"
  row_reserveDownloadBandwidthPercent :: "int option"
  row_reserveSeedBandwidthPercent :: "int option"
  row_seedPolicy :: "seeding_policy option"
  row_createdAt :: time

record window_row =
  wr_id :: string
  wr_name :: string
  wr_enabled :: bool
  wr_daysOfWeek :: "int list"
  wr_startMinute :: int
  wr_endMinute :: int
  wr_timeZone :: string
  wr_priority :: int
  wr_maxConcurrentDownloads :: "int option"
  wr_maxConcurrentSeeds :: "int option"
  wr_maxTotalActive :: "int option"
  wr_maxDownloadRateKbps :: "int option"
  wr_maxUploadRateKbps :: "int option"
  wr_allowNewDownloads :: bool

record snapshot_row =
  sn_engineId :: string
  sn_hash :: string
  sn_name :: string
  sn_state :: torrent_state
  sn_progress :: rat
  sn_size :: int
  sn_uploaded :: int
  sn_ratio :: rat
  sn_downloadRate :: int
  sn_uploadRate :: int
  sn_savePath :: string
  sn_label :: "string option"
  sn_categoryId :: "string option"
  sn_addedAt :: "time option"
  sn_completedAt :: "time option"

record intake_row =
  ij_engineId :: string
  ij_torrentHash :: "string option"
  ij_state :: string
  ij_mediaItemId :: "string option"
  ij_libraryId :: "string option"

record library_row = library_root +
  lr_isEnabled :: bool

record scheduler_db =
  db_policies :: "policy_row list"
  db_windows :: "window_row list"
  db_overrides :: "override_row list"
  db_states :: "state_row list"
  db_snapshots :: "snapshot_row list"
  db_parked :: "(string \<times> string) list"
  db_intakeJobs :: "intake_row list"
  db_libraries :: "library_row list"
  db_ruleMatches :: "rule_match_row list"
  db_categories :: "(string \<times> string) list"


section \<open>Loading\<close>

text \<open>A nullable column passed on as it is: null is the explicit-unlimited value.\<close>

fun column :: "'a option \<Rightarrow> 'a setting" where
  "column None = Unlimited"
| "column (Some v) = Limit v"

text \<open>A column passed with \<^verbatim>\<open>?? undefined\<close>: null inherits.\<close>

fun column_or_inherit :: "'a option \<Rightarrow> 'a setting" where
  "column_or_inherit None = Inherit"
| "column_or_inherit (Some v) = Limit v"

definition load_policy :: "policy_row \<Rightarrow> scheduling_policy" where
  "load_policy r =
     \<lparr> pol_id = row_id r, pol_name = row_name r, pol_enabled = row_enabled r,
       pol_scope = \<lparr> scope_type = row_scopeType r, scope_id = row_scopeId r \<rparr>,
       pol_maxConcurrentDownloads = column (row_maxConcurrentDownloads r),
       pol_maxConcurrentSeeds = column (row_maxConcurrentSeeds r),
       pol_maxTotalActive = column (row_maxTotalActive r),
       pol_maxDownloadRateKbps = column (row_maxDownloadRateKbps r),
       pol_maxUploadRateKbps = column (row_maxUploadRateKbps r),
       pol_reserveDownloadBandwidthPercent =
         column_or_inherit (row_reserveDownloadBandwidthPercent r),
       pol_reserveSeedBandwidthPercent = column_or_inherit (row_reserveSeedBandwidthPercent r),
       pol_seedPolicy = column_or_inherit (row_seedPolicy r),
       pol_activeScheduleId = Inherit \<rparr>"

definition loadPolicies :: "scheduler_db \<Rightarrow> scheduling_policy list" where
  "loadPolicies db =
     map load_policy (js_sort (key_cmp row_createdAt) (filter row_enabled (db_policies db)))"

definition load_window :: "window_row \<Rightarrow> schedule_window" where
  "load_window w =
     \<lparr> win_id = wr_id w, win_name = wr_name w, win_enabled = wr_enabled w,
       win_daysOfWeek = map of_int (wr_daysOfWeek w),
       win_startMinute = of_int (wr_startMinute w), win_endMinute = of_int (wr_endMinute w),
       win_timeZone = wr_timeZone w, win_priority = wr_priority w,
       win_maxConcurrentDownloads = column (wr_maxConcurrentDownloads w),
       win_maxConcurrentSeeds = column (wr_maxConcurrentSeeds w),
       win_maxTotalActive = column (wr_maxTotalActive w),
       win_maxDownloadRateKbps = column (wr_maxDownloadRateKbps w),
       win_maxUploadRateKbps = column (wr_maxUploadRateKbps w),
       win_allowNewDownloads = Some (wr_allowNewDownloads w) \<rparr>"

text \<open>The overrides in force: neither revoked nor expired.\<close>

definition override_active :: "string \<Rightarrow> time \<Rightarrow> override_row \<Rightarrow> bool" where
  "override_active engineId now r =
     (ov_engineId r = engineId \<and> ov_clearedAt r = None \<and>
      (case ov_expiresAt r of None \<Rightarrow> True | Some e \<Rightarrow> now < e))"

definition add_override ::
  "(string \<rightharpoonup> override_kind set) \<Rightarrow> override_row \<Rightarrow> (string \<rightharpoonup> override_kind set)" where
  "add_override byHash r =
     (let key = to_lower (ov_hash r)
      in byHash(key \<mapsto> insert (ov_kind r) (case byHash key of None \<Rightarrow> {} | Some s \<Rightarrow> s)))"

definition active_overrides ::
  "scheduler_db \<Rightarrow> string \<Rightarrow> time \<Rightarrow> (string \<rightharpoonup> override_kind set)" where
  "active_overrides db engineId now =
     foldl add_override Map.empty (filter (override_active engineId now) (db_overrides db))"

text \<open>\<^verbatim>\<open>new Map(pairs)\<close>: the last pair of a key wins.\<close>

definition js_map :: "('k \<times> 'v) list \<Rightarrow> ('k \<rightharpoonup> 'v)" where
  "js_map kvs = map_of (rev kvs)"

record preview_env = planner_env +
  env_intl :: intl_clock
  env_cwd :: string

definition imported_states :: "string list" where
  "imported_states =
     [''imported'', ''metadata_ready'', ''artwork_ready'', ''subtitle_ready'', ''seeding'',
      ''archived'']"

record engine_rows =
  er_snapshots :: "snapshot_row list"
  er_policies :: "scheduling_policy list"
  er_parkedHashes :: "string set"
  er_ourPauses :: "string \<rightharpoonup> time option"
  er_intake :: "string \<rightharpoonup> intake_row"
  er_libraries :: "library_root list"
  er_ruleByHash :: "string \<rightharpoonup> string"
  er_windows :: "schedule_window list"
  er_overrides :: "string \<rightharpoonup> override_kind set"
  er_categoryNames :: "string \<rightharpoonup> string"

definition load_engine :: "scheduler_db \<Rightarrow> string \<Rightarrow> time \<Rightarrow> engine_rows" where
  "load_engine db engineId now =
     (let snapshots = filter (\<lambda>s. sn_engineId s = engineId) (db_snapshots db);
          hashes = map sn_hash snapshots;
          states = filter (\<lambda>s. st_engineId s = engineId \<and> st_schedulerPausedAt s \<noteq> None)
                     (db_states db);
          jobs = filter (\<lambda>j. ij_engineId j = engineId \<and>
                   (case ij_torrentHash j of None \<Rightarrow> False | Some h \<Rightarrow> h \<in> set hashes))
                   (db_intakeJobs db);
          matches = filter (\<lambda>m. rm_actionTaken m = Some ''download'' \<and>
                      (case rm_torrentHash m of None \<Rightarrow> False
                       | Some h \<Rightarrow> h \<in> set (hashCaseVariants hashes)))
                      (db_ruleMatches db)
      in \<lparr> er_snapshots = snapshots,
           er_policies = loadPolicies db,
           er_parkedHashes =
             set (map (\<lambda>(e, h). to_lower h) (filter (\<lambda>(e, h). e = engineId) (db_parked db))),
           er_ourPauses = js_map (map (\<lambda>s. (to_lower (st_hash s), st_lastActionAt s)) states),
           er_intake = js_map (map (\<lambda>j. (to_lower (the (ij_torrentHash j)), j))
             (filter (\<lambda>j. ij_torrentHash j \<noteq> None \<and> ij_torrentHash j \<noteq> Some []) jobs)),
           er_libraries = map library_root.truncate (filter lr_isEnabled (db_libraries db)),
           er_ruleByHash = rulesByTorrentHash matches,
           er_windows = map load_window (filter wr_enabled (db_windows db)),
           er_overrides = active_overrides db engineId now,
           er_categoryNames = js_map (db_categories db) \<rparr>)"

definition overrides_of :: "engine_rows \<Rightarrow> snapshot_row \<Rightarrow> override_kind set" where
  "overrides_of rows s =
     (case er_overrides rows (to_lower (sn_hash s)) of None \<Rightarrow> {} | Some ks \<Rightarrow> ks)"

definition classify_snapshot ::
  "engine_rows \<Rightarrow> torrent_queue_capabilities \<Rightarrow> snapshot_row \<Rightarrow> occupancy_class" where
  "classify_snapshot rows caps s =
     cl_occupancy (classify
       \<lparr> ci_state = sn_state s, ci_progress = sn_progress s,
         ci_downloadRate = of_int (sn_downloadRate s), ci_uploadRate = of_int (sn_uploadRate s),
         ci_schedulerPaused = (er_ourPauses rows (to_lower (sn_hash s)) \<noteq> None),
         ci_userPaused = False,
         ci_parked = (to_lower (sn_hash s) \<in> er_parkedHashes rows),
         ci_forceStarted = False \<rparr> caps)"

definition snapshot_policy ::
  "preview_env \<Rightarrow> engine_rows \<Rightarrow> string \<Rightarrow> time \<Rightarrow> snapshot_row \<Rightarrow> scheduled_policy" where
  "snapshot_policy env rows engineId now s =
     (let job = er_intake rows (to_lower (sn_hash s)) in
      applySchedule (env_intl env) (env_collate env)
        (resolveEffectivePolicy (er_policies rows)
           \<lparr> ctx_torrentHash = sn_hash s, ctx_engineId = engineId,
             ctx_libraryId = or_else (case job of None \<Rightarrow> None | Some j \<Rightarrow> ij_libraryId j)
               (libraryForPath (env_cwd env) (Some (sn_savePath s)) (er_libraries rows)),
             ctx_categoryId = sn_categoryId s,
             ctx_rssRuleId = er_ruleByHash rows (to_lower (sn_hash s)) \<rparr>)
        (er_windows rows) now)"

definition score_snapshot :: "time \<Rightarrow> snapshot_row \<Rightarrow> torrent_priority_decision" where
  "score_snapshot now s = scoreTorrent
     \<lparr> pf_torrentHash = sn_hash s, pf_userPriority = None, pf_forceStarted = False,
       pf_protectedFromPause = False, pf_progress = sn_progress s,
       pf_ageMinutes = map_option (\<lambda>a. of_int (now - a) / 60000) (sn_addedAt s),
       pf_waitingMinutes = None, pf_seeders = None, pf_isPrivate = False, pf_wanted = False,
       pf_upgrade = False, pf_intakePending = False \<rparr>"

definition to_planner_torrent ::
  "preview_env \<Rightarrow> engine_rows \<Rightarrow> torrent_queue_capabilities \<Rightarrow> string \<Rightarrow> time \<Rightarrow> snapshot_row \<Rightarrow>
   planner_torrent" where
  "to_planner_torrent env rows caps engineId now s =
     (let ov = overrides_of rows s;
          job = er_intake rows (to_lower (sn_hash s));
          imported = (case job of None \<Rightarrow> False | Some j \<Rightarrow> ij_state j \<in> set imported_states);
          policy = snapshot_policy env rows engineId now s
      in \<lparr> pt_hash = sn_hash s, pt_engineId = engineId,
           pt_occupancy = (if OK_exclude \<in> ov then Excluded else classify_snapshot rows caps s),
           pt_decision = score_snapshot now s,
           pt_policy = effective_policy.truncate policy,
           pt_addedAt = sn_addedAt s,
           pt_protectedFromPause = (OK_protect_from_pause \<in> ov),
           pt_forceStarted = (OK_force_start \<in> ov),
           pt_lastActionAt = (case er_ourPauses rows (to_lower (sn_hash s)) of
                                None \<Rightarrow> None | Some l \<Rightarrow> l),
           pt_complete = (sn_progress s \<ge> 1),
           pt_ratio = Some (sn_ratio s), pt_sizeBytes = Some (of_int (sn_size s)),
           pt_uploadedBytes = Some (of_int (sn_uploaded s)), pt_tracker = None,
           pt_category = (case sn_categoryId s of
                            None \<Rightarrow> None
                          | Some c \<Rightarrow> if c = [] then None else er_categoryNames rows c),
           pt_label = sn_label s, pt_isPrivate = None, pt_name = Some (sn_name s),
           pt_libraryId = None, pt_seedMinutes = None, pt_completedAt = sn_completedAt s,
           pt_intakeImported = Some imported,
           pt_libraryCopyVerified = Some (imported \<and>
             (case job of None \<Rightarrow> False
              | Some j \<Rightarrow> ij_mediaItemId j \<noteq> None \<and> ij_mediaItemId j \<noteq> Some [])),
           pt_protectedFromRemoval = (OK_protect_from_removal \<in> ov),
           pt_allowNewDownloads = Some (sched_allowNewDownloads policy) \<rparr>)"

definition preview_torrents ::
  "preview_env \<Rightarrow> scheduler_db \<Rightarrow> torrent_queue_capabilities \<Rightarrow> string \<Rightarrow> time \<Rightarrow>
   planner_torrent list" where
  "preview_torrents env db caps engineId now =
     (let rows = load_engine db engineId now
      in map (to_planner_torrent env rows caps engineId now) (er_snapshots rows))"

text \<open>The registry answers the kind of a known engine; an unknown one has no plan.\<close>

definition previewEngine ::
  "preview_env \<Rightarrow> (string \<rightharpoonup> engine_kind) \<Rightarrow> scheduler_db \<Rightarrow> string \<Rightarrow> time \<Rightarrow>
   engine_activity_plan option" where
  "previewEngine env registry db engineId now =
     (case registry engineId of
        None \<Rightarrow> None
      | Some kind \<Rightarrow>
          (let caps = capabilities_for kind
           in Some (planEngine (planner_env.truncate env) engineId
                (preview_torrents env db caps engineId now) caps
                \<lparr> po_now = now, po_minimumActiveSeconds = None,
                  po_priorityDisplacementThreshold = None, po_maxActionsPerSweep = None \<rparr>)))"



section \<open>Reading the loaded rows\<close>

definition in_force :: "scheduler_db \<Rightarrow> string \<Rightarrow> time \<Rightarrow> string \<Rightarrow> override_kind \<Rightarrow> bool" where
  "in_force db engineId now h k \<longleftrightarrow>
     (\<exists>r\<in>set (db_overrides db). override_active engineId now r \<and>
        to_lower (ov_hash r) = to_lower h \<and> ov_kind r = k)"

definition scheduler_holds :: "scheduler_db \<Rightarrow> string \<Rightarrow> string \<Rightarrow> bool" where
  "scheduler_holds db engineId h \<longleftrightarrow>
     (\<exists>r\<in>set (db_states db). st_engineId r = engineId \<and> to_lower (st_hash r) = to_lower h \<and>
        st_schedulerPausedAt r \<noteq> None)"

definition is_parked :: "scheduler_db \<Rightarrow> string \<Rightarrow> string \<Rightarrow> bool" where
  "is_parked db engineId h \<longleftrightarrow> (\<exists>h'. (engineId, h') \<in> set (db_parked db) \<and> to_lower h' = to_lower h)"

lemma add_override_fold:
  "k \<in> (case foldl add_override m rs key of None \<Rightarrow> {} | Some ks \<Rightarrow> ks) \<longleftrightarrow>
     k \<in> (case m key of None \<Rightarrow> {} | Some ks \<Rightarrow> ks) \<or>
     (\<exists>r\<in>set rs. to_lower (ov_hash r) = key \<and> ov_kind r = k)"
proof (induction rs arbitrary: m)
  case (Cons r rs)
  have "k \<in> (case add_override m r key of None \<Rightarrow> {} | Some ks \<Rightarrow> ks) \<longleftrightarrow>
        k \<in> (case m key of None \<Rightarrow> {} | Some ks \<Rightarrow> ks) \<or>
        to_lower (ov_hash r) = key \<and> ov_kind r = k"
    by (auto simp: add_override_def Let_def split: option.splits)
  then show ?case using Cons [of "add_override m r"] by auto
qed simp

lemma overrides_of_iff:
  "k \<in> overrides_of (load_engine db e now) s \<longleftrightarrow> in_force db e now (sn_hash s) k"
  unfolding overrides_of_def load_engine_def Let_def
  by (auto simp: active_overrides_def add_override_fold in_force_def)

lemma js_map_None_iff: "js_map kvs k = None \<longleftrightarrow> k \<notin> fst ` set kvs"
  by (simp add: js_map_def map_of_eq_None_iff)

lemma ourPauses_iff:
  "er_ourPauses (load_engine db e now) (to_lower h) \<noteq> None \<longleftrightarrow> scheduler_holds db e h"
  by (auto simp: load_engine_def Let_def js_map_None_iff scheduler_holds_def image_iff)

lemma parked_iff: "to_lower h \<in> er_parkedHashes (load_engine db e now) \<longleftrightarrow> is_parked db e h"
proof -
  have "to_lower h \<in> er_parkedHashes (load_engine db e now) \<longleftrightarrow>
        (\<exists>x\<in>set (db_parked db). fst x = e \<and> to_lower (snd x) = to_lower h)"
    by (force simp: load_engine_def Let_def image_iff case_prod_unfold)
  then show ?thesis by (force simp: is_parked_def)
qed

lemma snapshots_load [simp]:
  "er_snapshots (load_engine db e now) = filter (\<lambda>s. sn_engineId s = e) (db_snapshots db)"
  by (simp add: load_engine_def Let_def)

lemmas to_planner_simps = to_planner_torrent_def Let_def overrides_of_iff

lemma classify_parked: "ci_parked i \<Longrightarrow> cl_occupancy (classify i caps) = Parked"
  by (simp add: classify_def Let_def)

lemma occupancy_facts:
  fixes s db e now env caps
  defines "t \<equiv> to_planner_torrent env (load_engine db e now) caps e now s"
  assumes "\<not> is_untouchable t"
  shows "\<not> in_force db e now (sn_hash s) OK_exclude" and "\<not> is_parked db e (sn_hash s)"
    and "isResumable (pt_occupancy t) \<Longrightarrow>
         sn_state s = TS_QUEUED \<or>
         (sn_state s = TS_PAUSED \<or> sn_state s = TS_STOPPED) \<and> scheduler_holds db e (sn_hash s)"
proof -
  show excl: "\<not> in_force db e now (sn_hash s) OK_exclude"
    using assms(2) by (auto simp: t_def to_planner_simps is_untouchable_def)
  show "\<not> is_parked db e (sn_hash s)"
  proof
    assume "is_parked db e (sn_hash s)"
    then have "classify_snapshot (load_engine db e now) caps s = Parked"
      by (simp add: classify_snapshot_def classify_parked parked_iff)
    then show False using assms(2) excl by (auto simp: t_def to_planner_simps is_untouchable_def)
  qed
  show "sn_state s = TS_QUEUED \<or>
        (sn_state s = TS_PAUSED \<or> sn_state s = TS_STOPPED) \<and> scheduler_holds db e (sn_hash s)"
    if "isResumable (pt_occupancy t)"
    using that excl
    using ourPauses_iff [of db e now "sn_hash s"]
    by (auto simp: t_def to_planner_simps classify_snapshot_def classify_resumable_spec)
qed

lemma resumable_touchable: "isResumable (pt_occupancy t) \<Longrightarrow> \<not> is_untouchable t"
  by (auto simp: is_untouchable_def occ_simps)

text \<open>
  C12. The operator's word is final. Whenever the plan of an engine changes a torrent, that
  torrent is neither excluded nor parked; a pause is undone only if the engine queued the
  torrent or the scheduler recorded that pause as its own; a torrent protected from pausing is
  neither paused nor removed, and one protected from removal is not removed.
\<close>

theorem previewEngine_respects_operator:
  assumes "previewEngine env registry db e now = Some plan"
    and "d \<in> set (eap_decisions plan)" and "td_action d \<noteq> Act_none"
  shows "\<exists>s\<in>set (db_snapshots db). sn_engineId s = e \<and> sn_hash s = td_hash d \<and>
    \<not> in_force db e now (sn_hash s) OK_exclude \<and> \<not> is_parked db e (sn_hash s) \<and>
    (td_action d = Act_resume \<longrightarrow>
       sn_state s = TS_QUEUED \<or>
       (sn_state s = TS_PAUSED \<or> sn_state s = TS_STOPPED) \<and> scheduler_holds db e (sn_hash s)) \<and>
    (td_action d = Act_pause \<or> td_action d = Act_remove_and_cleanup \<longrightarrow>
       \<not> in_force db e now (sn_hash s) OK_protect_from_pause) \<and>
    (td_action d = Act_remove_and_cleanup \<longrightarrow>
       \<not> in_force db e now (sn_hash s) OK_protect_from_removal)"
proof -
  obtain kind where kind: "registry e = Some kind"
    using assms(1) by (auto simp: previewEngine_def split: option.splits)
  define caps where "caps = capabilities_for kind"
  have plan: "plan = planEngine (planner_env.truncate env) e (preview_torrents env db caps e now) caps
      \<lparr> po_now = now, po_minimumActiveSeconds = None,
        po_priorityDisplacementThreshold = None, po_maxActionsPerSweep = None \<rparr>"
    using assms(1) kind by (simp add: previewEngine_def caps_def Let_def)
  obtain t pre where t: "t \<in> set (preview_torrents env db caps e now)" "about t d"
    and just: "justified (planner_env.truncate env)
      (with_defaults \<lparr> po_now = now, po_minimumActiveSeconds = None,
        po_priorityDisplacementThreshold = None, po_maxActionsPerSweep = None \<rparr>)
      (engine_caps_of (preview_torrents env db caps e now)) pre t (td_action d) (td_desiredState d)"
    using planEngine_decision_about [OF assms(2) [unfolded plan]] assms(3) by metis
  obtain s where s: "s \<in> set (db_snapshots db)" "sn_engineId s = e"
    and ts: "t = to_planner_torrent env (load_engine db e now) caps e now s"
    using t(1) by (auto simp: preview_torrents_def Let_def)
  have hash: "sn_hash s = td_hash d" using t(2) by (simp add: ts about_def to_planner_simps)
  have touch: "\<not> is_untouchable t"
    using just assms(3) resumable_touchable [of t] by (cases "td_action d") (auto simp: may_start_def)
  have res: "td_action d = Act_resume \<Longrightarrow> isResumable (pt_occupancy t)"
    using just by (simp add: may_start_def)
  have prot: "td_action d = Act_pause \<or> td_action d = Act_remove_and_cleanup \<Longrightarrow> \<not> pt_protectedFromPause t"
    "td_action d = Act_remove_and_cleanup \<Longrightarrow> \<not> pt_protectedFromRemoval t"
    using just by (auto simp: seeding_ends_def seed_target_applies_def)
  show ?thesis
    using s hash prot res
      occupancy_facts [OF touch [unfolded ts]]
    by (intro bexI [of _ s]) (auto simp: ts to_planner_simps)
qed


section \<open>What a stored policy can say\<close>

text \<open>
  A stored limit is always set, because its null column reads as explicit unlimited. So every
  limit comes from one row: the most specific applicable policy of all, whether or not its
  author gave that limit.
\<close>

lemma column_is_set [simp]: "is_set (column v)"
  by (cases v) simp_all

lemma setting_value_column [simp]: "setting_value (column v) = v"
  by (cases v) simp_all

lemma load_policy_limits_set [simp]:
  "is_set (pol_maxConcurrentDownloads (load_policy r))"
  "is_set (pol_maxConcurrentSeeds (load_policy r))"
  "is_set (pol_maxTotalActive (load_policy r))"
  "is_set (pol_maxDownloadRateKbps (load_policy r))"
  "is_set (pol_maxUploadRateKbps (load_policy r))"
  by (simp_all add: load_policy_def)

definition stored_limits :: "policy_row \<Rightarrow> int option list" where
  "stored_limits r =
     [row_maxConcurrentDownloads r, row_maxConcurrentSeeds r, row_maxTotalActive r,
      row_maxDownloadRateKbps r, row_maxUploadRateKbps r]"

definition effective_limits :: "effective_policy \<Rightarrow> int option list" where
  "effective_limits e =
     [ep_maxConcurrentDownloads e, ep_maxConcurrentSeeds e, ep_maxTotalActive e,
      ep_maxDownloadRateKbps e, ep_maxUploadRateKbps e]"

definition applicable_rows ::
  "scheduler_db \<Rightarrow> policy_match_context \<Rightarrow> policy_row list" where
  "applicable_rows db ctx =
     filter (\<lambda>r. scope_matches (pol_scope (load_policy r)) ctx)
       (js_sort (key_cmp row_createdAt) (filter row_enabled (db_policies db)))"

lemma applicable_loaded:
  "applicable_policies (loadPolicies db) ctx = map load_policy (applicable_rows db ctx)"
  unfolding applicable_policies_def loadPolicies_def applicable_rows_def filter_map
  by (intro arg_cong [where f = "map load_policy"] filter_cong)
    (auto simp: load_policy_def)

lemma is_first_min_map:
  assumes "is_first_min (\<lambda>x. rank (f x)) xs w"
  shows "is_first_min rank (map f xs) (f w)"
proof -
  obtain us vs where "xs = us @ w # vs" "\<forall>u\<in>set us. rank (f w) < rank (f u)"
      "\<forall>v\<in>set vs. rank (f w) \<le> rank (f v)"
    using assms by (auto simp: is_first_min_def)
  then show ?thesis
    unfolding is_first_min_def by (intro exI [of _ "map f us"] exI [of _ "map f vs"]) auto
qed

lemma first_min_exists: "xs \<noteq> [] \<Longrightarrow> \<exists>w. is_first_min rank xs w"
proof (induction xs rule: rev_induct)
  case (snoc x xs)
  show ?case
  proof (cases "xs = []")
    case False
    then obtain w where "is_first_min rank xs w" using snoc by blast
    then show ?thesis
      by (metis is_first_min_keep is_first_min_replace not_le)
  next
    case True
    then show ?thesis using is_first_min_single [of rank x] by auto
  qed
qed simp

lemma stored_field_value:
  assumes "\<And>r. get (load_policy r) = column (col r)"
    and "is_first_min (\<lambda>r. scope_rank (load_policy r)) (applicable_rows db ctx) w"
  shows "field_value get (applicable_policies (loadPolicies db) ctx) = col w"
proof -
  have set: "setters get (loadPolicies db) ctx = map load_policy (applicable_rows db ctx)"
    by (simp add: setters_def applicable_loaded filter_map comp_def assms(1))
  have "is_first_min scope_rank (map load_policy (applicable_rows db ctx)) (load_policy w)"
    using assms(2) by (rule is_first_min_map)
  then have "field_winner get (applicable_policies (loadPolicies db) ctx) = Some (load_policy w)"
    using field_winner_first_min [of get "loadPolicies db" ctx]
      field_winner_None_iff [of get "loadPolicies db" ctx] set
    by (metis is_first_min_unique is_first_min_in option.exhaust list.distinct(1) split_list
        Nil_is_append_conv)
  then show ?thesis by (simp add: field_value_def assms(1))
qed

text \<open>
  Stored limits do not inherit. For the policies as the database returns them, all five
  limits of a torrent's effective policy are the columns of one row, the most specific enabled
  policy that applies to it: a null column there is taken as explicitly unlimited, and the
  limit that a broader policy states is never consulted.
\<close>

theorem stored_limits_never_inherit:
  assumes "applicable_rows db ctx \<noteq> []"
  shows "\<exists>w. is_first_min (\<lambda>r. scope_rank (load_policy r)) (applicable_rows db ctx) w \<and>
             effective_limits (resolveEffectivePolicy (loadPolicies db) ctx) = stored_limits w"
proof -
  obtain w where w: "is_first_min (\<lambda>r. scope_rank (load_policy r)) (applicable_rows db ctx) w"
    using first_min_exists [OF assms] by blast
  have "effective_limits (resolveEffectivePolicy (loadPolicies db) ctx) = stored_limits w"
    using w by (auto simp: effective_limits_def stored_limits_def resolveEffectivePolicy_def Let_def
        load_policy_def intro!: stored_field_value)
  with w show ?thesis by blast
qed

definition demo_row :: "string \<Rightarrow> policy_scope_type \<Rightarrow> string option \<Rightarrow> int option \<Rightarrow> int option \<Rightarrow> policy_row" where
  "demo_row i ty sid downloads rate =
     \<lparr> row_id = i, row_name = i, row_enabled = True, row_scopeType = ty, row_scopeId = sid,
       row_maxConcurrentDownloads = downloads, row_maxConcurrentSeeds = None,
       row_maxTotalActive = None, row_maxDownloadRateKbps = rate, row_maxUploadRateKbps = None,
       row_reserveDownloadBandwidthPercent = None, row_reserveSeedBandwidthPercent = None,
       row_seedPolicy = None, row_createdAt = 0 \<rparr>"

definition demo_db :: scheduler_db where
  "demo_db =
     \<lparr> db_policies = [demo_row ''g'' Scope_global None (Some 3) None,
                      demo_row ''e'' Scope_engine (Some ''e1'') None (Some 500)],
       db_windows = [], db_overrides = [], db_states = [],
       db_snapshots =
         [\<lparr> sn_engineId = ''e1'', sn_hash = ''a1'', sn_name = ''A'', sn_state = TS_QUEUED,
            sn_progress = 0, sn_size = 1, sn_uploaded = 0, sn_ratio = 0, sn_downloadRate = 0,
            sn_uploadRate = 0, sn_savePath = ''/d'', sn_label = None, sn_categoryId = None,
            sn_addedAt = None, sn_completedAt = None \<rparr>],
       db_parked = [], db_intakeJobs = [], db_libraries = [], db_ruleMatches = [],
       db_categories = [] \<rparr>"

definition demo_ctx :: policy_match_context where
  "demo_ctx = \<lparr> ctx_torrentHash = ''a1'', ctx_engineId = ''e1'', ctx_libraryId = None,
     ctx_categoryId = None, ctx_rssRuleId = None \<rparr>"

lemma demo_applicable:
  "applicable_rows demo_db demo_ctx =
     [demo_row ''g'' Scope_global None (Some 3) None,
      demo_row ''e'' Scope_engine (Some ''e1'') None (Some 500)]"
  by (simp add: applicable_rows_def demo_db_def demo_row_def key_cmp_def load_policy_def
      scope_matches_def demo_ctx_def)

theorem stored_limits_never_inherit_witness:
  "effective_limits (resolveEffectivePolicy (loadPolicies demo_db) demo_ctx) =
     [None, None, None, Some 500, None] \<and>
   row_maxConcurrentDownloads (hd (db_policies demo_db)) = Some 3"
proof -
  have ne: "applicable_rows demo_db demo_ctx \<noteq> []" by (simp add: demo_applicable)
  obtain w where w: "is_first_min (\<lambda>r. scope_rank (load_policy r)) (applicable_rows demo_db demo_ctx) w"
      "effective_limits (resolveEffectivePolicy (loadPolicies demo_db) demo_ctx) = stored_limits w"
    using stored_limits_never_inherit [OF ne] by blast
  let ?e = "demo_row ''e'' Scope_engine (Some ''e1'') None (Some 500)"
  have ranks: "scope_rank (load_policy ?e) = 4"
      "scope_rank (load_policy (demo_row ''g'' Scope_global None (Some 3) None)) = 5"
    by (simp_all add: load_policy_def demo_row_def SCOPE_PRECEDENCE_def)
  have "?e \<in> set (applicable_rows demo_db demo_ctx)" by (simp add: demo_applicable)
  then have "scope_rank (load_policy w) \<le> scope_rank (load_policy ?e)"
    using is_first_min_least [OF w(1)] by blast
  moreover have "w \<in> set (applicable_rows demo_db demo_ctx)" using w(1) by (rule is_first_min_in)
  ultimately have "w = ?e" using ranks by (auto simp: demo_applicable)
  with w(2) show ?thesis by (simp add: stored_limits_def demo_row_def demo_db_def)
qed


section \<open>What the plan cannot see\<close>

text \<open>
  The time of the last action is loaded only for torrents the scheduler holds paused, so a
  running torrent it recently resumed has none and its holding time is the largest number.
\<close>

lemma lastActionAt_held:
  assumes "pt_lastActionAt (to_planner_torrent env (load_engine db e now) caps e now s) \<noteq> None"
  shows "scheduler_holds db e (sn_hash s)"
  using assms ourPauses_iff [of db e now "sn_hash s"]
  by (auto simp: to_planner_torrent_def Let_def split: option.splits)

lemma heldFor_unheld:
  "\<not> scheduler_holds db e (sn_hash s) \<Longrightarrow>
   heldFor now' (to_planner_torrent env (load_engine db e now) caps e now s) = of_int max_safe_integer"
  using lastActionAt_held [of env db e now caps s] by (auto simp: heldFor_def split: option.splits)

text \<open>The library of a torrent never reaches the conditions, although the catalogue offers it.\<close>

lemma library_condition_undecided:
  "eval_node rt (SC_Leaf ''seed.libraryId'' operator v)
     (seedFactsOf dn (to_planner_torrent env rows caps e now s)) \<noteq> Met"
  by (simp add: seedConditionById_def SEED_CONDITIONS_def sc_def_def seedFactsOf_def
      to_planner_torrent_def Let_def sc_compare_def)


section \<open>A stored engine\<close>

definition demo_preview_env :: preview_env where
  "demo_preview_env =
     \<lparr> env_rt = demo_runtime, env_collate = alnum_collate, env_date_now = 0,
       env_intl = utc_clock, env_cwd = ''/'' \<rparr>"

definition demo_registry :: "string \<rightharpoonup> engine_kind" where
  "demo_registry = [''e1'' \<mapsto> Qbittorrent]"

lemma demo_preview_start:
  "\<exists>plan d. previewEngine demo_preview_env demo_registry demo_db ''e1'' 0 = Some plan \<and>
            d \<in> set (eap_decisions plan) \<and> td_hash d = ''a1'' \<and> td_action d = Act_resume"
  by (simp add: previewEngine_def demo_registry_def byKind_qbittorrent_def canDo_def
      planEngine_def final_sweep_def preview_torrents_def to_planner_torrent_def
      overrides_of_def load_engine_def active_overrides_def demo_db_def is_untouchable_def
      classify_snapshot_def classify_def js_map_def ranked_def orderByPriority_def rank_entry_def
      initial_sweep_def plan_step_def seed_target_applies_def slot_step_def inactive_step_def
      occ_simps snapshot_policy_def applySchedule_def activeWindows_def effective_policy.defs
      scheduled_policy.defs slotFree_def engine_caps_of_def loadPolicies_def key_cmp_def demo_row_def
      load_policy_def resolveEffectivePolicy_def applicable_policies_def scope_matches_def
      field_value_def field_winner_def SCOPE_PRECEDENCE_def withinLimit_def budgetLeft_def
      with_defaults_def occupy_def acted_def push_def decide_def Let_def)

theorem previewEngine_respects_operator_witness:
  "\<exists>s\<in>set (db_snapshots demo_db). sn_hash s = ''a1'' \<and> sn_state s = TS_QUEUED \<and>
     \<not> in_force demo_db ''e1'' 0 ''a1'' OK_exclude"
proof -
  obtain plan d where d: "previewEngine demo_preview_env demo_registry demo_db ''e1'' 0 = Some plan"
      "d \<in> set (eap_decisions plan)" "td_hash d = ''a1''" "td_action d = Act_resume"
    using demo_preview_start by blast
  then have "td_action d \<noteq> Act_none" by simp
  from previewEngine_respects_operator [OF d(1,2) this] show ?thesis
    using d by (auto simp: scheduler_holds_def demo_db_def)
qed

end
