(* ===== verification/Sched_Reconcile.thy ===== *)
theory Sched_Reconcile
  imports Sched_Preview
begin

text \<open>
  Carrying out a plan: \<^verbatim>\<open>scheduler-reconciliation.service.ts\<close> and
  \<^verbatim>\<open>scheduler-cleanup.service.ts\<close>. The engine, the file system and the clock are the
  record \<open>host\<close> of operations on an arbitrary state of the world; a call that throws returns
  \<open>Inl\<close> of its message. The service's own state is the outcome it counts and the rows of
  \<^verbatim>\<open>torrent_scheduler_states\<close>. A database write that fails is not modelled.

  The lemmas show that the outcome accounts for every decision, in which order the engine is
  called, that a pause is recorded as the scheduler's only after the engine confirmed it, and
  that the cleanup touches no file under a library root.
\<close>

section \<open>The world\<close>

record 'w host =
  host_now :: "'w \<Rightarrow> time"
  host_pauseTorrent :: "string \<Rightarrow> 'w \<Rightarrow> (string + unit) \<times> 'w"
  host_resumeTorrent :: "string \<Rightarrow> 'w \<Rightarrow> (string + unit) \<times> 'w"
  host_getTorrent :: "string \<Rightarrow> 'w \<Rightarrow> torrent_state option \<times> 'w"
  host_setGlobalRateLimits :: "(int option \<Rightarrow> int option \<Rightarrow> 'w \<Rightarrow> (string + unit) \<times> 'w) option"
  host_getFiles :: "string \<Rightarrow> 'w \<Rightarrow> (string + string list) \<times> 'w"
  host_removeTorrent :: "string \<Rightarrow> 'w \<Rightarrow> (string + unit) \<times> 'w"
  host_rm :: "string \<Rightarrow> 'w \<Rightarrow> (string + unit) \<times> 'w"
  host_rmdir :: "string \<Rightarrow> 'w \<Rightarrow> (string + unit) \<times> 'w"


section \<open>Cleanup\<close>

record cleanup_outcome =
  co_hash :: string
  co_removed :: bool
  co_deletedFiles :: int
  co_keptFiles :: int
  co_error :: "string option"

record storage_profile =
  sto_stagingRoot :: "string option"
  sto_tempRoot :: "string option"
  sto_failedRoot :: "string option"
  sto_quarantineRoot :: "string option"

definition staging_roots :: "storage_profile list \<Rightarrow> string list" where
  "staging_roots profiles =
     map trim (filter (\<lambda>r. trim r \<noteq> [])
       (concat (map (\<lambda>p. concat (map (\<lambda>o'. case o' of None \<Rightarrow> [] | Some r \<Rightarrow> [r])
          [sto_stagingRoot p, sto_tempRoot p, sto_failedRoot p, sto_quarantineRoot p])) profiles)))"

text \<open>\<^verbatim>\<open>path.join\<close> of two parts: joined by a slash and normalised, the empty path being a dot.\<close>

definition normalize_segments :: "bool \<Rightarrow> string list \<Rightarrow> string list" where
  "normalize_segments isAbs segs =
     foldl (\<lambda>acc seg.
       if seg = [] \<or> seg = ''.'' then acc
       else if seg = ''..'' then
         (if acc = [] \<or> last acc = ''..'' then (if isAbs then acc else acc @ [''..'']) else butlast acc)
       else acc @ [seg]) [] segs"

definition ends_with_slash :: "string \<Rightarrow> bool" where
  "ends_with_slash p = starts_with_slash (rev p)"

definition path_normalize :: "string \<Rightarrow> string" where
  "path_normalize p =
     (let isAbs = starts_with_slash p;
          body = join_with ''/'' (normalize_segments isAbs (split_on (CHR ''/'') p))
      in if p = [] then ''.''
         else if body = [] then
           (if isAbs then ''/'' else if ends_with_slash p then ''./'' else ''.'')
         else (if isAbs then ''/'' else []) @ body @ (if ends_with_slash p then ''/'' else []))"

definition path_join :: "string \<Rightarrow> string \<Rightarrow> string" where
  "path_join a b =
     path_normalize (if a = [] then b else if b = [] then a else a @ ''/'' @ b)"

definition absolute :: "string \<Rightarrow> string \<Rightarrow> string" where
  "absolute savePath filePath =
     (if starts_with_slash filePath then filePath else path_join savePath filePath)"

text \<open>Deleting the planned files: a failed unlink is logged and the rest goes on.\<close>

fun delete_files :: "'w host \<Rightarrow> string list \<Rightarrow> int \<Rightarrow> 'w \<Rightarrow> int \<times> 'w" where
  "delete_files h [] n w = (n, w)"
| "delete_files h (p # ps) n w =
     (case host_rm h p w of
        (Inl err, w') \<Rightarrow> delete_files h ps n w'
      | (Inr _, w') \<Rightarrow> delete_files h ps (n + 1) w')"

definition seg_path :: "string list \<Rightarrow> string" where
  "seg_path segs = ''/'' @ join_with ''/'' segs"

text \<open>
  \<^verbatim>\<open>pruneEmptyDirs\<close>: a directory is its list of segments, innermost first, so that
  climbing is structural; the root directory is the empty list.
\<close>

fun climb :: "'w host \<Rightarrow> string list \<Rightarrow> string list \<Rightarrow> string set \<Rightarrow> 'w \<Rightarrow> string set \<times> 'w" where
  "climb h roots [] seen w = (seen, w)"
| "climb h roots (seg # up) seen w =
     (let dir = seg_path (rev (seg # up)) in
      if dir \<in> seen \<or> dir \<in> set roots then (seen, w)
      else let seen' = insert dir seen in
        if \<not> list_ex (\<lambda>r. dir = r \<or> is_prefix_of (r @ ''/'') dir) roots then (seen', w)
        else (case host_rmdir h dir w of
                (Inl err, w') \<Rightarrow> (seen', w')
              | (Inr _, w') \<Rightarrow> climb h roots up seen' w'))"

fun prune_files ::
  "'w host \<Rightarrow> string \<Rightarrow> string list \<Rightarrow> string list \<Rightarrow> string set \<Rightarrow> 'w \<Rightarrow> 'w" where
  "prune_files h cwd roots [] seen w = w"
| "prune_files h cwd roots (file # files) seen w =
     (case climb h roots (rev (butlast (resolve_segments cwd file))) seen w of
        (seen', w') \<Rightarrow> prune_files h cwd roots files seen' w')"

definition pruneEmptyDirs ::
  "'w host \<Rightarrow> string \<Rightarrow> string list \<Rightarrow> string list \<Rightarrow> 'w \<Rightarrow> 'w" where
  "pruneEmptyDirs h cwd deleted stagingRoots w =
     prune_files h cwd (map (path_resolve cwd) stagingRoots) deleted {} w"

record cleanup_cfg =
  cc_cwd :: string
  cc_resolveError :: "string option"
  cc_savePath :: "string option"
  cc_profiles :: "storage_profile list"
  cc_libraries :: "string list"

definition cleanup_plan_of :: "cleanup_cfg \<Rightarrow> string list \<Rightarrow> staging_cleanup_plan" where
  "cleanup_plan_of cc files =
     planStagingCleanup
       \<lparr> sci_paths = map (absolute (case cc_savePath cc of None \<Rightarrow> [] | Some p \<Rightarrow> p)) files,
         sci_stagingRoots = staging_roots (cc_profiles cc),
         sci_libraryRoots = filter (\<lambda>l. l \<noteq> []) (cc_libraries cc) \<rparr>"

definition cleanup_failed :: "string \<Rightarrow> int \<Rightarrow> int \<Rightarrow> string \<Rightarrow> cleanup_outcome" where
  "cleanup_failed hash n k err =
     \<lparr> co_hash = hash, co_removed = False, co_deletedFiles = n, co_keptFiles = k,
       co_error = Some err \<rparr>"

definition cleanUp ::
  "'w host \<Rightarrow> cleanup_cfg \<Rightarrow> string \<Rightarrow> 'w \<Rightarrow> cleanup_outcome \<times> 'w" where
  "cleanUp h cc hash w =
     (case cc_resolveError cc of
        Some err \<Rightarrow> (cleanup_failed hash 0 0 err, w)
      | None \<Rightarrow>
      case host_getFiles h hash w of
        (Inl err, w1) \<Rightarrow> (cleanup_failed hash 0 0 err, w1)
      | (Inr files, w1) \<Rightarrow>
          (let plan = cleanup_plan_of cc files;
               kept = int (length (scp_kept plan));
               (n, w2) = delete_files h (scp_deletable plan) 0 w1;
               w3 = pruneEmptyDirs h (cc_cwd cc) (scp_deletable plan)
                      (staging_roots (cc_profiles cc)) w2
           in case host_removeTorrent h hash w3 of
                (Inl err, w4) \<Rightarrow> (cleanup_failed hash n kept err, w4)
              | (Inr _, w4) \<Rightarrow>
                  (\<lparr> co_hash = hash, co_removed = True, co_deletedFiles = n, co_keptFiles = kept,
                     co_error = None \<rparr>, w4)))"


section \<open>Reconciliation\<close>

record reconciliation_outcome =
  ro_engineId :: string
  ro_attempted :: int
  ro_applied :: int
  ro_failed :: int
  ro_unverified :: int
  ro_limitations :: "scheduler_limitation list"
  ro_failures :: "(string \<times> string \<times> string) list"

record 'w rec_state =
  rs_out :: reconciliation_outcome
  rs_states :: "state_row list"
  rs_world :: 'w

definition kbpsToBytes :: "int option \<Rightarrow> int option" where
  "kbpsToBytes kbps =
     (case kbps of
        None \<Rightarrow> None
      | Some k \<Rightarrow> Some (max 0 (math_round (of_int k * 1000 / 8))))"

definition same_key :: "string \<Rightarrow> string \<Rightarrow> state_row \<Rightarrow> bool" where
  "same_key engineId hash r = (st_engineId r = engineId \<and> st_hash r = hash)"

definition upsert_state :: "state_row \<Rightarrow> state_row list \<Rightarrow> state_row list" where
  "upsert_state row rows =
     (if list_ex (same_key (st_engineId row) (st_hash row)) rows
      then map (\<lambda>r. if same_key (st_engineId row) (st_hash row) r then row else r) rows
      else rows @ [row])"

definition remember ::
  "'w host \<Rightarrow> string \<Rightarrow> string \<Rightarrow> bool \<Rightarrow> string \<Rightarrow> 'w rec_state \<Rightarrow> 'w rec_state" where
  "remember h engineId hash paused reasonCode rs =
     (let now = host_now h (rs_world rs)
      in rs\<lparr> rs_states := upsert_state
             \<lparr> st_engineId = engineId, st_hash = hash,
               st_schedulerPausedAt = (if paused then Some now else None),
               st_reasonCode = (if paused then Some reasonCode else None),
               st_lastActionAt = Some now \<rparr> (rs_states rs) \<rparr>)"

definition on_out ::
  "(reconciliation_outcome \<Rightarrow> reconciliation_outcome) \<Rightarrow> 'w rec_state \<Rightarrow> 'w rec_state" where
  "on_out f rs = rs\<lparr> rs_out := f (rs_out rs) \<rparr>"

definition attempted :: "'w rec_state \<Rightarrow> 'w rec_state" where
  "attempted = on_out (\<lambda>o'. o'\<lparr> ro_attempted := ro_attempted o' + 1 \<rparr>)"

definition applied :: "'w rec_state \<Rightarrow> 'w rec_state" where
  "applied = on_out (\<lambda>o'. o'\<lparr> ro_applied := ro_applied o' + 1 \<rparr>)"

definition unverified :: "'w rec_state \<Rightarrow> 'w rec_state" where
  "unverified = on_out (\<lambda>o'. o'\<lparr> ro_unverified := ro_unverified o' + 1 \<rparr>)"

definition failed_with :: "string \<Rightarrow> string \<Rightarrow> string \<Rightarrow> 'w rec_state \<Rightarrow> 'w rec_state" where
  "failed_with hash action err = on_out (\<lambda>o'.
     o'\<lparr> ro_failed := ro_failed o' + 1, ro_failures := ro_failures o' @ [(hash, action, err)] \<rparr>)"

definition limited :: "limitation_code \<Rightarrow> 'w rec_state \<Rightarrow> 'w rec_state" where
  "limited code = on_out (\<lambda>o'.
     o'\<lparr> ro_limitations := ro_limitations o' @ [mk_limitation (ro_engineId o') code None] \<rparr>)"

definition limited_once :: "limitation_code \<Rightarrow> 'w rec_state \<Rightarrow> 'w rec_state" where
  "limited_once code rs =
     (if list_ex (\<lambda>l. lim_code l = code) (ro_limitations (rs_out rs)) then rs else limited code rs)"

fun action_str :: "plan_action \<Rightarrow> string" where
  "action_str Act_pause = ''pause''"
| "action_str Act_resume = ''resume''"
| "action_str Act_none = ''none''"
| "action_str Act_remove_and_cleanup = ''remove_and_cleanup''"

definition is_running :: "torrent_state \<Rightarrow> bool" where
  "is_running s =
     (s = TS_DOWNLOADING \<or> s = TS_SEEDING \<or> s = TS_CHECKING \<or> s = TS_ALLOCATING)"

text \<open>The verdict on the state read back after the call.\<close>

definition verified ::
  "'w host \<Rightarrow> torrent_decision \<Rightarrow> torrent_state option \<Rightarrow> 'w rec_state \<Rightarrow> 'w rec_state" where
  "verified h d after rs =
     (let note = remember h (ro_engineId (rs_out rs)) (td_hash d) in
      case after of
        None \<Rightarrow> note False (td_reasonCode d) (applied rs)
      | Some s \<Rightarrow>
          if td_action d = Act_pause then
            (if s = TS_PAUSED \<or> s = TS_STOPPED then note True (td_reasonCode d) (applied rs)
             else unverified rs)
          else if s = TS_QUEUED then limited_once Native_queue_conflict (unverified rs)
          else if is_running s then note False (td_reasonCode d) (applied rs)
          else unverified rs)"

definition provider_call ::
  "'w host \<Rightarrow> torrent_decision \<Rightarrow> 'w \<Rightarrow> ((string + unit) \<times> 'w) option" where
  "provider_call h d w =
     (if td_action d = Act_pause then Some (host_pauseTorrent h (td_hash d) w)
      else if td_action d = Act_resume then Some (host_resumeTorrent h (td_hash d) w)
      else None)"

definition one :: "'w host \<Rightarrow> bool \<Rightarrow> torrent_decision \<Rightarrow> 'w rec_state \<Rightarrow> 'w rec_state" where
  "one h verify d rs0 =
     (let rs = attempted rs0 in
      case provider_call h d (rs_world rs) of
        None \<Rightarrow> rs
      | Some (Inl err, w) \<Rightarrow>
          failed_with (td_hash d) (action_str (td_action d)) err (rs\<lparr> rs_world := w \<rparr>)
      | Some (Inr _, w) \<Rightarrow>
          if \<not> verify then applied (rs\<lparr> rs_world := w \<rparr>)
          else (case host_getTorrent h (td_hash d) w of
                  (after, w') \<Rightarrow> verified h d after (rs\<lparr> rs_world := w' \<rparr>)))"

definition applyBandwidth :: "'w host \<Rightarrow> engine_activity_plan \<Rightarrow> 'w rec_state \<Rightarrow> 'w rec_state" where
  "applyBandwidth h plan rs =
     (case eap_decisions plan of
        [] \<Rightarrow> rs
      | d # _ \<Rightarrow>
          (let policy = td_bandwidth d in
           case or_else (pb_sourceDownloadRate policy) (pb_sourceUploadRate policy) of
             None \<Rightarrow> rs
           | Some stated \<Rightarrow>
               if stated = [] then rs
               else (case host_setGlobalRateLimits h of
                       None \<Rightarrow> limited No_global_rate_limit rs
                     | Some set_limits \<Rightarrow>
                         (let rs1 = (if pb_reserveDownloadPercent policy \<noteq> None \<or>
                                        pb_reserveSeedPercent policy \<noteq> None
                                     then limited Bandwidth_reserve_unsupported rs else rs)
                          in case set_limits (kbpsToBytes (pb_maxDownloadRateKbps policy))
                                    (kbpsToBytes (pb_maxUploadRateKbps policy)) (rs_world rs1) of
                               (Inl err, w) \<Rightarrow>
                                 failed_with ''-'' ''set_rate_limits'' err (rs1\<lparr> rs_world := w \<rparr>)
                             | (Inr _, w) \<Rightarrow> rs1\<lparr> rs_world := w \<rparr>))))"

text \<open>One removal: the rows of the hash are dropped when the torrent is gone.\<close>

definition remove_one ::
  "'w host \<Rightarrow> (string \<Rightarrow> cleanup_cfg) \<Rightarrow> torrent_decision \<Rightarrow> 'w rec_state \<Rightarrow> 'w rec_state" where
  "remove_one h cc d rs0 =
     (let rs = attempted rs0 in
      case cleanUp h (cc (td_hash d)) (td_hash d) (rs_world rs) of
        (result, w) \<Rightarrow>
          if co_removed result then
            (applied (rs\<lparr> rs_world := w \<rparr>))\<lparr> rs_states :=
               filter (\<lambda>r. st_hash r \<noteq> td_hash d) (rs_states rs) \<rparr>
          else failed_with (td_hash d) ''remove_and_cleanup''
                 (case co_error result of None \<Rightarrow> ''cleanup failed'' | Some e \<Rightarrow> e)
                 (rs\<lparr> rs_world := w \<rparr>))"

definition empty_outcome :: "string \<Rightarrow> reconciliation_outcome" where
  "empty_outcome engineId =
     \<lparr> ro_engineId = engineId, ro_attempted = 0, ro_applied = 0, ro_failed = 0, ro_unverified = 0,
       ro_limitations = [], ro_failures = [] \<rparr>"

definition with_action :: "plan_action \<Rightarrow> engine_activity_plan \<Rightarrow> torrent_decision list" where
  "with_action a plan = filter (\<lambda>d. td_action d = a) (eap_decisions plan)"

definition apply_plan ::
  "'w host \<Rightarrow> (string \<Rightarrow> cleanup_cfg) \<Rightarrow> bool \<Rightarrow> engine_activity_plan \<Rightarrow> state_row list \<Rightarrow> 'w \<Rightarrow>
   'w rec_state" where
  "apply_plan h cc verify plan states w =
     (let rs0 = \<lparr> rs_out = empty_outcome (eap_engineId plan), rs_states = states, rs_world = w \<rparr>;
          rs1 = applyBandwidth h plan rs0;
          rs2 = fold (remove_one h cc) (with_action Act_remove_and_cleanup plan) rs1;
          rs3 = fold (one h verify) (with_action Act_pause plan) rs2
      in fold (one h verify) (with_action Act_resume plan) rs3)"



section \<open>Accounting\<close>

lemmas out_ops = on_out_def attempted_def applied_def unverified_def failed_with_def limited_def

definition settled :: "reconciliation_outcome \<Rightarrow> int" where
  "settled o' = ro_applied o' + ro_failed o' + ro_unverified o'"

definition unlisted :: "reconciliation_outcome \<Rightarrow> int" where
  "unlisted o' = ro_failed o' - int (length (ro_failures o'))"

lemma remember_out [simp]: "rs_out (remember h e hash b r rs) = rs_out rs"
  by (simp add: remember_def Let_def)

lemma remember_world [simp]: "rs_world (remember h e hash b r rs) = rs_world rs"
  by (simp add: remember_def Let_def)

lemma verified_counts:
  "ro_attempted (rs_out (verified h d after rs)) = ro_attempted (rs_out rs)"
  "settled (rs_out (verified h d after rs)) = settled (rs_out rs) + 1"
  "unlisted (rs_out (verified h d after rs)) = unlisted (rs_out rs)"
  by (auto simp: verified_def Let_def limited_once_def out_ops settled_def unlisted_def
      split: option.splits)

lemma one_counts:
  assumes "td_action d = Act_pause \<or> td_action d = Act_resume"
  shows "ro_attempted (rs_out (one h v d rs)) = ro_attempted (rs_out rs) + 1"
    and "settled (rs_out (one h v d rs)) = settled (rs_out rs) + 1"
    and "unlisted (rs_out (one h v d rs)) = unlisted (rs_out rs)"
proof -
  obtain r w where call: "provider_call h d (rs_world rs) = Some (r, w)"
    using assms by (fastforce simp: provider_call_def)
  obtain after w' where get: "host_getTorrent h (td_hash d) w = (after, w')" by fastforce
  have [simp]: "rs_world (attempted rs) = rs_world rs" by (simp add: out_ops)
  show "ro_attempted (rs_out (one h v d rs)) = ro_attempted (rs_out rs) + 1"
    and "settled (rs_out (one h v d rs)) = settled (rs_out rs) + 1"
    and "unlisted (rs_out (one h v d rs)) = unlisted (rs_out rs)"
    by (cases r; simp add: one_def call get Let_def verified_counts;
        simp add: out_ops settled_def unlisted_def)+
qed

lemma remove_one_counts:
  "ro_attempted (rs_out (remove_one h cc d rs)) = ro_attempted (rs_out rs) + 1"
  "settled (rs_out (remove_one h cc d rs)) = settled (rs_out rs) + 1"
  "unlisted (rs_out (remove_one h cc d rs)) = unlisted (rs_out rs)"
  by (auto simp: remove_one_def out_ops settled_def unlisted_def Let_def split: prod.splits)

lemma fold_counts:
  assumes "\<And>d rs. d \<in> set ds \<Longrightarrow>
      ro_attempted (rs_out (f d rs)) = ro_attempted (rs_out rs) + 1 \<and>
      settled (rs_out (f d rs)) = settled (rs_out rs) + 1 \<and>
      unlisted (rs_out (f d rs)) = unlisted (rs_out rs)"
  shows "ro_attempted (rs_out (fold f ds rs)) = ro_attempted (rs_out rs) + int (length ds) \<and>
      settled (rs_out (fold f ds rs)) = settled (rs_out rs) + int (length ds) \<and>
      unlisted (rs_out (fold f ds rs)) = unlisted (rs_out rs)"
  using assms by (induction ds arbitrary: rs) auto

lemma applyBandwidth_counts:
  "ro_attempted (rs_out (applyBandwidth h plan rs)) = ro_attempted (rs_out rs)"
  "unlisted (rs_out (applyBandwidth h plan rs)) = unlisted (rs_out rs)"
  "settled (rs_out (applyBandwidth h plan rs)) - ro_failed (rs_out (applyBandwidth h plan rs)) =
     settled (rs_out rs) - ro_failed (rs_out rs)"
  "ro_failed (rs_out (applyBandwidth h plan rs)) - ro_failed (rs_out rs) \<in> {0, 1}"
  by (auto simp: applyBandwidth_def Let_def out_ops settled_def unlisted_def
      split: list.splits option.splits prod.splits sum.splits)

definition actions_of :: "engine_activity_plan \<Rightarrow> int" where
  "actions_of plan = count_if (\<lambda>d. td_action d \<noteq> Act_none) (eap_decisions plan)"

lemma actions_of_split:
  "actions_of plan = int (length (with_action Act_remove_and_cleanup plan)) +
     int (length (with_action Act_pause plan)) + int (length (with_action Act_resume plan))"
proof -
  have "count_if (\<lambda>d. td_action d \<noteq> Act_none) ds =
      int (length (filter (\<lambda>d. td_action d = Act_remove_and_cleanup) ds)) +
      int (length (filter (\<lambda>d. td_action d = Act_pause) ds)) +
      int (length (filter (\<lambda>d. td_action d = Act_resume) ds))" for ds
    by (induction ds) (auto, metis plan_action.exhaust)
  then show ?thesis by (simp add: actions_of_def with_action_def)
qed

text \<open>
  C10. The outcome accounts for the whole plan. Whatever the engine answers, every decision
  that asks for an action is attempted exactly once and ends as applied, failed or unconfirmed;
  one failure beyond these can only be that of the rate limits; and every failure is listed.
\<close>

theorem apply_plan_accounts:
  "let out = rs_out (apply_plan h cc verify plan states w) in
   ro_attempted out = count_if (\<lambda>d. td_action d \<noteq> Act_none) (eap_decisions plan) \<and>
   ro_applied out + ro_failed out + ro_unverified out - ro_attempted out \<in> {0, 1} \<and>
   ro_failed out = int (length (ro_failures out))"
proof -
  let ?rs0 = "\<lparr> rs_out = empty_outcome (eap_engineId plan), rs_states = states, rs_world = w \<rparr>"
  let ?rs1 = "applyBandwidth h plan ?rs0"
  let ?rs2 = "fold (remove_one h cc) (with_action Act_remove_and_cleanup plan) ?rs1"
  let ?rs3 = "fold (one h verify) (with_action Act_pause plan) ?rs2"
  let ?out = "rs_out (apply_plan h cc verify plan states w)"
  have out: "?out = rs_out (fold (one h verify) (with_action Act_resume plan) ?rs3)"
    by (simp add: apply_plan_def Let_def)
  have start: "ro_attempted (rs_out ?rs0) = 0" "settled (rs_out ?rs0) = 0" "ro_failed (rs_out ?rs0) = 0"
    "unlisted (rs_out ?rs0) = 0"
    by (simp_all add: empty_outcome_def settled_def unlisted_def)
  note r = fold_counts [of "with_action Act_remove_and_cleanup plan" "remove_one h cc" ?rs1]
  note p = fold_counts [of "with_action Act_pause plan" "one h verify" ?rs2]
  note q = fold_counts [of "with_action Act_resume plan" "one h verify" ?rs3]
  have rem: "ro_attempted (rs_out ?rs2) = ro_attempted (rs_out ?rs1) + int (length (with_action Act_remove_and_cleanup plan)) \<and>
      settled (rs_out ?rs2) = settled (rs_out ?rs1) + int (length (with_action Act_remove_and_cleanup plan)) \<and>
      unlisted (rs_out ?rs2) = unlisted (rs_out ?rs1)"
    by (rule r) (simp add: remove_one_counts)
  have pau: "ro_attempted (rs_out ?rs3) = ro_attempted (rs_out ?rs2) + int (length (with_action Act_pause plan)) \<and>
      settled (rs_out ?rs3) = settled (rs_out ?rs2) + int (length (with_action Act_pause plan)) \<and>
      unlisted (rs_out ?rs3) = unlisted (rs_out ?rs2)"
    by (rule p) (simp add: one_counts with_action_def)
  have res: "ro_attempted ?out = ro_attempted (rs_out ?rs3) + int (length (with_action Act_resume plan)) \<and>
      settled ?out = settled (rs_out ?rs3) + int (length (with_action Act_resume plan)) \<and>
      unlisted ?out = unlisted (rs_out ?rs3)"
    unfolding out by (rule q) (simp add: one_counts with_action_def)
  have bw: "settled (rs_out ?rs1) \<in> {0, 1}" "ro_attempted (rs_out ?rs1) = 0" "unlisted (rs_out ?rs1) = 0"
    using applyBandwidth_counts [of h plan ?rs0] start by auto
  have "ro_attempted ?out = actions_of plan" "settled ?out - ro_attempted ?out \<in> {0, 1}" "unlisted ?out = 0"
    using rem pau res bw by (auto simp: actions_of_split)
  then show ?thesis by (simp add: Let_def settled_def unlisted_def actions_of_def)
qed


section \<open>Whose pause it is\<close>

definition held_rows :: "state_row list \<Rightarrow> state_row set" where
  "held_rows rows = {r \<in> set rows. st_schedulerPausedAt r \<noteq> None}"

text \<open>The rows a confirmed pause of \<open>d\<close> on the engine may leave.\<close>

definition confirmed_rows :: "'w host \<Rightarrow> string \<Rightarrow> torrent_decision \<Rightarrow> state_row set" where
  "confirmed_rows h engineId d =
     {r. st_engineId r = engineId \<and> st_hash r = td_hash d \<and> td_action d = Act_pause \<and>
         (\<exists>w w' s. host_getTorrent h (td_hash d) w = (Some s, w') \<and>
                   (s = TS_PAUSED \<or> s = TS_STOPPED))}"

lemma held_upsert:
  "held_rows (upsert_state row rows) \<subseteq>
     held_rows rows \<union> (if st_schedulerPausedAt row = None then {} else {row})"
  by (auto simp: held_rows_def upsert_state_def split: if_splits)

lemma held_remember:
  "held_rows (rs_states (remember h e hash paused reason rs)) \<subseteq>
     held_rows (rs_states rs) \<union> (if paused then {r. st_engineId r = e \<and> st_hash r = hash} else {})"
proof -
  let ?row = "\<lparr> st_engineId = e, st_hash = hash,
      st_schedulerPausedAt = (if paused then Some (host_now h (rs_world rs)) else None),
      st_reasonCode = (if paused then Some reason else None),
      st_lastActionAt = Some (host_now h (rs_world rs)) \<rparr>"
  have "rs_states (remember h e hash paused reason rs) = upsert_state ?row (rs_states rs)"
    by (simp add: remember_def Let_def)
  then show ?thesis using held_upsert [of ?row "rs_states rs"] by (auto split: if_splits)
qed

lemma out_ops_states [simp]:
  "rs_states (attempted rs) = rs_states rs" "rs_states (applied rs) = rs_states rs"
  "rs_states (unverified rs) = rs_states rs" "rs_states (failed_with a b c rs) = rs_states rs"
  "rs_states (limited k rs) = rs_states rs" "rs_states (limited_once k rs) = rs_states rs"
  by (simp_all add: out_ops limited_once_def)

lemma out_ops_world [simp]:
  "rs_world (attempted rs) = rs_world rs" "rs_world (applied rs) = rs_world rs"
  "rs_world (unverified rs) = rs_world rs" "rs_world (failed_with a b c rs) = rs_world rs"
  "rs_world (limited k rs) = rs_world rs" "rs_world (limited_once k rs) = rs_world rs"
  by (simp_all add: out_ops limited_once_def)

lemma out_ops_engine [simp]:
  "ro_engineId (rs_out (attempted rs)) = ro_engineId (rs_out rs)"
  "ro_engineId (rs_out (applied rs)) = ro_engineId (rs_out rs)"
  "ro_engineId (rs_out (unverified rs)) = ro_engineId (rs_out rs)"
  "ro_engineId (rs_out (failed_with a b c rs)) = ro_engineId (rs_out rs)"
  "ro_engineId (rs_out (limited k rs)) = ro_engineId (rs_out rs)"
  "ro_engineId (rs_out (limited_once k rs)) = ro_engineId (rs_out rs)"
  by (simp_all add: out_ops limited_once_def)

lemma verified_engine [simp]: "ro_engineId (rs_out (verified h d a rs)) = ro_engineId (rs_out rs)"
  by (auto simp: verified_def Let_def split: option.splits)

lemma one_engine [simp]: "ro_engineId (rs_out (one h v d rs)) = ro_engineId (rs_out rs)"
  by (auto simp: one_def Let_def split: option.splits prod.splits sum.splits)

lemma remove_one_engine [simp]: "ro_engineId (rs_out (remove_one h cc d rs)) = ro_engineId (rs_out rs)"
  by (auto simp: remove_one_def Let_def split: prod.splits)

lemma applyBandwidth_rows [simp]:
  "ro_engineId (rs_out (applyBandwidth h plan rs)) = ro_engineId (rs_out rs)"
  "rs_states (applyBandwidth h plan rs) = rs_states rs"
  by (auto simp: applyBandwidth_def Let_def split: list.splits option.splits prod.splits sum.splits)

lemma held_verified:
  assumes "host_getTorrent h (td_hash d) w = (after, w')"
  shows "held_rows (rs_states (verified h d after rs)) \<subseteq>
    held_rows (rs_states rs) \<union> confirmed_rows h (ro_engineId (rs_out rs)) d"
proof -
  let ?e = "ro_engineId (rs_out rs)"
  have forget: "held_rows (rs_states (remember h ?e (td_hash d) False c (applied rs))) \<subseteq>
      held_rows (rs_states rs)" for c
    using held_remember [of h ?e "td_hash d" False c "applied rs"] by simp
  have claim: "held_rows (rs_states (remember h ?e (td_hash d) True c (applied rs))) \<subseteq>
      held_rows (rs_states rs) \<union> {r. st_engineId r = ?e \<and> st_hash r = td_hash d}" for c
    using held_remember [of h ?e "td_hash d" True c "applied rs"] by simp
  show ?thesis
  proof (cases after)
    case None
    then show ?thesis using forget by (auto simp: verified_def Let_def)
  next
    case (Some s)
    show ?thesis
    proof (cases "td_action d = Act_pause \<and> (s = TS_PAUSED \<or> s = TS_STOPPED)")
      case True
      then have "{r. st_engineId r = ?e \<and> st_hash r = td_hash d} \<subseteq> confirmed_rows h ?e d"
        using assms Some by (auto simp: confirmed_rows_def)
      with claim True Some show ?thesis by (auto simp: verified_def Let_def)
    next
      case False
      with forget Some show ?thesis by (auto simp: verified_def Let_def)
    qed
  qed
qed

lemma held_one:
  "held_rows (rs_states (one h v d rs)) \<subseteq>
     held_rows (rs_states rs) \<union> confirmed_rows h (ro_engineId (rs_out rs)) d"
proof (cases "provider_call h d (rs_world rs)")
  case (Some rw)
  obtain r w where rw: "rw = (r, w)" by fastforce
  obtain after w' where get: "host_getTorrent h (td_hash d) w = (after, w')" by fastforce
  show ?thesis
    using Some rw held_verified [OF get, of "(attempted rs)\<lparr> rs_world := w' \<rparr>"]
    by (cases r) (auto simp: one_def Let_def get)
qed (simp add: one_def Let_def)

lemma held_remove_one: "held_rows (rs_states (remove_one h cc d rs)) \<subseteq> held_rows (rs_states rs)"
  by (auto simp: remove_one_def Let_def held_rows_def split: prod.splits)

lemma held_fold_one:
  "held_rows (rs_states (fold (one h v) ds rs)) \<subseteq>
     held_rows (rs_states rs) \<union> (\<Union>d\<in>set ds. confirmed_rows h (ro_engineId (rs_out rs)) d)"
proof (induction ds arbitrary: rs)
  case (Cons d ds)
  show ?case using Cons [of "one h v d rs"] held_one [of h v d rs] by auto
qed simp

lemma fold_engine:
  "ro_engineId (rs_out (fold (one h v) ds rs)) = ro_engineId (rs_out rs)"
  "ro_engineId (rs_out (fold (remove_one h cc) ds rs)) = ro_engineId (rs_out rs)"
  by (induction ds arbitrary: rs) simp_all

lemma held_fold_remove:
  "held_rows (rs_states (fold (remove_one h cc) ds rs)) \<subseteq> held_rows (rs_states rs)"
proof (induction ds arbitrary: rs)
  case (Cons d ds)
  show ?case using Cons [of "remove_one h cc d rs"] held_remove_one [of h cc d rs] by auto
qed simp

lemma chain_subset:
  "A \<subseteq> S \<Longrightarrow> B \<subseteq> A \<union> P \<Longrightarrow> C \<subseteq> B \<union> Q \<Longrightarrow> P \<subseteq> U \<Longrightarrow> Q \<subseteq> U \<Longrightarrow> C \<subseteq> S \<union> U"
  by blast

text \<open>
  Only a confirmed pause becomes the scheduler's. After applying a plan, every row that
  claims a torrent for the scheduler was there before, or belongs to a torrent of this engine
  that the plan paused and the engine afterwards reported paused or stopped. A call that was
  merely accepted, and a resume, never claim one.
\<close>

theorem apply_plan_claims_confirmed_pauses:
  "held_rows (rs_states (apply_plan h cc verify plan states w)) \<subseteq>
     held_rows states \<union> (\<Union>d\<in>set (eap_decisions plan). confirmed_rows h (eap_engineId plan) d)"
proof -
  let ?rs0 = "\<lparr> rs_out = empty_outcome (eap_engineId plan), rs_states = states, rs_world = w \<rparr>"
  let ?rs2 = "fold (remove_one h cc) (with_action Act_remove_and_cleanup plan) (applyBandwidth h plan ?rs0)"
  let ?rs3 = "fold (one h verify) (with_action Act_pause plan) ?rs2"
  have e: "ro_engineId (rs_out ?rs2) = eap_engineId plan" "ro_engineId (rs_out ?rs3) = eap_engineId plan"
    by (simp_all add: fold_engine empty_outcome_def)
  have sub: "(\<Union>d\<in>set (with_action a plan). confirmed_rows h (eap_engineId plan) d) \<subseteq>
      (\<Union>d\<in>set (eap_decisions plan). confirmed_rows h (eap_engineId plan) d)" for a
    by (rule UN_mono) (auto simp: with_action_def)
  show ?thesis
  proof (rule chain_subset)
    show "held_rows (rs_states ?rs2) \<subseteq> held_rows states"
      using held_fold_remove [of h cc _ "applyBandwidth h plan ?rs0"] by simp
    show "held_rows (rs_states ?rs3) \<subseteq> held_rows (rs_states ?rs2) \<union>
        (\<Union>d\<in>set (with_action Act_pause plan). confirmed_rows h (eap_engineId plan) d)"
      using held_fold_one [of h verify "with_action Act_pause plan" ?rs2] e by simp
    show "held_rows (rs_states (apply_plan h cc verify plan states w)) \<subseteq>
        held_rows (rs_states ?rs3) \<union>
        (\<Union>d\<in>set (with_action Act_resume plan). confirmed_rows h (eap_engineId plan) d)"
      using held_fold_one [of h verify "with_action Act_resume plan" ?rs3] e
      by (simp add: apply_plan_def Let_def)
  qed (rule sub)+
qed


section \<open>The calls that are made\<close>

text \<open>
  A host that records every call and answers it as it likes, depending on the calls so far.
\<close>

datatype host_call =
  Call_pause string | Call_resume string | Call_get string | Call_rates
| Call_files string | Call_remove string | Call_rm string | Call_rmdir string

record answers =
  ans_done :: "host_call list \<Rightarrow> string + unit"
  ans_state :: "host_call list \<Rightarrow> torrent_state option"
  ans_files :: "host_call list \<Rightarrow> string + string list"
  ans_rates :: bool

definition record_call :: "answers \<Rightarrow> host_call \<Rightarrow> host_call list \<Rightarrow> (string + unit) \<times> host_call list" where
  "record_call a c lg = (ans_done a (lg @ [c]), lg @ [c])"

definition recording :: "answers \<Rightarrow> host_call list host" where
  "recording a =
     \<lparr> host_now = int \<circ> length,
       host_pauseTorrent = record_call a \<circ> Call_pause,
       host_resumeTorrent = record_call a \<circ> Call_resume,
       host_getTorrent = (\<lambda>h lg. (ans_state a (lg @ [Call_get h]), lg @ [Call_get h])),
       host_setGlobalRateLimits =
         (if ans_rates a then Some (\<lambda>down up. record_call a Call_rates) else None),
       host_getFiles = (\<lambda>h lg. (ans_files a (lg @ [Call_files h]), lg @ [Call_files h])),
       host_removeTorrent = record_call a \<circ> Call_remove,
       host_rm = record_call a \<circ> Call_rm,
       host_rmdir = record_call a \<circ> Call_rmdir \<rparr>"

lemma recording_simps [simp]:
  "host_pauseTorrent (recording a) h lg = (ans_done a (lg @ [Call_pause h]), lg @ [Call_pause h])"
  "host_resumeTorrent (recording a) h lg = (ans_done a (lg @ [Call_resume h]), lg @ [Call_resume h])"
  "host_getTorrent (recording a) h lg = (ans_state a (lg @ [Call_get h]), lg @ [Call_get h])"
  "host_getFiles (recording a) h lg = (ans_files a (lg @ [Call_files h]), lg @ [Call_files h])"
  "host_removeTorrent (recording a) h lg = (ans_done a (lg @ [Call_remove h]), lg @ [Call_remove h])"
  "host_rm (recording a) p lg = (ans_done a (lg @ [Call_rm p]), lg @ [Call_rm p])"
  "host_rmdir (recording a) p lg = (ans_done a (lg @ [Call_rmdir p]), lg @ [Call_rmdir p])"
  by (simp_all add: recording_def record_call_def)

text \<open>\<open>extends\<close>: the new log is the old one followed by calls that satisfy \<open>P\<close>.\<close>

definition extends :: "host_call list \<Rightarrow> host_call list \<Rightarrow> (host_call list \<Rightarrow> bool) \<Rightarrow> bool" where
  "extends lg lg' P \<longleftrightarrow> (\<exists>new. lg' = lg @ new \<and> P new)"

lemma delete_files_log:
  "extends lg (snd (delete_files (recording a) ps n lg)) (\<lambda>new. new = map Call_rm ps)"
proof (induction ps arbitrary: n lg)
  case (Cons p ps)
  show ?case
    using Cons [of "lg @ [Call_rm p]" n] Cons [of "lg @ [Call_rm p]" "n + 1"]
    by (auto simp: extends_def split: sum.splits)
qed (simp add: extends_def)

text \<open>The directories of a climb are written from proper segments, so they lie where they say.\<close>

lemma resolve_seg_path:
  assumes "\<forall>x\<in>set segs. proper_segment x"
  shows "resolve_segments cwd (seg_path segs) = segs" "path_resolve cwd (seg_path segs) = seg_path segs"
proof -
  show *: "resolve_segments cwd (seg_path segs) = segs"
  proof (cases "segs = []")
    case False
    then have "split_on (CHR ''/'') (join_with ''/'' segs) = segs"
      using assms by (intro split_join) (auto simp: proper_segment_def)
    then show ?thesis
      using push_segments_id [OF assms, of "[]"]
      by (simp add: seg_path_def resolve_segments_def starts_with_slash_def push_segment_def)
  qed (simp add: seg_path_def resolve_segments_def starts_with_slash_def push_segment_def)
  then show "path_resolve cwd (seg_path segs) = seg_path segs"
    by (simp add: path_resolve_def seg_path_def)
qed

definition strictly_inside :: "string \<Rightarrow> string list \<Rightarrow> string list \<Rightarrow> bool" where
  "strictly_inside cwd roots segs \<longleftrightarrow>
     (\<exists>r\<in>set roots. \<exists>down. down \<noteq> [] \<and> segs = resolve_segments cwd r @ down)"

lemma climb_guard:
  assumes "\<forall>x\<in>set segs. proper_segment x"
    and "seg_path segs \<notin> set (map (path_resolve cwd) roots)"
    and "list_ex (\<lambda>r. seg_path segs = r \<or> is_prefix_of (r @ ''/'') (seg_path segs)) (map (path_resolve cwd) roots)"
  shows "strictly_inside cwd roots segs"
proof -
  obtain r where "r \<in> set roots" "is_prefix_of (path_resolve cwd r @ ''/'') (seg_path segs)"
    using assms(2,3) by (auto simp: list_ex_iff)
  then show ?thesis
    using below_iff [of cwd r cwd "seg_path segs"] resolve_seg_path [OF assms(1), of cwd]
    by (auto simp: strictly_inside_def)
qed

definition rmdirs_within :: "string \<Rightarrow> string list \<Rightarrow> host_call list \<Rightarrow> bool" where
  "rmdirs_within cwd roots new \<longleftrightarrow>
     (\<forall>c\<in>set new. \<exists>dir. c = Call_rmdir dir \<and> strictly_inside cwd roots (resolve_segments cwd dir))"

lemma climb_log:
  assumes "\<forall>x\<in>set segs. proper_segment x"
  shows "extends lg (snd (climb (recording a) (map (path_resolve cwd) roots) segs seen lg))
           (rmdirs_within cwd roots)"
  using assms
proof (induction segs arbitrary: seen lg)
  case Nil
  then show ?case by (simp add: extends_def rmdirs_within_def)
next
  case (Cons seg up)
  let ?dir = "seg_path (rev (seg # up))" and ?roots = "map (path_resolve cwd) roots"
  show ?case
  proof (cases "?dir \<in> seen \<or> ?dir \<in> set ?roots \<or>
      \<not> list_ex (\<lambda>r. ?dir = r \<or> is_prefix_of (r @ ''/'') ?dir) ?roots")
    case True
    then show ?thesis by (auto simp: extends_def rmdirs_within_def Let_def)
  next
    case False
    have proper: "\<forall>x\<in>set (rev (seg # up)). proper_segment x" using Cons.prems by simp
    have inside: "strictly_inside cwd roots (resolve_segments cwd ?dir)"
      using climb_guard [OF proper, of cwd roots] False resolve_seg_path [OF proper, of cwd] by simp
    obtain new where new: "snd (climb (recording a) ?roots up (insert ?dir seen) (lg @ [Call_rmdir ?dir])) =
        (lg @ [Call_rmdir ?dir]) @ new" "rmdirs_within cwd roots new"
      using Cons.IH [of "lg @ [Call_rmdir ?dir]" "insert ?dir seen"] Cons.prems by (auto simp: extends_def)
    have step: "rmdirs_within cwd roots [Call_rmdir ?dir]" "rmdirs_within cwd roots (Call_rmdir ?dir # new)"
      using inside new(2) by (simp_all add: rmdirs_within_def)
    have "snd (climb (recording a) ?roots (seg # up) seen lg) \<in>
        {lg @ [Call_rmdir ?dir], lg @ Call_rmdir ?dir # new}"
      using False new(1) by (auto simp: Let_def split: sum.splits)
    with step show ?thesis by (auto simp: extends_def)
  qed
qed

lemma dirname_proper: "\<forall>x\<in>set (rev (butlast (resolve_segments cwd p))). proper_segment x"
  using resolve_segments_proper [of cwd p] by (auto dest: in_set_butlastD)

lemma prune_files_log:
  "extends lg (prune_files (recording a) cwd (map (path_resolve cwd) roots) files seen lg)
     (rmdirs_within cwd roots)"
proof (induction files arbitrary: seen lg)
  case (Cons x files)
  obtain seen' lg' where c:
    "climb (recording a) (map (path_resolve cwd) roots) (rev (butlast (resolve_segments cwd x))) seen lg = (seen', lg')"
    by fastforce
  obtain new where "lg' = lg @ new" "rmdirs_within cwd roots new"
    using climb_log [OF dirname_proper [of cwd x], of lg a cwd roots seen] c
    by (auto simp: extends_def)
  then show ?case
    using Cons [of lg' seen'] c by (auto simp: extends_def rmdirs_within_def)
qed (simp add: extends_def rmdirs_within_def)

definition rm_paths :: "host_call list \<Rightarrow> string set" where
  "rm_paths calls = {p. Call_rm p \<in> set calls}"

definition rmdir_paths :: "host_call list \<Rightarrow> string set" where
  "rmdir_paths calls = {p. Call_rmdir p \<in> set calls}"

text \<open>
  The territory of the cleanup, read from the configuration: a staging root is one of the four
  roots of a storage profile, surrounding blanks set aside; a library root is the path of a library.
\<close>

definition staging_root :: "cleanup_cfg \<Rightarrow> string \<Rightarrow> bool" where
  "staging_root cc r \<longleftrightarrow>
     (\<exists>pr\<in>set (cc_profiles cc). \<exists>raw. r = trim raw \<and> r \<noteq> [] \<and>
        (sto_stagingRoot pr = Some raw \<or> sto_tempRoot pr = Some raw \<or>
         sto_failedRoot pr = Some raw \<or> sto_quarantineRoot pr = Some raw))"

definition deletable_path :: "cleanup_cfg \<Rightarrow> string \<Rightarrow> bool" where
  "deletable_path cc p \<longleftrightarrow>
     (\<exists>r. staging_root cc r \<and> at_or_below p r) \<and> (\<forall>r. r \<in> set (cc_libraries cc) \<longrightarrow> \<not> at_or_below p r)"

lemma staging_roots_iff: "r \<in> set (staging_roots (cc_profiles cc)) \<longleftrightarrow> staging_root cc r"
proof -
  have "r \<in> set (staging_roots (cc_profiles cc)) \<longleftrightarrow>
      (\<exists>pr\<in>set (cc_profiles cc). \<exists>o'\<in>{sto_stagingRoot pr, sto_tempRoot pr, sto_failedRoot pr, sto_quarantineRoot pr}.
         \<exists>raw. o' = Some raw \<and> trim raw \<noteq> [] \<and> r = trim raw)"
    unfolding staging_roots_def
    by (auto simp: image_iff split: option.splits)
      (metis empty_iff list.set(1) list.set_intros(1) option.exhaust set_ConsD)+
  then show ?thesis unfolding staging_root_def by auto
qed

lemma strictly_inside_staging:
  "strictly_inside (cc_cwd cc) (staging_roots (cc_profiles cc)) segs \<longleftrightarrow>
     (\<exists>r down. staging_root cc r \<and> down \<noteq> [] \<and> segs = resolve_segments (cc_cwd cc) r @ down)"
  by (auto simp: strictly_inside_def staging_roots_iff)

lemma not_below_nothing [simp]: "\<not> at_or_below p []"
  by (simp add: at_or_below_def path_segments_def bare_def)

lemma deletable_safe:
  "p \<in> set (scp_deletable (cleanup_plan_of cc files)) \<Longrightarrow> deletable_path cc p"
  unfolding cleanup_plan_of_def planStagingCleanup_eq deletable_path_def
  by (auto simp: list_ex_iff staging_roots_iff)

text \<open>The calls of one cleanup: none, the listing alone, or the whole sequence.\<close>

lemma cleanUp_calls:
  obtains (stopped) new where "snd (cleanUp (recording a) cc hash lg) = lg @ new"
      "new = [] \<or> new = [Call_files hash]" "\<not> co_removed (fst (cleanUp (recording a) cc hash lg))"
    | (ran) files dirs new where "snd (cleanUp (recording a) cc hash lg) = lg @ new"
      "new = Call_files hash # map Call_rm (scp_deletable (cleanup_plan_of cc files)) @ dirs @ [Call_remove hash]"
      "rmdirs_within (cc_cwd cc) (staging_roots (cc_profiles cc)) dirs"
      "co_removed (fst (cleanUp (recording a) cc hash lg)) = (ans_done a (lg @ new) = Inr ())"
proof (cases "cc_resolveError cc")
  case (Some err)
  then show ?thesis using stopped [of "[]"] by (simp add: cleanUp_def cleanup_failed_def)
next
  case None
  let ?log1 = "lg @ [Call_files hash]"
  show ?thesis
  proof (cases "ans_files a ?log1")
    case (Inl err)
    with None show ?thesis
      using stopped [of "[Call_files hash]"] by (simp add: cleanUp_def cleanup_failed_def)
  next
    case (Inr files)
    let ?del = "scp_deletable (cleanup_plan_of cc files)"
    let ?roots = "staging_roots (cc_profiles cc)"
    obtain n log2 where df: "delete_files (recording a) ?del 0 ?log1 = (n, log2)" by fastforce
    have log2: "log2 = ?log1 @ map Call_rm ?del"
      using delete_files_log [of ?log1 a ?del 0] df by (auto simp: extends_def)
    define log3 where
      "log3 = pruneEmptyDirs (recording a) (cc_cwd cc) ?del (staging_roots (cc_profiles cc)) log2"
    obtain dirs where dirs: "log3 = log2 @ dirs" "rmdirs_within (cc_cwd cc) ?roots dirs"
      using prune_files_log [of log2 a "cc_cwd cc" ?roots ?del "{}"]
      by (auto simp: extends_def log3_def pruneEmptyDirs_def)
    let ?new = "Call_files hash # map Call_rm ?del @ dirs @ [Call_remove hash]"
    have "snd (cleanUp (recording a) cc hash lg) = lg @ ?new"
      using None Inr df log2 dirs(1) unfolding log3_def
      by (auto simp: cleanUp_def Let_def split: sum.splits)
    moreover have "co_removed (fst (cleanUp (recording a) cc hash lg)) =
        (ans_done a (lg @ ?new) = Inr ())"
      using None Inr df log2 dirs(1) unfolding log3_def
      by (auto simp: cleanUp_def cleanup_failed_def Let_def split: sum.splits)
    ultimately show ?thesis using ran dirs(2) by blast
  qed
qed

lemma rmdirs_within_kind: "rmdirs_within cwd roots dirs \<Longrightarrow> c \<in> set dirs \<Longrightarrow> \<exists>dir. c = Call_rmdir dir"
  by (auto simp: rmdirs_within_def)

text \<open>
  What the disk promises, as POSIX documents it, on the files and directories that exist, each
  named by the segments of its absolute path (symbolic links are left out): \<^verbatim>\<open>rm\<close> without
  the recursive option takes away at most the file it names, \<^verbatim>\<open>rmdir\<close> at most the directory
  it names, and that only while nothing lies below it; listing a torrent's files and making the
  engine forget it without its data take nothing.
\<close>

definition holds_nothing :: "string list set \<Rightarrow> string list \<Rightarrow> bool" where
  "holds_nothing entries d \<longleftrightarrow> (\<forall>down. down \<noteq> [] \<longrightarrow> d @ down \<notin> entries)"

definition posix_disk ::
  "string \<Rightarrow> 'w host \<Rightarrow> ('w \<Rightarrow> string list set) \<Rightarrow> ('w \<Rightarrow> string list set) \<Rightarrow> bool" where
  "posix_disk cwd h files dirs \<longleftrightarrow>
     (\<forall>p w. let w' = snd (host_rm h p w) in
        dirs w' = dirs w \<and> (files w' = files w \<or> files w' = files w - {resolve_segments cwd p})) \<and>
     (\<forall>p w. let w' = snd (host_rmdir h p w); d = resolve_segments cwd p in
        files w' = files w \<and>
        (dirs w' = dirs w \<or> dirs w' = dirs w - {d} \<and> holds_nothing (files w \<union> dirs w) d)) \<and>
     (\<forall>hash w. let w' = snd (host_getFiles h hash w) in files w' = files w \<and> dirs w' = dirs w) \<and>
     (\<forall>hash w. let w' = snd (host_removeTorrent h hash w) in files w' = files w \<and> dirs w' = dirs w)"

text \<open>
  \<open>loses\<close>: between two states of the world files of \<open>F\<close> alone are lost, and directories of \<open>D\<close>
  alone, none of which still held a file.
\<close>

definition loses ::
  "('w \<Rightarrow> string list set) \<Rightarrow> ('w \<Rightarrow> string list set) \<Rightarrow> string list set \<Rightarrow> string list set \<Rightarrow>
   'w \<Rightarrow> 'w \<Rightarrow> bool" where
  "loses files dirs F D w w' \<longleftrightarrow>
     files w' \<subseteq> files w \<and> files w - files w' \<subseteq> F \<and> dirs w' \<subseteq> dirs w \<and>
     (\<forall>d\<in>dirs w - dirs w'. d \<in> D \<and> holds_nothing (files w') d)"

lemma loses_refl [simp]: "loses files dirs F D w w"
  by (simp add: loses_def)

lemma loses_trans: "loses files dirs F D w w1 \<Longrightarrow> loses files dirs F D w1 w2 \<Longrightarrow> loses files dirs F D w w2"
  unfolding loses_def holds_nothing_def by blast

lemma loses_mono: "loses files dirs F D w w' \<Longrightarrow> F \<subseteq> F' \<Longrightarrow> D \<subseteq> D' \<Longrightarrow> loses files dirs F' D' w w'"
  unfolding loses_def by blast

lemma posix_disk_loses:
  assumes "posix_disk cwd h files dirs"
  shows "loses files dirs {resolve_segments cwd p} {} w (snd (host_rm h p w))"
    and "loses files dirs {} {resolve_segments cwd p} w (snd (host_rmdir h p w))"
proof -
  have "dirs (snd (host_rm h p w)) = dirs w"
    "files (snd (host_rm h p w)) = files w \<or> files (snd (host_rm h p w)) = files w - {resolve_segments cwd p}"
    using assms by (simp_all add: posix_disk_def Let_def)
  then show "loses files dirs {resolve_segments cwd p} {} w (snd (host_rm h p w))"
    by (auto simp: loses_def)
  have "files (snd (host_rmdir h p w)) = files w"
    "dirs (snd (host_rmdir h p w)) = dirs w \<or>
     dirs (snd (host_rmdir h p w)) = dirs w - {resolve_segments cwd p} \<and>
       holds_nothing (files w \<union> dirs w) (resolve_segments cwd p)"
    using assms by (simp_all add: posix_disk_def Let_def)
  then show "loses files dirs {} {resolve_segments cwd p} w (snd (host_rmdir h p w))"
    by (auto simp: loses_def holds_nothing_def)
qed

lemma delete_files_loses:
  assumes "posix_disk cwd h files dirs"
  shows "loses files dirs (resolve_segments cwd ` set ps) {} w (snd (delete_files h ps n w))"
proof (induction ps arbitrary: n w)
  case (Cons p ps)
  let ?w = "snd (host_rm h p w)"
  have "loses files dirs (resolve_segments cwd ` set (p # ps)) {} w ?w"
    by (rule loses_mono [OF posix_disk_loses(1) [OF assms]]) auto
  moreover have "loses files dirs (resolve_segments cwd ` set (p # ps)) {} ?w (snd (delete_files h ps m ?w))" for m
    by (rule loses_mono [OF Cons]) auto
  ultimately show ?case
    by (cases "host_rm h p w") (auto split: sum.splits intro: loses_trans)
qed simp

lemma climb_loses:
  assumes "posix_disk cwd h files dirs" "\<forall>x\<in>set segs. proper_segment x"
  shows "loses files dirs {} {d. strictly_inside cwd roots d} w
           (snd (climb h (map (path_resolve cwd) roots) segs seen w))"
  using assms(2)
proof (induction segs arbitrary: seen w)
  case (Cons seg up)
  let ?dir = "seg_path (rev (seg # up))" and ?roots = "map (path_resolve cwd) roots"
  let ?w = "snd (host_rmdir h ?dir w)"
  show ?case
  proof (cases "?dir \<in> seen \<or> ?dir \<in> set ?roots \<or>
      \<not> list_ex (\<lambda>r. ?dir = r \<or> is_prefix_of (r @ ''/'') ?dir) ?roots")
    case False
    have proper: "\<forall>x\<in>set (rev (seg # up)). proper_segment x" using Cons.prems by simp
    have "strictly_inside cwd roots (resolve_segments cwd ?dir)"
      using climb_guard [OF proper, of cwd roots] False resolve_seg_path [OF proper, of cwd] by simp
    then have "loses files dirs {} {d. strictly_inside cwd roots d} w ?w"
      by (intro loses_mono [OF posix_disk_loses(2) [OF assms(1)]]) auto
    moreover have "loses files dirs {} {d. strictly_inside cwd roots d} ?w
        (snd (climb h ?roots up (insert ?dir seen) ?w))"
      using Cons by simp
    ultimately show ?thesis
      using False by (cases "host_rmdir h ?dir w") (auto simp: Let_def split: sum.splits intro: loses_trans)
  qed (auto simp: Let_def)
qed simp

lemma prune_files_loses:
  assumes "posix_disk cwd h files dirs"
  shows "loses files dirs {} {d. strictly_inside cwd roots d} w
           (prune_files h cwd (map (path_resolve cwd) roots) ps seen w)"
proof (induction ps arbitrary: seen w)
  case (Cons p ps)
  show ?case
    using climb_loses [OF assms dirname_proper [of cwd p], of roots w seen] Cons
    by (auto split: prod.splits intro: loses_trans)
qed simp

lemma cleanUp_loses:
  assumes "posix_disk (cc_cwd cc) h files dirs"
  shows "loses files dirs {resolve_segments (cc_cwd cc) p | p. deletable_path cc p}
           {d. strictly_inside (cc_cwd cc) (staging_roots (cc_profiles cc)) d}
           w (snd (cleanUp h cc hash w))"
    (is "loses _ _ ?F ?D _ _")
proof -
  have same: "files (snd (host_getFiles h hash v)) = files v" "dirs (snd (host_getFiles h hash v)) = dirs v"
    "files (snd (host_removeTorrent h hash v)) = files v" "dirs (snd (host_removeTorrent h hash v)) = dirs v" for v
    using assms by (auto simp: posix_disk_def Let_def)
  have quiet: "loses files dirs ?F ?D v (snd (host_getFiles h hash v))"
    "loses files dirs ?F ?D v (snd (host_removeTorrent h hash v))" for v
    by (auto simp: loses_def same)
  have del: "loses files dirs ?F ?D v (snd (delete_files h (scp_deletable (cleanup_plan_of cc fs)) 0 v))" for v fs
    by (rule loses_mono [OF delete_files_loses [OF assms]]) (auto dest: deletable_safe)
  have prune: "loses files dirs ?F ?D v (pruneEmptyDirs h (cc_cwd cc) ps (staging_roots (cc_profiles cc)) v)" for v ps
    unfolding pruneEmptyDirs_def by (rule loses_mono [OF prune_files_loses [OF assms]]) auto
  have last: "loses files dirs ?F ?D w' (snd (host_removeTorrent h hash
      (pruneEmptyDirs h (cc_cwd cc) (scp_deletable (cleanup_plan_of cc fs)) (staging_roots (cc_profiles cc))
        (snd (delete_files h (scp_deletable (cleanup_plan_of cc fs)) 0 w')))))" for w' fs
    using loses_trans [OF loses_trans [OF del prune] quiet(2)] .
  show ?thesis
  proof (cases "cc_resolveError cc")
    case None
    obtain r w1 where gf: "host_getFiles h hash w = (r, w1)" by fastforce
    have w1: "loses files dirs ?F ?D w w1" using quiet(1) [of w] gf by simp
    show ?thesis
    proof (cases r)
      case (Inr fs)
      have "snd (cleanUp h cc hash w) = snd (host_removeTorrent h hash
          (pruneEmptyDirs h (cc_cwd cc) (scp_deletable (cleanup_plan_of cc fs)) (staging_roots (cc_profiles cc))
            (snd (delete_files h (scp_deletable (cleanup_plan_of cc fs)) 0 w1))))"
        using None gf Inr by (simp add: cleanUp_def Let_def split: prod.splits sum.splits)
      then show ?thesis using loses_trans [OF w1 last [of w1 fs]] by simp
    qed (use None gf w1 in \<open>simp add: cleanUp_def\<close>)
  qed (simp add: cleanUp_def)
qed

text \<open>
  C11. The cleanup deletes no library file and nothing outside staging, whatever files the engine
  lists and however the calls go. Every path it unlinks continues, segment by segment as it is
  written, a staging root and no library root; every directory it tries to remove lies strictly
  below a staging root, which itself survives; and the engine is told to forget the torrent only
  after that, last of all, and success is reported exactly when it did. Hence on a disk that keeps
  the promises of POSIX about rm and rmdir, the files that are gone
  afterwards are files of such paths, and the directories that are gone lie strictly below a
  staging root and held no file.
\<close>

theorem cleanUp_safe:
  "(\<exists>new. snd (cleanUp (recording a) cc hash lg) = lg @ new \<and>
      rm_paths new \<subseteq> {p. deletable_path cc p} \<and>
      rmdir_paths new \<subseteq>
        {dir. \<exists>r down. staging_root cc r \<and> down \<noteq> [] \<and>
                resolve_segments (cc_cwd cc) dir = resolve_segments (cc_cwd cc) r @ down} \<and>
      Call_remove hash \<notin> set (butlast new) \<and>
      co_removed (fst (cleanUp (recording a) cc hash lg)) =
        (new \<noteq> [] \<and> last new = Call_remove hash \<and> ans_done a (lg @ new) = Inr ())) \<and>
   (posix_disk (cc_cwd cc) h files dirs \<longrightarrow>
      (let w' = snd (cleanUp h cc hash w) in
       files w' \<subseteq> files w \<and> dirs w' \<subseteq> dirs w \<and>
       (\<forall>f\<in>files w - files w'. \<exists>p. f = resolve_segments (cc_cwd cc) p \<and> deletable_path cc p) \<and>
       (\<forall>d\<in>dirs w - dirs w'.
          (\<exists>r down. staging_root cc r \<and> down \<noteq> [] \<and> d = resolve_segments (cc_cwd cc) r @ down) \<and>
          (\<forall>down. down \<noteq> [] \<longrightarrow> d @ down \<notin> files w'))))"
proof (intro conjI impI)
  assume "posix_disk (cc_cwd cc) h files dirs"
  from cleanUp_loses [OF this, of w hash]
  show "let w' = snd (cleanUp h cc hash w) in
       files w' \<subseteq> files w \<and> dirs w' \<subseteq> dirs w \<and>
       (\<forall>f\<in>files w - files w'. \<exists>p. f = resolve_segments (cc_cwd cc) p \<and> deletable_path cc p) \<and>
       (\<forall>d\<in>dirs w - dirs w'.
          (\<exists>r down. staging_root cc r \<and> down \<noteq> [] \<and> d = resolve_segments (cc_cwd cc) r @ down) \<and>
          (\<forall>down. down \<noteq> [] \<longrightarrow> d @ down \<notin> files w'))"
    unfolding loses_def holds_nothing_def Let_def strictly_inside_staging by blast
next
  show "\<exists>new. snd (cleanUp (recording a) cc hash lg) = lg @ new \<and>
      rm_paths new \<subseteq> {p. deletable_path cc p} \<and>
      rmdir_paths new \<subseteq>
        {dir. \<exists>r down. staging_root cc r \<and> down \<noteq> [] \<and>
                resolve_segments (cc_cwd cc) dir = resolve_segments (cc_cwd cc) r @ down} \<and>
      Call_remove hash \<notin> set (butlast new) \<and>
      co_removed (fst (cleanUp (recording a) cc hash lg)) =
        (new \<noteq> [] \<and> last new = Call_remove hash \<and> ans_done a (lg @ new) = Inr ())"
  proof (cases rule: cleanUp_calls [of a cc hash lg])
    case (stopped new)
    then show ?thesis
      by (intro exI [of _ new]) (auto simp: rm_paths_def rmdir_paths_def)
  next
    case (ran files dirs new)
    note kinds = rmdirs_within_kind [OF ran(3)]
    have "rm_paths new = set (scp_deletable (cleanup_plan_of cc files))"
      using kinds by (auto simp: rm_paths_def ran(2))
    then have "rm_paths new \<subseteq> {p. deletable_path cc p}" using deletable_safe by auto
    moreover have "rmdir_paths new \<subseteq> {dir. \<exists>r down. staging_root cc r \<and> down \<noteq> [] \<and>
        resolve_segments (cc_cwd cc) dir = resolve_segments (cc_cwd cc) r @ down}"
      using ran(3) unfolding rmdirs_within_def strictly_inside_staging
      by (auto simp: rmdir_paths_def ran(2))
    moreover have "Call_remove hash \<notin> set (butlast new)"
      using kinds by (auto simp: butlast_append ran(2))
    moreover have "new \<noteq> []" "last new = Call_remove hash" by (simp_all add: ran(2))
    ultimately show ?thesis using ran(1,4) by (intro exI [of _ new]) simp
  qed
qed

text \<open>A disk that keeps the promises: the files and the directories that exist, by segments.\<close>

definition plain_disk :: "string list \<Rightarrow> (string list list \<times> string list list) host" where
  "plain_disk listing =
     \<lparr> host_now = (\<lambda>_. 0),
       host_pauseTorrent = (\<lambda>_ w. (Inr (), w)), host_resumeTorrent = (\<lambda>_ w. (Inr (), w)),
       host_getTorrent = (\<lambda>_ w. (None, w)), host_setGlobalRateLimits = None,
       host_getFiles = (\<lambda>_ w. (Inr listing, w)), host_removeTorrent = (\<lambda>_ w. (Inr (), w)),
       host_rm = (\<lambda>p w. let s = resolve_segments ''/srv'' p in
         if s \<in> set (snd w) then (Inl ''EISDIR'', w) else (Inr (), (removeAll s (fst w), snd w))),
       host_rmdir = (\<lambda>p w. let s = resolve_segments ''/srv'' p in
         if s \<notin> set (snd w) then (Inl ''ENOENT'', w)
         else if list_ex (\<lambda>e. length s < length e \<and> take (length s) e = s) (fst w @ snd w)
           then (Inl ''ENOTEMPTY'', w)
         else (Inr (), (fst w, removeAll s (snd w)))) \<rparr>"

lemma plain_disk_posix: "posix_disk ''/srv'' (plain_disk listing) (set \<circ> fst) (set \<circ> snd)"
proof -
  have "holds_nothing (set es) d" if "\<not> list_ex (\<lambda>e. length d < length e \<and> take (length d) e = d) es"
    for es and d :: "string list"
    using that by (auto simp: holds_nothing_def list_ex_iff)
  from this [where es = "fst w @ snd w" for w :: "string list list \<times> string list list"] show ?thesis
    by (auto simp: posix_disk_def plain_disk_def Let_def)
qed

definition demo_cleanup :: cleanup_cfg where
  "demo_cleanup =
     \<lparr> cc_cwd = ''/srv'', cc_resolveError = None, cc_savePath = Some ''/d/staging'',
       cc_profiles = [\<lparr> sto_stagingRoot = Some '' /d/staging/ '', sto_tempRoot = None,
                        sto_failedRoot = None, sto_quarantineRoot = None \<rparr>],
       cc_libraries = [''/d/staging/lib''] \<rparr>"

theorem cleanUp_safe_witness:
  "posix_disk (cc_cwd demo_cleanup) (plain_disk [''Show/a.mkv'', ''lib/b.mkv'']) (set \<circ> fst) (set \<circ> snd) \<and>
   snd (cleanUp (plain_disk [''Show/a.mkv'', ''lib/b.mkv'']) demo_cleanup ''h''
     ([[''d'', ''staging'', ''Show'', ''a.mkv''], [''d'', ''staging'', ''lib'', ''b.mkv'']],
      [[''d'', ''staging''], [''d'', ''staging'', ''Show''], [''d'', ''staging'', ''lib'']])) =
     ([[''d'', ''staging'', ''lib'', ''b.mkv'']], [[''d'', ''staging''], [''d'', ''staging'', ''lib'']]) \<and>
   (\<exists>p. [''d'', ''staging'', ''Show'', ''a.mkv''] = resolve_segments ''/srv'' p \<and> deletable_path demo_cleanup p)"
proof -
  let ?h = "plain_disk [''Show/a.mkv'', ''lib/b.mkv'']"
  let ?w = "([[''d'', ''staging'', ''Show'', ''a.mkv''], [''d'', ''staging'', ''lib'', ''b.mkv'']],
      [[''d'', ''staging''], [''d'', ''staging'', ''Show''], [''d'', ''staging'', ''lib'']])"
  have run: "snd (cleanUp ?h demo_cleanup ''h'' ?w) =
      ([[''d'', ''staging'', ''lib'', ''b.mkv'']], [[''d'', ''staging''], [''d'', ''staging'', ''lib'']])"
    by code_simp
  have px: "posix_disk (cc_cwd demo_cleanup) ?h (set \<circ> fst) (set \<circ> snd)"
    using plain_disk_posix by (simp add: demo_cleanup_def)
  have cwd: "cc_cwd demo_cleanup = ''/srv''" by (simp add: demo_cleanup_def)
  have gone: "[''d'', ''staging'', ''Show'', ''a.mkv''] \<in>
      (set \<circ> fst) ?w - (set \<circ> fst) (snd (cleanUp ?h demo_cleanup ''h'' ?w))"
    unfolding run by simp
  note cleanUp_safe [of undefined demo_cleanup "''h''" "[]" ?h "set \<circ> fst" "set \<circ> snd" ?w,
      THEN conjunct2, rule_format, OF px, unfolded Let_def, THEN conjunct2, THEN conjunct2, THEN conjunct1]
  from this [THEN bspec, OF gone] px run show ?thesis unfolding cwd by blast
qed

text \<open>
  Two limits of the test on strings. A path the engine lists as absolute is not normalised, so
  dots in it count as staging segments although they lead into a library; and as letter case is
  ignored, two folders of a case-sensitive disk that differ only in case count as one.
\<close>

lemma cleanup_dots_escape:
  "deletable_path demo_cleanup ''/d/staging/../lib/b.mkv''"
  "resolve_segments ''/srv'' ''/d/staging/../lib/b.mkv'' = [''d'', ''lib'', ''b.mkv'']"
  "deletable_path demo_cleanup ''/d/STAGING/b.mkv''"
proof -
  have root: "staging_root demo_cleanup ''/d/staging/''"
    unfolding staging_root_def demo_cleanup_def by (simp add: trim_def is_ws_def)
  have "at_or_below ''/d/staging/../lib/b.mkv'' ''/d/staging/''"
    "\<not> at_or_below ''/d/staging/../lib/b.mkv'' ''/d/staging/lib''"
    "at_or_below ''/d/STAGING/b.mkv'' ''/d/staging/''"
    "\<not> at_or_below ''/d/STAGING/b.mkv'' ''/d/staging/lib''"
    by code_simp+
  with root show "deletable_path demo_cleanup ''/d/staging/../lib/b.mkv''"
    "deletable_path demo_cleanup ''/d/STAGING/b.mkv''"
    by (auto simp: deletable_path_def demo_cleanup_def)
qed code_simp

fun is_engine_change :: "host_call \<Rightarrow> bool" where
  "is_engine_change (Call_pause _) = True"
| "is_engine_change (Call_resume _) = True"
| "is_engine_change (Call_remove _) = True"
| "is_engine_change Call_rates = True"
| "is_engine_change _ = False"

abbreviation changes :: "host_call list \<Rightarrow> host_call list" where
  "changes \<equiv> filter is_engine_change"

lemma verified_world [simp]: "rs_world (verified h d s rs) = rs_world rs"
  by (auto simp: verified_def Let_def split: option.splits)

lemma one_changes:
  "changes (rs_world (one (recording a) v d rs)) =
     changes (rs_world rs) @
     (if td_action d = Act_pause then [Call_pause (td_hash d)]
      else if td_action d = Act_resume then [Call_resume (td_hash d)] else [])"
  by (auto simp: one_def provider_call_def Let_def split: sum.splits)

lemma fold_one_changes:
  assumes "\<forall>d\<in>set ds. td_action d = act" "act = Act_pause \<and> mk = Call_pause \<or> act = Act_resume \<and> mk = Call_resume"
  shows "changes (rs_world (fold (one (recording a) v) ds rs)) =
     changes (rs_world rs) @ map (mk \<circ> td_hash) ds"
  using assms by (induction ds arbitrary: rs) (auto simp: one_changes)

lemma remove_one_changes:
  "\<exists>new. changes (rs_world (remove_one (recording a) cc d rs)) = changes (rs_world rs) @ new \<and>
         set new \<subseteq> {Call_remove (td_hash d)}"
proof -
  have w: "rs_world (remove_one (recording a) cc d rs) =
      snd (cleanUp (recording a) (cc (td_hash d)) (td_hash d) (rs_world rs))"
    by (auto simp: remove_one_def Let_def split: prod.splits)
  show ?thesis
  proof (cases rule: cleanUp_calls [of a "cc (td_hash d)" "td_hash d" "rs_world rs"])
    case (stopped new)
    then show ?thesis using w by auto
  next
    case (ran files dirs new)
    have "changes dirs = []" using rmdirs_within_kind [OF ran(3)] by (fastforce simp: filter_empty_conv)
    then have "changes new = [Call_remove (td_hash d)]" by (simp add: ran(2) filter_empty_conv)
    then show ?thesis using w ran(1) by auto
  qed
qed

lemma fold_remove_changes:
  "\<exists>new. changes (rs_world (fold (remove_one (recording a) cc) ds rs)) = changes (rs_world rs) @ new \<and>
         set new \<subseteq> (Call_remove \<circ> td_hash) ` set ds"
proof (induction ds arbitrary: rs)
  case (Cons d ds)
  obtain n1 where n1: "changes (rs_world (remove_one (recording a) cc d rs)) = changes (rs_world rs) @ n1"
      "set n1 \<subseteq> {Call_remove (td_hash d)}"
    using remove_one_changes by blast
  obtain n2 where "changes (rs_world (fold (remove_one (recording a) cc) ds (remove_one (recording a) cc d rs))) =
      changes (rs_world (remove_one (recording a) cc d rs)) @ n2"
      "set n2 \<subseteq> (Call_remove \<circ> td_hash) ` set ds"
    using Cons by blast
  with n1 show ?case by (intro exI [of _ "n1 @ n2"]) auto
qed simp

lemma applyBandwidth_changes:
  "\<exists>new. changes (rs_world (applyBandwidth (recording a) plan rs)) = changes (rs_world rs) @ new \<and>
         set new \<subseteq> {Call_rates} \<and> length new \<le> 1"
  by (auto simp: applyBandwidth_def Let_def recording_def record_call_def
      split: list.splits option.splits sum.splits)


text \<open>
  A removal drops the rows of its hash on every engine: a torrent with the same hash that the
  scheduler holds on another engine is no longer known as its own, and stays paused.
\<close>

lemma remove_one_forgets_other_engines:
  assumes "co_removed (fst (cleanUp h (cc (td_hash d)) (td_hash d) (rs_world rs)))"
    and "r \<in> set (rs_states rs)" and "st_hash r = td_hash d"
  shows "r \<notin> set (rs_states (remove_one h cc d rs))"
  using assms by (auto simp: remove_one_def Let_def split: prod.splits)

text \<open>A resume is recorded without a pause, so the next plan does not see when it happened.\<close>

lemma resumed_not_held:
  assumes "\<forall>r\<in>set rows. st_engineId r = e \<and> to_lower (st_hash r) = to_lower hash \<longrightarrow> st_hash r = hash"
    and "db_states db = rs_states (remember h e hash False reason rs)" and "rs_states rs = rows"
  shows "\<not> scheduler_holds db e hash"
  using assms by (auto simp: scheduler_holds_def remember_def upsert_state_def same_key_def Let_def
      list_ex_iff split: if_splits)

end
