(* ===== verification/Sched_Admin.thy ===== *)
theory Sched_Admin
  imports Sched_Reconcile
begin

text \<open>
  The operator's side of the scheduler: policies (\<^verbatim>\<open>scheduler-policy.service.ts\<close>)
  and per-torrent overrides (\<^verbatim>\<open>scheduler-override.service.ts\<close>). Audit rows, events
  and logs are left out: nothing reads them back.

  The lemmas show what a stored policy satisfies and where an update can break it, and that an
  override is in force exactly from being set until it expires or is cleared.
\<close>

section \<open>Policies\<close>

definition SCOPE_TYPES :: "(string \<times> policy_scope_type) list" where
  "SCOPE_TYPES =
     [(''global'', Scope_global), (''engine'', Scope_engine), (''library'', Scope_library),
      (''category'', Scope_category), (''rss_rule'', Scope_rss_rule), (''torrent'', Scope_torrent)]"

definition SEED_MODES :: "(string \<times> seeding_mode) list" where
  "SEED_MODES = [(''ratio'', SM_ratio), (''manual'', SM_manual), (''unlimited'', SM_unlimited)]"

definition AFTER_TARGET :: "(string \<times> post_seed_action) list" where
  "AFTER_TARGET =
     [(''pause'', PSA_pause), (''stop'', PSA_stop), (''leave_active'', PSA_leave_active),
      (''remove_torrent_keep_data'', PSA_remove_torrent_keep_data),
      (''remove_torrent_and_staging_data'', PSA_remove_torrent_and_staging_data)]"

record seed_input =
  si_mode :: "string option"
  si_targetRatio :: "rat option"
  si_afterTarget :: "string option"
  si_requireImportCompleted :: bool
  si_requireLibraryCopyVerified :: bool
  si_maxAgeDays :: "rat option"
  si_stopWhen :: "seed_condition_node option"

record policy_input =
  pi_name :: "string option"
  pi_enabled :: "bool option"
  pi_scopeType :: "string option"
  pi_scopeId :: "string setting"
  pi_maxConcurrentDownloads :: jsval
  pi_maxConcurrentSeeds :: jsval
  pi_maxTotalActive :: jsval
  pi_maxDownloadRateKbps :: jsval
  pi_maxUploadRateKbps :: jsval
  pi_seedPolicy :: "seed_input setting"

definition limit :: "jsval \<Rightarrow> string \<Rightarrow> http_error + int setting" where
  "limit value field =
     (case value of
        JUndef \<Rightarrow> Inr Inherit
      | JNull \<Rightarrow> Inr Unlimited
      | JNum q \<Rightarrow>
          if is_integer q \<and> \<not> q < 1 then Inr (Limit \<lfloor>q\<rfloor>)
          else Inl (Bad_request (field @
                 '' must be a whole number of at least 1, or empty for unlimited.''))
      | _ \<Rightarrow> Inl (Bad_request (field @
               '' must be a whole number of at least 1, or empty for unlimited.'')))"

definition quoted :: "string \<Rightarrow> string" where
  "quoted s = [CHR 0x22] @ s @ [CHR 0x22]"

definition default_to :: "'a \<Rightarrow> 'a option \<Rightarrow> 'a" where
  "default_to d o' = (case o' of None \<Rightarrow> d | Some v \<Rightarrow> v)"

definition build_seed :: "seeding_mode \<Rightarrow> post_seed_action \<Rightarrow> seed_input \<Rightarrow> seeding_policy" where
  "build_seed mode after input =
     \<lparr> sp_mode = mode, sp_targetRatio = si_targetRatio input, sp_targetSeedMinutes = None,
       sp_minimumSeedMinutes = None, sp_minimumRatio = None, sp_afterTarget = after,
       sp_requireImportCompleted = si_requireImportCompleted input,
       sp_requireLibraryCopyVerified = si_requireLibraryCopyVerified input,
       sp_maxAgeDays = si_maxAgeDays input, sp_stopWhen = si_stopWhen input \<rparr>"

definition ratio_given :: "rat option \<Rightarrow> bool" where
  "ratio_given r = (case r of None \<Rightarrow> False | Some q \<Rightarrow> 0 < q)"

definition age_positive :: "rat option \<Rightarrow> bool" where
  "age_positive a = (case a of None \<Rightarrow> True | Some q \<Rightarrow> 0 < q)"

definition age_whole :: "rat option \<Rightarrow> bool" where
  "age_whole a = (case a of None \<Rightarrow> True | Some q \<Rightarrow> is_integer q)"

definition seed_object :: "seed_input \<Rightarrow> http_error + seeding_policy" where
  "seed_object input =
     (case map_of SEED_MODES (default_to ''ratio'' (si_mode input)) of
        None \<Rightarrow> Inl (Bad_request (''Seeding mode '' @ quoted (default_to ''ratio'' (si_mode input)) @
                  '' cannot be enforced yet. Available: '' @
                  join_with '', '' (map fst SEED_MODES) @ ''.''))
      | Some mode \<Rightarrow>
     (case map_of AFTER_TARGET (default_to ''pause'' (si_afterTarget input)) of
        None \<Rightarrow> Inl (Bad_request (''Post-target action '' @ quoted (default_to ''pause'' (si_afterTarget input)) @
                  '' is not available. Available: '' @
                  join_with '', '' (map fst AFTER_TARGET) @ ''.''))
      | Some after \<Rightarrow>
          if mode = SM_ratio \<and> si_stopWhen input = None \<and> \<not> ratio_given (si_targetRatio input)
            then Inl (Bad_request ''A ratio target needs a share ratio greater than zero.'')
          else if \<not> age_positive (si_maxAgeDays input)
            then Inl (Bad_request ''A seeding deadline needs a whole number of days greater than zero.'')
          else if \<not> age_whole (si_maxAgeDays input)
            then Inl (Bad_request ''A seeding deadline is counted in whole days.'')
          else Inr (build_seed mode after input)))"

definition seed :: "seed_input setting \<Rightarrow> http_error + seeding_policy setting" where
  "seed input =
     (case input of
        Inherit \<Rightarrow> Inr Inherit
      | Unlimited \<Rightarrow> Inr Unlimited
      | Limit i \<Rightarrow> res_bind (seed_object i) (\<lambda>p. Inr (Limit p)))"

definition falsy_id :: "string option \<Rightarrow> bool" where
  "falsy_id sid = (sid = None \<or> sid = Some [])"

definition validateScope :: "string \<Rightarrow> string option \<Rightarrow> http_error + policy_scope_type" where
  "validateScope scopeType scopeId =
     (case map_of SCOPE_TYPES scopeType of
        None \<Rightarrow> Inl (Bad_request (''Unknown scope '' @ quoted scopeType @ ''. Expected one of: '' @
                  join_with '', '' (map fst SCOPE_TYPES) @ ''.''))
      | Some ty \<Rightarrow>
          if ty = Scope_global then
            (if \<not> falsy_id scopeId then Inl (Bad_request ''A global policy cannot name a scope id.'')
             else Inr ty)
          else if falsy_id scopeId then Inl (Bad_request (''A '' @ scopeType @ '' policy must name what it applies to.''))
          else Inr ty)"

definition with_limits ::
  "policy_input \<Rightarrow>
   (int setting \<Rightarrow> int setting \<Rightarrow> int setting \<Rightarrow> int setting \<Rightarrow> int setting \<Rightarrow>
      seeding_policy setting \<Rightarrow> 'a) \<Rightarrow> http_error + 'a" where
  "with_limits input f =
     res_bind (limit (pi_maxConcurrentDownloads input) ''maxConcurrentDownloads'') (\<lambda>a.
     res_bind (limit (pi_maxConcurrentSeeds input) ''maxConcurrentSeeds'') (\<lambda>b.
     res_bind (limit (pi_maxTotalActive input) ''maxTotalActive'') (\<lambda>c.
     res_bind (limit (pi_maxDownloadRateKbps input) ''maxDownloadRateKbps'') (\<lambda>d.
     res_bind (limit (pi_maxUploadRateKbps input) ''maxUploadRateKbps'') (\<lambda>e.
     res_bind (seed (pi_seedPolicy input)) (\<lambda>s. Inr (f a b c d e s)))))))"

definition create_policy ::
  "string \<Rightarrow> time \<Rightarrow> policy_input \<Rightarrow> scheduler_db \<Rightarrow> http_error + policy_row \<times> scheduler_db" where
  "create_policy newId now input db =
     (let name = trim (default_to [] (pi_name input));
          scopeType = default_to ''global'' (pi_scopeType input);
          sentId = setting_value (pi_scopeId input)
      in if name = [] then Inl (Bad_request ''A policy needs a name.'')
         else res_bind (validateScope scopeType sentId) (\<lambda>ty.
              res_bind (with_limits input (\<lambda>a b c d e s.
                 \<lparr> row_id = newId, row_name = name, row_enabled = default_to True (pi_enabled input),
                   row_scopeType = ty, row_scopeId = (if ty = Scope_global then None else sentId),
                   row_maxConcurrentDownloads = setting_value a,
                   row_maxConcurrentSeeds = setting_value b, row_maxTotalActive = setting_value c,
                   row_maxDownloadRateKbps = setting_value d, row_maxUploadRateKbps = setting_value e,
                   row_reserveDownloadBandwidthPercent = None,
                   row_reserveSeedBandwidthPercent = None,
                   row_seedPolicy = setting_value s, row_createdAt = now \<rparr>))
                (\<lambda>row. Inr (row, db\<lparr> db_policies := db_policies db @ [row] \<rparr>))))"

definition get_policy :: "string \<Rightarrow> scheduler_db \<Rightarrow> http_error + policy_row" where
  "get_policy i db =
     (case find (\<lambda>r. row_id r = i) (db_policies db) of
        None \<Rightarrow> Inl (Not_found ''Policy not found'')
      | Some r \<Rightarrow> Inr r)"

definition patch :: "'a setting \<Rightarrow> 'a option \<Rightarrow> 'a option" where
  "patch s old = (if is_set s then setting_value s else old)"

text \<open>The row after an update: absent fields keep their column, null writes it.\<close>

definition updated_row ::
  "policy_input \<Rightarrow> policy_scope_type option \<Rightarrow> policy_row \<Rightarrow> http_error + policy_row" where
  "updated_row input ty r =
     with_limits input (\<lambda>a b c d e s.
       r\<lparr> row_name := (case pi_name input of None \<Rightarrow> row_name r | Some n \<Rightarrow> trim n),
          row_enabled := default_to (row_enabled r) (pi_enabled input),
          row_scopeType := default_to (row_scopeType r) ty,
          row_scopeId := patch (pi_scopeId input) (row_scopeId r),
          row_maxConcurrentDownloads := patch a (row_maxConcurrentDownloads r),
          row_maxConcurrentSeeds := patch b (row_maxConcurrentSeeds r),
          row_maxTotalActive := patch c (row_maxTotalActive r),
          row_maxDownloadRateKbps := patch d (row_maxDownloadRateKbps r),
          row_maxUploadRateKbps := patch e (row_maxUploadRateKbps r),
          row_seedPolicy := patch s (row_seedPolicy r) \<rparr>)"

definition update_policy ::
  "string \<Rightarrow> policy_input \<Rightarrow> scheduler_db \<Rightarrow> http_error + policy_row \<times> scheduler_db" where
  "update_policy i input db =
     res_bind (get_policy i db) (\<lambda>r.
     res_bind (case pi_scopeType input of
                 None \<Rightarrow> Inr None
               | Some t \<Rightarrow> res_bind (validateScope t (setting_value (pi_scopeId input)))
                            (\<lambda>ty. Inr (Some ty))) (\<lambda>ty.
     res_bind (updated_row input ty r) (\<lambda>r'.
       Inr (r', db\<lparr> db_policies := map (\<lambda>q. if row_id q = i then r' else q) (db_policies db) \<rparr>))))"

definition remove_policy :: "string \<Rightarrow> scheduler_db \<Rightarrow> http_error + scheduler_db" where
  "remove_policy i db =
     res_bind (get_policy i db) (\<lambda>r.
       Inr (db\<lparr> db_policies := filter (\<lambda>q. row_id q \<noteq> i) (db_policies db) \<rparr>))"


section \<open>What a stored policy satisfies\<close>

definition limit_ok :: "int option \<Rightarrow> bool" where
  "limit_ok l = (case l of None \<Rightarrow> True | Some v \<Rightarrow> 1 \<le> v)"

definition seed_ok :: "seeding_policy \<Rightarrow> bool" where
  "seed_ok p \<longleftrightarrow>
     sp_mode p \<in> {SM_ratio, SM_manual, SM_unlimited} \<and>
     (sp_mode p = SM_ratio \<longrightarrow> sp_stopWhen p \<noteq> None \<or> (\<exists>q>0. sp_targetRatio p = Some q)) \<and>
     (\<forall>q. sp_maxAgeDays p = Some q \<longrightarrow> 0 < q \<and> q \<in> \<int>)"

definition scope_ok :: "policy_row \<Rightarrow> bool" where
  "scope_ok r \<longleftrightarrow>
     row_scopeType r \<noteq> Scope_other \<and>
     (if row_scopeType r = Scope_global then row_scopeId r = None
      else row_scopeId r \<noteq> None \<and> row_scopeId r \<noteq> Some [])"

definition limits_ok :: "policy_row \<Rightarrow> bool" where
  "limits_ok r \<longleftrightarrow>
     list_all limit_ok (stored_limits r) \<and>
     pred_option seed_ok (row_seedPolicy r)"

definition policy_ok :: "policy_row \<Rightarrow> bool" where
  "policy_ok r \<longleftrightarrow> row_name r \<noteq> [] \<and> scope_ok r \<and> limits_ok r"

lemma limit_value_ok: "limit v f = Inr s \<Longrightarrow> limit_ok (setting_value s)"
  by (auto simp: limit_def limit_ok_def le_floor_iff split: jsval.splits if_splits)

lemma is_integer_Ints: "is_integer q \<longleftrightarrow> q \<in> \<int>"
  unfolding is_integer_def by (metis Ints_cases Ints_of_int floor_of_int)

lemma map_of_modes: "map_of SEED_MODES m = Some mode \<Longrightarrow> mode \<in> {SM_ratio, SM_manual, SM_unlimited}"
  by (auto simp: SEED_MODES_def split: if_splits)

lemma seed_object_ok: "seed_object i = Inr p \<Longrightarrow> seed_ok p"
  by (auto simp: seed_object_def seed_ok_def build_seed_def ratio_given_def age_positive_def
      age_whole_def is_integer_Ints dest!: map_of_modes split: option.splits if_splits)

lemma seed_value_ok: "seed i = Inr s \<Longrightarrow> pred_option seed_ok (setting_value s)"
  by (auto simp: seed_def res_bind_Inr_iff seed_object_ok split: setting.splits)

lemma validateScope_ok:
  "validateScope t sid = Inr ty \<Longrightarrow> ty \<noteq> Scope_other \<and>
     (if ty = Scope_global then falsy_id sid else \<not> falsy_id sid)"
  by (auto simp: validateScope_def SCOPE_TYPES_def split: if_splits)

lemma with_limits_cases:
  assumes "with_limits input f = Inr x"
  obtains a b c d e s where "x = f a b c d e s" "list_all limit_ok (map setting_value [a, b, c, d, e])"
    "pred_option seed_ok (setting_value s)"
  using assms limit_value_ok seed_value_ok by (fastforce simp: with_limits_def res_bind_Inr_iff)

lemma patch_ok: "P (setting_value s) \<Longrightarrow> P old \<Longrightarrow> P (patch s old)"
  by (simp add: patch_def)

text \<open>
  Which requests are acceptable, said over what the caller sends: a name that is not blank; no scope
  type, or a known one, with an id exactly when it is not global; every limit absent, null or a whole
  number of at least one; and a seeding policy that is absent, null or of an enforceable mode and a
  known action, with a positive target when its mode is a ratio and no condition tree replaces it,
  and a deadline, if any, of a positive whole number of days.
\<close>

definition acceptable_scope :: "string option \<Rightarrow> string setting \<Rightarrow> bool" where
  "acceptable_scope t sid \<longleftrightarrow>
     t \<in> {None, Some ''global''} \<and> sid \<in> {Inherit, Unlimited, Limit []} \<or>
     t \<in> {Some ''engine'', Some ''library'', Some ''category'', Some ''rss_rule'', Some ''torrent''} \<and>
     (\<exists>i. i \<noteq> [] \<and> sid = Limit i)"

definition acceptable_limit :: "jsval \<Rightarrow> bool" where
  "acceptable_limit v \<longleftrightarrow> v = JUndef \<or> v = JNull \<or> (\<exists>k\<ge>1. v = JNum (of_int k))"

definition acceptable_seed :: "seed_input \<Rightarrow> bool" where
  "acceptable_seed i \<longleftrightarrow>
     si_mode i \<in> {None, Some ''ratio'', Some ''manual'', Some ''unlimited''} \<and>
     si_afterTarget i \<in> {None, Some ''pause'', Some ''stop'', Some ''leave_active'',
       Some ''remove_torrent_keep_data'', Some ''remove_torrent_and_staging_data''} \<and>
     (si_mode i \<in> {None, Some ''ratio''} \<and> si_stopWhen i = None \<longrightarrow> (\<exists>q>0. si_targetRatio i = Some q)) \<and>
     (\<forall>q. si_maxAgeDays i = Some q \<longrightarrow> 0 < q \<and> q \<in> \<int>)"

definition acceptable_limits :: "policy_input \<Rightarrow> bool" where
  "acceptable_limits input \<longleftrightarrow>
     (\<forall>v\<in>{pi_maxConcurrentDownloads input, pi_maxConcurrentSeeds input, pi_maxTotalActive input,
            pi_maxDownloadRateKbps input, pi_maxUploadRateKbps input}. acceptable_limit v) \<and>
     (\<forall>i. pi_seedPolicy input = Limit i \<longrightarrow> acceptable_seed i)"

definition acceptable_input :: "policy_input \<Rightarrow> bool" where
  "acceptable_input input \<longleftrightarrow>
     (\<exists>n. pi_name input = Some n \<and> trim n \<noteq> []) \<and>
     acceptable_scope (pi_scopeType input) (pi_scopeId input) \<and> acceptable_limits input"

text \<open>A check answers the request as it should: it goes on exactly when the condition holds.\<close>

definition checks :: "bool \<Rightarrow> http_error + 'a \<Rightarrow> bool" where
  "checks ok res \<longleftrightarrow> (if ok then \<exists>x. res = Inr x else \<exists>msg. res = Inl (Bad_request msg))"

lemma checks_bind:
  "checks ok m \<Longrightarrow> (\<And>x. m = Inr x \<Longrightarrow> checks ok' (f x)) \<Longrightarrow> checks (ok \<and> ok') (res_bind m f)"
  by (cases m) (auto simp: checks_def split: if_splits)

lemma checks_limit: "checks (acceptable_limit v) (limit v field)"
proof (cases v)
  case (JNum q)
  have "is_integer q \<and> \<not> q < 1 \<longleftrightarrow> (\<exists>k\<ge>1. q = of_int k)"
    unfolding is_integer_Ints by (auto elim!: Ints_cases)
  then show ?thesis using JNum by (auto simp: checks_def acceptable_limit_def limit_def)
qed (auto simp: checks_def acceptable_limit_def limit_def)

lemma seed_mode_known:
  "map_of SEED_MODES (default_to ''ratio'' m) =
     (if m \<in> {None, Some ''ratio''} then Some SM_ratio else if m = Some ''manual'' then Some SM_manual
      else if m = Some ''unlimited'' then Some SM_unlimited else None)"
  by (cases m) (simp_all add: SEED_MODES_def default_to_def)

lemma after_target_known:
  "(\<exists>a. map_of AFTER_TARGET (default_to ''pause'' m) = Some a) \<longleftrightarrow>
     m \<in> {None, Some ''pause'', Some ''stop'', Some ''leave_active'',
          Some ''remove_torrent_keep_data'', Some ''remove_torrent_and_staging_data''}"
  by (cases m) (simp_all add: AFTER_TARGET_def default_to_def)

lemma checks_seed_object: "checks (acceptable_seed i) (seed_object i)"
proof (cases "map_of AFTER_TARGET (default_to ''pause'' (si_afterTarget i))")
  case None
  then have "\<not> acceptable_seed i"
    using after_target_known [of "si_afterTarget i"] by (simp add: acceptable_seed_def)
  with None show ?thesis
    by (simp add: checks_def seed_object_def split: option.splits)
next
  case (Some a)
  have r: "ratio_given r \<longleftrightarrow> (\<exists>q>0. r = Some q)"
    "age_positive r \<and> age_whole r \<longleftrightarrow> (\<forall>q. r = Some q \<longrightarrow> 0 < q \<and> q \<in> \<int>)" for r
    by (auto simp: ratio_given_def age_positive_def age_whole_def is_integer_Ints split: option.splits)
  have "acceptable_seed i \<longleftrightarrow> si_mode i \<in> {None, Some ''ratio'', Some ''manual'', Some ''unlimited''} \<and>
      (si_mode i \<in> {None, Some ''ratio''} \<and> si_stopWhen i = None \<longrightarrow> ratio_given (si_targetRatio i)) \<and>
      age_positive (si_maxAgeDays i) \<and> age_whole (si_maxAgeDays i)"
    unfolding acceptable_seed_def r using Some after_target_known [of "si_afterTarget i"] by blast
  with Some show ?thesis
    by (simp add: checks_def seed_object_def seed_mode_known)
qed

lemma checks_seed: "checks (\<forall>i. s = Limit i \<longrightarrow> acceptable_seed i) (seed s)"
proof (cases s)
  case (Limit i)
  with checks_seed_object [of i] show ?thesis by (auto simp: seed_def checks_def split: if_splits)
qed (simp_all add: checks_def seed_def)

lemma checks_scope:
  "checks (acceptable_scope t sid) (validateScope (default_to ''global'' t) (setting_value sid))"
  by (cases t; cases sid)
    (auto simp: checks_def acceptable_scope_def validateScope_def SCOPE_TYPES_def default_to_def falsy_id_def)

lemma checks_with_limits: "checks (acceptable_limits input) (with_limits input f)"
proof -
  have "checks True (Inr (f a b c d e s) :: http_error + 'a)" for a b c d e s
    by (simp add: checks_def)
  then have "checks (acceptable_limit (pi_maxConcurrentDownloads input) \<and>
      acceptable_limit (pi_maxConcurrentSeeds input) \<and> acceptable_limit (pi_maxTotalActive input) \<and>
      acceptable_limit (pi_maxDownloadRateKbps input) \<and> acceptable_limit (pi_maxUploadRateKbps input) \<and>
      (\<forall>i. pi_seedPolicy input = Limit i \<longrightarrow> acceptable_seed i) \<and> True) (with_limits input f)"
    unfolding with_limits_def by (intro checks_bind checks_limit checks_seed)
  then show ?thesis by (simp add: acceptable_limits_def)
qed

lemma checks_create: "checks (acceptable_input input) (create_policy newId now input db)"
proof (cases "\<exists>n. pi_name input = Some n \<and> trim n \<noteq> []")
  case True
  have last: "checks True (Inr x :: http_error + 'b)" for x :: 'b by (simp add: checks_def)
  have named: "trim (default_to [] (pi_name input)) \<noteq> []" using True by (auto simp: default_to_def)
  have "checks (acceptable_scope (pi_scopeType input) (pi_scopeId input) \<and> acceptable_limits input \<and> True)
      (create_policy newId now input db)"
    unfolding create_policy_def Let_def if_not_P [OF named]
    by (intro checks_bind checks_scope checks_with_limits last)
  with True show ?thesis by (simp add: acceptable_input_def)
next
  case False
  then have "trim (default_to [] (pi_name input)) = []"
    by (cases "pi_name input") (auto simp: default_to_def trim_def)
  with False show ?thesis by (auto simp: checks_def create_policy_def acceptable_input_def)
qed

lemma create_policy_accepted:
  assumes "create_policy newId now input db = Inr (row, db')"
  shows "policy_ok row \<and> row_id row = newId \<and> db' = db\<lparr> db_policies := db_policies db @ [row] \<rparr>"
proof -
  let ?name = "trim (default_to [] (pi_name input))"
  obtain ty where ty: "validateScope (default_to ''global'' (pi_scopeType input))
      (setting_value (pi_scopeId input)) = Inr ty" and name: "?name \<noteq> []"
    using assms by (auto simp: create_policy_def Let_def res_bind_Inr_iff split: if_splits)
  obtain a b c d e s where row: "row =
      \<lparr> row_id = newId, row_name = ?name, row_enabled = default_to True (pi_enabled input),
        row_scopeType = ty,
        row_scopeId = (if ty = Scope_global then None else setting_value (pi_scopeId input)),
        row_maxConcurrentDownloads = setting_value a,
        row_maxConcurrentSeeds = setting_value b, row_maxTotalActive = setting_value c,
        row_maxDownloadRateKbps = setting_value d, row_maxUploadRateKbps = setting_value e,
        row_reserveDownloadBandwidthPercent = None, row_reserveSeedBandwidthPercent = None,
        row_seedPolicy = setting_value s, row_createdAt = now \<rparr>"
    and ok: "list_all limit_ok (map setting_value [a, b, c, d, e])"
      "pred_option seed_ok (setting_value s)"
    and db': "db' = db\<lparr> db_policies := db_policies db @ [row] \<rparr>"
    using assms ty name
    by (auto simp: create_policy_def Let_def res_bind_Inr_iff elim!: with_limits_cases)
  show ?thesis
    using row ok db' name validateScope_ok [OF ty]
    by (auto simp: policy_ok_def scope_ok_def limits_ok_def stored_limits_def falsy_id_def)
qed

text \<open>
  C13. A policy is created exactly when the request is acceptable. An acceptable request adds one
  row, of the new id, at the end of the table and changes nothing else, and the row is well-formed:
  it has a name, a known scope that names an id exactly when it is not global, limits that are at
  least one or unlimited, and a seeding policy whose target can be evaluated and whose deadline is a
  positive whole number of days. Every other request is answered with a bad-request error.
\<close>

theorem create_policy_ok:
  "if acceptable_input input
   then \<exists>row. create_policy newId now input db = Inr (row, db\<lparr> db_policies := db_policies db @ [row] \<rparr>) \<and>
              row_id row = newId \<and> policy_ok row
   else \<exists>msg. create_policy newId now input db = Inl (Bad_request msg)"
  using checks_create [of input newId now db] create_policy_accepted [of newId now input db]
  by (auto simp: checks_def)


definition demo_input :: policy_input where
  "demo_input =
     \<lparr> pi_name = Some ''Night'', pi_enabled = None, pi_scopeType = Some ''engine'',
       pi_scopeId = Limit ''e1'', pi_maxConcurrentDownloads = JNum 2,
       pi_maxConcurrentSeeds = JNull, pi_maxTotalActive = JUndef, pi_maxDownloadRateKbps = JUndef,
       pi_maxUploadRateKbps = JUndef, pi_seedPolicy = Inherit \<rparr>"

definition demo_engine_row :: policy_row where
  "demo_engine_row = demo_row ''p1'' Scope_engine (Some ''e1'') (Some 2) None"

lemma trim_demo: "trim ''Night'' = ''Night''" "trim ''p1'' = ''p1''"
  by (simp_all add: trim_def is_ws_def)

lemma is_integer_numeral: "is_integer 2"
  by (simp add: is_integer_def)

theorem create_policy_ok_witness:
  "acceptable_input demo_input \<and>
   (\<exists>row db'. create_policy ''p9'' 0 demo_input demo_db = Inr (row, db') \<and> policy_ok row) \<and>
   (\<exists>msg. create_policy ''p9'' 0 (demo_input\<lparr> pi_maxTotalActive := JNum 0 \<rparr>) demo_db = Inl (Bad_request msg))"
proof -
  have "acceptable_limit (JNum 2)" unfolding acceptable_limit_def by (metis of_int_numeral one_le_numeral)
  then have ok: "acceptable_input demo_input"
    by (simp add: acceptable_input_def acceptable_limits_def demo_input_def trim_demo acceptable_scope_def)
      (simp add: acceptable_limit_def)
  have bad: "\<not> acceptable_input (demo_input\<lparr> pi_maxTotalActive := JNum 0 \<rparr>)"
    by (simp add: acceptable_input_def acceptable_limits_def demo_input_def acceptable_limit_def)
  show ?thesis
    using create_policy_ok [of demo_input "''p9''" 0 demo_db]
      create_policy_ok [of "demo_input\<lparr> pi_maxTotalActive := JNum 0 \<rparr>" "''p9''" 0 demo_db] ok bad
    by auto
qed

lemma get_policy_Inr: "get_policy i db = Inr r \<Longrightarrow> r \<in> set (db_policies db) \<and> row_id r = i"
  by (auto simp: get_policy_def find_Some_iff split: option.splits)

lemma updated_row_fields:
  assumes "updated_row input ty r = Inr r'" "limits_ok r"
  shows "limits_ok r'" and "row_scopeType r' = default_to (row_scopeType r) ty"
    and "row_scopeId r' = patch (pi_scopeId input) (row_scopeId r)"
  using assms unfolding updated_row_def
  by (auto elim!: with_limits_cases simp: limits_ok_def stored_limits_def
      intro!: patch_ok [where P = limit_ok] patch_ok [where P = "pred_option seed_ok"])

text \<open>
  What an update preserves. Limits and the seeding policy stay valid through every update
  of a valid policy. Its scope stays consistent when the update leaves the scope alone and when
  it sends both the type and a non-empty or null id; an update that sends only one of the two
  is checked against nothing stored, so it can leave a global policy with an id, or another
  without one.
\<close>

theorem update_policy_preserves:
  assumes "update_policy i input db = Inr (r', db')" and "\<forall>r\<in>set (db_policies db). policy_ok r"
  shows "limits_ok r' \<and>
    (pi_scopeType input = None \<and> pi_scopeId input = Inherit \<longrightarrow> scope_ok r') \<and>
    (pi_scopeType input \<noteq> None \<and> pi_scopeId input \<noteq> Inherit \<and> pi_scopeId input \<noteq> Limit [] \<longrightarrow>
       scope_ok r')"
proof -
  obtain r ty where r: "get_policy i db = Inr r"
    and ty: "(case pi_scopeType input of
                 None \<Rightarrow> Inr None
               | Some t \<Rightarrow> res_bind (validateScope t (setting_value (pi_scopeId input)))
                            (\<lambda>ty. Inr (Some ty))) = Inr ty"
    and r': "updated_row input ty r = Inr r'"
    using assms(1) by (auto simp: update_policy_def res_bind_Inr_iff)
  have ok: "policy_ok r" using get_policy_Inr [OF r] assms(2) by blast
  then have "limits_ok r" by (simp add: policy_ok_def)
  note f = updated_row_fields [OF r' this]
  have keep: "scope_ok r'" if "pi_scopeType input = None" "pi_scopeId input = Inherit"
    using that ty f ok by (simp add: policy_ok_def scope_ok_def default_to_def patch_def)
  have both: "scope_ok r'"
    if sent: "pi_scopeType input = Some t" "pi_scopeId input \<noteq> Inherit" "pi_scopeId input \<noteq> Limit []" for t
  proof -
    obtain ty' where v: "validateScope t (setting_value (pi_scopeId input)) = Inr ty'" "ty = Some ty'"
      using ty sent(1) by (auto simp: res_bind_Inr_iff)
    have "row_scopeType r' = ty'" "row_scopeId r' = setting_value (pi_scopeId input)"
      using f v(2) sent(2) by (cases "pi_scopeId input"; simp add: default_to_def patch_def)+
    then show ?thesis
      using validateScope_ok [OF v(1)] sent
      by (cases "pi_scopeId input") (auto simp: scope_ok_def falsy_id_def split: if_splits)
  qed
  show ?thesis using f(1) keep both by blast
qed

text \<open>
  The witness also shows the hole: an engine policy sent a global scope alone becomes a global
  policy that still carries the engine's id.
\<close>

theorem update_policy_preserves_witness:
  "(\<exists>r' db'. update_policy ''p1'' (demo_input\<lparr> pi_name := None \<rparr>)
       (demo_db\<lparr> db_policies := [demo_engine_row] \<rparr>) = Inr (r', db') \<and> scope_ok r') \<and>
   (\<exists>r' db'. update_policy ''p1''
       (demo_input\<lparr> pi_name := None, pi_scopeType := Some ''global'', pi_scopeId := Inherit \<rparr>)
       (demo_db\<lparr> db_policies := [demo_engine_row] \<rparr>) = Inr (r', db') \<and> \<not> scope_ok r')"
proof (rule conjI)
  let ?in = "demo_input\<lparr> pi_name := None \<rparr>" and ?db = "demo_db\<lparr> db_policies := [demo_engine_row] \<rparr>"
  note ev = update_policy_def get_policy_def updated_row_def demo_input_def default_to_def
    validateScope_def SCOPE_TYPES_def falsy_id_def with_limits_def limit_def is_integer_numeral
    seed_def demo_engine_row_def demo_row_def
  have ok: "\<forall>r\<in>set (db_policies ?db). policy_ok r"
    by (simp add: policy_ok_def scope_ok_def limits_ok_def stored_limits_def limit_ok_def
        falsy_id_def demo_engine_row_def demo_row_def)
  obtain r' db' where u: "update_policy ''p1'' ?in ?db = Inr (r', db')"
    by (simp add: ev)
  with update_policy_preserves [OF u ok]
  show "\<exists>r' db'. update_policy ''p1'' ?in ?db = Inr (r', db') \<and> scope_ok r'"
    by (auto simp: demo_input_def)
  show "\<exists>r' db'. update_policy ''p1''
       (demo_input\<lparr> pi_name := None, pi_scopeType := Some ''global'', pi_scopeId := Inherit \<rparr>)
       (demo_db\<lparr> db_policies := [demo_engine_row] \<rparr>) = Inr (r', db') \<and> \<not> scope_ok r'"
    by (simp add: ev scope_ok_def patch_def)
qed


section \<open>Overrides\<close>

definition OVERRIDE_KINDS :: "(string \<times> override_kind) list" where
  "OVERRIDE_KINDS =
     [(''protect_from_pause'', OK_protect_from_pause),
      (''protect_from_removal'', OK_protect_from_removal),
      (''exclude'', OK_exclude), (''force_start'', OK_force_start)]"

definition is_hex :: "char \<Rightarrow> bool" where
  "is_hex c = (radix_digit c < 16)"

definition is_info_hash :: "string \<Rightarrow> bool" where
  "is_info_hash h = (list_all is_hex h \<and> (length h = 40 \<or> length h = 32))"

record override_input =
  oi_kind :: "string option"
  oi_expiresInMinutes :: "rat option"
  oi_reason :: "string option"

definition override_key :: "string \<Rightarrow> string \<Rightarrow> override_kind \<Rightarrow> override_row \<Rightarrow> bool" where
  "override_key engineId hash kind r =
     (ov_engineId r = engineId \<and> ov_hash r = hash \<and> ov_kind r = kind)"

definition upsert_override :: "override_row \<Rightarrow> override_row list \<Rightarrow> override_row list" where
  "upsert_override row rows =
     (if list_ex (override_key (ov_engineId row) (ov_hash row) (ov_kind row)) rows
      then map (\<lambda>r. if override_key (ov_engineId row) (ov_hash row) (ov_kind row) r then row else r) rows
      else rows @ [row])"

definition minutes_ok :: "rat option \<Rightarrow> bool" where
  "minutes_ok m = (case m of None \<Rightarrow> True | Some q \<Rightarrow> is_integer q \<and> \<not> q < 1)"

definition set_override ::
  "(string \<rightharpoonup> engine_kind) \<Rightarrow> time \<Rightarrow> string \<Rightarrow> string \<Rightarrow> override_input \<Rightarrow> string option \<Rightarrow>
   scheduler_db \<Rightarrow> http_error + override_row \<times> scheduler_db" where
  "set_override registry now engineId hash input userId db =
     (if registry engineId = None then Inl (Not_found (''Unknown engine: '' @ engineId))
      else case map_of OVERRIDE_KINDS (default_to ''undefined'' (oi_kind input)) of
        None \<Rightarrow> Inl (Bad_request (''Unknown override '' @ quoted (default_to ''undefined'' (oi_kind input)) @
                  ''. Expected one of: '' @ join_with '', '' (map fst OVERRIDE_KINDS) @ ''.''))
      | Some kind \<Rightarrow>
          if \<not> is_info_hash hash then Inl (Bad_request ''That does not look like a torrent info-hash.'')
          else if \<not> minutes_ok (oi_expiresInMinutes input)
            then Inl (Bad_request ''An expiry must be a whole number of minutes, at least 1.'')
          else
            (let row = \<lparr> ov_engineId = engineId, ov_hash = to_lower hash, ov_kind = kind,
                   ov_expiresAt = map_option (\<lambda>m. now + \<lfloor>m\<rfloor> * 60000) (oi_expiresInMinutes input),
                   ov_clearedAt = None, ov_reason = oi_reason input, ov_createdBy = userId \<rparr>
             in Inr (row, db\<lparr> db_overrides := upsert_override row (db_overrides db) \<rparr>)))"

definition clear_override ::
  "(string \<rightharpoonup> engine_kind) \<Rightarrow> time \<Rightarrow> string \<Rightarrow> string \<Rightarrow> string \<Rightarrow> scheduler_db \<Rightarrow>
   http_error + scheduler_db" where
  "clear_override registry now engineId hash kind db =
     (if registry engineId = None then Inl (Not_found (''Unknown engine: '' @ engineId))
      else Inr (db\<lparr> db_overrides :=
        map (\<lambda>r. if ov_engineId r = engineId \<and> ov_hash r = to_lower hash \<and>
                    map_of OVERRIDE_KINDS kind = Some (ov_kind r) \<and> ov_clearedAt r = None
                 then r\<lparr> ov_clearedAt := Some now \<rparr> else r) (db_overrides db) \<rparr>))"

text \<open>The stored hashes are lower case, and each instruction has one row.\<close>

definition overrides_ok :: "override_row list \<Rightarrow> bool" where
  "overrides_ok rows \<longleftrightarrow>
     (\<forall>r\<in>set rows. to_lower (ov_hash r) = ov_hash r) \<and>
     distinct (map (\<lambda>r. (ov_engineId r, ov_hash r, ov_kind r)) rows)"

definition instructions :: "time \<Rightarrow> scheduler_db \<Rightarrow> (string \<times> string \<times> override_kind) set" where
  "instructions now db = {(e, h, k). in_force db e now h k \<and> to_lower h = h}"

lemma instructions_iff:
  "overrides_ok (db_overrides db) \<Longrightarrow>
   (e, h, k) \<in> instructions now db \<longleftrightarrow>
     (\<exists>r\<in>set (db_overrides db). override_active e now r \<and> ov_hash r = h \<and> ov_kind r = k)"
  unfolding instructions_def in_force_def overrides_ok_def by fastforce

lemma map_override_keys:
  assumes "\<And>r. (ov_engineId (f r), ov_hash (f r), ov_kind (f r)) = (ov_engineId r, ov_hash r, ov_kind r)"
  shows "map (\<lambda>r. (ov_engineId r, ov_hash r, ov_kind r)) (map f rows) =
         map (\<lambda>r. (ov_engineId r, ov_hash r, ov_kind r)) rows"
  using assms by simp

lemma upsert_override_ok:
  assumes "overrides_ok rows" "to_lower (ov_hash row) = ov_hash row"
  shows "overrides_ok (upsert_override row rows)"
proof (cases "list_ex (override_key (ov_engineId row) (ov_hash row) (ov_kind row)) rows")
  case True
  let ?f = "\<lambda>r. if override_key (ov_engineId row) (ov_hash row) (ov_kind row) r then row else r"
  have "map (\<lambda>r. (ov_engineId r, ov_hash r, ov_kind r)) (map ?f rows) =
        map (\<lambda>r. (ov_engineId r, ov_hash r, ov_kind r)) rows"
    by (rule map_override_keys) (auto simp: override_key_def)
  then have "distinct (map (\<lambda>r. (ov_engineId r, ov_hash r, ov_kind r)) (map ?f rows))"
    using assms(1) by (simp only: overrides_ok_def)
  moreover have "\<forall>r\<in>set (map ?f rows). to_lower (ov_hash r) = ov_hash r"
    using assms by (auto simp: overrides_ok_def)
  ultimately show ?thesis using True by (simp only: upsert_override_def overrides_ok_def if_True)
next
  case False
  then show ?thesis using assms
    by (auto simp: upsert_override_def overrides_ok_def override_key_def list_ex_iff)
qed


lemma upsert_override_mem:
  "r \<in> set (upsert_override row rows) \<longleftrightarrow>
     r = row \<or> r \<in> set rows \<and> \<not> override_key (ov_engineId row) (ov_hash row) (ov_kind row) r"
  by (auto simp: upsert_override_def list_ex_iff override_key_def image_iff)

definition alive :: "time \<Rightarrow> override_row \<Rightarrow> bool" where
  "alive t row = (case ov_expiresAt row of None \<Rightarrow> True | Some x \<Rightarrow> t < x)"

lemma set_override_cases:
  assumes "set_override registry now e hash input userId db = Inr (row, db')"
  obtains "ov_engineId row = e" "ov_hash row = to_lower hash" "ov_clearedAt row = None"
    "db' = db\<lparr> db_overrides := upsert_override row (db_overrides db) \<rparr>"
  using assms by (auto simp: set_override_def Let_def split: if_splits option.splits)

lemma upsert_instructions:
  assumes "overrides_ok (db_overrides db)" "to_lower (ov_hash row) = ov_hash row"
    and "ov_clearedAt row = None"
  shows "instructions t (db\<lparr> db_overrides := upsert_override row (db_overrides db) \<rparr>) =
     (instructions t db - {(ov_engineId row, ov_hash row, ov_kind row)}) \<union>
     (if alive t row then {(ov_engineId row, ov_hash row, ov_kind row)} else {})"
    (is "?lhs = ?rhs")
proof (rule set_eqI)
  fix x :: "string \<times> string \<times> override_kind"
  obtain e h k where x: "x = (e, h, k)" by (cases x) auto
  have ok: "overrides_ok (upsert_override row (db_overrides db))"
    using upsert_override_ok [OF assms(1,2)] .
  have one: "r = r'" if "r \<in> set (db_overrides db)" "r' \<in> set (db_overrides db)"
      "ov_engineId r = ov_engineId r'" "ov_hash r = ov_hash r'" "ov_kind r = ov_kind r'" for r r'
    using that assms(1) by (auto simp: overrides_ok_def distinct_map dest: inj_onD)
  have "x \<in> ?lhs \<longleftrightarrow> (\<exists>r. (r = row \<or> r \<in> set (db_overrides db) \<and>
        \<not> override_key (ov_engineId row) (ov_hash row) (ov_kind row) r) \<and>
        override_active e t r \<and> ov_hash r = h \<and> ov_kind r = k)"
    using ok by (auto simp: x instructions_iff upsert_override_mem)
  also have "\<dots> \<longleftrightarrow> x \<in> ?rhs"
    using assms(3) by (auto simp: x instructions_iff [OF assms(1)] override_key_def
        override_active_def alive_def split: option.splits)
  finally show "x \<in> ?lhs \<longleftrightarrow> x \<in> ?rhs" .
qed

text \<open>
  Setting an override puts exactly that instruction in force, from now until it expires:
  at every instant the instructions in force are those of before, with this one replaced by
  the new one, which holds as long as it has not expired. An instruction that was revoked is
  revived, and the stored rows stay in lower case with one row per instruction.
\<close>

theorem set_override_instructs:
  assumes "overrides_ok (db_overrides db)"
    and "set_override registry now e hash input userId db = Inr (row, db')"
  shows "overrides_ok (db_overrides db') \<and>
    instructions t db' =
      (instructions t db - {(e, to_lower hash, ov_kind row)}) \<union>
      (if case oi_expiresInMinutes input of None \<Rightarrow> True | Some m \<Rightarrow> t < now + \<lfloor>m\<rfloor> * 60000
       then {(e, to_lower hash, ov_kind row)} else {})"
proof -
  obtain r: "ov_engineId row = e" "ov_hash row = to_lower hash" "ov_clearedAt row = None"
    "db' = db\<lparr> db_overrides := upsert_override row (db_overrides db) \<rparr>"
    using assms(2) by (rule set_override_cases)
  have "ov_expiresAt row = map_option (\<lambda>m. now + \<lfloor>m\<rfloor> * 60000) (oi_expiresInMinutes input)"
    using assms(2) by (auto simp: set_override_def Let_def split: if_splits option.splits)
  then have "alive t row =
      (case oi_expiresInMinutes input of None \<Rightarrow> True | Some m \<Rightarrow> t < now + \<lfloor>m\<rfloor> * 60000)"
    by (simp add: alive_def split: option.splits)
  with r upsert_instructions [OF assms(1), of row t] upsert_override_ok [OF assms(1), of row]
  show ?thesis by simp
qed

definition demo_hash :: string where
  "demo_hash = replicate 40 (CHR ''A'')"

theorem set_override_instructs_witness:
  "\<exists>row db'. set_override demo_registry 0 ''e1'' demo_hash
      \<lparr> oi_kind = Some ''exclude'', oi_expiresInMinutes = Some 2, oi_reason = None \<rparr> None demo_db =
        Inr (row, db') \<and>
      (''e1'', to_lower demo_hash, OK_exclude) \<in> instructions 119999 db' \<and>
      (''e1'', to_lower demo_hash, OK_exclude) \<notin> instructions 120000 db'"
proof -
  let ?in = "\<lparr> oi_kind = Some ''exclude'', oi_expiresInMinutes = Some 2, oi_reason = None \<rparr>"
  have hash: "is_info_hash demo_hash"
    by (simp add: is_info_hash_def demo_hash_def list_all_iff is_hex_def radix_digit_def)
  obtain row db' where r: "set_override demo_registry 0 ''e1'' demo_hash ?in None demo_db = Inr (row, db')"
      "ov_kind row = OK_exclude"
    by (simp add: set_override_def demo_registry_def OVERRIDE_KINDS_def default_to_def hash
        minutes_ok_def is_integer_numeral Let_def)
  have ok: "overrides_ok (db_overrides demo_db)" by (simp add: overrides_ok_def demo_db_def)
  have "instructions 119999 db' = instructions 119999 demo_db - {(''e1'', to_lower demo_hash, OK_exclude)} \<union>
      {(''e1'', to_lower demo_hash, OK_exclude)}"
    and "instructions 120000 db' = instructions 120000 demo_db - {(''e1'', to_lower demo_hash, OK_exclude)}"
    using set_override_instructs [OF ok r(1), of 119999] set_override_instructs [OF ok r(1), of 120000]
      r(2) by simp_all
  with r show ?thesis by blast
qed

lemma clear_override_rows:
  assumes "clear_override registry now e hash ks db = Inr db'"
  shows "db_overrides db' =
    map (\<lambda>r. if ov_engineId r = e \<and> ov_hash r = to_lower hash \<and>
               map_of OVERRIDE_KINDS ks = Some (ov_kind r) \<and> ov_clearedAt r = None
             then r\<lparr> ov_clearedAt := Some now \<rparr> else r) (db_overrides db)"
  using assms by (auto simp: clear_override_def split: if_splits)

lemma clear_override_ok:
  assumes "clear_override registry now e hash ks db = Inr db'" "overrides_ok (db_overrides db)"
  shows "overrides_ok (db_overrides db')"
proof -
  let ?f = "\<lambda>r. if ov_engineId r = e \<and> ov_hash r = to_lower hash \<and>
               map_of OVERRIDE_KINDS ks = Some (ov_kind r) \<and> ov_clearedAt r = None
             then r\<lparr> ov_clearedAt := Some now \<rparr> else r"
  have "map (\<lambda>r. (ov_engineId r, ov_hash r, ov_kind r)) (map ?f (db_overrides db)) =
        map (\<lambda>r. (ov_engineId r, ov_hash r, ov_kind r)) (db_overrides db)"
    by (rule map_override_keys) auto
  then have "distinct (map (\<lambda>r. (ov_engineId r, ov_hash r, ov_kind r)) (map ?f (db_overrides db)))"
    using assms(2) by (simp only: overrides_ok_def)
  moreover have "\<forall>r\<in>set (map ?f (db_overrides db)). to_lower (ov_hash r) = ov_hash r"
    using assms(2) by (auto simp: overrides_ok_def)
  ultimately show ?thesis unfolding clear_override_rows [OF assms(1)] overrides_ok_def by blast
qed

text \<open>Clearing takes exactly that instruction out of force, at every instant.\<close>

lemma clear_override_instructs:
  assumes "clear_override registry now e hash ks db = Inr db'" "overrides_ok (db_overrides db)"
    and "map_of OVERRIDE_KINDS ks = Some kind"
  shows "instructions t db' = instructions t db - {(e, to_lower hash, kind)}"
proof (rule set_eqI)
  fix x :: "string \<times> string \<times> override_kind"
  obtain e' h k where x: "x = (e', h, k)" by (cases x) auto
  show "x \<in> instructions t db' \<longleftrightarrow> x \<in> instructions t db - {(e, to_lower hash, kind)}"
    unfolding x using instructions_iff [OF clear_override_ok [OF assms(1,2)], of e' h k t]
      instructions_iff [OF assms(2), of e' h k t] assms(3)
    by (auto simp: clear_override_rows [OF assms(1)] override_active_def split: if_splits)
qed

end
