(* ===== verification/Sched_Modes.thy ===== *)
theory Sched_Modes
  imports Sched_Admin
begin

text \<open>
  The mode of an engine and what a sweep does with it: \<^verbatim>\<open>scheduler-mode.service.ts\<close>,
  \<^verbatim>\<open>scheduler-activation.service.ts\<close>, \<^verbatim>\<open>scheduler-sweep.service.ts\<close> and
  \<^verbatim>\<open>global-bandwidth.service.ts\<close>. The configuration rows are a map from engine ids;
  the changes of mode are a step relation labelled with the request, and reachability is over
  the sequence of requests. A dash in a message is written in ASCII, and the text of an error
  an event carries is left out with its redaction.

  The lemmas show that managed mode is reached only through a confirmed activation, that a
  sweep changes nothing but managed engines, and that the scheduler and the global ceiling
  never both write an engine's limits.
\<close>

section \<open>Modes\<close>

datatype scheduler_mode = Mode_native | Mode_observe | Mode_managed | Mode_other string

record engine_config =
  cf_mode :: scheduler_mode
  cf_modeChangedAt :: "time option"
  cf_modeChangedBy :: "string option"
  cf_lastSweepAt :: "time option"
  cf_lastSuccessfulSweepAt :: "time option"
  cf_healthState :: "string option"
  cf_healthDetail :: "string option"

type_synonym configs = "string \<rightharpoonup> engine_config"
type_synonym registry = "string \<rightharpoonup> engine_kind"

definition mode_of :: "configs \<Rightarrow> string \<Rightarrow> scheduler_mode" where
  "mode_of cfgs e = (case cfgs e of None \<Rightarrow> Mode_native | Some c \<Rightarrow> cf_mode c)"

definition fresh_config :: "scheduler_mode \<Rightarrow> engine_config" where
  "fresh_config m =
     \<lparr> cf_mode = m, cf_modeChangedAt = None, cf_modeChangedBy = None, cf_lastSweepAt = None,
       cf_lastSuccessfulSweepAt = None, cf_healthState = None, cf_healthDetail = None \<rparr>"

definition upsert_mode ::
  "time \<Rightarrow> string option \<Rightarrow> string \<Rightarrow> scheduler_mode \<Rightarrow> configs \<Rightarrow> configs" where
  "upsert_mode now user e m cfgs =
     cfgs(e \<mapsto> (case cfgs e of None \<Rightarrow> fresh_config m | Some c \<Rightarrow> c)
            \<lparr> cf_mode := m, cf_modeChangedAt := Some now, cf_modeChangedBy := user \<rparr>)"

definition setMode ::
  "registry \<Rightarrow> time \<Rightarrow> string option \<Rightarrow> string \<Rightarrow> scheduler_mode \<Rightarrow> configs \<Rightarrow> http_error + configs" where
  "setMode reg now user e mode cfgs =
     (if reg e = None then Inl (Not_found (''Unknown engine: '' @ e))
      else if mode = Mode_managed then
        Inl (Bad_request (''Managed scheduling is enabled through the activation flow, not by setting the mode '' @
               ''directly - it requires a preview of what it would do and an explicit confirmation.''))
      else (case mode of
              Mode_other m \<Rightarrow> Inl (Bad_request (''Unknown scheduling mode: '' @ m))
            | _ \<Rightarrow> Inr (upsert_mode now user e mode cfgs)))"


section \<open>Activation\<close>

record activation_preview =
  ap_engineId :: string
  ap_blockers :: "string list"
  ap_warnings :: "string list"
  ap_wouldPause :: int
  ap_wouldResume :: int
  ap_wouldRemove :: int
  ap_totalTorrents :: int

definition count_action :: "plan_action \<Rightarrow> torrent_decision list \<Rightarrow> int" where
  "count_action a ds = count_if (\<lambda>d. td_action d = a) ds"

definition describe ::
  "registry \<Rightarrow> (string \<Rightarrow> engine_activity_plan option) \<Rightarrow> bool \<Rightarrow> scheduler_db \<Rightarrow> string \<Rightarrow>
   http_error + activation_preview" where
  "describe reg preview parkingEnabled db e =
     (case reg e of
        None \<Rightarrow> Inl (Not_found (''Unknown engine: '' @ e))
      | Some kind \<Rightarrow>
          (let caps = capabilities_for kind;
               decisions = (case preview e of None \<Rightarrow> [] | Some p \<Rightarrow> eap_decisions p)
           in Inr \<lparr> ap_engineId = e,
                ap_blockers = (if \<not> canDo (cap_pause caps) \<or> \<not> canDo (cap_resume caps)
                               then [''engine_cannot_pause''] else []),
                ap_warnings =
                  (if \<not> canDo (cap_reportsQueuedState caps) then [''queued_state_inferred''] else []) @
                  (if cap_forceStart caps = Approximated then [''force_start_approximated''] else []) @
                  (if parkingEnabled then [''parking_also_enabled''] else []) @
                  (if filter row_enabled (db_policies db) = [] then [''no_policies''] else []),
                ap_wouldPause = count_action Act_pause decisions,
                ap_wouldResume = count_action Act_resume decisions,
                ap_wouldRemove = count_action Act_remove_and_cleanup decisions,
                ap_totalTorrents = int (length decisions) \<rparr>))"

definition confirm_message :: "activation_preview \<Rightarrow> string" where
  "confirm_message p =
     ''Managed scheduling would '' @
     (if ap_wouldRemove p > 0
      then ''remove '' @ int_digits (ap_wouldRemove p) @ '' torrent(s) and their staging data, '' else []) @
     ''pause '' @ int_digits (ap_wouldPause p) @ '' and resume '' @ int_digits (ap_wouldResume p) @
     '' torrent(s) on this engine. Confirm to proceed.''"

definition activate ::
  "registry \<Rightarrow> (string \<Rightarrow> engine_activity_plan option) \<Rightarrow> bool \<Rightarrow> scheduler_db \<Rightarrow> time \<Rightarrow>
   string option \<Rightarrow> string \<Rightarrow> bool \<Rightarrow> configs \<Rightarrow> http_error + configs" where
  "activate reg preview parkingEnabled db now user e confirm cfgs =
     res_bind (describe reg preview parkingEnabled db e) (\<lambda>description.
       if ap_blockers description \<noteq> []
         then Inl (Bad_request (''This engine cannot be managed: '' @
                join_with '', '' (ap_blockers description)))
       else if \<not> confirm then Inl (Bad_request (confirm_message description))
       else Inr (upsert_mode now user e Mode_managed cfgs))"

fun resume_all :: "'w host \<Rightarrow> string list \<Rightarrow> int \<Rightarrow> 'w \<Rightarrow> int \<times> 'w" where
  "resume_all h [] n w = (n, w)"
| "resume_all h (hash # hs) n w =
     (case host_resumeTorrent h hash w of
        (Inl err, w') \<Rightarrow> resume_all h hs n w'
      | (Inr _, w') \<Rightarrow> resume_all h hs (n + 1) w')"

record 'w deactivation =
  de_configs :: configs
  de_db :: scheduler_db
  de_world :: 'w
  de_heldPaused :: int
  de_resumed :: int

definition deactivate ::
  "registry \<Rightarrow> 'w host \<Rightarrow> time \<Rightarrow> string option \<Rightarrow> string \<Rightarrow> bool \<Rightarrow> configs \<Rightarrow> scheduler_db \<Rightarrow> 'w \<Rightarrow>
   http_error + 'w deactivation" where
  "deactivate reg h now user e resumePaused cfgs db w =
     (if reg e = None then Inl (Not_found (''Unknown engine: '' @ e))
      else
        (let held = filter (\<lambda>r. st_engineId r = e \<and> st_schedulerPausedAt r \<noteq> None) (db_states db);
             cfgs' = upsert_mode now user e Mode_native cfgs
         in if resumePaused \<and> held \<noteq> [] then
              (case resume_all h (map st_hash held) 0 w of
                 (n, w') \<Rightarrow>
                   Inr \<lparr> de_configs = cfgs',
                         de_db = db\<lparr> db_states := filter (\<lambda>r. st_engineId r \<noteq> e) (db_states db) \<rparr>,
                         de_world = w', de_heldPaused = int (length held), de_resumed = n \<rparr>)
            else Inr \<lparr> de_configs = cfgs', de_db = db, de_world = w,
                       de_heldPaused = int (length held), de_resumed = 0 \<rparr>))"


section \<open>The sweep\<close>

definition markSwept ::
  "time \<Rightarrow> string \<Rightarrow> string \<Rightarrow> string option \<Rightarrow> bool \<Rightarrow> configs \<Rightarrow> configs" where
  "markSwept now e healthState healthDetail success cfgs =
     cfgs(e \<mapsto>
       (case cfgs e of
          None \<Rightarrow> (fresh_config Mode_native)
            \<lparr> cf_lastSweepAt := Some now,
              cf_lastSuccessfulSweepAt := (if success then Some now else None),
              cf_healthState := Some healthState, cf_healthDetail := healthDetail \<rparr>
        | Some c \<Rightarrow> c\<lparr> cf_lastSweepAt := Some now,
              cf_lastSuccessfulSweepAt :=
                (if success then Some now else cf_lastSuccessfulSweepAt c),
              cf_healthState := Some healthState, cf_healthDetail := healthDetail \<rparr>))"

datatype sweep_event =
  Ev_action_failed string string string
| Ev_seed_target_reached string string
| Ev_health_changed string string "string option"

record decision_row =
  dr_engineId :: string
  dr_mode :: scheduler_mode
  dr_summary :: plan_summary
  dr_limitations :: "scheduler_limitation list"
  dr_proposedActions :: int
  dr_appliedActions :: int

record 'w sweep_state =
  ss_db :: scheduler_db
  ss_configs :: configs
  ss_decisions :: "decision_row list"
  ss_events :: "sweep_event list"
  ss_world :: 'w

definition announceHealth :: "string \<Rightarrow> string \<Rightarrow> string option \<Rightarrow> 'w sweep_state \<Rightarrow> 'w sweep_state" where
  "announceHealth e next previous st =
     (if previous = Some next then st
      else st\<lparr> ss_events := ss_events st @ [Ev_health_changed e next previous] \<rparr>)"

definition merge_limitations ::
  "scheduler_limitation list \<Rightarrow> scheduler_limitation list \<Rightarrow> scheduler_limitation list" where
  "merge_limitations ls news =
     foldl (\<lambda>acc l. if list_ex (\<lambda>x. lim_code x = lim_code l) acc then acc else acc @ [l]) ls news"

record 'w sweep_env =
  se_hosts :: "string \<Rightarrow> 'w host"
  se_cleanup :: "string \<Rightarrow> string \<Rightarrow> cleanup_cfg"
  se_preview :: "string \<Rightarrow> scheduler_db \<Rightarrow> time \<Rightarrow> string + engine_activity_plan option"
  se_now :: time

text \<open>Enforcing a plan: the one branch that reaches the engine.\<close>

definition enforce ::
  "'w sweep_env \<Rightarrow> string \<Rightarrow> engine_activity_plan \<Rightarrow> 'w sweep_state \<Rightarrow>
   int \<times> scheduler_limitation list \<times> 'w sweep_state" where
  "enforce env e plan st =
     (let rs = apply_plan (se_hosts env e) (se_cleanup env e) True plan (db_states (ss_db st)) (ss_world st);
          out = rs_out rs
      in (ro_applied out, merge_limitations (eap_limitations plan) (ro_limitations out),
          st\<lparr> ss_db := (ss_db st)\<lparr> db_states := rs_states rs \<rparr>, ss_world := rs_world rs,
              ss_events := ss_events st @
                map (\<lambda>(hash, action, err). Ev_action_failed e hash action) (ro_failures out) \<rparr>))"

definition sweep_engine ::
  "'w sweep_env \<Rightarrow> configs \<Rightarrow> string \<Rightarrow> 'w sweep_state \<Rightarrow> 'w sweep_state" where
  "sweep_engine env prior e st =
     (let mode = mode_of prior e;
          priorHealth = (case prior e of None \<Rightarrow> None | Some c \<Rightarrow> cf_healthState c)
      in case se_preview env e (ss_db st) (se_now env) of
           Inl message \<Rightarrow>
             announceHealth e ''degraded'' priorHealth
               (st\<lparr> ss_configs := markSwept (se_now env) e ''degraded'' (Some (take 500 message)) False
                                   (ss_configs st) \<rparr>)
         | Inr None \<Rightarrow> st
         | Inr (Some plan) \<Rightarrow>
             (let (applied', limitations, st1) =
                    (if mode = Mode_managed then enforce env e plan st
                     else (0, eap_limitations plan, st));
                  health = (if limitations = [] then ''healthy'' else ''provider_limited'');
                  codes = join_with '','' (map (limitation_str \<circ> lim_code) limitations);
                  row = \<lparr> dr_engineId = e, dr_mode = mode, dr_summary = eap_summary plan,
                          dr_limitations = limitations,
                          dr_proposedActions = count_if (\<lambda>d. td_action d \<noteq> Act_none) (eap_decisions plan),
                          dr_appliedActions = applied' \<rparr>;
                  st2 = st1\<lparr> ss_decisions := ss_decisions st1 @ [row],
                             ss_configs := markSwept (se_now env) e health
                               (if codes = [] then None else Some codes) True (ss_configs st1) \<rparr>;
                  st3 = announceHealth e health priorHealth st2
              in st3\<lparr> ss_events := ss_events st3 @
                   map (\<lambda>d. Ev_seed_target_reached e (td_hash d))
                     (filter (\<lambda>d. td_reasonCode d = ''seed_target_reached'') (eap_decisions plan)) \<rparr>))"

definition sweep :: "'w sweep_env \<Rightarrow> string list \<Rightarrow> 'w sweep_state \<Rightarrow> 'w sweep_state" where
  "sweep env engines st =
     (let prior = ss_configs st
      in fold (sweep_engine env prior) (filter (\<lambda>e. mode_of prior e \<noteq> Mode_native) engines) st)"


section \<open>Reaching managed mode\<close>

datatype mode_request = Req_set string scheduler_mode | Req_activate string bool | Req_deactivate string
  | Req_sweep string

fun request_engine :: "mode_request \<Rightarrow> string" where
  "request_engine (Req_set e _) = e"
| "request_engine (Req_activate e _) = e"
| "request_engine (Req_deactivate e) = e"
| "request_engine (Req_sweep e) = e"

inductive mode_step :: "registry \<Rightarrow> configs \<Rightarrow> mode_request \<Rightarrow> configs \<Rightarrow> bool" for reg where
  step_set: "setMode reg now user e m cfgs = Inr cfgs' \<Longrightarrow> mode_step reg cfgs (Req_set e m) cfgs'"
| step_activate: "activate reg preview parking db now user e confirm cfgs = Inr cfgs' \<Longrightarrow>
    mode_step reg cfgs (Req_activate e confirm) cfgs'"
| step_deactivate: "deactivate reg (h :: unit host) now user e resumePaused cfgs db w = Inr d \<Longrightarrow>
    mode_step reg cfgs (Req_deactivate e) (de_configs d)"
| step_sweep: "mode_step reg cfgs (Req_sweep e) (markSwept now e health detail success cfgs)"

inductive_cases mode_stepE: "mode_step reg cfgs r cfgs'"

inductive mode_run :: "registry \<Rightarrow> mode_request list \<Rightarrow> configs \<Rightarrow> bool" for reg where
  run_start: "mode_run reg [] Map.empty"
| run_step: "mode_run reg tr cfgs \<Longrightarrow> mode_step reg cfgs r cfgs' \<Longrightarrow> mode_run reg (tr @ [r]) cfgs'"

lemma mode_of_upsert [simp]:
  "mode_of (upsert_mode now u e m cfgs) e' = (if e' = e then m else mode_of cfgs e')"
  by (simp add: mode_of_def upsert_mode_def split: option.splits)

lemma mode_of_markSwept [simp]: "mode_of (markSwept now e h d s cfgs) e' = mode_of cfgs e'"
  by (auto simp: mode_of_def markSwept_def fresh_config_def split: option.splits)

lemma setMode_Inr:
  "setMode reg now u e m cfgs = Inr cfgs' \<Longrightarrow> cfgs' = upsert_mode now u e m cfgs \<and> m \<noteq> Mode_managed"
  by (auto simp: setMode_def split: if_splits scheduler_mode.splits)

lemma deactivate_Inr:
  "deactivate reg h now u e rp cfgs db w = Inr d \<Longrightarrow> de_configs d = upsert_mode now u e Mode_native cfgs"
  by (auto simp: deactivate_def Let_def split: if_splits prod.splits)

definition manageable :: "registry \<Rightarrow> string \<Rightarrow> bool" where
  "manageable reg e \<longleftrightarrow>
     (\<exists>kind. reg e = Some kind \<and> canDo (cap_pause (capabilities_for kind)) \<and>
            canDo (cap_resume (capabilities_for kind)))"

lemma activate_Inr:
  assumes "activate reg preview parking db now u e confirm cfgs = Inr cfgs'"
  shows "cfgs' = upsert_mode now u e Mode_managed cfgs" and "confirm" and "manageable reg e"
  using assms
  by (auto simp: activate_def describe_def manageable_def Let_def res_bind_Inr_iff
      split: option.splits if_splits)

lemma mode_step_mode:
  assumes "mode_step reg cfgs r cfgs'"
  shows "mode_of cfgs' e =
    (case r of
       Req_set e' m \<Rightarrow> if e = e' then m else mode_of cfgs e
     | Req_activate e' _ \<Rightarrow> if e = e' then Mode_managed else mode_of cfgs e
     | Req_deactivate e' \<Rightarrow> if e = e' then Mode_native else mode_of cfgs e
     | Req_sweep e' \<Rightarrow> mode_of cfgs e)"
    and "r = Req_set e' m \<Longrightarrow> m \<noteq> Mode_managed"
    and "r = Req_activate e' confirm \<Longrightarrow> confirm \<and> manageable reg e'"
  using assms
  by (cases rule: mode_step.cases; auto dest: setMode_Inr activate_Inr deactivate_Inr)+

text \<open>
  C14. Enforcement needs consent. Over any sequence of accepted requests, an engine is in managed
  mode only if an activation of that very engine was accepted whose caller had confirmed it, the
  engine can both pause and resume, and neither a change of mode nor a deactivation of it was
  accepted since; an unconfirmed activation is never accepted, and sweeps never change a mode.
\<close>

theorem managed_needs_activation:
  assumes "mode_run reg tr cfgs" and "mode_of cfgs e = Mode_managed"
  shows "manageable reg e \<and>
    (\<exists>pre post. tr = pre @ Req_activate e True # post \<and>
       {r \<in> set post. request_engine r = e} \<subseteq> {Req_activate e True, Req_sweep e})"
  using assms
proof (induction rule: mode_run.induct)
  case run_start
  then show ?case by (simp add: mode_of_def)
next
  case (run_step tr cfgs r cfgs')
  show ?case
  proof (cases "\<exists>confirm. r = Req_activate e confirm")
    case True
    then have "manageable reg e" "r = Req_activate e True"
      using mode_step_mode(3) [OF run_step.hyps(2)] by auto
    then show ?thesis by (intro conjI exI [of _ tr] exI [of _ "[]"]) auto
  next
    case False
    have "mode_of cfgs e = Mode_managed \<and> (request_engine r = e \<longrightarrow> r = Req_sweep e)"
      using mode_step_mode(1) [OF run_step.hyps(2), of e] mode_step_mode(2) [OF run_step.hyps(2)]
        run_step.prems False
      by (cases r) (auto split: if_splits)
    moreover from this run_step.IH obtain pre post where
      "manageable reg e" "tr = pre @ Req_activate e True # post"
      "{r \<in> set post. request_engine r = e} \<subseteq> {Req_activate e True, Req_sweep e}"
      by blast
    ultimately show ?thesis
      by (intro conjI exI [of _ pre] exI [of _ "post @ [r]"]) auto
  qed
qed

theorem managed_needs_activation_witness:
  "\<exists>cfgs. mode_run demo_registry [Req_activate ''e1'' True] cfgs \<and> mode_of cfgs ''e1'' = Mode_managed \<and>
          manageable demo_registry ''e1''"
proof -
  have "activate demo_registry (\<lambda>e. None) False demo_db 0 None ''e1'' True Map.empty =
      Inr (upsert_mode 0 None ''e1'' Mode_managed Map.empty)"
    by (simp add: activate_def describe_def demo_registry_def byKind_qbittorrent_def canDo_def Let_def)
  then have "mode_step demo_registry Map.empty (Req_activate ''e1'' True)
      (upsert_mode 0 None ''e1'' Mode_managed Map.empty)"
    by (rule step_activate)
  from run_step [OF run_start this]
  have run: "mode_run demo_registry [Req_activate ''e1'' True] (upsert_mode 0 None ''e1'' Mode_managed Map.empty)"
    by simp
  moreover have "mode_of (upsert_mode 0 None ''e1'' Mode_managed Map.empty) ''e1'' = Mode_managed" by simp
  ultimately show ?thesis using managed_needs_activation [OF run] by blast
qed



section \<open>What a sweep changes\<close>

definition agree :: "'w sweep_state \<Rightarrow> 'w sweep_state \<Rightarrow> bool" where
  "agree st st' \<longleftrightarrow> ss_db st = ss_db st' \<and> ss_world st = ss_world st'"

lemma announceHealth_simps [simp]:
  "ss_db (announceHealth e n p st) = ss_db st" "ss_world (announceHealth e n p st) = ss_world st"
  "ss_configs (announceHealth e n p st) = ss_configs st"
  "ss_decisions (announceHealth e n p st) = ss_decisions st"
  by (simp_all add: announceHealth_def)

lemma sweep_engine_agree:
  assumes "agree st st'"
  shows "agree (sweep_engine env prior e st) (sweep_engine env prior e st')"
proof (cases "se_preview env e (ss_db st) (se_now env)")
  case (Inl m)
  with assms show ?thesis by (simp add: sweep_engine_def agree_def Let_def)
next
  case (Inr op)
  with assms show ?thesis
    by (cases op) (simp_all add: sweep_engine_def agree_def Let_def enforce_def)
qed

lemma sweep_engine_idle:
  "mode_of prior e \<noteq> Mode_managed \<Longrightarrow> agree (sweep_engine env prior e st) st"
  by (cases "se_preview env e (ss_db st) (se_now env)")
    (auto simp: sweep_engine_def agree_def Let_def split: option.splits)

lemma agree_trans: "agree a b \<Longrightarrow> agree b c \<Longrightarrow> agree a c"
  by (simp add: agree_def)

lemma fold_sweep_managed:
  "agree st st' \<Longrightarrow>
   agree (fold (sweep_engine env prior) es st)
         (fold (sweep_engine env prior) (filter (\<lambda>e. mode_of prior e = Mode_managed) es) st')"
proof (induction es arbitrary: st st')
  case (Cons e es)
  show ?case
  proof (cases "mode_of prior e = Mode_managed")
    case True
    then show ?thesis
      using Cons.IH [OF sweep_engine_agree [OF Cons.prems]] by simp
  next
    case False
    then have "agree (sweep_engine env prior e st) st'"
      using Cons.prems sweep_engine_idle agree_trans by blast
    with False show ?thesis using Cons.IH by simp
  qed
qed simp

lemma sweep_engine_modes [simp]:
  "mode_of (ss_configs (sweep_engine env prior e st)) e' = mode_of (ss_configs st) e'"
  by (cases "se_preview env e (ss_db st) (se_now env)")
    (auto simp: sweep_engine_def Let_def enforce_def split: option.splits)

definition honest_rows :: "configs \<Rightarrow> string set \<Rightarrow> decision_row set" where
  "honest_rows prior es =
     {r. dr_engineId r \<in> es \<and> dr_mode r = mode_of prior (dr_engineId r) \<and>
         (dr_mode r = Mode_managed \<or> dr_appliedActions r = 0)}"

lemma sweep_engine_rows:
  "set (ss_decisions (sweep_engine env prior e st)) \<subseteq> set (ss_decisions st) \<union> honest_rows prior {e}"
  by (cases "se_preview env e (ss_db st) (se_now env)")
    (auto simp: sweep_engine_def Let_def enforce_def honest_rows_def split: option.splits)

lemma fold_sweep_rows:
  "set (ss_decisions (fold (sweep_engine env prior) es st)) \<subseteq>
     set (ss_decisions st) \<union> honest_rows prior (set es)"
proof (induction es arbitrary: st)
  case (Cons e es)
  have "honest_rows prior {e} \<subseteq> honest_rows prior (set (e # es))"
    "honest_rows prior (set es) \<subseteq> honest_rows prior (set (e # es))"
    by (auto simp: honest_rows_def)
  then show ?case using Cons [of "sweep_engine env prior e st"] sweep_engine_rows [of env prior e st]
    by auto
qed simp

lemma fold_sweep_modes: "mode_of (ss_configs (fold (sweep_engine env prior) es st)) e = mode_of (ss_configs st) e"
  by (induction es arbitrary: st) simp_all

text \<open>
  Observing is only observing. What a sweep does to the engines and to the database is
  what it does to the engines in managed mode alone; it changes no engine's mode; and every
  row it records names an engine that opted in, with its mode, and counts applied actions only
  where that mode is managed.
\<close>

theorem sweep_touches_managed_only:
  "let st' = sweep env engines st;
       only = sweep env (filter (\<lambda>e. mode_of (ss_configs st) e = Mode_managed) engines) st
   in ss_world st' = ss_world only \<and> ss_db st' = ss_db only \<and>
      mode_of (ss_configs st') e = mode_of (ss_configs st) e \<and>
      set (ss_decisions st') \<subseteq> set (ss_decisions st) \<union>
        {r. dr_engineId r \<in> set engines \<and> dr_mode r \<noteq> Mode_native \<and>
            dr_mode r = mode_of (ss_configs st) (dr_engineId r) \<and>
            (dr_mode r = Mode_managed \<or> dr_appliedActions r = 0)}"
proof -
  let ?prior = "ss_configs st"
  let ?es = "filter (\<lambda>e. mode_of ?prior e \<noteq> Mode_native) engines"
  have man: "filter (\<lambda>e. mode_of ?prior e = Mode_managed) ?es =
      filter (\<lambda>e. mode_of ?prior e \<noteq> Mode_native) (filter (\<lambda>e. mode_of ?prior e = Mode_managed) engines)"
    by (auto simp: conj_commute intro!: filter_cong)
  have "agree (sweep env engines st)
      (sweep env (filter (\<lambda>e. mode_of ?prior e = Mode_managed) engines) st)"
    using fold_sweep_managed [of st st env ?prior ?es] man by (simp add: sweep_def Let_def agree_def)
  moreover have "set (ss_decisions (sweep env engines st)) \<subseteq> set (ss_decisions st) \<union> honest_rows ?prior (set ?es)"
    using fold_sweep_rows [of env ?prior ?es st] by (simp add: sweep_def Let_def)
  moreover have "mode_of (ss_configs (sweep env engines st)) e = mode_of ?prior e"
    by (simp add: sweep_def Let_def fold_sweep_modes)
  ultimately show ?thesis by (auto simp: Let_def agree_def honest_rows_def)
qed


section \<open>Who sets the rate limits\<close>

datatype bandwidth_source = Src_settings | Src_scheduler | Src_unconfigured | Src_observing | Src_unsupported

record global_bandwidth =
  gb_maxDownloadRateKbps :: "int option"
  gb_maxUploadRateKbps :: "int option"

record engine_bandwidth_status =
  eb_engineId :: string
  eb_mode :: scheduler_mode
  eb_source :: bandwidth_source
  eb_maxDownloadRateKbps :: "int option"
  eb_maxUploadRateKbps :: "int option"

definition validate_rate :: "jsval \<Rightarrow> string \<Rightarrow> http_error + int option" where
  "validate_rate value field =
     (case value of
        JUndef \<Rightarrow> Inr None
      | JNull \<Rightarrow> Inr None
      | JNum q \<Rightarrow>
          if \<not> is_integer q \<or> q < 0
            then Inl (Bad_request (field @ '' must be a whole number of kbps, or null for unlimited''))
          else if q = 0
            then Inl (Bad_request (field @ '' of 0 would mean unlimited to the engine - leave it empty for unlimited, or set a real limit''))
          else Inr (Some \<lfloor>q\<rfloor>)
      | _ \<Rightarrow> Inl (Bad_request (field @ '' must be a number of kbps, or null for unlimited'')))"

text \<open>Whether the plan's first decision states a rate; an unreadable plan counts as stating one.\<close>

definition states_rate :: "engine_activity_plan \<Rightarrow> bool" where
  "states_rate plan =
     (case eap_decisions plan of
        [] \<Rightarrow> False
      | d # _ \<Rightarrow>
          (case or_else (pb_sourceDownloadRate (td_bandwidth d)) (pb_sourceUploadRate (td_bandwidth d)) of
             None \<Rightarrow> False | Some s \<Rightarrow> s \<noteq> []))"

definition governed ::
  "(string \<Rightarrow> string + engine_activity_plan option) \<Rightarrow> configs \<Rightarrow> string \<Rightarrow> bool" where
  "governed preview cfgs e =
     (cfgs e \<noteq> None \<and> mode_of cfgs e = Mode_managed \<and>
      (case preview e of
         Inl err \<Rightarrow> True
       | Inr None \<Rightarrow> False
       | Inr (Some plan) \<Rightarrow> states_rate plan))"

definition bandwidth_status ::
  "(string \<Rightarrow> string + engine_activity_plan option) \<Rightarrow> configs \<Rightarrow> global_bandwidth option \<Rightarrow>
   'w host \<Rightarrow> string \<Rightarrow> engine_bandwidth_status" where
  "bandwidth_status preview cfgs ceil h e =
     (let mode = mode_of cfgs e;
          base = (\<lambda>src. \<lparr> eb_engineId = e, eb_mode = mode, eb_source = src,
                          eb_maxDownloadRateKbps = None, eb_maxUploadRateKbps = None \<rparr>)
      in if mode = Mode_managed \<and> governed preview cfgs e then base Src_scheduler
         else if mode = Mode_observe then base Src_observing
         else if host_setGlobalRateLimits h = None then base Src_unsupported
         else (case ceil of
                 None \<Rightarrow> base Src_unconfigured
               | Some c \<Rightarrow> (base Src_settings)\<lparr> eb_maxDownloadRateKbps := gb_maxDownloadRateKbps c,
                             eb_maxUploadRateKbps := gb_maxUploadRateKbps c \<rparr>))"

definition write_ceiling ::
  "(string \<Rightarrow> 'w host) \<Rightarrow> engine_bandwidth_status \<Rightarrow> 'w \<Rightarrow> 'w" where
  "write_ceiling hosts entry w =
     (if eb_source entry \<noteq> Src_settings then w
      else (case host_setGlobalRateLimits (hosts (eb_engineId entry)) of
              None \<Rightarrow> w
            | Some set_limits \<Rightarrow>
                snd (set_limits (kbpsToBytes (eb_maxDownloadRateKbps entry))
                       (kbpsToBytes (eb_maxUploadRateKbps entry)) w)))"

definition apply_ceiling ::
  "(string \<Rightarrow> string + engine_activity_plan option) \<Rightarrow> configs \<Rightarrow> global_bandwidth option \<Rightarrow>
   (string \<Rightarrow> 'w host) \<Rightarrow> string list \<Rightarrow> 'w \<Rightarrow> engine_bandwidth_status list \<times> 'w" where
  "apply_ceiling preview cfgs ceil hosts engines w =
     (let plan = map (\<lambda>e. bandwidth_status preview cfgs ceil (hosts e) e) engines
      in (plan, fold (write_ceiling hosts) plan w))"

lemma applyBandwidth_silent: "\<not> states_rate plan \<Longrightarrow> applyBandwidth h plan rs = rs"
  by (auto simp: applyBandwidth_def states_rate_def Let_def split: list.splits option.splits)

lemma governed_iff:
  "mode_of cfgs e = Mode_managed \<Longrightarrow> preview e = Inr (Some plan) \<Longrightarrow>
   governed preview cfgs e = states_rate plan"
  by (auto simp: governed_def mode_of_def split: option.splits)

text \<open>
  One writer per engine. The global ceiling is written to an engine only if it can be,
  a ceiling is set and the engine is not observing; and for a managed engine whose plan is
  readable, only if carrying out that plan leaves the engine's rate limits alone.
\<close>

theorem ceiling_and_scheduler_exclusive:
  assumes "eb_source (bandwidth_status preview cfgs ceil h e) = Src_settings"
  shows "mode_of cfgs e \<noteq> Mode_observe \<and> ceil \<noteq> None \<and> host_setGlobalRateLimits h \<noteq> None \<and>
    (mode_of cfgs e = Mode_managed \<and> preview e = Inr (Some plan) \<longrightarrow> applyBandwidth h' plan rs = rs)"
proof -
  have "mode_of cfgs e \<noteq> Mode_observe \<and> ceil \<noteq> None \<and> host_setGlobalRateLimits h \<noteq> None"
    and "mode_of cfgs e = Mode_managed \<Longrightarrow> \<not> governed preview cfgs e"
    using assms by (auto simp: bandwidth_status_def Let_def split: if_splits option.splits)
  then show ?thesis using applyBandwidth_silent governed_iff by blast
qed

definition silent_plan :: engine_activity_plan where
  "silent_plan = planEngine demo_env ''e1'' demo_torrents demo_caps demo_opts"

definition yes :: answers where
  "yes = \<lparr> ans_done = (\<lambda>_. Inr ()), ans_state = (\<lambda>_. None), ans_files = (\<lambda>_. Inr []), ans_rates = True \<rparr>"

theorem ceiling_and_scheduler_exclusive_witness:
  "eb_source (bandwidth_status (\<lambda>e. Inr (Some (silent_plan\<lparr> eap_decisions := [] \<rparr>)))
      [''e1'' \<mapsto> fresh_config Mode_managed]
      (Some \<lparr> gb_maxDownloadRateKbps = Some 100, gb_maxUploadRateKbps = None \<rparr>) (recording yes) ''e1'') =
     Src_settings \<and>
   applyBandwidth (recording yes) (silent_plan\<lparr> eap_decisions := [] \<rparr>)
     \<lparr> rs_out = empty_outcome ''e1'', rs_states = [], rs_world = [] \<rparr> =
     \<lparr> rs_out = empty_outcome ''e1'', rs_states = [], rs_world = [] \<rparr>"
proof -
  let ?p = "silent_plan\<lparr> eap_decisions := [] \<rparr>"
  let ?cfgs = "[''e1'' \<mapsto> fresh_config Mode_managed]"
  have src: "eb_source (bandwidth_status (\<lambda>e. Inr (Some ?p)) ?cfgs
      (Some \<lparr> gb_maxDownloadRateKbps = Some 100, gb_maxUploadRateKbps = None \<rparr>) (recording yes) ''e1'') =
      Src_settings"
    by (simp add: bandwidth_status_def governed_def states_rate_def mode_of_def fresh_config_def
        recording_def yes_def Let_def)
  have "mode_of ?cfgs ''e1'' = Mode_managed" by (simp add: mode_of_def fresh_config_def)
  with src ceiling_and_scheduler_exclusive [OF src, of ?p] show ?thesis by blast
qed

end
