(* ===== verification/Files_Paths.thy ===== *)
theory Files_Paths
  imports Sched_Scopes
begin

text \<open>
  The boundary of the file manager: \<^verbatim>\<open>files/path-safety.ts\<close> and
  \<^verbatim>\<open>files/file-path.service.ts\<close>. Paths are POSIX; \<open>cwd\<close> is the working directory
  of the process. The file system is the record \<open>file_host\<close> of queries and operations on an
  abstract world. The dash in a message is written in ASCII.

  The lemmas show that an admitted path lies under a root segment by segment, whatever dots and
  slashes it is written with, that the path a client is given leads back to the same file, that a
  narrowed root stays inside the hard boundary, and what a path that exists resolves to.
\<close>

section \<open>Path safety\<close>

definition TRASH_DIR_NAME :: string where "TRASH_DIR_NAME = ''.ultratorrent-trash''"

definition SYSTEM_DIRS :: "string list" where
  "SYSTEM_DIRS =
     [''/'', ''/bin'', ''/boot'', ''/dev'', ''/etc'', ''/lib'', ''/lib32'', ''/lib64'', ''/proc'', ''/root'',
      ''/run'', ''/sbin'', ''/srv'', ''/sys'', ''/usr'', ''/var'', ''/home'', ''/opt'', ''/mnt'', ''/media'']"

definition assertSafeName :: "string \<Rightarrow> string \<Rightarrow> http_error + unit" where
  "assertSafeName name label =
     res_check (name \<noteq> [] \<and> length name \<le> 255 \<and> CHR ''/'' \<notin> set name \<and> CHR 0x5C \<notin> set name \<and>
                CHR 0x00 \<notin> set name \<and> name \<noteq> ''.'' \<and> name \<noteq> ''..'')
       (Bad_request (''Invalid '' @ label))"

definition inside :: "string \<Rightarrow> string \<Rightarrow> bool" where
  "inside target base \<longleftrightarrow> target = base \<or> is_prefix_of (base @ ''/'') target"

definition normalizedRoots :: "string \<Rightarrow> string list \<Rightarrow> string list" where
  "normalizedRoots cwd roots = map (path_resolve cwd) roots"

definition usesAbsolutePaths :: "string list \<Rightarrow> bool" where
  "usesAbsolutePaths roots \<longleftrightarrow> length roots > 1"

definition strip_slashes :: "string \<Rightarrow> string" where
  "strip_slashes p = dropWhile (\<lambda>c. c = CHR ''/'') p"

definition resolveLogical :: "string \<Rightarrow> string list \<Rightarrow> string \<Rightarrow> http_error + string" where
  "resolveLogical cwd rs requested =
     (if CHR 0x00 \<in> set requested then Inl (Bad_request ''Invalid path'')
      else
        (let roots = normalizedRoots cwd rs in
         if roots = [] then Inl (Forbidden ''No file-manager roots configured'')
         else
           (let target = (if usesAbsolutePaths roots
                          then path_resolve cwd (if requested = [] then ''/'' else requested)
                          else path_resolve (hd roots) (strip_slashes requested))
            in if list_ex (inside target) roots then Inr target
               else Inl (Forbidden ''Path is outside the allowed roots''))))"

definition rootFor :: "string \<Rightarrow> string list \<Rightarrow> string \<Rightarrow> string option" where
  "rootFor cwd rs p = find (inside (path_resolve cwd p)) (normalizedRoots cwd rs)"

definition ensureContained :: "string \<Rightarrow> string list \<Rightarrow> string \<Rightarrow> http_error + string" where
  "ensureContained cwd rs p =
     (if CHR 0x00 \<in> set p then Inl (Bad_request ''Invalid path'')
      else (case rootFor cwd rs (path_resolve cwd p) of
              None \<Rightarrow> Inl (Forbidden ''Path is outside the allowed roots'')
            | Some _ \<Rightarrow> Inr (path_resolve cwd p)))"

definition isRoot :: "string \<Rightarrow> string list \<Rightarrow> string \<Rightarrow> bool" where
  "isRoot cwd rs p \<longleftrightarrow> path_resolve cwd p \<in> set (normalizedRoots cwd rs)"

text \<open>\<^verbatim>\<open>path.join\<close> of a resolved root and the name of the trash directory.\<close>

definition trash_dir :: "string \<Rightarrow> string \<Rightarrow> string" where
  "trash_dir cwd base = path_resolve cwd (base @ ''/'' @ TRASH_DIR_NAME)"

definition isInsideTrash :: "string \<Rightarrow> string list \<Rightarrow> string \<Rightarrow> bool" where
  "isInsideTrash cwd rs p \<longleftrightarrow>
     list_ex (\<lambda>base. inside (path_resolve cwd p) (trash_dir cwd base)) (normalizedRoots cwd rs)"

definition assertDeletable :: "string \<Rightarrow> string list \<Rightarrow> string \<Rightarrow> http_error + unit" where
  "assertDeletable cwd rs p =
     (let resolved = path_resolve cwd p in
      if resolved = ''/'' then Inl (Forbidden ''Refusing to operate on the filesystem root'')
      else if isRoot cwd rs resolved then Inl (Forbidden ''Refusing to delete a configured storage root'')
      else if resolved \<in> set SYSTEM_DIRS then Inl (Forbidden ''Refusing to operate on a system directory'')
      else Inr ())"

definition slashed :: "string \<Rightarrow> string" where
  "slashed rel = ''/'' @ join_with ''/'' (filter (\<lambda>s. s \<noteq> []) (split_on (CHR ''/'') rel))"

definition relativeToRoot :: "string \<Rightarrow> string \<Rightarrow> string \<Rightarrow> http_error + string" where
  "relativeToRoot cwd r p =
     (let base = path_resolve cwd r; resolved = path_resolve cwd p in
      if \<not> inside resolved base then Inl (Forbidden ''Path is outside the given root'')
      else Inr (slashed (path_relative cwd base resolved)))"

definition toRelative :: "string \<Rightarrow> string list \<Rightarrow> string \<Rightarrow> http_error + string" where
  "toRelative cwd rs p =
     (let resolved = path_resolve cwd p in
      case rootFor cwd rs resolved of
        None \<Rightarrow> Inl (Forbidden ''Path is outside the allowed roots'')
      | Some base \<Rightarrow>
          if usesAbsolutePaths (normalizedRoots cwd rs) then Inr resolved
          else Inr (slashed (path_relative cwd base resolved)))"


section \<open>The file system\<close>

text \<open>
  \<open>fo_stat\<close> tells whether an existing path is a directory, \<open>fo_access\<close> whether it is
  readable or, with \<open>True\<close>, writable; \<open>fo_mkdir\<close> answers with an error code.
\<close>

record 'w file_host =
  fo_realpath :: "string \<Rightarrow> 'w \<Rightarrow> string option"
  fo_stat :: "string \<Rightarrow> 'w \<Rightarrow> bool option"
  fo_access :: "bool \<Rightarrow> string \<Rightarrow> 'w \<Rightarrow> bool"
  fo_mkdir :: "string \<Rightarrow> 'w \<Rightarrow> (string \<times> string + unit) \<times> 'w"

definition real_or_self :: "'w file_host \<Rightarrow> 'w \<Rightarrow> string \<Rightarrow> string" where
  "real_or_self h w r = (case fo_realpath h r w of None \<Rightarrow> r | Some x \<Rightarrow> x)"

definition resolveExisting ::
  "string \<Rightarrow> 'w file_host \<Rightarrow> 'w \<Rightarrow> string list \<Rightarrow> string \<Rightarrow> http_error + string" where
  "resolveExisting cwd h w rs requested =
     res_bind (resolveLogical cwd rs requested) (\<lambda>logical.
       case fo_realpath h logical w of
         None \<Rightarrow> Inr logical
       | Some actual \<Rightarrow>
           if list_ex (inside actual) (map (real_or_self h w) (normalizedRoots cwd rs)) then Inr actual
           else Inl (Forbidden ''Resolved path escapes the allowed roots''))"


section \<open>Hard roots and the narrowed root\<close>

record path_service =
  fp_envRoots :: "string list"
  fp_safety :: "string list"
  fp_setting :: "string option"

definition new_path_service :: "string \<Rightarrow> string list \<Rightarrow> string option \<Rightarrow> path_service" where
  "new_path_service cwd roots setting =
     (let env = map (path_resolve cwd) roots
      in \<lparr> fp_envRoots = env, fp_safety = env, fp_setting = setting \<rparr>)"

definition withinHardRoots :: "path_service \<Rightarrow> string \<Rightarrow> bool" where
  "withinHardRoots s p \<longleftrightarrow> list_ex (inside p) (fp_envRoots s)"

definition isSystemDir :: "string \<Rightarrow> string \<Rightarrow> bool" where
  "isSystemDir cwd p \<longleftrightarrow> path_resolve cwd p \<in> set SYSTEM_DIRS"

definition assertWithinHardRoots :: "string \<Rightarrow> path_service \<Rightarrow> string \<Rightarrow> http_error + string" where
  "assertWithinHardRoots cwd s requested =
     (if trim requested = [] then Inl (Bad_request ''A path is required.'')
      else
        (let p = path_resolve cwd (trim requested) in
         if isSystemDir cwd p then Inl (Forbidden ''Path is a protected system directory.'')
         else if \<not> withinHardRoots s p
           then Inl (Forbidden (''Path is outside the allowed storage roots ('' @ join_with '', '' (fp_envRoots s) @ '').''))
         else Inr p))"

record path_inspection =
  pi_path :: string
  pi_withinHardRoots :: bool
  pi_isSystemDir :: bool
  pi_exists :: bool
  pi_isDirectory :: bool
  pi_writable :: bool

definition inspect_path ::
  "string \<Rightarrow> 'w file_host \<Rightarrow> 'w \<Rightarrow> path_service \<Rightarrow> string \<Rightarrow> http_error + path_inspection" where
  "inspect_path cwd h w s requested =
     (if trim requested = [] then Inl (Bad_request ''A path is required.'')
      else
        (let p = path_resolve cwd (trim requested); st = fo_stat h p w
         in Inr \<lparr> pi_path = p, pi_withinHardRoots = withinHardRoots s p, pi_isSystemDir = isSystemDir cwd p,
                  pi_exists = (st \<noteq> None), pi_isDirectory = (st = Some True),
                  pi_writable = (st \<noteq> None \<and> fo_access h True p w) \<rparr>))"

definition translateMkdirError :: "string \<Rightarrow> string \<times> string \<Rightarrow> http_error" where
  "translateMkdirError p = (\<lambda>(code, msg).
     if code = ''EACCES'' \<or> code = ''EPERM'' then
       Forbidden (''Permission denied creating \"'' @ p @ ''\". The server does not have write access there - '' @
         ''check the folder's ownership/permissions, or point the storage root (FILE_MANAGER_ROOTS) at a writable directory.'')
     else if code = ''EROFS'' then Forbidden (''Cannot create \"'' @ p @ ''\" - it lives on a read-only filesystem.'')
     else if code = ''ENOSPC'' then Bad_request (''Cannot create \"'' @ p @ ''\" - the disk is full (no space left).'')
     else if code = ''ENOTDIR'' then
       Bad_request (''Cannot create \"'' @ p @ ''\" - one of the parent path segments is a file, not a directory.'')
     else if code = ''ENAMETOOLONG'' then Bad_request (''Cannot create \"'' @ p @ ''\" - the path is too long.'')
     else Bad_request (''Could not create \"'' @ p @ ''\": '' @ msg))"

definition ensureDirectory ::
  "string \<Rightarrow> 'w file_host \<Rightarrow> path_service \<Rightarrow> string \<Rightarrow> 'w \<Rightarrow> (http_error + path_inspection) \<times> 'w" where
  "ensureDirectory cwd h s requested w =
     (case assertWithinHardRoots cwd s requested of
        Inl e \<Rightarrow> (Inl e, w)
      | Inr p \<Rightarrow>
          if fo_stat h p w = Some False
            then (Inl (Bad_request ''That path already exists and is not a directory.''), w)
          else (case fo_mkdir h p w of
                  (Inl err, w') \<Rightarrow> (Inl (translateMkdirError p err), w')
                | (Inr _, w') \<Rightarrow> (inspect_path cwd h w' s p, w')))"

text \<open>\<open>configured\<close> is what reading the setting gave; a failed read gives none.\<close>

definition refresh :: "string \<Rightarrow> string option \<Rightarrow> path_service \<Rightarrow> path_service" where
  "refresh cwd configured s =
     (case configured of
        None \<Rightarrow> s \<lparr> fp_safety := fp_envRoots s \<rparr>
      | Some c \<Rightarrow>
          if trim c = [] then s \<lparr> fp_safety := fp_envRoots s \<rparr>
          else
            (let p = path_resolve cwd (trim c) in
             if withinHardRoots s p \<and> \<not> isSystemDir cwd p then s \<lparr> fp_safety := [p] \<rparr>
             else s \<lparr> fp_safety := fp_envRoots s \<rparr>))"

definition setDefaultRoot ::
  "string \<Rightarrow> 'w file_host \<Rightarrow> 'w \<Rightarrow> string \<Rightarrow> path_service \<Rightarrow> http_error + (string option \<times> path_service)" where
  "setDefaultRoot cwd h w requested s =
     (if trim requested = [] then Inl (Bad_request ''A root path is required.'')
      else
        (let p = path_resolve cwd (trim requested) in
         if isSystemDir cwd p then Inl (Bad_request ''That path is a protected system directory.'')
         else if \<not> withinHardRoots s p
           then Inl (Bad_request (''Root path must be within the server's configured storage roots ('' @
                       join_with '', '' (fp_envRoots s) @ '').''))
         else (case fo_stat h p w of
                 None \<Rightarrow> Inl (Bad_request ''That path does not exist.'')
               | Some dir \<Rightarrow>
                   if \<not> dir then Inl (Bad_request ''That path is not a directory.'')
                   else if \<not> fo_access h False p w then Inl (Bad_request ''The server cannot read that path.'')
                   else Inr (case fp_setting s of
                               None \<Rightarrow> None | Some c \<Rightarrow> if trim c = [] then None else Some (trim c),
                             refresh cwd (Some p) (s \<lparr> fp_setting := Some p \<rparr>)))))"



section \<open>Containment\<close>

text \<open>
  The test on strings decides containment of segments; a root that is the whole file system
  contains itself only.
\<close>

lemma inside_iff:
  "inside (path_resolve c a) (path_resolve c' b) \<longleftrightarrow>
     (\<exists>down. resolve_segments c a = resolve_segments c' b @ down \<and> (resolve_segments c' b = [] \<longrightarrow> down = []))"
  unfolding inside_def path_resolve_inject below_iff by auto

lemma resolve_child:
  assumes "proper_segment name"
  shows "resolve_segments cwd (path_resolve c b @ ''/'' @ name) = resolve_segments c b @ [name]"
proof -
  have "foldl push_segment [] (split_on (CHR ''/'') (path_resolve c b)) = resolve_segments c b"
    using resolve_segments_resolve [of "[]" c b]
    by (simp add: resolve_segments_def [of "[]"] path_resolve_def starts_with_slash_def)
  moreover have "split_on (CHR ''/'') (path_resolve c b @ CHR ''/'' # name) = split_on (CHR ''/'') (path_resolve c b) @ [name]"
    using assms by (simp add: split_on_append split_on_word proper_segment_def)
  ultimately show ?thesis
    using assms by (simp add: resolve_segments_def [of cwd] path_resolve_def starts_with_slash_def)
      (auto simp: push_segment_def proper_segment_def)
qed

lemma path_resolve_idem [simp]: "path_resolve cwd (path_resolve cwd' p) = path_resolve cwd' p"
  by (simp add: path_resolve_def [of cwd]) (simp add: path_resolve_def)

definition under :: "string \<Rightarrow> string \<Rightarrow> string \<Rightarrow> bool" where
  "under cwd t r \<longleftrightarrow> (\<exists>down. resolve_segments cwd t = resolve_segments cwd r @ down)"

lemma inside_under:
  assumes "inside t (path_resolve cwd r)" "t = path_resolve c p"
  shows "under cwd t r"
  using assms by (auto simp: under_def inside_iff)

lemma resolveLogical_Inr:
  assumes "resolveLogical cwd rs requested = Inr t"
  shows "CHR 0x00 \<notin> set requested" "rs \<noteq> []" "\<exists>r\<in>set rs. inside t (path_resolve cwd r)" "path_resolve cwd t = t"
    "t = (if length rs > 1 then path_resolve cwd (if requested = [] then ''/'' else requested)
          else path_resolve (path_resolve cwd (hd rs)) (strip_slashes requested))"
  using assms
  by (auto simp: resolveLogical_def normalizedRoots_def usesAbsolutePaths_def Let_def list_ex_iff hd_map split: if_splits)

text \<open>
  C29. No path leaves the roots. Whatever dots, slashes and names a requested path is made of,
  the path it is resolved to is normalised, all of its segments are proper names, and it
  continues one of the configured roots segment by segment.
\<close>

theorem resolveLogical_contained:
  assumes "resolveLogical cwd rs requested = Inr t"
  shows "(\<exists>r\<in>set rs. \<exists>down. resolve_segments cwd t = resolve_segments cwd r @ down) \<and>
    t = ''/'' @ join_with ''/'' (resolve_segments cwd t) \<and> (\<forall>s\<in>set (resolve_segments cwd t). proper_segment s)"
proof -
  note res = resolveLogical_Inr [OF assms]
  obtain r where "r \<in> set rs" "inside t (path_resolve cwd r)" using res(3) by blast
  then have "\<exists>r\<in>set rs. under cwd t r" using inside_under res(4) by metis
  then show ?thesis using res(4) resolve_segments_proper [of cwd t] unfolding under_def by (metis path_resolve_def)
qed


section \<open>Paths on the wire\<close>

lemma resolve_below:
  assumes "\<forall>s\<in>set down. proper_segment s"
  shows "resolve_segments (path_resolve cwd r) (join_with ''/'' down) = resolve_segments cwd r @ down"
proof -
  have slash: "\<not> starts_with_slash (join_with ''/'' down)"
  proof (cases down)
    case (Cons d ds)
    then obtain x where "join_with ''/'' down = d @ x" using join_with_hd [of down "''/''"] by auto
    then show ?thesis using assms Cons by (cases d) (auto simp: starts_with_slash_def proper_segment_def)
  qed (simp add: starts_with_slash_def)
  have down: "foldl push_segment acc (split_on (CHR ''/'') (join_with ''/'' down)) = acc @ down" for acc
  proof (cases "down = []")
    case False
    then have "split_on (CHR ''/'') (join_with ''/'' down) = down"
      using assms by (intro split_join) (auto simp: proper_segment_def)
    then show ?thesis using push_segments_id assms by simp
  qed (simp add: push_segment_def)
  have "foldl push_segment [] (split_on (CHR ''/'') (path_resolve cwd r)) = resolve_segments cwd r"
    using resolve_segments_resolve [of "[]" cwd r]
    by (simp add: resolve_segments_def [of "[]"] path_resolve_def starts_with_slash_def)
  then show ?thesis using slash down by (simp add: resolve_segments_def [of "path_resolve cwd r"])
qed

lemma slashed_join:
  assumes "\<forall>s\<in>set down. proper_segment s"
  shows "strip_slashes (slashed (join_with ''/'' down)) = join_with ''/'' down"
proof (cases "down = []")
  case False
  have split: "split_on (CHR ''/'') (join_with ''/'' down) = down"
    using False assms by (intro split_join) (auto simp: proper_segment_def)
  have "filter (\<lambda>s. s \<noteq> []) down = down" using assms by (auto simp: filter_id_conv proper_segment_def)
  moreover obtain x where "join_with ''/'' down = hd down @ x" using join_with_hd [of down "''/''"] False by auto
  moreover have "hd down \<noteq> []" "CHR ''/'' \<notin> set (hd down)" using assms False by (auto simp: proper_segment_def)
  ultimately show ?thesis unfolding slashed_def split by (cases "hd down") (auto simp: strip_slashes_def)
qed (simp add: slashed_def strip_slashes_def)

lemma relative_below:
  assumes "resolve_segments cwd p = resolve_segments cwd r @ down"
  shows "path_relative cwd (path_resolve cwd r) (path_resolve cwd p) = join_with ''/'' down"
  using assms by (simp add: path_relative_def)

lemma relativeToRoot_restores:
  assumes "relativeToRoot cwd r p = Inr s"
  shows "path_resolve (path_resolve cwd r) (strip_slashes s) = path_resolve cwd p"
proof -
  obtain down where down: "resolve_segments cwd p = resolve_segments cwd r @ down"
      "s = slashed (path_relative cwd (path_resolve cwd r) (path_resolve cwd p))"
    using assms by (auto simp: relativeToRoot_def inside_iff Let_def split: if_splits)
  have "\<forall>x\<in>set down. proper_segment x" using resolve_segments_proper [of cwd p] down(1) by auto
  then show ?thesis
    using down by (simp add: relative_below slashed_join path_resolve_def [of "path_resolve cwd r"] resolve_below)
      (simp add: path_resolve_def)
qed

text \<open>
  The path a client is given leads back to the file. For every file under a root, the form
  it is shown in, relative under a single root and absolute under several, is accepted again and
  resolves to that file.
\<close>

theorem toRelative_roundtrip:
  assumes "toRelative cwd rs p = Inr c" and "CHR 0x00 \<notin> set c"
  shows "resolveLogical cwd rs c = Inr (path_resolve cwd p)"
proof -
  obtain base where base: "rootFor cwd rs (path_resolve cwd p) = Some base"
    using assms(1) by (auto simp: toRelative_def Let_def split: option.splits)
  then obtain r where r: "r \<in> set rs" "base = path_resolve cwd r" "inside (path_resolve cwd p) (path_resolve cwd r)"
    by (auto simp: rootFor_def normalizedRoots_def find_Some_iff) (metis nth_map nth_mem)
  then have ex: "list_ex (inside (path_resolve cwd p)) (map (path_resolve cwd) rs)" by (auto simp: list_ex_iff)
  show ?thesis
  proof (cases "length rs > 1")
    case True
    then have "c = path_resolve cwd p"
      using assms(1) base by (simp add: toRelative_def Let_def usesAbsolutePaths_def normalizedRoots_def)
    moreover have "path_resolve cwd p \<noteq> []" by (simp add: path_resolve_def)
    ultimately show ?thesis using True ex assms(2)
      by (auto simp: resolveLogical_def normalizedRoots_def usesAbsolutePaths_def Let_def)
  next
    case False
    then have rs: "rs = [r]" using r(1) by (cases rs) auto
    obtain down where down: "resolve_segments cwd p = resolve_segments cwd r @ down" using r(3) by (auto simp: inside_iff)
    have proper: "\<forall>x\<in>set down. proper_segment x" using resolve_segments_proper [of cwd p] down by auto
    have "c = slashed (join_with ''/'' down)"
      using assms(1) base r(2) False relative_below [OF down]
      by (simp add: toRelative_def Let_def usesAbsolutePaths_def normalizedRoots_def)
    then have "path_resolve (path_resolve cwd r) (strip_slashes c) = path_resolve cwd p"
      using proper down by (simp add: slashed_join path_resolve_def [of "path_resolve cwd r"] resolve_below)
        (simp add: path_resolve_def)
    then show ?thesis using rs ex assms(2)
      by (simp add: resolveLogical_def normalizedRoots_def usesAbsolutePaths_def Let_def)
  qed
qed


theorem resolveLogical_contained_witness:
  "resolveLogical ''/srv/app'' [''/data/''] ''//TV/../Movies/./x.mkv'' = Inr ''/data/Movies/x.mkv'' \<and>
   (\<exists>r\<in>set [''/data/'']. \<exists>down. resolve_segments ''/srv/app'' ''/data/Movies/x.mkv'' = resolve_segments ''/srv/app'' r @ down)"
proof -
  have eq: "resolveLogical ''/srv/app'' [''/data/''] ''//TV/../Movies/./x.mkv'' = Inr ''/data/Movies/x.mkv''" by code_simp
  show ?thesis using eq resolveLogical_contained [OF eq] by blast
qed

theorem toRelative_roundtrip_witness:
  "toRelative ''/srv/app'' [''/data''] ''/data/TV/x.mkv'' = Inr ''/TV/x.mkv'' \<and>
   resolveLogical ''/srv/app'' [''/data''] ''/TV/x.mkv'' = Inr (path_resolve ''/srv/app'' ''/data/TV/x.mkv'')"
proof -
  have eq: "toRelative ''/srv/app'' [''/data''] ''/data/TV/x.mkv'' = Inr ''/TV/x.mkv''" by code_simp
  show ?thesis using eq toRelative_roundtrip [OF eq] by simp
qed


section \<open>The narrowed root\<close>

lemma inside_trans: "inside a b \<Longrightarrow> inside b c \<Longrightarrow> inside a c"
  by (auto simp: inside_def is_prefix_of_iff)

inductive path_reach :: "string \<Rightarrow> 'w file_host \<Rightarrow> string list \<Rightarrow> path_service \<Rightarrow> bool" for cwd h roots where
  start: "path_reach cwd h roots (new_path_service cwd roots setting)"
| refreshed: "path_reach cwd h roots s \<Longrightarrow> path_reach cwd h roots (refresh cwd configured s)"
| narrowed: "path_reach cwd h roots s \<Longrightarrow> setDefaultRoot cwd h w requested s = Inr (previous, s') \<Longrightarrow> path_reach cwd h roots s'"

definition narrowing :: "string \<Rightarrow> string list \<Rightarrow> path_service \<Rightarrow> bool" where
  "narrowing cwd roots s \<longleftrightarrow> fp_envRoots s = map (path_resolve cwd) roots \<and>
     (\<forall>r\<in>set (fp_safety s). withinHardRoots s r \<and> path_resolve cwd r = r)"

lemma refresh_narrowing: "narrowing cwd roots s \<Longrightarrow> narrowing cwd roots (refresh cwd configured s)"
  by (auto simp: narrowing_def refresh_def withinHardRoots_def list_ex_iff inside_def Let_def split: option.splits)

lemma path_reach_narrowing: "path_reach cwd h roots s \<Longrightarrow> narrowing cwd roots s"
proof (induction rule: path_reach.induct)
  case (narrowed s w requested previous s')
  have "narrowing cwd roots (s \<lparr> fp_setting := x \<rparr>)" for x
    using narrowed.IH by (auto simp: narrowing_def withinHardRoots_def)
  then show ?case
    using narrowed.hyps(2) refresh_narrowing
    by (auto simp: setDefaultRoot_def Let_def split: if_splits option.splits)
qed (auto simp: refresh_narrowing, auto simp: narrowing_def new_path_service_def withinHardRoots_def list_ex_iff inside_def Let_def)

text \<open>
  The narrowed root never widens the boundary. After any sequence of reads of the setting,
  whatever it holds, and of changes of the default root, a path the file manager resolves lies in
  one of the hard roots the process was started with.
\<close>

theorem narrowed_root_within_boundary:
  assumes "path_reach cwd h roots s" and "resolveLogical cwd (fp_safety s) requested = Inr t"
  shows "\<exists>r\<in>set roots. inside t (path_resolve cwd r)"
proof -
  have nar: "narrowing cwd roots s" by (rule path_reach_narrowing [OF assms(1)])
  obtain x where "x \<in> set (fp_safety s)" "inside t (path_resolve cwd x)" using resolveLogical_Inr(3) [OF assms(2)] by blast
  moreover have "\<exists>r\<in>set roots. inside x (path_resolve cwd r)" "path_resolve cwd x = x"
    using nar \<open>x \<in> set (fp_safety s)\<close> by (auto simp: narrowing_def withinHardRoots_def list_ex_iff)
  ultimately show ?thesis using inside_trans by metis
qed

theorem narrowed_root_within_boundary_witness:
  "resolveLogical ''/srv'' (fp_safety (refresh ''/srv'' (Some '' /data/TV '') (new_path_service ''/srv'' [''/data''] None))) ''a''
     = Inr ''/data/TV/a'' \<and>
   (\<exists>r\<in>set [''/data'']. inside ''/data/TV/a'' (path_resolve ''/srv'' r))"
proof -
  let ?s = "refresh ''/srv'' (Some '' /data/TV '') (new_path_service ''/srv'' [''/data''] None)"
  have reach: "path_reach ''/srv'' (h :: unit file_host) [''/data''] ?s" for h
    by (intro path_reach.intros)
  have eq: "resolveLogical ''/srv'' (fp_safety ?s) ''a'' = Inr ''/data/TV/a''" by code_simp
  show ?thesis using eq narrowed_root_within_boundary [OF reach eq] by blast
qed


section \<open>Deletion and symbolic links\<close>

lemma deletable_below_root:
  assumes "resolveLogical cwd rs requested = Inr t" "assertDeletable cwd rs t = Inr ()"
  shows "t \<notin> set SYSTEM_DIRS \<and> (\<exists>r\<in>set rs. \<exists>down. down \<noteq> [] \<and> resolve_segments cwd t = resolve_segments cwd r @ down)"
proof -
  note res = resolveLogical_Inr [OF assms(1)]
  obtain r where r: "r \<in> set rs" "inside t (path_resolve cwd r)" using res(3) by blast
  obtain down where down: "resolve_segments cwd t = resolve_segments cwd r @ down"
    using r(2) res(4) inside_iff [of cwd t cwd r] by auto
  have "down \<noteq> []"
  proof
    assume "down = []"
    then have "t = path_resolve cwd r" using down res(4) by (metis append_Nil2 path_resolve_def)
    then show False using assms(2) r(1) by (auto simp: assertDeletable_def isRoot_def normalizedRoots_def Let_def split: if_splits)
  qed
  moreover have "t \<notin> set SYSTEM_DIRS" using assms(2) res(4) by (auto simp: assertDeletable_def Let_def split: if_splits)
  ultimately show ?thesis using r down by blast
qed

lemma resolveExisting_cases:
  assumes "resolveExisting cwd h w rs requested = Inr t"
  shows "(fo_realpath h t w = None \<and> resolveLogical cwd rs requested = Inr t) \<or>
         (\<exists>logical r. resolveLogical cwd rs requested = Inr logical \<and> fo_realpath h logical w = Some t \<and>
            r \<in> set rs \<and> inside t (real_or_self h w (path_resolve cwd r)))"
proof -
  obtain l where l: "resolveLogical cwd rs requested = Inr l"
    "(case fo_realpath h l w of None \<Rightarrow> Inr l | Some actual \<Rightarrow>
        if list_ex (inside actual) (map (real_or_self h w) (normalizedRoots cwd rs)) then Inr actual
        else Inl (Forbidden ''Resolved path escapes the allowed roots'')) = Inr t"
    using assms unfolding resolveExisting_def res_bind_Inr_iff by blast
  then show ?thesis
    by (cases "fo_realpath h l w") (auto simp: list_ex_iff normalizedRoots_def split: if_splits)
qed

text \<open>
  The containment of the real path is tested only for a path that exists: a new file below a
  directory that is a symbolic link leading out of the roots is admitted under its logical name.
\<close>

lemma new_file_through_link:
  "resolveExisting ''/'' \<lparr> fo_realpath = (\<lambda>p _. if p = ''/data'' then Some ''/data''
                                     else if p = ''/data/link'' then Some ''/etc'' else None),
                        fo_stat = (\<lambda>p _. None), fo_access = (\<lambda>_ _ _. True), fo_mkdir = (\<lambda>p w. (Inr (), w)) \<rparr>
     () [''/data''] ''link/cron.d/job'' = Inr ''/data/link/cron.d/job'' \<and>
   resolveExisting ''/'' \<lparr> fo_realpath = (\<lambda>p _. if p = ''/data'' then Some ''/data''
                                     else if p = ''/data/link'' then Some ''/etc'' else None),
                        fo_stat = (\<lambda>p _. None), fo_access = (\<lambda>_ _ _. True), fo_mkdir = (\<lambda>p w. (Inr (), w)) \<rparr>
     () [''/data''] ''link'' = Inl (Forbidden ''Resolved path escapes the allowed roots'')"
  by code_simp

end
