(* ===== verification/Files_Trash.thy ===== *)
theory Files_Trash
  imports Files_Paths "HOL-Library.Sublist"
begin

text \<open>
  The trash of the file manager: \<^verbatim>\<open>files/trash.service.ts\<close> with the moves of
  \<^verbatim>\<open>files/file-fs.util.ts\<close>. Rows of the trash table are a list; the file system, the source
  of identifiers and the success of database statements are the record \<open>fs_host\<close> over an
  abstract world, and every call that changes the file system is kept in a trace. Sizes, which are
  only reported, the audit log and broadcasts are left out. Dates are times in milliseconds.

  The lemmas show that whatever the rows hold, only paths inside a trash directory below a hard root
  are ever deleted by the sweep, a purge or emptying; that a restore stays inside the root the item
  came from; that the list of recoverable items and the sweep agree; and, on a file system with the
  usual operations, that restoring undoes trashing.
\<close>

section \<open>Host\<close>

datatype fs_call = Mkdir string | Rename string string | Copy string string bool | Remove string

record 'w fs_host =
  hs_stat :: "string \<Rightarrow> 'w \<Rightarrow> bool option"
  hs_run :: "fs_call \<Rightarrow> 'w \<Rightarrow> (string + unit) \<times> 'w"
  hs_uuid :: "'w \<Rightarrow> string \<times> 'w"
  hs_db :: "'w \<Rightarrow> bool \<times> 'w"

record trash_row =
  ti_id :: string
  ti_originalPath :: string
  ti_name :: string
  ti_trashPath :: string
  ti_storageRoot :: string
  ti_isDirectory :: bool
  ti_deletedAt :: int
  ti_deletedById :: "string option"

record 'w trash_state =
  ts_rows :: "trash_row list"
  ts_calls :: "fs_call list"
  ts_world :: 'w

datatype trash_error = Refused http_error | Failed string

type_synonym ('a, 'w) trash_result = "(trash_error + 'a) \<times> 'w trash_state"

definition fs_do :: "'w fs_host \<Rightarrow> fs_call \<Rightarrow> 'w trash_state \<Rightarrow> (string + unit) \<times> 'w trash_state" where
  "fs_do h c st = (let (r, w) = hs_run h c (ts_world st) in (r, st\<lparr> ts_calls := ts_calls st @ [c], ts_world := w \<rparr>))"

definition db_do :: "'w fs_host \<Rightarrow> (trash_row list \<Rightarrow> trash_row list) \<Rightarrow> 'w trash_state \<Rightarrow> bool \<times> 'w trash_state" where
  "db_do h f st = (let (ok, w) = hs_db h (ts_world st)
                   in (ok, st\<lparr> ts_rows := (if ok then f (ts_rows st) else ts_rows st), ts_world := w \<rparr>))"

definition pathExists :: "'w fs_host \<Rightarrow> string \<Rightarrow> 'w trash_state \<Rightarrow> bool" where
  "pathExists h p st \<longleftrightarrow> hs_stat h p (ts_world st) \<noteq> None"

text \<open>\<^verbatim>\<open>path.dirname\<close> of a normalised path, \<^verbatim>\<open>path.basename\<close>, and \<^verbatim>\<open>path.join\<close> below one.\<close>

definition path_dirname :: "string \<Rightarrow> string" where
  "path_dirname p = path_resolve ''/'' (p @ ''/..'')"

definition path_basename :: "string \<Rightarrow> string" where
  "path_basename p = (case filter (\<lambda>s. s \<noteq> []) (split_on (CHR ''/'') p) of [] \<Rightarrow> [] | ws \<Rightarrow> last ws)"

definition path_join :: "string \<Rightarrow> string \<Rightarrow> string" where
  "path_join base name = path_resolve ''/'' (base @ ''/'' @ name)"

definition moveRecursive :: "'w fs_host \<Rightarrow> string \<Rightarrow> string \<Rightarrow> bool \<Rightarrow> 'w trash_state \<Rightarrow> (string + unit) \<times> 'w trash_state" where
  "moveRecursive h src dest overwrite st =
     (case fs_do h (Mkdir (path_dirname dest)) st of
        (Inl err, st1) \<Rightarrow> (Inl err, st1)
      | (Inr _, st1) \<Rightarrow>
          (case fs_do h (Rename src dest) st1 of
             (Inr _, st2) \<Rightarrow> (Inr (), st2)
           | (Inl err, st2) \<Rightarrow>
               if err \<noteq> ''EXDEV'' then (Inl err, st2)
               else (case fs_do h (Copy src dest overwrite) st2 of
                       (Inl err, st3) \<Rightarrow> (Inl err, st3)
                     | (Inr _, st3) \<Rightarrow> fs_do h (Remove src) st3)))"


section \<open>Retention\<close>

definition MS_PER_DAY :: int where "MS_PER_DAY = 86400000"

definition DEFAULT_TRASH_RETENTION_DAYS :: rat where "DEFAULT_TRASH_RETENTION_DAYS = 30"

text \<open>\<open>raw\<close> is what reading the setting gave, or that it failed; \<open>num_str\<close> prints numbers.\<close>

definition retentionDays :: "(rat \<Rightarrow> string) \<Rightarrow> jsval option \<Rightarrow> rat" where
  "retentionDays num_str raw =
     (case raw of
        None \<Rightarrow> DEFAULT_TRASH_RETENTION_DAYS
      | Some v \<Rightarrow>
          if nullish v \<or> v = JStr [] then DEFAULT_TRASH_RETENTION_DAYS
          else (case js_number num_str v of
                  Fin n \<Rightarrow> if n < 0 then DEFAULT_TRASH_RETENTION_DAYS else n
                | _ \<Rightarrow> DEFAULT_TRASH_RETENTION_DAYS))"

definition expiryOf :: "int \<Rightarrow> rat \<Rightarrow> int" where
  "expiryOf deletedAt days = \<lfloor>of_int deletedAt + max 0 days * of_int MS_PER_DAY\<rfloor>"

text \<open>The cut-off of the sweep; a date is a whole number of milliseconds, rounded towards zero.\<close>

definition cutoff :: "int \<Rightarrow> rat \<Rightarrow> int" where
  "cutoff now days = (let t = of_int now - max 0 days * of_int MS_PER_DAY in if t < 0 then \<lceil>t\<rceil> else \<lfloor>t\<rfloor>)"


section \<open>Trash\<close>

definition root_configured :: "string \<Rightarrow> string list \<Rightarrow> string \<Rightarrow> bool" where
  "root_configured cwd hardRoots base \<longleftrightarrow> list_ex (\<lambda>r. inside base (path_resolve cwd r)) hardRoots"

definition payloadIsRemovable :: "string \<Rightarrow> string list \<Rightarrow> trash_row \<Rightarrow> bool" where
  "payloadIsRemovable cwd hardRoots row \<longleftrightarrow>
     (let base = path_resolve cwd (ti_storageRoot row) in
      root_configured cwd hardRoots base \<and>
      is_prefix_of (trash_dir cwd base @ ''/'') (path_resolve cwd (ti_trashPath row)))"

definition resolveOriginal :: "string \<Rightarrow> string list \<Rightarrow> trash_row \<Rightarrow> http_error + string" where
  "resolveOriginal cwd hardRoots row =
     (let base = path_resolve cwd (ti_storageRoot row) in
      if \<not> root_configured cwd hardRoots base then
        Inl (Bad_request ''The storage root this item was trashed from is no longer configured; restore it by hand.'')
      else if CHR 0x00 \<in> set (ti_originalPath row) then Inl (Bad_request ''Invalid original path'')
      else
        (let dest = path_resolve base (strip_slashes (ti_originalPath row)) in
         if \<not> inside dest base then Inl (Bad_request ''Refusing to restore outside the item's own storage root'')
         else Inr dest))"

definition moveToTrash ::
  "'w fs_host \<Rightarrow> string \<Rightarrow> string list \<Rightarrow> int \<Rightarrow> string option \<Rightarrow> string \<Rightarrow> 'w trash_state \<Rightarrow> (trash_row, 'w) trash_result" where
  "moveToTrash h cwd safety now userId absPath st =
     (case assertDeletable cwd safety absPath of
        Inl e \<Rightarrow> (Inl (Refused e), st)
      | Inr _ \<Rightarrow>
          if isInsideTrash cwd safety absPath then (Inl (Refused (Bad_request ''Item is already in the trash'')), st)
          else
            (case rootFor cwd safety absPath of
               None \<Rightarrow> (Inl (Refused (Bad_request ''Item is outside the allowed roots'')), st)
             | Some storageRoot \<Rightarrow>
                 (case hs_stat h absPath (ts_world st) of
                    None \<Rightarrow> (Inl (Refused (Not_found ''Item not found'')), st)
                  | Some isDir \<Rightarrow>
                      (case relativeToRoot cwd storageRoot absPath of
                         Inl e \<Rightarrow> (Inl (Refused e), st)
                       | Inr originalPath \<Rightarrow>
                           (let name = path_basename absPath; trashDir = trash_dir cwd storageRoot in
                            case fs_do h (Mkdir trashDir) st of
                              (Inl err, st1) \<Rightarrow> (Inl (Failed err), st1)
                            | (Inr _, st1) \<Rightarrow>
                                (let (tid, w) = hs_uuid h (ts_world st1);
                                     st2 = st1\<lparr> ts_world := w \<rparr>;
                                     trashPath = path_join trashDir (tid @ ''__'' @ name);
                                     row = \<lparr> ti_id = tid, ti_originalPath = originalPath, ti_name = name, ti_trashPath = trashPath,
                                             ti_storageRoot = storageRoot, ti_isDirectory = isDir, ti_deletedAt = now,
                                             ti_deletedById = userId \<rparr>
                                 in case moveRecursive h absPath trashPath False st2 of
                                      (Inl err, st3) \<Rightarrow> (Inl (Failed err), st3)
                                    | (Inr _, st3) \<Rightarrow>
                                        (case db_do h (\<lambda>rows. rows @ [row]) st3 of
                                           (False, st4) \<Rightarrow> (Inl (Failed ''database''), st4)
                                         | (True, st4) \<Rightarrow> (Inr row, st4))))))))"

definition drop_row :: "string \<Rightarrow> trash_row list \<Rightarrow> trash_row list" where
  "drop_row tid rows = filter (\<lambda>r. ti_id r \<noteq> tid) rows"

definition restore ::
  "'w fs_host \<Rightarrow> string \<Rightarrow> string list \<Rightarrow> string \<Rightarrow> bool \<Rightarrow> 'w trash_state \<Rightarrow> (string, 'w) trash_result" where
  "restore h cwd hardRoots tid overwrite st =
     (case find (\<lambda>r. ti_id r = tid) (ts_rows st) of
        None \<Rightarrow> (Inl (Refused (Not_found ''Trash item not found'')), st)
      | Some row \<Rightarrow>
          (case resolveOriginal cwd hardRoots row of
             Inl e \<Rightarrow> (Inl (Refused e), st)
           | Inr dest \<Rightarrow>
               if \<not> pathExists h (ti_trashPath row) st then
                 (Inl (Refused (Not_found ''Trashed payload no longer exists on disk'')), snd (db_do h (drop_row tid) st))
               else if \<not> overwrite \<and> pathExists h dest st then
                 (Inl (Refused (Conflict ''An item already exists at the original location'')), st)
               else
                 (case (if overwrite \<and> pathExists h dest st then fs_do h (Remove dest) st else (Inr (), st)) of
                    (Inl err, st1) \<Rightarrow> (Inl (Failed err), st1)
                  | (Inr _, st1) \<Rightarrow>
                      (case moveRecursive h (ti_trashPath row) dest overwrite st1 of
                         (Inl err, st2) \<Rightarrow> (Inl (Failed err), st2)
                       | (Inr _, st2) \<Rightarrow>
                           (case db_do h (drop_row tid) st2 of
                              (False, st3) \<Rightarrow> (Inl (Failed ''database''), st3)
                            | (True, st3) \<Rightarrow>
                                (Inr (path_resolve ''/'' (path_relative cwd (ti_storageRoot row) dest)), st3))))))"

text \<open>Removing the payload of a row: nothing when it is not inside a trash directory.\<close>

definition remove_payload ::
  "'w fs_host \<Rightarrow> string \<Rightarrow> string list \<Rightarrow> trash_row \<Rightarrow> 'w trash_state \<Rightarrow> (string + unit) \<times> 'w trash_state" where
  "remove_payload h cwd hardRoots row st =
     (if payloadIsRemovable cwd hardRoots row then fs_do h (Remove (ti_trashPath row)) st else (Inr (), st))"

definition prune_one :: "'w fs_host \<Rightarrow> string \<Rightarrow> string list \<Rightarrow> trash_row \<Rightarrow> nat \<times> 'w trash_state \<Rightarrow> nat \<times> 'w trash_state" where
  "prune_one h cwd hardRoots row = (\<lambda>(removed, st).
     case remove_payload h cwd hardRoots row st of
       (Inl err, st1) \<Rightarrow> (removed, st1)
     | (Inr _, st1) \<Rightarrow> (let (ok, st2) = db_do h (drop_row (ti_id row)) st1 in (if ok then removed + 1 else removed, st2)))"

definition pruneExpired ::
  "'w fs_host \<Rightarrow> string \<Rightarrow> string list \<Rightarrow> int \<Rightarrow> rat \<Rightarrow> 'w trash_state \<Rightarrow> nat \<times> 'w trash_state" where
  "pruneExpired h cwd hardRoots now days st =
     fold (prune_one h cwd hardRoots) (filter (\<lambda>r. ti_deletedAt r \<le> cutoff now days) (ts_rows st)) (0, st)"

text \<open>What is listed as recoverable; when something is not, a sweep is started on the side.\<close>

definition trash_list :: "int \<Rightarrow> rat \<Rightarrow> trash_row list \<Rightarrow> trash_row list" where
  "trash_list now days rows =
     filter (\<lambda>r. days > 0 \<and> of_int (ti_deletedAt r) + days * of_int MS_PER_DAY > of_int now)
       (js_sort (\<lambda>a b. ti_deletedAt b - ti_deletedAt a) rows)"

definition purge :: "'w fs_host \<Rightarrow> string \<Rightarrow> string list \<Rightarrow> string \<Rightarrow> 'w trash_state \<Rightarrow> (unit, 'w) trash_result" where
  "purge h cwd hardRoots tid st =
     (case find (\<lambda>r. ti_id r = tid) (ts_rows st) of
        None \<Rightarrow> (Inl (Refused (Not_found ''Trash item not found'')), st)
      | Some row \<Rightarrow>
          (case remove_payload h cwd hardRoots row st of
             (Inl err, st1) \<Rightarrow> (Inl (Failed err), st1)
           | (Inr _, st1) \<Rightarrow>
               (case db_do h (drop_row tid) st1 of
                  (False, st2) \<Rightarrow> (Inl (Failed ''database''), st2)
                | (True, st2) \<Rightarrow> (Inr (), st2))))"

definition empty_trash :: "'w fs_host \<Rightarrow> string \<Rightarrow> string list \<Rightarrow> 'w trash_state \<Rightarrow> (nat, 'w) trash_result" where
  "empty_trash h cwd hardRoots st =
     (let st1 = fold (\<lambda>row s. snd (remove_payload h cwd hardRoots row s)) (ts_rows st) st
      in case db_do h (\<lambda>_. []) st1 of
           (False, st2) \<Rightarrow> (Inl (Failed ''database''), st2)
         | (True, st2) \<Rightarrow> (Inr (length (ts_rows st)), st2))"


section \<open>What is deleted\<close>

lemma trash_segments: "resolve_segments c (trash_dir cwd (path_resolve c' r)) = resolve_segments c' r @ [TRASH_DIR_NAME]"
proof -
  have "proper_segment TRASH_DIR_NAME" by (simp add: proper_segment_def TRASH_DIR_NAME_def)
  then show ?thesis unfolding trash_dir_def using resolve_child [of TRASH_DIR_NAME cwd c' r] by simp
qed

text \<open>Strictly inside a trash directory that lies at or below a hard root.\<close>

definition in_trash :: "string \<Rightarrow> string list \<Rightarrow> string \<Rightarrow> bool" where
  "in_trash cwd hardRoots p \<longleftrightarrow>
     (\<exists>r\<in>set hardRoots. \<exists>mid down. down \<noteq> [] \<and>
        resolve_segments cwd p = resolve_segments cwd r @ mid @ [TRASH_DIR_NAME] @ down)"

lemma removable_in_trash:
  assumes "payloadIsRemovable cwd hardRoots row"
  shows "in_trash cwd hardRoots (ti_trashPath row)"
proof -
  let ?base = "path_resolve cwd (ti_storageRoot row)"
  obtain r where r: "r \<in> set hardRoots" "inside ?base (path_resolve cwd r)"
    and below: "is_prefix_of (trash_dir cwd ?base @ ''/'') (path_resolve cwd (ti_trashPath row))"
    using assms by (auto simp: payloadIsRemovable_def root_configured_def list_ex_iff Let_def)
  obtain mid where mid: "resolve_segments cwd (ti_storageRoot row) = resolve_segments cwd r @ mid"
    using r(2) by (auto simp: inside_iff)
  have "trash_dir cwd ?base = path_resolve cwd (trash_dir cwd ?base)" by (simp add: trash_dir_def)
  then obtain down where "down \<noteq> []" "resolve_segments cwd (ti_trashPath row) = resolve_segments cwd (trash_dir cwd ?base) @ down"
    using below below_iff [of cwd "trash_dir cwd ?base" cwd "ti_trashPath row"] by auto
  then show ?thesis using mid r(1) by (auto simp: in_trash_def trash_segments)
qed

text \<open>A run of operations whose calls to the file system all satisfy a property.\<close>

definition only_calls :: "(fs_call \<Rightarrow> bool) \<Rightarrow> 'w trash_state \<Rightarrow> 'w trash_state \<Rightarrow> bool" where
  "only_calls P st st' \<longleftrightarrow> (\<exists>calls. ts_calls st' = ts_calls st @ calls \<and> list_all P calls)"

lemma only_calls_refl [simp]: "only_calls P st st"
  by (simp add: only_calls_def)

lemma only_calls_trans: "only_calls P a b \<Longrightarrow> only_calls P b c \<Longrightarrow> only_calls P a c"
  by (auto simp: only_calls_def)

lemma only_calls_fs: "P c \<Longrightarrow> fs_do h c st = (r, st') \<Longrightarrow> only_calls P st st'"
  by (auto simp: only_calls_def fs_do_def Let_def split: prod.splits)

lemma only_calls_db: "db_do h f st = (ok, st') \<Longrightarrow> only_calls P st st'"
  by (auto simp: only_calls_def db_do_def Let_def split: prod.splits)

lemma only_calls_move:
  assumes "P (Mkdir (path_dirname dest))" "P (Rename src dest)" "P (Copy src dest overwrite)" "P (Remove src)"
    and "moveRecursive h src dest overwrite st = (r, st')"
  shows "only_calls P st st'"
proof -
  obtain r1 st1 where 1: "fs_do h (Mkdir (path_dirname dest)) st = (r1, st1)" by fastforce
  obtain r2 st2 where 2: "fs_do h (Rename src dest) st1 = (r2, st2)" by fastforce
  obtain r3 st3 where 3: "fs_do h (Copy src dest overwrite) st2 = (r3, st3)" by fastforce
  obtain r4 st4 where 4: "fs_do h (Remove src) st3 = (r4, st4)" by fastforce
  have "only_calls P st st1" "only_calls P st1 st2" "only_calls P st2 st3" "only_calls P st3 st4"
    using assms 1 2 3 4 by (auto intro: only_calls_fs)
  moreover have "st' \<in> {st1, st2, st3, st4}"
    using assms(5) 1 2 3 4 by (auto simp: moveRecursive_def split: sum.splits if_splits)
  ultimately show ?thesis by (auto intro: only_calls_trans)
qed

definition removes_trash :: "string \<Rightarrow> string list \<Rightarrow> fs_call \<Rightarrow> bool" where
  "removes_trash cwd hardRoots c \<longleftrightarrow> (\<exists>p. c = Remove p \<and> in_trash cwd hardRoots p)"

lemma remove_payload_calls:
  "remove_payload h cwd hardRoots row st = (r, st') \<Longrightarrow> only_calls (removes_trash cwd hardRoots) st st'"
  using removable_in_trash [of cwd hardRoots row] only_calls_fs [of "removes_trash cwd hardRoots" "Remove (ti_trashPath row)"]
  by (auto simp: remove_payload_def removes_trash_def split: if_splits)

lemma prune_one_calls: "only_calls (removes_trash cwd hardRoots) (snd acc) (snd (prune_one h cwd hardRoots row acc))"
proof -
  obtain n st where acc: "acc = (n, st)" by fastforce
  obtain r st1 where 1: "remove_payload h cwd hardRoots row st = (r, st1)" by fastforce
  obtain ok st2 where 2: "db_do h (drop_row (ti_id row)) st1 = (ok, st2)" by fastforce
  have "only_calls (removes_trash cwd hardRoots) st st1" "only_calls (removes_trash cwd hardRoots) st1 st2"
    using remove_payload_calls [OF 1] only_calls_db [OF 2] by simp_all
  then show ?thesis by (auto simp: prune_one_def acc 1 2 intro: only_calls_trans split: sum.split)
qed

text \<open>
  C30. The trash never deletes what is not trash. Whatever the rows of the table hold and whatever
  fails, the sweep, a purge and emptying call the file system only to remove paths that lie strictly
  inside a trash directory at or below a hard root.
\<close>

theorem only_trash_is_deleted:
  "only_calls (removes_trash cwd hardRoots) st (snd (pruneExpired h cwd hardRoots now days st)) \<and>
   only_calls (removes_trash cwd hardRoots) st (snd (purge h cwd hardRoots tid st)) \<and>
   only_calls (removes_trash cwd hardRoots) st (snd (empty_trash h cwd hardRoots st))"
proof (intro conjI)
  have "only_calls (removes_trash cwd hardRoots) (snd acc) (snd (fold (prune_one h cwd hardRoots) rows acc))" for rows acc
  proof (induction rows arbitrary: acc)
    case (Cons row rows)
    show ?case using only_calls_trans [OF prune_one_calls Cons.IH] by simp
  qed simp
  then show "only_calls (removes_trash cwd hardRoots) st (snd (pruneExpired h cwd hardRoots now days st))"
    unfolding pruneExpired_def by (metis snd_conv)
next
  show "only_calls (removes_trash cwd hardRoots) st (snd (purge h cwd hardRoots tid st))"
    by (auto simp: purge_def split: option.split prod.split sum.split bool.split
        intro: only_calls_trans only_calls_db dest!: remove_payload_calls)
next
  have "only_calls (removes_trash cwd hardRoots) s (snd (remove_payload h cwd hardRoots row s))" for row s
    by (metis remove_payload_calls prod.collapse)
  then have all: "only_calls (removes_trash cwd hardRoots) s (fold (\<lambda>row s. snd (remove_payload h cwd hardRoots row s)) rows s)" for rows s
    by (induction rows arbitrary: s) (auto intro: only_calls_trans)
  let ?st1 = "fold (\<lambda>row s. snd (remove_payload h cwd hardRoots row s)) (ts_rows st) st"
  obtain ok st2 where db: "db_do h (\<lambda>_. []) ?st1 = (ok, st2)" by fastforce
  then have "snd (empty_trash h cwd hardRoots st) = st2" by (auto simp: empty_trash_def Let_def split: bool.split)
  then show "only_calls (removes_trash cwd hardRoots) st (snd (empty_trash h cwd hardRoots st))"
    using only_calls_trans [OF all only_calls_db [OF db]] by simp
qed

text \<open>
  What is offered is what is kept. At any moment a row is listed as recoverable exactly when a
  sweep at that moment would leave it, so that nothing is shown that is about to go and nothing that
  stays is hidden.
\<close>

theorem listing_agrees_with_sweep:
  assumes "0 < ti_deletedAt row" "ti_deletedAt row \<le> now" "0 \<le> days"
  shows "row \<in> set (trash_list now days rows) \<longleftrightarrow> row \<in> set rows \<and> \<not> ti_deletedAt row \<le> cutoff now days"
proof -
  let ?t = "of_int now - days * of_int MS_PER_DAY :: rat"
  have "ti_deletedAt row \<le> cutoff now days \<longleftrightarrow> of_int (ti_deletedAt row) \<le> ?t"
  proof (cases "?t < 0")
    case True
    then have "\<lceil>?t\<rceil> \<le> 0" by (simp add: ceiling_le_iff)
    then have "\<not> ti_deletedAt row \<le> \<lceil>?t\<rceil>" using assms(1) by linarith
    moreover have "\<not> of_int (ti_deletedAt row) \<le> ?t" using True assms(1) by (meson of_int_0_le_iff order.strict_implies_order order_trans not_less)
    ultimately show ?thesis using True assms(3) by (simp add: cutoff_def)
  next
    case False
    then show ?thesis using assms(3) by (simp add: cutoff_def le_floor_iff)
  qed
  moreover have "days > 0 \<or> of_int (ti_deletedAt row) \<le> ?t" using assms by (cases "days = 0") auto
  ultimately show ?thesis by (auto simp: trash_list_def)
qed


section \<open>Restoring\<close>

text \<open>A call that brings the payload of a row back to a place at or below its storage root.\<close>

definition restores_row :: "string \<Rightarrow> trash_row \<Rightarrow> fs_call \<Rightarrow> bool" where
  "restores_row cwd row c \<longleftrightarrow>
     (\<exists>dest down. dest = path_resolve cwd dest \<and> resolve_segments cwd dest = resolve_segments cwd (ti_storageRoot row) @ down \<and>
        c \<in> {Mkdir (path_dirname dest), Rename (ti_trashPath row) dest, Copy (ti_trashPath row) dest True,
             Copy (ti_trashPath row) dest False, Remove (ti_trashPath row), Remove dest})"

lemma resolveOriginal_inside:
  assumes "resolveOriginal cwd hardRoots row = Inr dest"
  shows "dest = path_resolve cwd dest \<and> (\<exists>down. resolve_segments cwd dest = resolve_segments cwd (ti_storageRoot row) @ down) \<and>
    (\<exists>r\<in>set hardRoots. inside (path_resolve cwd (ti_storageRoot row)) (path_resolve cwd r))"
  using assms by (auto simp: resolveOriginal_def root_configured_def list_ex_iff Let_def inside_iff split: if_splits)

text \<open>
  C31. A restore stays in the root the item came from and never overwrites by itself. Whatever the row
  holds, a restore moves its payload only to a place at or below the recorded root, which must lie
  in a hard root; without the request to overwrite, an item that exists at that place ends the
  restore before anything is touched.
\<close>

theorem restore_contained:
  "(\<forall>row. find (\<lambda>r. ti_id r = tid) (ts_rows st) = Some row \<longrightarrow>
      only_calls (\<lambda>c. restores_row cwd row c \<and> (\<exists>r\<in>set hardRoots. inside (path_resolve cwd (ti_storageRoot row)) (path_resolve cwd r)))
        st (snd (restore h cwd hardRoots tid overwrite st)) \<and>
      (\<forall>dest. resolveOriginal cwd hardRoots row = Inr dest \<and> pathExists h dest st \<and> pathExists h (ti_trashPath row) st \<longrightarrow>
         restore h cwd hardRoots tid False st = (Inl (Refused (Conflict ''An item already exists at the original location'')), st)))"
proof (intro allI impI conjI)
  fix row
  assume row: "find (\<lambda>r. ti_id r = tid) (ts_rows st) = Some row"
  let ?P = "\<lambda>c. restores_row cwd row c \<and> (\<exists>r\<in>set hardRoots. inside (path_resolve cwd (ti_storageRoot row)) (path_resolve cwd r))"
  show "only_calls ?P st (snd (restore h cwd hardRoots tid overwrite st))"
  proof (cases "resolveOriginal cwd hardRoots row")
    case (Inr dest)
    note loc = resolveOriginal_inside [OF Inr]
    have P: "?P (Mkdir (path_dirname dest))" "?P (Rename (ti_trashPath row) dest)" "?P (Copy (ti_trashPath row) dest overwrite)"
        "?P (Remove (ti_trashPath row))" "?P (Remove dest)"
      using loc unfolding restores_row_def by (cases overwrite; blast)+
    obtain r1 st1 where 1: "(if overwrite \<and> pathExists h dest st then fs_do h (Remove dest) st else (Inr (), st)) = (r1, st1)"
      by fastforce
    obtain r2 st2 where 2: "moveRecursive h (ti_trashPath row) dest overwrite st1 = (r2, st2)" by fastforce
    obtain ok st3 where 3: "db_do h (drop_row tid) st2 = (ok, st3)" by fastforce
    obtain ok' st4 where 4: "db_do h (drop_row tid) st = (ok', st4)" by fastforce
    have "only_calls ?P st st1" using 1 only_calls_fs [of ?P, OF P(5)] by (auto split: if_splits)
    moreover have "only_calls ?P st1 st2" by (rule only_calls_move [of ?P, OF P(1-4) 2])
    moreover have "only_calls ?P st2 st3" "only_calls ?P st st4" by (rule only_calls_db [OF 3], rule only_calls_db [OF 4])
    moreover have "snd (restore h cwd hardRoots tid overwrite st) \<in> {st, st1, st2, st3, st4}"
      unfolding restore_def row Inr option.case sum.case 1 prod.case 2 3 4 snd_conv
      by (cases r1; cases r2; cases ok) simp_all
    ultimately show ?thesis by (auto intro: only_calls_trans)
  qed (simp add: restore_def row)
next
  fix row dest
  assume "find (\<lambda>r. ti_id r = tid) (ts_rows st) = Some row"
    "resolveOriginal cwd hardRoots row = Inr dest \<and> pathExists h dest st \<and> pathExists h (ti_trashPath row) st"
  then show "restore h cwd hardRoots tid False st = (Inl (Refused (Conflict ''An item already exists at the original location'')), st)"
    by (simp add: restore_def)
qed


section \<open>Trashing and restoring on a disk\<close>

text \<open>
  A disk maps the segments of a path to a directory or a file. Renaming takes a subtree to a new
  place; the rules are those of POSIX for a target that does not exist, and files replace files.
\<close>

datatype fnode = FDir | FFile string

type_synonym disk = "string list \<Rightarrow> fnode option"

definition disk_segments :: "string \<Rightarrow> string list" where
  "disk_segments p = resolve_segments ''/'' p"

fun is_file :: "fnode option \<Rightarrow> bool" where
  "is_file (Some (FFile c)) = True"
| "is_file _ = False"

definition moved :: "string list \<Rightarrow> string list \<Rightarrow> disk \<Rightarrow> disk" where
  "moved a b d = (\<lambda>q. if prefix b q then d (a @ drop (length b) q) else if prefix a q then None else d q)"

definition with_dirs :: "string list \<Rightarrow> disk \<Rightarrow> disk" where
  "with_dirs p d = (\<lambda>q. if d q = None \<and> prefix q p then Some FDir else d q)"

fun disk_run :: "fs_call \<Rightarrow> disk \<Rightarrow> (string + unit) \<times> disk" where
  "disk_run (Mkdir p) d =
     (if list_ex (\<lambda>q. is_file (d q)) (prefixes (disk_segments p)) then (Inl ''ENOTDIR'', d)
      else (Inr (), with_dirs (disk_segments p) d))"
| "disk_run (Rename p q) d =
     (let a = disk_segments p; b = disk_segments q in
      if d a = None then (Inl ''ENOENT'', d)
      else if strict_prefix a b then (Inl ''EINVAL'', d)
      else if b = [] \<or> d (butlast b) \<noteq> Some FDir then (Inl ''ENOENT'', d)
      else if d b \<noteq> None \<and> \<not> (is_file (d a) \<and> is_file (d b)) then (Inl ''ENOTEMPTY'', d)
      else (Inr (), moved a b d))"
| "disk_run (Copy p q overwrite) d =
     (let a = disk_segments p; b = disk_segments q in
      if d a = None then (Inl ''ENOENT'', d)
      else if d b \<noteq> None \<and> \<not> overwrite then (Inl ''ERR_FS_CP_EEXIST'', d)
      else (Inr (), \<lambda>x. if prefix b x \<and> d (a @ drop (length b) x) \<noteq> None then d (a @ drop (length b) x) else d x))"
| "disk_run (Remove p) d = (Inr (), \<lambda>q. if prefix (disk_segments p) q then None else d q)"

record disk_world =
  dw_disk :: disk
  dw_ids :: "string list"

definition disk_host :: "disk_world fs_host" where
  "disk_host =
     \<lparr> hs_stat = (\<lambda>p w. map_option (\<lambda>n. n = FDir) (dw_disk w (disk_segments p))),
       hs_run = (\<lambda>c w. let (r, d) = disk_run c (dw_disk w) in (r, w\<lparr> dw_disk := d \<rparr>)),
       hs_uuid = (\<lambda>w. case dw_ids w of [] \<Rightarrow> ([], w) | i # is \<Rightarrow> (i, w\<lparr> dw_ids := is \<rparr>)),
       hs_db = (\<lambda>w. (True, w)) \<rparr>"

text \<open>Whatever exists stands in a directory.\<close>

definition disk_ok :: "disk \<Rightarrow> bool" where
  "disk_ok d \<longleftrightarrow> (\<forall>q s. d (q @ [s]) \<noteq> None \<longrightarrow> d q = Some FDir)"

lemma disk_ok_prefix:
  assumes "disk_ok d" "d p \<noteq> None" "strict_prefix q p"
  shows "d q = Some FDir"
  using assms(2,3)
proof (induction p rule: rev_induct)
  case (snoc s p)
  have up: "d p = Some FDir" using assms(1) snoc.prems(1) by (auto simp: disk_ok_def)
  show ?case
  proof (cases "q = p")
    case False
    then have "strict_prefix q p" using snoc.prems(2) by (auto simp: strict_prefix_def prefix_snoc)
    then show ?thesis using snoc.IH up by simp
  qed (use up in simp)
qed simp

lemma moved_back:
  assumes "\<not> prefix x p" "\<not> prefix p x" "\<forall>q. prefix x q \<longrightarrow> d q = None"
  shows "moved x p (moved p x d) = d"
proof
  fix q
  show "moved x p (moved p x d) q = d q"
  proof (cases "prefix p q")
    case True
    then obtain r where "q = p @ r" by (auto simp: prefix_def)
    then show ?thesis by (simp add: moved_def)
  next
    case False
    then show ?thesis using assms(3) by (simp add: moved_def)
  qed
qed


definition disk_of :: "disk_world trash_state \<Rightarrow> disk" where
  "disk_of st = dw_disk (ts_world st)"

lemma fs_do_disk:
  assumes "fs_do disk_host c st = (r, st')"
  shows "disk_run c (disk_of st) = (r, disk_of st') \<and> ts_rows st' = ts_rows st"
  using assms by (auto simp: fs_do_def disk_host_def disk_of_def Let_def split: prod.splits)

lemma fs_do_diskI:
  assumes "disk_run c (disk_of st) = (r, d)"
  obtains st' where "fs_do disk_host c st = (r, st')" "disk_of st' = d" "ts_rows st' = ts_rows st"
  using assms that by (auto simp: fs_do_def disk_host_def disk_of_def Let_def)

lemma db_do_disk:
  obtains st' where "db_do disk_host f st = (True, st')" "disk_of st' = disk_of st" "ts_rows st' = f (ts_rows st)"
  using that by (auto simp: db_do_def disk_host_def disk_of_def Let_def)

lemma absolute_segments: "starts_with_slash p \<Longrightarrow> resolve_segments c p = resolve_segments c' p"
  by (simp add: resolve_segments_def)

lemma disk_segments_resolve [simp]: "disk_segments (path_resolve c p) = resolve_segments c p"
  unfolding disk_segments_def by (metis path_resolve_idem path_resolve_inject)

lemma disk_segments_dirname: "disk_segments (path_dirname p) = butlast (disk_segments p)"
proof -
  have "split_on (CHR ''/'') (p @ ''/..'') = split_on (CHR ''/'') p @ [''..'']"
    using split_on_append [of "CHR ''/''" p "''..''"] by simp
  moreover have "starts_with_slash (p @ ''/..'') \<longleftrightarrow> p = [] \<or> starts_with_slash p"
    by (cases p) (auto simp: starts_with_slash_def)
  moreover have "split_on (CHR ''/'') ''/'' = [[], []]" by simp
  ultimately show ?thesis
    unfolding path_dirname_def disk_segments_resolve
    by (auto simp: disk_segments_def resolve_segments_def push_segment_def starts_with_slash_def)
qed

lemma moveRecursive_disk:
  assumes "moveRecursive disk_host src dest overwrite st = (Inr (), st')"
  shows "disk_of st' = moved (disk_segments src) (disk_segments dest) (with_dirs (butlast (disk_segments dest)) (disk_of st)) \<and>
    ts_rows st' = ts_rows st"
proof -
  obtain r1 st1 where 1: "fs_do disk_host (Mkdir (path_dirname dest)) st = (r1, st1)" by fastforce
  obtain r2 st2 where 2: "fs_do disk_host (Rename src dest) st1 = (r2, st2)" by fastforce
  have d1: "disk_run (Mkdir (path_dirname dest)) (disk_of st) = (r1, disk_of st1)" "ts_rows st1 = ts_rows st"
    using fs_do_disk [OF 1] by simp_all
  have d2: "disk_run (Rename src dest) (disk_of st1) = (r2, disk_of st2)" "ts_rows st2 = ts_rows st1"
    using fs_do_disk [OF 2] by simp_all
  have "r2 \<noteq> Inl ''EXDEV''" using d2(1) by (auto simp: Let_def split: if_splits)
  then have ok: "r1 = Inr ()" "r2 = Inr ()" "st' = st2"
    using assms by (auto simp: moveRecursive_def 1 2 split: sum.splits if_splits)
  have "disk_of st1 = with_dirs (butlast (disk_segments dest)) (disk_of st)"
    using d1(1) ok(1) by (auto simp: disk_segments_dirname split: if_splits)
  moreover have "disk_of st2 = moved (disk_segments src) (disk_segments dest) (disk_of st1)"
    using d2(1) ok(2) by (auto simp: Let_def split: if_splits)
  ultimately show ?thesis using ok(3) d1(2) d2(2) by simp
qed

lemma moveRecursive_diskI:
  assumes "disk_of st (disk_segments src) \<noteq> None" "\<not> strict_prefix (disk_segments src) (disk_segments dest)"
    and "disk_segments dest \<noteq> []" "\<And>q. strict_prefix q (disk_segments dest) \<Longrightarrow> disk_of st q = Some FDir"
    and "disk_of st (disk_segments dest) = None"
  obtains st' where "moveRecursive disk_host src dest overwrite st = (Inr (), st')"
    "disk_of st' = moved (disk_segments src) (disk_segments dest) (disk_of st)" "ts_rows st' = ts_rows st"
proof -
  let ?b = "disk_segments dest"
  have up: "strict_prefix q ?b \<longleftrightarrow> prefix q (butlast ?b)" for q
  proof -
    have "?b = butlast ?b @ [last ?b]" using assms(3) by simp
    then show ?thesis by (metis prefix_snoc prefix_length_le length_append_singleton not_less_eq_eq order_refl strict_prefix_def)
  qed
  have dirs: "disk_of st q = Some FDir" if "prefix q (butlast ?b)" for q using assms(4) up that by simp
  then have "with_dirs (butlast ?b) (disk_of st) = disk_of st" by (auto simp: with_dirs_def fun_eq_iff)
  moreover have "\<not> list_ex (\<lambda>q. is_file (disk_of st q)) (prefixes (butlast ?b))"
    using dirs by (auto simp: list_ex_iff)
  ultimately have "disk_run (Mkdir (path_dirname dest)) (disk_of st) = (Inr (), disk_of st)"
    by (simp add: disk_segments_dirname)
  then obtain st1 where 1: "fs_do disk_host (Mkdir (path_dirname dest)) st = (Inr (), st1)" "disk_of st1 = disk_of st"
      "ts_rows st1 = ts_rows st" by (rule fs_do_diskI)
  have "disk_run (Rename src dest) (disk_of st1) = (Inr (), moved (disk_segments src) ?b (disk_of st))"
    using assms dirs [of "butlast ?b"] 1(2) by (simp add: Let_def)
  then obtain st2 where 2: "fs_do disk_host (Rename src dest) st1 = (Inr (), st2)"
      "disk_of st2 = moved (disk_segments src) ?b (disk_of st)" "ts_rows st2 = ts_rows st1" by (rule fs_do_diskI)
  have "moveRecursive disk_host src dest overwrite st = (Inr (), st2)" by (simp add: moveRecursive_def 1(1) 2(1))
  then show thesis using that 2 1(3) by simp
qed


lemma uuid_disk: "hs_uuid disk_host w = (tid, w') \<Longrightarrow> dw_disk w' = dw_disk w"
  by (auto simp: disk_host_def split: list.splits)

lemma rootFor_Some:
  assumes "rootFor cwd rs p = Some base"
  obtains r where "r \<in> set rs" "base = path_resolve cwd r" "inside (path_resolve cwd p) (path_resolve cwd r)"
  using assms that by (auto simp: rootFor_def normalizedRoots_def find_Some_iff) (metis nth_map nth_mem)

text \<open>What a successful move to the trash did.\<close>

lemma moveToTrash_disk:
  assumes "moveToTrash disk_host cwd safety now userId p st = (Inr row, st1)"
  shows "\<not> isInsideTrash cwd safety p" "assertDeletable cwd safety p = Inr ()"
    "rootFor cwd safety p = Some (ti_storageRoot row)" "relativeToRoot cwd (ti_storageRoot row) p = Inr (ti_originalPath row)"
    "ti_trashPath row = path_join (trash_dir cwd (ti_storageRoot row)) (ti_id row @ ''__'' @ path_basename p)"
    "disk_of st (disk_segments p) \<noteq> None" "ts_rows st1 = ts_rows st @ [row]"
    "disk_of st1 = moved (disk_segments p) (disk_segments (ti_trashPath row))
       (with_dirs (butlast (disk_segments (ti_trashPath row))) (with_dirs (disk_segments (trash_dir cwd (ti_storageRoot row))) (disk_of st)))"
proof -
  obtain base where base: "rootFor cwd safety p = Some base"
    and a: "assertDeletable cwd safety p = Inr ()" "\<not> isInsideTrash cwd safety p"
    using assms by (auto simp: moveToTrash_def split: sum.splits if_splits option.splits)
  obtain isDir orig where b: "hs_stat disk_host p (ts_world st) = Some isDir" "relativeToRoot cwd base p = Inr orig"
    using assms a base by (auto simp: moveToTrash_def split: sum.splits option.splits)
  obtain m1 st2 where m1: "fs_do disk_host (Mkdir (trash_dir cwd base)) st = (m1, st2)" by fastforce
  obtain tid w where u: "hs_uuid disk_host (ts_world st2) = (tid, w)" by fastforce
  let ?x = "path_join (trash_dir cwd base) (tid @ ''__'' @ path_basename p)"
  let ?row = "\<lparr> ti_id = tid, ti_originalPath = orig, ti_name = path_basename p, ti_trashPath = ?x, ti_storageRoot = base,
      ti_isDirectory = isDir, ti_deletedAt = now, ti_deletedById = userId \<rparr>"
  obtain m2 st3 where m2: "moveRecursive disk_host p ?x False (st2\<lparr> ts_world := w \<rparr>) = (m2, st3)" by fastforce
  obtain st4 where db: "db_do disk_host (\<lambda>rows. rows @ [?row]) st3 = (True, st4)" "disk_of st4 = disk_of st3"
      "ts_rows st4 = ts_rows st3 @ [?row]" by (rule db_do_disk)
  have run: "(case m1 of Inl err \<Rightarrow> (Inl (Failed err), st2) | Inr _ \<Rightarrow>
      (case m2 of Inl err \<Rightarrow> (Inl (Failed err), st3) | Inr _ \<Rightarrow> (Inr ?row, st4))) = (Inr row, st1)"
    using assms a(2)
    unfolding moveToTrash_def a(1) base b option.case sum.case Let_def m1 u prod.case m2 db(1) bool.case
    by (simp split: sum.splits)
  have ok: "m1 = Inr ()" "m2 = Inr ()" "row = ?row" "st1 = st4"
    using run by (cases m1; cases m2; simp)+
  have d2: "disk_of st2 = with_dirs (disk_segments (trash_dir cwd base)) (disk_of st)" "ts_rows st2 = ts_rows st"
    using fs_do_disk [OF m1] ok(1) by (auto split: if_splits)
  have d2': "disk_of (st2\<lparr> ts_world := w \<rparr>) = disk_of st2" using uuid_disk [OF u] by (simp add: disk_of_def)
  show "\<not> isInsideTrash cwd safety p" "assertDeletable cwd safety p = Inr ()"
    "rootFor cwd safety p = Some (ti_storageRoot row)" "relativeToRoot cwd (ti_storageRoot row) p = Inr (ti_originalPath row)"
    "ti_trashPath row = path_join (trash_dir cwd (ti_storageRoot row)) (ti_id row @ ''__'' @ path_basename p)"
    using a base b by (simp_all add: ok(3))
  show "disk_of st (disk_segments p) \<noteq> None" using b(1) by (auto simp: disk_host_def disk_of_def)
  show "ts_rows st1 = ts_rows st @ [row]" "disk_of st1 = moved (disk_segments p) (disk_segments (ti_trashPath row))
       (with_dirs (butlast (disk_segments (ti_trashPath row))) (with_dirs (disk_segments (trash_dir cwd (ti_storageRoot row))) (disk_of st)))"
    using moveRecursive_disk [OF m2 [unfolded ok(2)]] d2 d2' db(2,3) by (simp_all add: ok)
qed

lemma isInsideTrash_iff:
  "isInsideTrash cwd rs p \<longleftrightarrow> (\<exists>r\<in>set rs. prefix (resolve_segments cwd r @ [TRASH_DIR_NAME]) (resolve_segments cwd p))"
proof -
  have "inside (path_resolve cwd p) (trash_dir cwd (path_resolve cwd r)) \<longleftrightarrow>
      prefix (resolve_segments cwd r @ [TRASH_DIR_NAME]) (resolve_segments cwd p)" for r
    using trash_segments [of cwd cwd cwd r]
    unfolding trash_dir_def inside_iff by (auto simp: prefix_def trash_dir_def)
  then show ?thesis by (auto simp: isInsideTrash_def normalizedRoots_def list_ex_iff)
qed

text \<open>
  C32. Restoring undoes trashing. On a disk, an item moved to the trash under any configured roots and
  restored afterwards is back where it was with everything in it; the table of the trash is as before,
  and nothing outside the trash directory of its root has changed.
\<close>

theorem restore_undoes_trash:
  assumes "moveToTrash disk_host cwd safety now userId p st = (Inr row, st1)"
    and "disk_ok (disk_of st)" "disk_of st (disk_segments (ti_trashPath row)) = None"
    and "p = path_resolve cwd p" "CHR 0x00 \<notin> set (ti_originalPath row)"
    and "proper_segment (ti_id row @ ''__'' @ path_basename p)" "ti_id row \<notin> ti_id ` set (ts_rows st)"
    and "\<forall>r\<in>set safety. list_ex (\<lambda>x. inside (path_resolve cwd r) (path_resolve cwd x)) hardRoots"
  shows "\<exists>shown st2. restore disk_host cwd hardRoots (ti_id row) False st1 = (Inr shown, st2) \<and>
    ts_rows st2 = ts_rows st \<and>
    (\<forall>q. \<not> prefix (disk_segments (trash_dir cwd (ti_storageRoot row))) q \<longrightarrow> disk_of st2 q = disk_of st q)"
proof -
  note mt = moveToTrash_disk [OF assms(1)]
  obtain r where r: "r \<in> set safety" "ti_storageRoot row = path_resolve cwd r" "inside (path_resolve cwd p) (path_resolve cwd r)"
    by (rule rootFor_Some [OF mt(3)])
  let ?R = "resolve_segments cwd r" and ?P = "resolve_segments cwd p"
  let ?T = "?R @ [TRASH_DIR_NAME]" and ?X = "?R @ [TRASH_DIR_NAME, ti_id row @ ''__'' @ path_basename p]"
  have T: "disk_segments (trash_dir cwd (ti_storageRoot row)) = ?T"
    unfolding disk_segments_def r(2) by (rule trash_segments)
  have P: "disk_segments p = ?P" using assms(4) by (metis disk_segments_resolve)
  have "trash_dir cwd (ti_storageRoot row) = path_resolve cwd (trash_dir cwd (ti_storageRoot row))" by (simp add: trash_dir_def)
  then have X: "disk_segments (ti_trashPath row) = ?X"
    unfolding mt(5) path_join_def disk_segments_resolve
    using resolve_child [OF assms(6), of "''/''" cwd "trash_dir cwd (ti_storageRoot row)"] trash_segments [of cwd cwd cwd r] r(2) by simp
  obtain down where down: "?P = ?R @ down" using r(3) by (auto simp: inside_iff)
  have notT: "\<not> prefix ?T ?P" using mt(1) r(1) unfolding isInsideTrash_iff by blast
  have "p \<noteq> path_resolve cwd r" using mt(2) r(1) assms(4)
    by (auto simp: assertDeletable_def isRoot_def normalizedRoots_def Let_def split: if_splits)
  then have ne: "down \<noteq> []" using assms(4) down by (metis append_Nil2 path_resolve_inject)
  let ?d = "disk_of st"
  have exists: "?d ?P \<noteq> None" using mt(6) P by simp
  have dirs: "strict_prefix q ?P \<Longrightarrow> ?d q = Some FDir" for q by (rule disk_ok_prefix [OF assms(2) exists])
  have R: "?d q = Some FDir" if "prefix q ?R" for q
    by (rule dirs) (use that down ne in \<open>auto simp: strict_prefix_def prefix_def\<close>)
  let ?d1 = "with_dirs ?T ?d"
  have d1: "?d1 q = ?d q" if "\<not> prefix ?T q" for q
    using that R by (auto simp: with_dirs_def prefix_snoc)
  have twice: "with_dirs (butlast ?X) ?d1 = ?d1" by (auto simp: with_dirs_def fun_eq_iff butlast_append)
  have disk1: "disk_of st1 = moved ?P ?X ?d1" using mt(8) by (simp only: P X T twice)
  have empty: "?d1 q = None" if "prefix ?X q" for q
  proof -
    have "?d q = None" if "prefix ?X q" for q
      using disk_ok_prefix [OF assms(2), of q ?X] assms(3) that X by (cases "?d q"; cases "q = ?X") (auto simp: strict_prefix_def)
    moreover have "\<not> prefix q ?T" using that by (auto dest!: prefix_length_le)
    ultimately show ?thesis using that by (auto simp: with_dirs_def)
  qed
  have apart: "\<not> prefix ?X ?P" "\<not> prefix ?P ?X"
  proof -
    show "\<not> prefix ?X ?P" using notT by (auto simp: prefix_def)
    show "\<not> prefix ?P ?X"
    proof
      assume "prefix ?P ?X"
      then have "hd down = TRASH_DIR_NAME" using ne by (cases down) (auto simp: down)
      then show False using notT ne by (cases down) (auto simp: down prefix_def)
    qed
  qed
  have at: "disk_of st1 ?X = ?d ?P" "disk_of st1 ?P = None"
    using d1 [OF notT] apart by (simp_all add: disk1 moved_def)
  have up: "disk_of st1 q = Some FDir" if "strict_prefix q ?P" for q
  proof -
    have "\<not> prefix ?X q" "\<not> prefix ?P q" "\<not> prefix ?T q"
      using that apart(1) notT by (auto simp: strict_prefix_def intro: prefix_order.trans prefix_order.antisym)
    then show ?thesis using dirs [OF that] d1 [of q] by (simp add: disk1 moved_def)
  qed
  have dest: "resolveOriginal cwd hardRoots row = Inr p"
  proof -
    have "path_resolve (ti_storageRoot row) (strip_slashes (ti_originalPath row)) = p"
      using relativeToRoot_restores [OF mt(4)] assms(4) r(2) by simp
    moreover have "inside p (ti_storageRoot row)" using r(2,3) assms(4) by simp
    ultimately show ?thesis
      using assms(5,8) r(1,2) by (simp add: resolveOriginal_def root_configured_def)
  qed
  obtain st2 where move: "moveRecursive disk_host (ti_trashPath row) p False st1 = (Inr (), st2)"
      "disk_of st2 = moved ?X ?P (disk_of st1)" "ts_rows st2 = ts_rows st1"
    by (rule moveRecursive_diskI [of st1 "ti_trashPath row" p False])
      (use at up exists apart ne down in \<open>auto simp: X P strict_prefix_def\<close>)
  obtain st3 where db: "db_do disk_host (drop_row (ti_id row)) st2 = (True, st3)" "disk_of st3 = disk_of st2"
      "ts_rows st3 = drop_row (ti_id row) (ts_rows st2)" by (rule db_do_disk)
  have "ti_id row \<notin> ti_id ` set rows \<Longrightarrow> find (\<lambda>x. ti_id x = ti_id row) (rows @ [row]) = Some row" for rows
    by (induction rows) auto
  then have found: "find (\<lambda>x. ti_id x = ti_id row) (ts_rows st1) = Some row" using assms(7) mt(7) by simp
  have "pathExists disk_host (ti_trashPath row) st1" "\<not> pathExists disk_host p st1"
    using at exists by (simp_all add: pathExists_def disk_host_def disk_of_def X P)
  then have "restore disk_host cwd hardRoots (ti_id row) False st1 =
      (Inr (path_resolve ''/'' (path_relative cwd (ti_storageRoot row) p)), st3)"
    by (simp add: restore_def found dest move(1) db(1))
  moreover have "ts_rows st3 = ts_rows st"
    using assms(7) by (auto simp: db(3) move(3) mt(7) drop_row_def filter_id_conv image_iff)
  moreover have "disk_of st3 q = ?d q" if "\<not> prefix ?T q" for q
    using moved_back [OF apart, of ?d1] empty d1 [OF that] by (simp add: db(2) move(2) disk1)
  ultimately show ?thesis unfolding T by blast
qed



section \<open>Examples\<close>

definition small_disk :: disk where
  "small_disk q = (if q = [] \<or> q = [''data''] \<or> q = [''data'', ''tv''] then Some FDir
                   else if q = [''data'', ''tv'', ''a.mkv''] then Some (FFile ''x'') else None)"

definition small_state :: "disk_world trash_state" where
  "small_state = \<lparr> ts_rows = [], ts_calls = [], ts_world = \<lparr> dw_disk = small_disk, dw_ids = [''7''] \<rparr> \<rparr>"

definition small_row :: trash_row where
  "small_row = \<lparr> ti_id = ''7'', ti_originalPath = ''/tv'', ti_name = ''tv'', ti_trashPath = ''/data/.ultratorrent-trash/7__tv'',
                 ti_storageRoot = ''/data'', ti_isDirectory = True, ti_deletedAt = 5, ti_deletedById = None \<rparr>"

lemma small_disk_ok: "disk_ok small_disk"
  by (auto simp: disk_ok_def small_disk_def split: if_splits)

theorem restore_undoes_trash_witness:
  "\<exists>shown st2. restore disk_host ''/'' [''/data''] ''7'' False (snd (moveToTrash disk_host ''/'' [''/data''] 5 None ''/data/tv'' small_state)) =
     (Inr shown, st2) \<and> ts_rows st2 = [] \<and> disk_of st2 [''data'', ''tv'', ''a.mkv''] = Some (FFile ''x'')"
proof -
  let ?run = "moveToTrash disk_host ''/'' [''/data''] 5 None ''/data/tv'' small_state"
  have "fst ?run = Inr small_row" by code_simp
  then have run: "?run = (Inr small_row, snd ?run)" by (metis prod.collapse)
  have facts: "disk_segments (ti_trashPath small_row) = [''data'', ''.ultratorrent-trash'', ''7__tv'']" "''/data/tv'' = path_resolve ''/'' ''/data/tv''"
    "CHR 0x00 \<notin> set (ti_originalPath small_row)" "proper_segment (ti_id small_row @ ''__'' @ path_basename ''/data/tv'')"
    "ti_id small_row = ''7''" "disk_segments (trash_dir ''/'' (ti_storageRoot small_row)) = [''data'', ''.ultratorrent-trash'']"
    "\<forall>r\<in>set [''/data'']. list_ex (\<lambda>x. inside (path_resolve ''/'' r) (path_resolve ''/'' x)) [''/data'']"
    by code_simp+
  have st: "disk_of small_state = small_disk" "ts_rows small_state = []" by (simp_all add: disk_of_def small_state_def)
  have "disk_ok (disk_of small_state)" "disk_of small_state (disk_segments (ti_trashPath small_row)) = None"
    "ti_id small_row \<notin> ti_id ` set (ts_rows small_state)"
    using small_disk_ok by (simp_all add: st facts(1)) (simp add: small_disk_def)
  note undo = restore_undoes_trash [OF run this(1,2) facts(2,3,4) this(3) facts(7)]
  have "\<not> prefix [''data'', ''.ultratorrent-trash''] [''data'', ''tv'', ''a.mkv'']"
    "small_disk [''data'', ''tv'', ''a.mkv''] = Some (FFile ''x'')" by (simp_all add: small_disk_def)
  then show ?thesis using undo unfolding facts(5,6) st by metis
qed

theorem listing_agrees_with_sweep_witness:
  "small_row \<notin> set (trash_list 100 0 [small_row]) \<and> small_row \<in> set (trash_list 100 30 [small_row])"
proof -
  have "0 < ti_deletedAt small_row" "ti_deletedAt small_row \<le> 100" "ti_deletedAt small_row \<le> cutoff 100 0"
    "\<not> ti_deletedAt small_row \<le> cutoff 100 30" by code_simp+
  then show ?thesis
    using listing_agrees_with_sweep [of small_row 100 0 "[small_row]"] listing_agrees_with_sweep [of small_row 100 30 "[small_row]"]
    by simp
qed

theorem restore_contained_witness:
  "restore disk_host ''/'' [''/data''] ''7'' False
     \<lparr> ts_rows = [small_row], ts_calls = [], ts_world = \<lparr> dw_disk = (\<lambda>_. Some FDir), dw_ids = [] \<rparr> \<rparr> =
   (Inl (Refused (Conflict ''An item already exists at the original location'')),
    \<lparr> ts_rows = [small_row], ts_calls = [], ts_world = \<lparr> dw_disk = (\<lambda>_. Some FDir), dw_ids = [] \<rparr> \<rparr>)"
proof -
  let ?st = "\<lparr> ts_rows = [small_row], ts_calls = [], ts_world = \<lparr> dw_disk = (\<lambda>_. Some FDir), dw_ids = [] \<rparr> \<rparr>"
  have "resolveOriginal ''/'' [''/data''] small_row = Inr ''/data/tv''" "ti_id small_row = ''7''" by code_simp+
  moreover have "pathExists disk_host p ?st" for p by (simp add: pathExists_def disk_host_def)
  ultimately show ?thesis using restore_contained [of "''7''" ?st "''/''" "[''/data'']" disk_host False] by simp
qed

text \<open>
  Emptying drops every row whatever happened to its payload: a payload that could not be removed stays
  on the disk with nothing that leads to it. The sweep and a purge keep the row.
\<close>

lemma emptied_payload_stays:
  "empty_trash (disk_host\<lparr> hs_run := (\<lambda>c w. (Inl ''EBUSY'', w)) \<rparr>) ''/'' [''/data'']
     \<lparr> ts_rows = [small_row], ts_calls = [], ts_world = w \<rparr> =
   (Inr 1, \<lparr> ts_rows = [], ts_calls = [Remove ''/data/.ultratorrent-trash/7__tv''], ts_world = w \<rparr>)"
proof -
  have "payloadIsRemovable ''/'' [''/data''] small_row" by code_simp
  then show ?thesis
    by (simp add: empty_trash_def remove_payload_def fs_do_def db_do_def disk_host_def small_row_def)
qed

end
