(* ===== verification/Files_Serving.thy ===== *)
theory Files_Serving
  imports Js_Prelude
begin

text \<open>
  Serving and previewing files: \<^verbatim>\<open>files/byte-range.ts\<close> and
  \<^verbatim>\<open>files/preview-text.ts\<close>. A buffer is a list of bytes, each a number below 256; text is
  the list of its UTF-16 code units. The decoders of the platform are parameters.

  The theorems state the window a range request is answered with, and that the test for UTF-8 accepts
  exactly the encodings of scalar values, up to a last character that is cut off.
\<close>

section \<open>Byte ranges\<close>

datatype range_answer = Whole | Window int int | Unsatisfiable

text \<open>\<^verbatim>\<open>Number\<close> of digits is finite below this bound, from which it rounds to infinity.\<close>

definition finite_digits :: "string \<Rightarrow> bool" where
  "finite_digits ds \<longleftrightarrow> digits_val ds < 2 ^ 1024 - 2 ^ 970"

text \<open>The match of \<^verbatim>\<open>/^bytes=(\d*)-(\d*)$/\<close>.\<close>

definition match_range :: "string \<Rightarrow> (string \<times> string) option" where
  "match_range s =
     (if \<not> is_prefix_of ''bytes='' s then None
      else
        (let t = drop 6 s; a = takeWhile is_digit t; r = dropWhile is_digit t in
         case r of
           [] \<Rightarrow> None
         | c # b \<Rightarrow> if c = CHR ''-'' \<and> list_all is_digit b then Some (a, b) else None))"

definition parseByteRange :: "string option \<Rightarrow> int \<Rightarrow> range_answer" where
  "parseByteRange header sz =
     (case header of
        None \<Rightarrow> Whole
      | Some h \<Rightarrow>
          if h = [] then Whole
          else
            (case match_range (trim h) of
               None \<Rightarrow> Whole
             | Some (rawStart, rawEnd) \<Rightarrow>
                 if rawStart = [] \<and> rawEnd = [] then Whole
                 else if sz = 0 then Unsatisfiable
                 else if rawStart = [] then
                   (if \<not> finite_digits rawEnd \<or> digits_val rawEnd = 0 then Unsatisfiable
                    else Window (max 0 (sz - int (digits_val rawEnd))) (sz - 1))
                 else if \<not> finite_digits rawStart \<or> int (digits_val rawStart) \<ge> sz then Unsatisfiable
                 else
                   (let start = int (digits_val rawStart);
                        last = (if rawEnd = [] then sz - 1 else min (int (digits_val rawEnd)) (sz - 1))
                    in if last < start then Unsatisfiable else Window start last)))"

lemma takeWhile_digits: "list_all is_digit a \<Longrightarrow> takeWhile is_digit (a @ CHR ''-'' # r) = a"
  by (induction a) (auto simp: is_digit_def)

lemma dropWhile_digits: "list_all is_digit a \<Longrightarrow> dropWhile is_digit (a @ CHR ''-'' # r) = CHR ''-'' # r"
  by (induction a) (auto simp: is_digit_def)

lemma match_range_digits:
  assumes "list_all is_digit a" "list_all is_digit b"
  shows "match_range (''bytes='' @ a @ ''-'' @ b) = Some (a, b)"
  using assms takeWhile_digits [OF assms(1), of b] dropWhile_digits [OF assms(1), of b] by (simp add: match_range_def)

lemma trim_range:
  assumes "list_all is_digit b"
  shows "trim (''bytes='' @ a @ ''-'' @ b) = ''bytes='' @ a @ ''-'' @ b"
proof -
  have "\<not> is_ws (last (''-'' @ b))" using assms by (cases "b = []") (auto simp: is_ws_def is_digit_def list_all_iff dest!: last_in_set)
  then have "dropWhile is_ws (rev (''bytes='' @ a @ ''-'' @ b)) = rev (''bytes='' @ a @ ''-'' @ b)"
    by (simp add: dropWhile_eq_self_iff hd_append hd_rev) (auto split: if_splits)
  then show ?thesis by (simp add: trim_def is_ws_def)
qed

text \<open>
  A range request is answered with the window it asks for. Any window lies inside the file; a
  request for a first and a last byte gets exactly those, the last one cut at the end of the file; an
  open request runs to the end; a request for a number of last bytes gets that many, or the whole
  file when it has fewer; a request that starts past the end is unsatisfiable.
\<close>

theorem byte_range_window:
  assumes "0 < sz" "sz < 2 ^ 53" "list_all is_digit a" "list_all is_digit b"
  shows "parseByteRange (Some (''bytes='' @ a @ ''-'' @ b)) sz =
    (if a \<noteq> [] \<and> int (digits_val a) < sz \<and> (b = [] \<or> digits_val a \<le> digits_val b) then
       Window (int (digits_val a)) (if b = [] then sz - 1 else min (int (digits_val b)) (sz - 1))
     else if a = [] \<and> b \<noteq> [] \<and> 0 < digits_val b \<and> finite_digits b then Window (max 0 (sz - int (digits_val b))) (sz - 1)
     else if a = [] \<and> b = [] then Whole else Unsatisfiable) \<and>
   (\<forall>s e. parseByteRange header sz = Window s e \<longrightarrow> 0 \<le> s \<and> s \<le> e \<and> e < sz)"
proof -
  have "finite_digits a" if "int (digits_val a) < sz"
  proof -
    have "int (digits_val a) < 2 ^ 53" using that assms(2) by linarith
    then have "digits_val a < 2 ^ 53" by (simp flip: of_nat_power_eq_of_nat_cancel_iff add: of_nat_less_iff [symmetric])
    moreover have "(2 :: nat) ^ 53 \<le> 2 ^ 1024 - 2 ^ 970" by simp
    ultimately show ?thesis by (simp add: finite_digits_def)
  qed
  then have first: "parseByteRange (Some (''bytes='' @ a @ ''-'' @ b)) sz =
    (if a \<noteq> [] \<and> int (digits_val a) < sz \<and> (b = [] \<or> digits_val a \<le> digits_val b) then
       Window (int (digits_val a)) (if b = [] then sz - 1 else min (int (digits_val b)) (sz - 1))
     else if a = [] \<and> b \<noteq> [] \<and> 0 < digits_val b \<and> finite_digits b then Window (max 0 (sz - int (digits_val b))) (sz - 1)
     else if a = [] \<and> b = [] then Whole else Unsatisfiable)"
    using assms(1) match_range_digits [OF assms(3,4)] trim_range [OF assms(4), of a]
    by (auto simp: parseByteRange_def Let_def)
  have "0 \<le> s \<and> s \<le> e \<and> e < sz" if "parseByteRange header sz = Window s e" for s e
    using that assms(1) by (auto simp: parseByteRange_def Let_def split: option.splits if_splits prod.splits)
  then show ?thesis using first by blast
qed

theorem byte_range_window_witness:
  "parseByteRange (Some ''bytes=-500'') 1000 = Window 500 999 \<and> parseByteRange (Some ''bytes=200-5000'') 1000 = Window 200 999"
proof -
  have eval: "digits_val ''500'' = 500" "digits_val ''200'' = 200" "digits_val ''5000'' = 5000" "list_all is_digit ''500''"
    "list_all is_digit ''200''" "list_all is_digit ''5000''" "list_all is_digit []" by code_simp+
  moreover have "finite_digits ''500''" using eval(1) by (simp add: finite_digits_def)
  ultimately show ?thesis
    using byte_range_window [of 1000 "[]" "''500''" None] byte_range_window [of 1000 "''200''" "''5000''" None] by simp
qed


section \<open>Text\<close>

type_synonym bytes = "nat list"

text \<open>The high half of code page 437, as code units.\<close>

definition CP437_HIGH :: "nat list" where
  "CP437_HIGH =
     [0xC7, 0xFC, 0xE9, 0xE2, 0xE4, 0xE0, 0xE5, 0xE7, 0xEA, 0xEB, 0xE8, 0xEF, 0xEE, 0xEC, 0xC4, 0xC5,
      0xC9, 0xE6, 0xC6, 0xF4, 0xF6, 0xF2, 0xFB, 0xF9, 0xFF, 0xD6, 0xDC, 0xA2, 0xA3, 0xA5, 0x20A7, 0x192,
      0xE1, 0xED, 0xF3, 0xFA, 0xF1, 0xD1, 0xAA, 0xBA, 0xBF, 0x2310, 0xAC, 0xBD, 0xBC, 0xA1, 0xAB, 0xBB,
      0x2591, 0x2592, 0x2593, 0x2502, 0x2524, 0x2561, 0x2562, 0x2556, 0x2555, 0x2563, 0x2551, 0x2557, 0x255D, 0x255C, 0x255B, 0x2510,
      0x2514, 0x2534, 0x252C, 0x251C, 0x2500, 0x253C, 0x255E, 0x255F, 0x255A, 0x2554, 0x2569, 0x2566, 0x2560, 0x2550, 0x256C, 0x2567,
      0x2568, 0x2564, 0x2565, 0x2559, 0x2558, 0x2552, 0x2553, 0x256B, 0x256A, 0x2518, 0x250C, 0x2588, 0x2584, 0x258C, 0x2590, 0x2580,
      0x3B1, 0xDF, 0x393, 0x3C0, 0x3A3, 0x3C3, 0xB5, 0x3C4, 0x3A6, 0x398, 0x3A9, 0x3B4, 0x221E, 0x3C6, 0x3B5, 0x2229,
      0x2261, 0xB1, 0x2265, 0x2264, 0x2320, 0x2321, 0xF7, 0x2248, 0xB0, 0x2219, 0xB7, 0x221A, 0x207F, 0xB2, 0x25A0, 0xA0]"

definition decodeCp437 :: "bytes \<Rightarrow> nat list" where
  "decodeCp437 buf = map (\<lambda>b. if b < 0x80 then b else CP437_HIGH ! (b - 0x80)) buf"

text \<open>The number of further bytes a first byte announces, the least value it may stand for and its own bits.\<close>

definition utf8_lead :: "nat \<Rightarrow> (nat \<times> nat \<times> nat) option" where
  "utf8_lead b =
     (if 0xC2 \<le> b \<and> b \<le> 0xDF then Some (1, 0x80, b mod 32)
      else if 0xE0 \<le> b \<and> b \<le> 0xEF then Some (2, 0x800, b mod 16)
      else if 0xF0 \<le> b \<and> b \<le> 0xF4 then Some (3, 0x10000, b mod 8)
      else None)"

definition code_point :: "nat \<Rightarrow> bytes \<Rightarrow> nat" where
  "code_point cp cs = foldl (\<lambda>v c. v * 64 + c mod 64) cp cs"

function isValidUtf8 :: "bytes \<Rightarrow> bool" where
  "isValidUtf8 [] = True"
| "isValidUtf8 (b # r) =
     (if b < 0x80 then isValidUtf8 r
      else (case utf8_lead b of
              None \<Rightarrow> False
            | Some (extra, least, cp) \<Rightarrow>
                if length r < extra then True
                else if list_ex (\<lambda>c. c < 0x80 \<or> c > 0xBF) (take extra r) then False
                else
                  (let v = code_point cp (take extra r) in
                   if v < least then False
                   else if 0xD800 \<le> v \<and> v \<le> 0xDFFF then False
                   else if v > 0x10FFFF then False
                   else isValidUtf8 (drop extra r))))"
  by pat_completeness auto
termination by (relation "measure length") (auto simp: utf8_lead_def split: if_splits)

datatype text_encoding = Enc_utf8 | Enc_cp437 | Enc_latin1 | Enc_utf16le | Enc_utf16be

definition is_high :: "nat \<Rightarrow> bool" where "is_high b \<longleftrightarrow> 0x80 \<le> b"
definition is_box :: "nat \<Rightarrow> bool" where "is_box b \<longleftrightarrow> 0xB0 \<le> b \<and> b \<le> 0xDF"

definition detectEncoding :: "bytes \<Rightarrow> string \<Rightarrow> text_encoding" where
  "detectEncoding buf extension =
     (if take 2 buf = [0xFF, 0xFE] then Enc_utf16le
      else if take 2 buf = [0xFE, 0xFF] then Enc_utf16be
      else if take 3 buf = [0xEF, 0xBB, 0xBF] then Enc_utf8
      else if isValidUtf8 buf then Enc_utf8
      else
        (let boxDrawing = count_if is_box buf; high = count_if is_high buf in
         if high = 0 then Enc_utf8
         else
           (let artRatio = (of_int boxDrawing / of_int high :: rat) in
            if artRatio \<ge> 1 / 2 then Enc_cp437
            else if (extension = ''nfo'' \<or> extension = ''diz'') \<and> artRatio \<ge> 1 / 4 then Enc_cp437 else Enc_latin1)))"

definition stripBom :: "nat list \<Rightarrow> nat list" where
  "stripBom t = (case t of [] \<Rightarrow> [] | u # r \<Rightarrow> if u = 0xFEFF then r else t)"

fun utf16le :: "bytes \<Rightarrow> nat list" where
  "utf16le (a # b # r) = (a + 256 * b) # utf16le r"
| "utf16le _ = []"

fun swap16 :: "bytes \<Rightarrow> bytes option" where
  "swap16 [] = Some []"
| "swap16 [a] = None"
| "swap16 (a # b # r) = map_option (\<lambda>t. b # a # t) (swap16 r)"

text \<open>\<open>utf8\<close> is the decoder of the platform; \<open>None\<close> is a thrown error.\<close>

fun decodeWith :: "(bytes \<Rightarrow> nat list) \<Rightarrow> bytes \<Rightarrow> text_encoding \<Rightarrow> nat list option" where
  "decodeWith utf8 buf Enc_cp437 = Some (decodeCp437 buf)"
| "decodeWith utf8 buf Enc_latin1 = Some (stripBom buf)"
| "decodeWith utf8 buf Enc_utf16le = Some (stripBom (utf16le buf))"
| "decodeWith utf8 buf Enc_utf16be = map_option (\<lambda>b. stripBom (utf16le b)) (swap16 buf)"
| "decodeWith utf8 buf Enc_utf8 = Some (stripBom (utf8 buf))"

definition decodeText ::
  "(bytes \<Rightarrow> nat list) \<Rightarrow> bytes \<Rightarrow> string \<Rightarrow> text_encoding option \<Rightarrow> (nat list \<times> text_encoding \<times> text_encoding) option" where
  "decodeText utf8 buf extension requested =
     (let detected = detectEncoding buf extension;
          encoding = (case requested of None \<Rightarrow> detected | Some e \<Rightarrow> e)
      in map_option (\<lambda>content. (content, encoding, detected)) (decodeWith utf8 buf encoding))"

definition looksBinary :: "bytes \<Rightarrow> bool" where
  "looksBinary buf \<longleftrightarrow> take 2 buf \<noteq> [0xFF, 0xFE] \<and> take 2 buf \<noteq> [0xFE, 0xFF] \<and> 0 \<in> set (take 8192 buf)"


section \<open>UTF-8\<close>

definition scalar :: "nat \<Rightarrow> bool" where
  "scalar v \<longleftrightarrow> v < 0xD800 \<or> (0xE000 \<le> v \<and> v \<le> 0x10FFFF)"

definition utf8_encode :: "nat \<Rightarrow> bytes" where
  "utf8_encode v =
     (if v < 0x80 then [v]
      else if v < 0x800 then [0xC0 + v div 64, 0x80 + v mod 64]
      else if v < 0x10000 then [0xE0 + v div 4096, 0x80 + v div 64 mod 64, 0x80 + v mod 64]
      else [0xF0 + v div 262144, 0x80 + v div 4096 mod 64, 0x80 + v div 64 mod 64, 0x80 + v mod 64])"

text \<open>A last character that the end of the buffer cuts off: a first byte with fewer bytes after it than it announces.\<close>

definition cut_off :: "bytes \<Rightarrow> bool" where
  "cut_off t \<longleftrightarrow> t = [] \<or> (\<exists>extra least cp. utf8_lead (hd t) = Some (extra, least, cp) \<and> length t \<le> extra)"

lemma cont_mod: "(0x80 + x mod 64) mod 64 = x mod (64 :: nat)"
proof -
  have "(0x80 + x mod 64) mod 64 = (x mod 64 + 2 * 64) mod (64 :: nat)" by (simp add: add.commute)
  also have "\<dots> = x mod 64" by (simp only: mod_mult_self1 mod_mod_trivial)
  finally show ?thesis .
qed

lemma cont_ok: "\<not> (0x80 + x mod 64 < (0x80 :: nat)) \<and> \<not> (0x80 + x mod 64 > (0xBF :: nat))"
  using mod_less_divisor [of 64 x] by linarith

lemma split64: "v div 64 * 64 + v mod 64 = (v :: nat)" "v div 4096 * 64 + v div 64 mod 64 = v div 64"
  "v div 262144 * 64 + v div 4096 mod 64 = v div 4096"
proof -
  show "v div 64 * 64 + v mod 64 = v" by simp
  have "v div 4096 = v div 64 div 64" "v div 262144 = v div 4096 div 64" by (simp_all flip: div_mult2_eq)
  then show "v div 4096 * 64 + v div 64 mod 64 = v div 64" "v div 262144 * 64 + v div 4096 mod 64 = v div 4096" by simp_all
qed

text \<open>The bits a first byte keeps of its own: the byte less its mark.\<close>

lemma lead_bits:
  "q < 32 \<Longrightarrow> (q + 6 * 32) mod 32 = (q :: nat)" "q < 16 \<Longrightarrow> (q + 14 * 16) mod 16 = (q :: nat)" "q < 8 \<Longrightarrow> (q + 30 * 8) mod 8 = (q :: nat)"
  by (simp_all only: mod_mult_self1 mod_less)

lemma encode_lead:
  "0x80 \<le> v \<Longrightarrow> v < 0x800 \<Longrightarrow> utf8_lead (0xC0 + v div 64) = Some (1, 0x80, v div 64)"
  "0x800 \<le> v \<Longrightarrow> v < 0x10000 \<Longrightarrow> utf8_lead (0xE0 + v div 4096) = Some (2, 0x800, v div 4096)"
  "0x10000 \<le> v \<Longrightarrow> v \<le> 0x10FFFF \<Longrightarrow> utf8_lead (0xF0 + v div 262144) = Some (3, 0x10000, v div 262144)"
proof -
  show "utf8_lead (0xC0 + v div 64) = Some (1, 0x80, v div 64)" if "0x80 \<le> v" "v < 0x800"
  proof -
    have "2 \<le> v div 64" "v div 64 < 32" using that div_le_mono [of 128 v 64] by (simp_all add: less_mult_imp_div_less)
    then show ?thesis using lead_bits(1) [of "v div 64"] by (simp add: utf8_lead_def add.commute)
  qed
  show "utf8_lead (0xE0 + v div 4096) = Some (2, 0x800, v div 4096)" if "0x800 \<le> v" "v < 0x10000"
  proof -
    have "v div 4096 < 16" using that by (simp add: less_mult_imp_div_less)
    then show ?thesis using lead_bits(2) [of "v div 4096"] by (simp add: utf8_lead_def add.commute)
  qed
  show "utf8_lead (0xF0 + v div 262144) = Some (3, 0x10000, v div 262144)" if "0x10000 \<le> v" "v \<le> 0x10FFFF"
  proof -
    have "v div 262144 < 5" using that by (simp add: less_mult_imp_div_less)
    then show ?thesis using lead_bits(3) [of "v div 262144"] by (simp add: utf8_lead_def add.commute)
  qed
qed

lemma scalar_cases:
  assumes "scalar v"
  obtains "v < 0x80" | "0x80 \<le> v" "v < 0x800" | "0x800 \<le> v" "v < 0x10000" | "0x10000 \<le> v" "v \<le> 0x10FFFF"
proof -
  have "v < 0x80 \<or> 0x80 \<le> v \<and> v < 0x800 \<or> 0x800 \<le> v \<and> v < 0x10000 \<or> 0x10000 \<le> v \<and> v \<le> 0x10FFFF"
    using assms unfolding scalar_def by linarith
  then show thesis using that by blast
qed

text \<open>One step of the reader at a first byte whose further bytes are all there.\<close>

lemma step_cont:
  assumes "utf8_lead b = Some (length cs, least, cp)" "\<forall>c\<in>set cs. 0x80 \<le> c \<and> c \<le> 0xBF"
    "least \<le> code_point cp cs" "scalar (code_point cp cs)"
  shows "isValidUtf8 (b # cs @ r) = isValidUtf8 r"
proof -
  have "\<not> b < 0x80" using assms(1) by (auto simp: utf8_lead_def split: if_splits)
  moreover have "\<not> list_ex (\<lambda>c. c < 0x80 \<or> c > 0xBF) cs" using assms(2) by (fastforce simp: list_ex_iff)
  moreover have "\<not> (0xD800 \<le> code_point cp cs \<and> code_point cp cs \<le> 0xDFFF)" "\<not> code_point cp cs > 0x10FFFF"
    using assms(4) unfolding scalar_def by linarith+
  ultimately show ?thesis using assms(1,3) by (simp add: Let_def) blast
qed

lemma encode_accepted:
  assumes "scalar v"
  shows "isValidUtf8 (utf8_encode v @ r) = isValidUtf8 r"
  using assms
proof (cases rule: scalar_cases)
  case 1
  then show ?thesis by (simp add: utf8_encode_def)
next
  case 2
  let ?cs = "[0x80 + v mod 64]"
  have "code_point (v div 64) ?cs = v" by (simp only: code_point_def foldl.simps cont_mod split64)
  then show ?thesis using assms 2 cont_ok [of v] encode_lead(1) [OF 2]
      step_cont [of "0xC0 + v div 64" ?cs "0x80" "v div 64" r] by (simp add: utf8_encode_def)
next
  case 3
  let ?cs = "[0x80 + v div 64 mod 64, 0x80 + v mod 64]"
  have "code_point (v div 4096) ?cs = v" by (simp only: code_point_def foldl.simps cont_mod split64)
  then show ?thesis using assms 3 cont_ok [of v] cont_ok [of "v div 64"] encode_lead(2) [OF 3]
      step_cont [of "0xE0 + v div 4096" ?cs "0x800" "v div 4096" r] by (simp add: utf8_encode_def)
next
  case 4
  let ?cs = "[0x80 + v div 4096 mod 64, 0x80 + v div 64 mod 64, 0x80 + v mod 64]"
  have "code_point (v div 262144) ?cs = v" by (simp only: code_point_def foldl.simps cont_mod split64)
  then show ?thesis using assms 4 cont_ok [of v] cont_ok [of "v div 64"] cont_ok [of "v div 4096"] encode_lead(3) [OF 4]
      step_cont [of "0xF0 + v div 262144" ?cs "0x10000" "v div 262144" r] by (simp add: utf8_encode_def)
qed

lemma cont_eq:
  assumes "0x80 \<le> c" "c \<le> (0xBF :: nat)"
  shows "0x80 + c mod 64 = c"
proof -
  have "(c - 0x80 + 2 * 64) mod 64 = (c - 0x80) mod 64" by (rule mod_mult_self1)
  then show ?thesis using assms by simp
qed

lemma join64: "m < 64 \<Longrightarrow> (q * 64 + m) div 64 = (q :: nat) \<and> (q * 64 + m) mod 64 = m"
  by simp

lemma room64: "q < 0x400 \<Longrightarrow> m < 64 \<Longrightarrow> q * 64 + m < (0x10000 :: nat)"
  by linarith

lemma div_steps: "v div 4096 = v div 64 div (64 :: nat)" "v div 262144 = v div 64 div 64 div (64 :: nat)"
  by (simp_all flip: div_mult2_eq)

lemma lead_cases:
  assumes "utf8_lead b = Some (extra, least, cp)"
  obtains "extra = 1" "least = 0x80" "b = 0xC0 + cp" "cp < 32"
    | "extra = 2" "least = 0x800" "b = 0xE0 + cp" "cp < 16"
    | "extra = 3" "least = 0x10000" "b = 0xF0 + cp" "cp < 8"
proof -
  have "b mod 32 = b - 0xC0" if "0xC2 \<le> b" "b \<le> 0xDF"
    using that lead_bits(1) [of "b - 0xC0"] by simp
  moreover have "b mod 16 = b - 0xE0" if "0xE0 \<le> b" "b \<le> 0xEF"
    using that lead_bits(2) [of "b - 0xE0"] by simp
  moreover have "b mod 8 = b - 0xF0" if "0xF0 \<le> b" "b \<le> 0xF4"
    using that lead_bits(3) [of "b - 0xF0"] by simp
  ultimately show thesis using assms that by (auto simp: utf8_lead_def split: if_splits)
qed

text \<open>What the reader accepts at a first byte is the encoding of the value it reads there.\<close>

lemma encode_code_point:
  assumes "utf8_lead b = Some (length cs, least, cp)" "\<forall>c\<in>set cs. 0x80 \<le> c \<and> c \<le> 0xBF" "least \<le> code_point cp cs"
  shows "utf8_encode (code_point cp cs) = b # cs"
  using assms(1)
proof (cases rule: lead_cases)
  case 1
  then obtain c where cs: "cs = [c]" by (cases cs) auto
  then have v: "code_point cp cs = cp * 64 + c mod 64" by (simp add: code_point_def)
  have "c mod 64 < 64" by simp
  then have "cp * 64 + c mod 64 < 0x800" using 1(4) by linarith
  then show ?thesis using 1 assms(2,3) cs v cont_eq [of c] by (simp add: utf8_encode_def)
next
  case 2
  then obtain c d where cs: "cs = [c, d]" by (cases cs; cases "tl cs") auto
  then have v: "code_point cp cs = (cp * 64 + c mod 64) * 64 + d mod 64" by (simp add: code_point_def)
  have "c mod 64 < 64" "d mod 64 < 64" by simp_all
  moreover have "cp * 64 + c mod 64 < 0x400" using 2(4) calculation(1) by linarith
  then have "(cp * 64 + c mod 64) * 64 + d mod 64 < 0x10000" using calculation(2) by (rule room64)
  ultimately show ?thesis using 2 assms(2,3) cs v cont_eq [of c] cont_eq [of d]
      join64 [of "d mod 64" "cp * 64 + c mod 64"] join64 [of "c mod 64" cp]
    by (simp add: utf8_encode_def div_steps del: div_mult_self3 div_mult_self4)
next
  case 3
  then obtain c d e where cs: "cs = [c, d, e]" by (cases cs; cases "tl cs"; cases "tl (tl cs)") auto
  then have v: "code_point cp cs = ((cp * 64 + c mod 64) * 64 + d mod 64) * 64 + e mod 64" by (simp add: code_point_def)
  have "c mod 64 < 64" "d mod 64 < 64" "e mod 64 < 64" by simp_all
  then show ?thesis using 3 assms(2,3) cs v cont_eq [of c] cont_eq [of d] cont_eq [of e]
      join64 [of "e mod 64" "(cp * 64 + c mod 64) * 64 + d mod 64"]
      join64 [of "d mod 64" "cp * 64 + c mod 64"] join64 [of "c mod 64" cp]
    by (simp add: utf8_encode_def div_steps)
qed


lemma accepted_step:
  assumes "isValidUtf8 (b # r)"
  obtains "b < 0x80" "isValidUtf8 r"
    | extra least cp where "utf8_lead b = Some (extra, least, cp)" "length r < extra"
    | v r' where "scalar v" "b # r = utf8_encode v @ r'" "isValidUtf8 r'" "length r' < length (b # r)"
proof (cases "b < 0x80")
  case True
  then show thesis using assms that(1) by simp
next
  case False
  then obtain extra least cp where lead: "utf8_lead b = Some (extra, least, cp)"
    using assms by (auto split: option.splits)
  show thesis
  proof (cases "length r < extra")
    case True
    then show thesis using that(2) lead by blast
  next
    case len: False
    let ?cs = "take extra r"
    have ok: "\<not> list_ex (\<lambda>c. c < 0x80 \<or> c > 0xBF) ?cs" "least \<le> code_point cp ?cs"
      "\<not> (0xD800 \<le> code_point cp ?cs \<and> code_point cp ?cs \<le> 0xDFFF)" "\<not> code_point cp ?cs > 0x10FFFF" "isValidUtf8 (drop extra r)"
      using assms False lead len by (auto simp: Let_def split: if_splits)
    have "scalar (code_point cp ?cs)" using ok(3,4) unfolding scalar_def by linarith
    moreover have "\<forall>c\<in>set ?cs. 0x80 \<le> c \<and> c \<le> 0xBF" using ok(1) by (fastforce simp: list_ex_iff)
    moreover have "utf8_lead b = Some (length ?cs, least, cp)" using lead len by simp
    ultimately show thesis using that(3) [of "code_point cp ?cs" "drop extra r"] encode_code_point ok(2,5) by simp
  qed
qed

lemma accepted_encoding:
  "isValidUtf8 buf \<Longrightarrow> \<exists>cps tail. list_all scalar cps \<and> buf = concat (map utf8_encode cps) @ tail \<and> cut_off tail"
proof (induction buf rule: length_induct)
  case (1 buf)
  show ?case
  proof (cases buf)
    case Nil
    then show ?thesis by (auto simp: cut_off_def intro: exI [of _ "[]"])
  next
    case (Cons b r)
    have more: ?thesis if "scalar v" "buf = utf8_encode v @ r'" "isValidUtf8 r'" "length r' < length buf" for v r'
    proof -
      obtain cps tail where "list_all scalar cps" "r' = concat (map utf8_encode cps) @ tail" "cut_off tail"
        using 1(1) \<open>isValidUtf8 r'\<close> \<open>length r' < length buf\<close> by blast
      then show ?thesis using that(1,2) by (intro exI [of _ "v # cps"] exI [of _ tail]) simp
    qed
    from 1(2) Cons have "isValidUtf8 (b # r)" by simp
    then show ?thesis
    proof (cases rule: accepted_step)
      case 1
      then show ?thesis using more [of b r] Cons by (simp add: scalar_def utf8_encode_def)
    next
      case 2
      then show ?thesis using Cons by (intro exI [of _ "[]"] exI [of _ buf]) (auto simp: cut_off_def)
    next
      case 3
      then show ?thesis using more Cons by blast
    qed
  qed
qed

lemma cut_off_accepted: "cut_off tail \<Longrightarrow> isValidUtf8 tail"
  by (cases tail) (auto simp: cut_off_def utf8_lead_def split: if_splits)

text \<open>
  C34. The test for UTF-8 accepts a buffer exactly when it is the encoding of a list of Unicode scalar
  values, possibly with one more character at the end that the end of the buffer cuts off: overlong
  forms, surrogates, values past the last one and stray bytes are all refused.
\<close>

theorem isValidUtf8_exact:
  "isValidUtf8 buf \<longleftrightarrow> (\<exists>cps tail. list_all scalar cps \<and> buf = concat (map utf8_encode cps) @ tail \<and> cut_off tail)"
proof
  show "isValidUtf8 buf" if "\<exists>cps tail. list_all scalar cps \<and> buf = concat (map utf8_encode cps) @ tail \<and> cut_off tail"
  proof -
    from that obtain cps tail where *: "list_all scalar cps" "buf = concat (map utf8_encode cps) @ tail" "cut_off tail" by blast
    have "isValidUtf8 (concat (map utf8_encode cps) @ tail) = isValidUtf8 tail"
      using *(1) by (induction cps) (simp_all add: encode_accepted)
    then show ?thesis using *(2,3) cut_off_accepted by simp
  qed
qed (rule accepted_encoding)

text \<open>
  A buffer whose last byte is a first byte counts as UTF-8 whatever follows it in the file, and so
  does one that ends in a first byte and bytes that cannot follow it.
\<close>

lemma latin1_read_as_utf8: "isValidUtf8 [0x63, 0x61, 0x66, 0xE9] \<and> isValidUtf8 [0xF0, 0x20, 0x20]"
  by (simp add: utf8_lead_def)

lemma odd_utf16be_throws: "decodeText utf8 [0xFE, 0xFF, 0x00] ext None = None"
  by (simp add: decodeText_def detectEncoding_def)

end
