(* ===== verification/Torrents_Sync.thy ===== *)
theory Torrents_Sync
  imports Sched_Classification
begin

text \<open>
  The synchronisation of torrents with the engines and the transfer ledger it feeds:
  \<^verbatim>\<open>torrents/torrent-sync.service.ts\<close>, \<^verbatim>\<open>transfer-ledger/domain/accrual.ts\<close>,
  \<^verbatim>\<open>transfer-ledger/transfer-ledger.service.ts\<close>, \<^verbatim>\<open>domain-events/edge-detector.ts\<close>,
  \<^verbatim>\<open>engine/engine-status.tracker.ts\<close> and \<^verbatim>\<open>engine/engine-torrent.cache.ts\<close>.

  The tables are lists of rows, searched by their unique key; the maps of the services are HOL maps.
  One tick of one engine is \<open>syncEngine\<close>: the answers of the engine are the record
  \<open>engine_answers\<close> and what may go wrong on the way the record \<open>faults\<close> (a failing
  statement, or the process stopping while transitions are handled). A history interleaves ticks of
  several engines with restarts, which keep the tables and lose the memory of the process. Dates are
  the strings they are written as; a byte counter is a finite number. What the sync sends out is
  a list of effects.
\<close>

section \<open>Edges\<close>

type_synonym edge_state = "string \<rightharpoonup> bool"

datatype edge = Rising | Falling

definition observe :: "string \<Rightarrow> bool \<Rightarrow> edge_state \<Rightarrow> edge option \<times> edge_state" where
  "observe key active st =
     (case st key of
        None \<Rightarrow> None
      | Some previous \<Rightarrow> if previous = active then None else Some (if active then Rising else Falling),
      st(key \<mapsto> active))"

definition edge_forget :: "string \<Rightarrow> edge_state \<Rightarrow> edge_state" where
  "edge_forget key st = st(key := None)"

definition retainOnly :: "string list \<Rightarrow> edge_state \<Rightarrow> edge_state" where
  "retainOnly keys st = (\<lambda>k. if k \<in> set keys then st k else None)"


section \<open>Torrents and rows\<close>

record normalized_torrent =
  nt_hash :: string
  nt_name :: string
  nt_state :: torrent_state
  nt_progress :: rat
  nt_size :: rat
  nt_downloaded :: rat
  nt_uploaded :: rat
  nt_ratio :: rat
  nt_downloadRate :: rat
  nt_uploadRate :: rat
  nt_seedsConnected :: int
  nt_seedsTotal :: int
  nt_peersConnected :: int
  nt_label :: "string option"
  nt_savePath :: string
  nt_contentPath :: string
  nt_addedAt :: "string option"
  nt_completedAt :: "string option"

record snapshot =
  sn_engineId :: string
  sn_hash :: string
  sn_name :: string
  sn_state :: torrent_state
  sn_progress :: rat
  sn_size :: int
  sn_downloaded :: int
  sn_uploaded :: int
  sn_ratio :: rat
  sn_downloadRate :: rat
  sn_uploadRate :: rat
  sn_savePath :: string
  sn_label :: "string option"
  sn_addedAt :: "string option"
  sn_completedAt :: "string option"

record ledger_row =
  lg_engineId :: string
  lg_baselineDownloaded :: int
  lg_baselineUploaded :: int
  lg_baselineSource :: "string option"
  lg_baselineAt :: "int option"
  lg_accruedDownloaded :: int
  lg_accruedUploaded :: int
  lg_resetsObserved :: int

record retired_row =
  rt_engineId :: string
  rt_hash :: string
  rt_name :: string
  rt_downloaded :: int
  rt_uploaded :: int
  rt_ratio :: rat
  rt_firstSeenAt :: "string option"
  rt_retiredAt :: int

record sync_db =
  sd_ledger :: "ledger_row list"
  sd_snapshots :: "snapshot list"
  sd_retired :: "retired_row list"

text \<open>\<^verbatim>\<open>upsert\<close> on a unique key: the row found is updated, a missing one is created.\<close>

fun upsert :: "('a \<Rightarrow> bool) \<Rightarrow> 'a \<Rightarrow> ('a \<Rightarrow> 'a) \<Rightarrow> 'a list \<Rightarrow> 'a list" where
  "upsert P new upd [] = [new]"
| "upsert P new upd (r # rs) = (if P r then upd r # rs else r # upsert P new upd rs)"

definition ledger_of :: "string \<Rightarrow> sync_db \<Rightarrow> ledger_row option" where
  "ledger_of e db = find (\<lambda>r. lg_engineId r = e) (sd_ledger db)"

definition snapshot_of :: "string \<Rightarrow> string \<Rightarrow> sync_db \<Rightarrow> snapshot option" where
  "snapshot_of e h db = find (\<lambda>r. sn_engineId r = e \<and> sn_hash r = h) (sd_snapshots db)"


section \<open>Accrual\<close>

record transfer_reading =
  tr_hash :: string
  tr_downloaded :: int
  tr_uploaded :: int

record accrual =
  ac_downloaded :: int
  ac_uploaded :: int
  ac_resets :: int
  ac_firstSightings :: int

definition NO_ACCRUAL :: accrual where
  "NO_ACCRUAL = \<lparr> ac_downloaded = 0, ac_uploaded = 0, ac_resets = 0, ac_firstSightings = 0 \<rparr>"

definition contribution :: "int \<Rightarrow> int \<Rightarrow> int \<times> bool" where
  "contribution prior current = (if current \<ge> prior then (current - prior, False) else (current, True))"

definition accrue_step :: "(string \<Rightarrow> (int \<times> int) option) \<Rightarrow> transfer_reading \<Rightarrow> accrual \<Rightarrow> accrual" where
  "accrue_step prior r a =
     (case prior (tr_hash r) of
        None \<Rightarrow> a\<lparr> ac_firstSightings := ac_firstSightings a + 1 \<rparr>
      | Some (pd, pu) \<Rightarrow>
          (let down = contribution pd (tr_downloaded r); up = contribution pu (tr_uploaded r)
           in a\<lparr> ac_downloaded := ac_downloaded a + fst down, ac_uploaded := ac_uploaded a + fst up,
                 ac_resets := ac_resets a + (if snd down \<or> snd up then 1 else 0) \<rparr>))"

definition accrue :: "transfer_reading list \<Rightarrow> (string \<Rightarrow> (int \<times> int) option) \<Rightarrow> accrual" where
  "accrue readings prior = fold (accrue_step prior) readings NO_ACCRUAL"

definition accrual_isEmpty :: "accrual \<Rightarrow> bool" where
  "accrual_isEmpty a \<longleftrightarrow> ac_downloaded a = 0 \<and> ac_uploaded a = 0 \<and> ac_resets a = 0"

text \<open>Division of big integers truncates; the totals it is applied to are not negative.\<close>

definition shareRatio :: "int \<Rightarrow> int \<Rightarrow> rat" where
  "shareRatio downloaded uploaded =
     (if downloaded \<le> 0 then 0 else of_int (uploaded * 1000000 div downloaded) / 1000000)"


section \<open>The ledger\<close>

record ledger_totals =
  lt_downloaded :: int
  lt_uploaded :: int
  lt_ratio :: rat

definition totals :: "string option \<Rightarrow> sync_db \<Rightarrow> ledger_totals" where
  "totals engineId db =
     (let rows = (case engineId of None \<Rightarrow> sd_ledger db
                  | Some e \<Rightarrow> if e = [] then sd_ledger db else filter (\<lambda>r. lg_engineId r = e) (sd_ledger db));
          downloaded = sum_list (map (\<lambda>r. lg_baselineDownloaded r + lg_accruedDownloaded r) rows);
          uploaded = sum_list (map (\<lambda>r. lg_baselineUploaded r + lg_accruedUploaded r) rows)
      in \<lparr> lt_downloaded = downloaded, lt_uploaded = uploaded, lt_ratio = shareRatio downloaded uploaded \<rparr>)"

text \<open>
  What the engine answers in one tick: \<open>ea_allTime\<close> is absent when the adapter has no such
  method, \<open>ea_seedList\<close> the listing taken for the baseline, \<open>ea_list\<close> and
  \<open>ea_stats\<close> the ones taken for the tick. A call that times out answers with an error.
\<close>

record engine_answers =
  ea_allTime :: "(string + (int \<times> int) option) option"
  ea_seedList :: "string + normalized_torrent list"
  ea_list :: "string + normalized_torrent list"
  ea_stats :: "string + int"

definition seedValues :: "engine_answers \<Rightarrow> (int \<times> int \<times> string) option" where
  "seedValues a =
     (case ea_allTime a of
        Some (Inl err) \<Rightarrow> None
      | Some (Inr (Some (d, u))) \<Rightarrow> Some (d, u, ''engine_alltime'')
      | _ \<Rightarrow>
          (case ea_seedList a of
             Inl err \<Rightarrow> None
           | Inr ts \<Rightarrow> Some (sum_list (map (\<lambda>t. math_round (nt_downloaded t)) ts),
                            sum_list (map (\<lambda>t. math_round (nt_uploaded t)) ts), ''current_torrents'')))"

definition new_ledger_row :: "string \<Rightarrow> ledger_row" where
  "new_ledger_row e =
     \<lparr> lg_engineId = e, lg_baselineDownloaded = 0, lg_baselineUploaded = 0, lg_baselineSource = None,
       lg_baselineAt = None, lg_accruedDownloaded = 0, lg_accruedUploaded = 0, lg_resetsObserved = 0 \<rparr>"

definition set_baseline :: "int \<Rightarrow> int \<times> int \<times> string \<Rightarrow> ledger_row \<Rightarrow> ledger_row" where
  "set_baseline now = (\<lambda>(d, u, src) r.
     r\<lparr> lg_baselineDownloaded := d, lg_baselineUploaded := u, lg_baselineSource := Some src, lg_baselineAt := Some now \<rparr>)"

definition ensureBaseline ::
  "int \<Rightarrow> string \<Rightarrow> engine_answers \<Rightarrow> string set \<Rightarrow> sync_db \<Rightarrow> string set \<times> sync_db" where
  "ensureBaseline now e a baselined db =
     (if e \<in> baselined then (baselined, db)
      else if (case ledger_of e db of None \<Rightarrow> False | Some r \<Rightarrow> lg_baselineAt r \<noteq> None)
        then (insert e baselined, db)
      else (case seedValues a of
              None \<Rightarrow> (baselined, db)
            | Some seed \<Rightarrow>
                (insert e baselined,
                 db\<lparr> sd_ledger := upsert (\<lambda>r. lg_engineId r = e) (set_baseline now seed (new_ledger_row e))
                                    (set_baseline now seed) (sd_ledger db) \<rparr>)))"

definition reading_of :: "normalized_torrent \<Rightarrow> transfer_reading" where
  "reading_of t = \<lparr> tr_hash = nt_hash t, tr_downloaded = math_round (nt_downloaded t),
                    tr_uploaded = math_round (nt_uploaded t) \<rparr>"

definition bank :: "accrual \<Rightarrow> ledger_row \<Rightarrow> ledger_row" where
  "bank a r = r\<lparr> lg_accruedDownloaded := lg_accruedDownloaded r + ac_downloaded a,
                 lg_accruedUploaded := lg_accruedUploaded r + ac_uploaded a,
                 lg_resetsObserved := lg_resetsObserved r + ac_resets a \<rparr>"

definition accrualOperation ::
  "string \<Rightarrow> normalized_torrent list \<Rightarrow> (string \<Rightarrow> (int \<times> int) option) \<Rightarrow> sync_db \<Rightarrow> sync_db" where
  "accrualOperation e torrents prior db =
     (let result = accrue (map reading_of torrents) prior in
      if accrual_isEmpty result then db
      else db\<lparr> sd_ledger := upsert (\<lambda>r. lg_engineId r = e) (bank result (new_ledger_row e)) (bank result) (sd_ledger db) \<rparr>)"

definition archiveRetired :: "int \<Rightarrow> string \<Rightarrow> string list \<Rightarrow> sync_db \<Rightarrow> sync_db" where
  "archiveRetired now e live db =
     (let departing = filter (\<lambda>r. sn_engineId r = e \<and> sn_hash r \<notin> set live) (sd_snapshots db);
          fresh = (\<lambda>d. \<not> list_ex (\<lambda>x. rt_engineId x = e \<and> rt_hash x = sn_hash d \<and> rt_retiredAt x = now) (sd_retired db))
      in db\<lparr> sd_retired := sd_retired db @ map (\<lambda>d. \<lparr> rt_engineId = e, rt_hash = sn_hash d, rt_name = sn_name d,
                 rt_downloaded = sn_downloaded d, rt_uploaded = sn_uploaded d, rt_ratio = sn_ratio d,
                 rt_firstSeenAt = sn_addedAt d, rt_retiredAt = now \<rparr>) (filter fresh departing) \<rparr>)"


section \<open>One tick of one engine\<close>

datatype sync_effect =
  Eff_torrents string "string list"
| Eff_stats string ledger_totals
| Eff_failed string string
| Eff_completed string string
| Eff_automation string string
| Eff_media string string
| Eff_ratio string "(string \<times> rat \<times> rat) list"
| Eff_reconcile string "string list"
| Eff_status string "string option"

record engine_status =
  es_online :: bool
  es_error :: "string option"
  es_at :: int
  es_lastSeenAt :: "int option"
  es_torrentCount :: "nat option"

record sync_state =
  sy_db :: sync_db
  sy_baselined :: "string set"
  sy_errors :: edge_state
  sy_status :: "string \<rightharpoonup> engine_status"
  sy_cache :: "string \<rightharpoonup> int \<times> normalized_torrent list \<times> int"
  sy_log :: "sync_effect list"

definition recordOnline :: "string \<Rightarrow> int \<Rightarrow> nat \<Rightarrow> (string \<rightharpoonup> engine_status) \<Rightarrow> (string \<rightharpoonup> engine_status)" where
  "recordOnline e now n m =
     m(e \<mapsto> \<lparr> es_online = True, es_error = None, es_at = now, es_lastSeenAt = Some now, es_torrentCount = Some n \<rparr>)"

definition recordOffline :: "string \<Rightarrow> int \<Rightarrow> string \<Rightarrow> (string \<rightharpoonup> engine_status) \<Rightarrow> (string \<rightharpoonup> engine_status)" where
  "recordOffline e now err m =
     m(e \<mapsto> \<lparr> es_online = False, es_error = Some err, es_at = now,
              es_lastSeenAt = (case m e of None \<Rightarrow> None | Some p \<Rightarrow> es_lastSeenAt p),
              es_torrentCount = (case m e of None \<Rightarrow> None | Some p \<Rightarrow> es_torrentCount p) \<rparr>)"

text \<open>
  What may go wrong: a statement before or after the baseline is settled (\<open>ft_before\<close>), the
  transaction, archiving (which is best effort), the removal of old snapshots; \<open>ft_stop\<close>
  gives how many torrents are looked at before the process stops.
\<close>

record faults =
  ft_before :: "bool option"
  ft_transaction :: bool
  ft_archive :: bool
  ft_prune :: bool
  ft_stop :: "nat option"

type_synonym prior_map = "string \<Rightarrow> snapshot option"

definition priorSnapshots :: "string \<Rightarrow> normalized_torrent list \<Rightarrow> sync_db \<Rightarrow> prior_map" where
  "priorSnapshots e torrents db =
     (\<lambda>h. if h \<in> nt_hash ` set torrents then snapshot_of e h db else None)"

definition snapshot_created :: "string \<Rightarrow> normalized_torrent \<Rightarrow> snapshot" where
  "snapshot_created e t =
     \<lparr> sn_engineId = e, sn_hash = nt_hash t, sn_name = nt_name t, sn_state = nt_state t, sn_progress = nt_progress t,
       sn_size = math_round (nt_size t), sn_downloaded = math_round (nt_downloaded t),
       sn_uploaded = math_round (nt_uploaded t), sn_ratio = nt_ratio t, sn_downloadRate = nt_downloadRate t,
       sn_uploadRate = nt_uploadRate t, sn_savePath = nt_savePath t, sn_label = nt_label t,
       sn_addedAt = nt_addedAt t, sn_completedAt = nt_completedAt t \<rparr>"

definition snapshot_updated :: "normalized_torrent \<Rightarrow> snapshot \<Rightarrow> snapshot" where
  "snapshot_updated t r =
     r\<lparr> sn_name := nt_name t, sn_state := nt_state t, sn_progress := nt_progress t,
        sn_size := math_round (nt_size t), sn_downloaded := math_round (nt_downloaded t),
        sn_uploaded := math_round (nt_uploaded t), sn_ratio := nt_ratio t, sn_downloadRate := nt_downloadRate t,
        sn_uploadRate := nt_uploadRate t, sn_label := nt_label t, sn_completedAt := nt_completedAt t \<rparr>"

definition snapshot_upsert :: "string \<Rightarrow> normalized_torrent \<Rightarrow> snapshot list \<Rightarrow> snapshot list" where
  "snapshot_upsert e t = upsert (\<lambda>r. sn_engineId r = e \<and> sn_hash r = nt_hash t) (snapshot_created e t) (snapshot_updated t)"

definition counters :: "prior_map \<Rightarrow> string \<Rightarrow> (int \<times> int) option" where
  "counters prior h = map_option (\<lambda>s. (sn_downloaded s, sn_uploaded s)) (prior h)"

definition persistSnapshots ::
  "int \<Rightarrow> faults \<Rightarrow> string \<Rightarrow> normalized_torrent list \<Rightarrow> prior_map \<Rightarrow> sync_db \<Rightarrow> bool \<times> sync_db" where
  "persistSnapshots now ft e torrents prior db =
     (if ft_transaction ft then (False, db)
      else
        (let db1 = accrualOperation e torrents (counters prior) db;
             db2 = db1\<lparr> sd_snapshots := fold (snapshot_upsert e) torrents (sd_snapshots db1) \<rparr>;
             live = map nt_hash torrents;
             db3 = (if ft_archive ft then db2 else archiveRetired now e live db2)
         in if ft_prune ft then (False, db3)
            else (True, db3\<lparr> sd_snapshots := filter (\<lambda>r. \<not> (sn_engineId r = e \<and> sn_hash r \<notin> set live)) (sd_snapshots db3) \<rparr>)))"

text \<open>Whether a torrent crossed to complete, and what handling it sends out.\<close>

definition rising_edge :: "prior_map \<Rightarrow> normalized_torrent \<Rightarrow> bool" where
  "rising_edge prior t \<longleftrightarrow>
     (case prior (nt_hash t) of None \<Rightarrow> False | Some p \<Rightarrow> sn_progress p < 1 \<and> nt_progress t \<ge> 1)"

definition transition ::
  "string \<Rightarrow> prior_map \<Rightarrow> normalized_torrent \<Rightarrow> edge_state \<times> sync_effect list \<Rightarrow> edge_state \<times> sync_effect list" where
  "transition e prior t = (\<lambda>(errors, log).
     case prior (nt_hash t) of
       None \<Rightarrow> (errors, log)
     | Some p \<Rightarrow>
         (let (edge, errors') = observe (nt_hash t) (nt_state t = TS_ERROR) errors
          in (errors', log @ (if edge = Some Rising then [Eff_failed e (nt_hash t)] else []) @
                (if rising_edge prior t
                 then [Eff_completed e (nt_hash t), Eff_automation e (nt_hash t), Eff_media e (nt_hash t)] else []))))"

definition ratio_items :: "prior_map \<Rightarrow> normalized_torrent list \<Rightarrow> (string \<times> rat \<times> rat) list" where
  "ratio_items prior torrents =
     concat (map (\<lambda>t. case prior (nt_hash t) of None \<Rightarrow> [] | Some p \<Rightarrow> [(nt_hash t, nt_ratio t, sn_ratio p)]) torrents)"

definition applyTransitions ::
  "faults \<Rightarrow> string \<Rightarrow> prior_map \<Rightarrow> normalized_torrent list \<Rightarrow> edge_state \<times> sync_effect list
     \<Rightarrow> edge_state \<times> sync_effect list" where
  "applyTransitions ft e prior torrents st =
     (case ft_stop ft of
        Some n \<Rightarrow> fold (transition e prior) (take n torrents) st
      | None \<Rightarrow>
          (let (errors, log) = fold (transition e prior) torrents st
           in (errors, log @ [Eff_ratio e (ratio_items prior torrents),
                 Eff_reconcile e (map nt_hash (filter (\<lambda>t. nt_progress t \<ge> 1 \<and>
                   nt_hash t \<notin> nt_hash ` set (filter (rising_edge prior) torrents)) torrents))])))"

definition offline :: "int \<Rightarrow> string \<Rightarrow> string \<Rightarrow> sync_state \<Rightarrow> sync_state" where
  "offline now e err s =
     s\<lparr> sy_log := sy_log s @ [Eff_status e (Some err)], sy_status := recordOffline e now err (sy_status s) \<rparr>"

definition both :: "engine_answers \<Rightarrow> string + normalized_torrent list \<times> int" where
  "both a = (case ea_list a of Inl err \<Rightarrow> Inl err
             | Inr ts \<Rightarrow> (case ea_stats a of Inl err \<Rightarrow> Inl err | Inr st \<Rightarrow> Inr (ts, st)))"

definition syncEngine :: "int \<Rightarrow> engine_answers \<Rightarrow> faults \<Rightarrow> string \<Rightarrow> sync_state \<Rightarrow> sync_state" where
  "syncEngine now a ft e s =
     (if ft_before ft = Some False then offline now e ''database'' s
      else
        (let (bl, db0) = ensureBaseline now e a (sy_baselined s) (sy_db s);
             s0 = s\<lparr> sy_baselined := bl, sy_db := db0 \<rparr>
         in if ft_before ft \<noteq> None then offline now e ''database'' s0
            else case both a of
              Inl err \<Rightarrow> offline now e err s0
            | Inr (torrents, stats) \<Rightarrow>
                (let s1 = s0\<lparr> sy_log := sy_log s0 @ [Eff_torrents e (map nt_hash torrents), Eff_stats e (totals (Some e) db0)] \<rparr>;
                     prior = priorSnapshots e torrents db0;
                     (ok, db1) = persistSnapshots now ft e torrents prior db0;
                     s2 = s1\<lparr> sy_db := db1 \<rparr>
                 in if \<not> ok then offline now e ''database'' s2
                    else
                      (let (errors, log) = applyTransitions ft e prior torrents (sy_errors s2, sy_log s2);
                           s3 = s2\<lparr> sy_errors := errors, sy_log := log \<rparr>
                       in if ft_stop ft \<noteq> None then s3
                          else s3\<lparr> sy_log := sy_log s3 @ [Eff_status e None],
                                   sy_status := recordOnline e now (length torrents) (sy_status s3),
                                   sy_cache := (sy_cache s3)(e \<mapsto> (now, torrents, stats)) \<rparr>))))"


section \<open>Histories\<close>

datatype sync_event = Tick int string engine_answers faults | Restart

definition restart :: "sync_state \<Rightarrow> sync_state" where
  "restart s =
     s\<lparr> sy_baselined := {}, sy_errors := (\<lambda>_. None), sy_status := (\<lambda>_. None), sy_cache := (\<lambda>_. None) \<rparr>"

fun sync_step :: "sync_event \<Rightarrow> sync_state \<Rightarrow> sync_state" where
  "sync_step (Tick now e a ft) s =
     (let s' = syncEngine now a ft e s in if ft_stop ft = None then s' else restart s')"
| "sync_step Restart s = restart s"

definition sync_run :: "sync_event list \<Rightarrow> sync_state \<Rightarrow> sync_state" where
  "sync_run evs s = fold sync_step evs s"


section \<open>Rows found by key\<close>

lemma find_upsert_same:
  assumes "P new" "\<And>r. P r \<Longrightarrow> P (upd r)"
  shows "find P (upsert P new upd rs) = Some (case find P rs of None \<Rightarrow> new | Some r \<Rightarrow> upd r)"
  using assms by (induction rs) auto

lemma find_upsert_other:
  assumes "\<not> Q new" "\<And>r. P r \<Longrightarrow> \<not> Q r \<and> \<not> Q (upd r)"
  shows "find Q (upsert P new upd rs) = find Q rs"
  using assms by (induction rs) auto

lemma find_filter_keep: "(\<And>r. P r \<Longrightarrow> K r) \<Longrightarrow> find P (filter K rs) = find P rs"
  by (induction rs) auto

lemma find_filter_drop: "(\<And>r. P r \<Longrightarrow> \<not> K r) \<Longrightarrow> find P (filter K rs) = None"
  by (induction rs) auto

lemma set_upsert: "set (upsert P new upd rs) \<subseteq> insert new (set rs \<union> upd ` {r \<in> set rs. P r})"
  by (induction rs) auto

text \<open>A sum over chosen rows grows when every row an upsert touches grows.\<close>

lemma sum_upsert_mono:
  fixes f :: "'a \<Rightarrow> int"
  assumes "0 \<le> f new" "\<And>r. r \<in> set rs \<Longrightarrow> P r \<Longrightarrow> find P rs = Some r \<Longrightarrow> f r \<le> f (upd r) \<and> (Q (upd r) \<longleftrightarrow> Q r)"
  shows "sum_list (map f (filter Q rs)) \<le> sum_list (map f (filter Q (upsert P new upd rs)))"
  using assms by (induction rs) (auto split: if_splits)

lemma sum_by_hash:
  assumes "finite H" "nt_hash ` set ts \<subseteq> H" "distinct (map nt_hash ts)"
  shows "sum_list (map f ts) = (\<Sum>h\<in>H. case find (\<lambda>t. nt_hash t = h) ts of None \<Rightarrow> 0 | Some t \<Rightarrow> (f t :: int))"
  using assms
proof (induction ts)
  case (Cons t ts)
  let ?g = "\<lambda>ts h. case find (\<lambda>t. nt_hash t = h) ts of None \<Rightarrow> 0 | Some t \<Rightarrow> f t"
  have mem: "nt_hash t \<in> H" using Cons.prems by auto
  have none: "find (\<lambda>x. nt_hash x = nt_hash t) ts = None" using Cons.prems by (auto simp: find_None_iff image_iff)
  have "(\<Sum>h\<in>H. ?g (t # ts) h) = ?g (t # ts) (nt_hash t) + (\<Sum>h\<in>H - {nt_hash t}. ?g (t # ts) h)"
    "(\<Sum>h\<in>H. ?g ts h) = ?g ts (nt_hash t) + (\<Sum>h\<in>H - {nt_hash t}. ?g ts h)"
    by (rule sum.remove [OF assms(1) mem])+
  moreover have "(\<Sum>h\<in>H - {nt_hash t}. ?g (t # ts) h) = (\<Sum>h\<in>H - {nt_hash t}. ?g ts h)" by (rule sum.cong) auto
  ultimately show ?case using Cons none by simp
qed simp


section \<open>What is seen of one torrent\<close>

text \<open>
  The ticks of an engine that are persisted show one torrent as a series: present with a value,
  gone, or missed when it was gone but its snapshot could not be removed.
\<close>

datatype 'a seen = Present 'a | Gone | Missed

definition lists_once :: "sync_event list \<Rightarrow> bool" where
  "lists_once evs \<longleftrightarrow>
     (\<forall>ev\<in>set evs. case ev of Restart \<Rightarrow> True
        | Tick now e a ft \<Rightarrow> (case both a of Inl err \<Rightarrow> True | Inr (ts, st) \<Rightarrow> distinct (map nt_hash ts)))"

fun observed :: "(normalized_torrent \<Rightarrow> 'a) \<Rightarrow> string \<Rightarrow> string \<Rightarrow> sync_event \<Rightarrow> 'a seen list" where
  "observed f e h Restart = []"
| "observed f e h (Tick now e' a ft) =
     (if e' \<noteq> e \<or> ft_before ft \<noteq> None \<or> ft_transaction ft then []
      else (case both a of
              Inl err \<Rightarrow> []
            | Inr (ts, st) \<Rightarrow> (case find (\<lambda>t. nt_hash t = h) ts of
                                 Some t \<Rightarrow> [Present (f t)]
                               | None \<Rightarrow> [if ft_prune ft then Missed else Gone])))"

definition series :: "(normalized_torrent \<Rightarrow> 'a) \<Rightarrow> string \<Rightarrow> string \<Rightarrow> sync_event list \<Rightarrow> 'a seen list" where
  "series f e h evs = concat (map (observed f e h) evs)"

fun last_seen :: "'a option \<Rightarrow> 'a seen list \<Rightarrow> 'a option" where
  "last_seen p [] = p"
| "last_seen p (Present v # r) = last_seen (Some v) r"
| "last_seen p (Gone # r) = last_seen None r"
| "last_seen p (Missed # r) = last_seen p r"

text \<open>The bytes a torrent moves by its series: a counter that went back counts from zero.\<close>

fun flow :: "int option \<Rightarrow> int seen list \<Rightarrow> int" where
  "flow p [] = 0"
| "flow None (Present v # r) = flow (Some v) r"
| "flow (Some p) (Present v # r) = (if p \<le> v then v - p else v) + flow (Some v) r"
| "flow p (Gone # r) = flow None r"
| "flow p (Missed # r) = flow p r"

fun crossings :: "rat option \<Rightarrow> rat seen list \<Rightarrow> nat" where
  "crossings p [] = 0"
| "crossings None (Present v # r) = crossings (Some v) r"
| "crossings (Some p) (Present v # r) = (if p < 1 \<and> v \<ge> 1 then 1 else 0) + crossings (Some v) r"
| "crossings p (Gone # r) = crossings None r"
| "crossings p (Missed # r) = crossings p r"

lemma last_seen_append: "last_seen p (xs @ ys) = last_seen (last_seen p xs) ys"
  by (induction p xs rule: last_seen.induct) auto

lemma flow_append: "flow p (xs @ ys) = flow p xs + flow (last_seen p xs) ys"
  by (induction p xs rule: flow.induct) auto

lemma crossings_append: "crossings p (xs @ ys) = crossings p xs + crossings (last_seen p xs) ys"
  by (induction p xs rule: crossings.induct) auto

lemma flow_rising:
  assumes "sorted (p # vs)"
  shows "flow (Some p) (map Present vs) = last (p # vs) - p"
  using assms by (induction vs arbitrary: p) auto


section \<open>Frame of a tick\<close>

lemma ensureBaseline_snapshots [simp]: "sd_snapshots (snd (ensureBaseline now e a bl db)) = sd_snapshots db"
  by (auto simp: ensureBaseline_def split: option.splits)

lemma accrualOperation_snapshots [simp]: "sd_snapshots (accrualOperation e ts prior db) = sd_snapshots db"
  by (simp add: accrualOperation_def Let_def)

lemma archiveRetired_tables [simp]:
  "sd_snapshots (archiveRetired now e live db) = sd_snapshots db" "sd_ledger (archiveRetired now e live db) = sd_ledger db"
  by (simp_all add: archiveRetired_def Let_def)

definition settled_db :: "int \<Rightarrow> string \<Rightarrow> engine_answers \<Rightarrow> sync_state \<Rightarrow> sync_db" where
  "settled_db now e a s = snd (ensureBaseline now e a (sy_baselined s) (sy_db s))"

definition persisted :: "int \<Rightarrow> string \<Rightarrow> engine_answers \<Rightarrow> faults \<Rightarrow> normalized_torrent list \<Rightarrow> sync_state \<Rightarrow> bool \<times> sync_db" where
  "persisted now e a ft ts s =
     persistSnapshots now ft e ts (priorSnapshots e ts (settled_db now e a s)) (settled_db now e a s)"

lemma syncEngine_db:
  "sy_db (syncEngine now a ft e s) =
     (if ft_before ft = Some False then sy_db s
      else if ft_before ft \<noteq> None then settled_db now e a s
      else case both a of Inl err \<Rightarrow> settled_db now e a s | Inr (ts, st) \<Rightarrow> snd (persisted now e a ft ts s))"
  by (auto simp: syncEngine_def offline_def settled_db_def persisted_def Let_def split: prod.splits sum.splits)

lemma restart_simps [simp]: "sy_db (restart s) = sy_db s" "sy_log (restart s) = sy_log s"
  by (simp_all add: restart_def)

lemma sync_step_db [simp]:
  "sy_db (sync_step (Tick now e a ft) s) = sy_db (syncEngine now a ft e s)" "sy_db (sync_step Restart s) = sy_db s"
  by (simp_all add: Let_def)

declare sync_step.simps [simp del]

lemma sync_run_Cons: "sync_run (ev # evs) s = sync_run evs (sync_step ev s)"
  by (simp add: sync_run_def)

lemma snapshot_of_settled [simp]: "snapshot_of e' h (settled_db now e a s) = snapshot_of e' h (sy_db s)"
  by (simp add: snapshot_of_def settled_db_def)

lemma fold_upsert_other:
  "nt_hash ` set ts \<inter> {h} = {} \<or> e' \<noteq> e \<Longrightarrow>
   find (\<lambda>r. sn_engineId r = e' \<and> sn_hash r = h) (fold (snapshot_upsert e) ts rows) =
   find (\<lambda>r. sn_engineId r = e' \<and> sn_hash r = h) rows"
proof (induction ts arbitrary: rows)
  case (Cons t ts)
  have "find (\<lambda>r. sn_engineId r = e' \<and> sn_hash r = h) (snapshot_upsert e t rows) =
        find (\<lambda>r. sn_engineId r = e' \<and> sn_hash r = h) rows"
    unfolding snapshot_upsert_def using Cons.prems
    by (intro find_upsert_other) (auto simp: snapshot_created_def snapshot_updated_def)
  then show ?case using Cons by auto
qed simp


lemma find_persisted:
  assumes "\<not> ft_transaction ft"
  shows "snapshot_of e' h (snd (persistSnapshots now ft e ts prior db)) =
     (if e' = e \<and> h \<notin> nt_hash ` set ts \<and> \<not> ft_prune ft then None
      else find (\<lambda>r. sn_engineId r = e' \<and> sn_hash r = h) (fold (snapshot_upsert e) ts (sd_snapshots db)))"
  using assms
  by (auto simp: persistSnapshots_def snapshot_of_def Let_def intro!: find_filter_keep find_filter_drop)

locale tracked =
  fixes cur :: "normalized_torrent \<Rightarrow> 'a" and kept :: "snapshot \<Rightarrow> 'a"
  assumes kept_created: "kept (snapshot_created e t) = cur t"
    and kept_updated: "kept (snapshot_updated t r) = cur t"
begin

definition level :: "string \<Rightarrow> string \<Rightarrow> sync_db \<Rightarrow> 'a option" where
  "level e h db = map_option kept (snapshot_of e h db)"

lemma fold_upsert_kept:
  "distinct (map nt_hash ts) \<Longrightarrow> find (\<lambda>t. nt_hash t = h) ts = Some t \<Longrightarrow>
   map_option kept (find (\<lambda>r. sn_engineId r = e \<and> sn_hash r = h) (fold (snapshot_upsert e) ts rows)) = Some (cur t)"
proof (induction ts arbitrary: rows)
  case (Cons x ts)
  show ?case
  proof (cases "nt_hash x = h")
    case True
    let ?P = "\<lambda>r. sn_engineId r = e \<and> sn_hash r = h"
    have "find ?P (snapshot_upsert e x rows) =
        Some (case find ?P rows of None \<Rightarrow> snapshot_created e x | Some r \<Rightarrow> snapshot_updated x r)"
      unfolding snapshot_upsert_def True
      by (rule find_upsert_same) (auto simp: True snapshot_created_def snapshot_updated_def)
    moreover have "nt_hash ` set ts \<inter> {h} = {}" using Cons.prems(1) True by auto
    ultimately show ?thesis using Cons.prems True
      by (simp add: fold_upsert_other kept_created kept_updated split: option.split)
  next
    case False
    then show ?thesis using Cons by auto
  qed
qed simp

lemma level_step:
  assumes "lists_once [ev]"
  shows "level e h (sy_db (sync_step ev s)) = last_seen (level e h (sy_db s)) (observed cur e h ev)"
proof (cases ev)
  case (Tick now e' a ft)
  show ?thesis
  proof (cases "ft_before ft = None \<and> \<not> ft_transaction ft \<and> e' = e \<and> (\<exists>r. both a = Inr r)")
    case True
    then obtain ts st where b: "both a = Inr (ts, st)" "ft_before ft = None" "\<not> ft_transaction ft" "e' = e" by auto
    have once: "distinct (map nt_hash ts)" using assms b(1) by (simp add: lists_once_def Tick)
    have snaps: "find (\<lambda>r. sn_engineId r = e \<and> sn_hash r = h) (sd_snapshots (settled_db now e a s)) = snapshot_of e h (sy_db s)"
      by (simp add: settled_db_def snapshot_of_def)
    show ?thesis
    proof (cases "find (\<lambda>t. nt_hash t = h) ts")
      case None
      then have "nt_hash ` set ts \<inter> {h} = {}" by (auto simp: find_None_iff)
      then show ?thesis using b None snaps
        by (auto simp: Tick level_def syncEngine_db persisted_def find_persisted fold_upsert_other)
    next
      case (Some t)
      then have "h \<in> nt_hash ` set ts" by (auto simp: find_Some_iff)
      then show ?thesis using b Some fold_upsert_kept [OF once Some]
        by (simp add: Tick level_def syncEngine_db persisted_def find_persisted)
    qed
  next
    case False
    then have "snapshot_of e h (sy_db (syncEngine now a ft e' s)) = snapshot_of e h (sy_db s)"
      by (cases "ft_transaction ft")
        (auto simp: syncEngine_db persisted_def find_persisted fold_upsert_other settled_db_def split: sum.splits,
         auto simp: snapshot_of_def persistSnapshots_def)
    then show ?thesis using False by (auto simp: Tick level_def split: sum.splits prod.splits)
  qed
qed simp

lemma level_run:
  "lists_once evs \<Longrightarrow> level e h (sy_db (sync_run evs s)) = last_seen (level e h (sy_db s)) (series cur e h evs)"
proof (induction evs arbitrary: s)
  case (Cons ev evs)
  then have "lists_once [ev]" "lists_once evs" by (simp_all add: lists_once_def)
  then show ?case using Cons.IH by (simp add: sync_run_Cons level_step series_def last_seen_append)
qed (simp add: sync_run_def series_def)

end


section \<open>Conservation\<close>

text \<open>
  What the two byte counters have in common: their reading, the value in the snapshot, the column of
  the ledger and the amount of an accrual.
\<close>

lemma engineId_simps:
  "lg_engineId (new_ledger_row e) = e" "lg_engineId (bank a r) = lg_engineId r"
  "lg_engineId (set_baseline now sd r) = lg_engineId r"
  by (simp_all add: new_ledger_row_def bank_def set_baseline_def split: prod.split)

locale counter = tracked cur kept
  for cur :: "normalized_torrent \<Rightarrow> int" and kept :: "snapshot \<Rightarrow> int" +
  fixes accrued :: "ledger_row \<Rightarrow> int" and base :: "ledger_row \<Rightarrow> int" and amount :: "accrual \<Rightarrow> int"
    and seed :: "int \<times> int \<times> string \<Rightarrow> int"
  assumes amount_none: "amount NO_ACCRUAL = 0"
    and amount_step: "amount (accrue_step (counters prior) (reading_of t) a) =
      amount a + (case prior (nt_hash t) of None \<Rightarrow> 0 | Some p \<Rightarrow> fst (contribution (kept p) (cur t)))"
    and amount_empty: "accrual_isEmpty a \<Longrightarrow> amount a = 0"
    and accrued_bank: "accrued (bank a r) = accrued r + amount a"
    and base_bank: "base (bank a r) = base r"
    and accrued_baseline: "accrued (set_baseline now sd r) = accrued r"
    and base_baseline: "base (set_baseline now sd r) = seed sd"
    and new_row: "accrued (new_ledger_row e) = 0" "base (new_ledger_row e) = 0"
begin

definition banked :: "string \<Rightarrow> sync_db \<Rightarrow> int" where
  "banked e db = (case ledger_of e db of None \<Rightarrow> 0 | Some r \<Rightarrow> accrued r)"

definition gain :: "prior_map \<Rightarrow> normalized_torrent \<Rightarrow> int" where
  "gain prior t = (case prior (nt_hash t) of None \<Rightarrow> 0 | Some p \<Rightarrow> fst (contribution (kept p) (cur t)))"

lemma amount_accrue: "amount (accrue (map reading_of ts) (counters prior)) = sum_list (map (gain prior) ts)"
proof -
  have "amount (fold (accrue_step (counters prior)) (map reading_of ts) a) = amount a + sum_list (map (gain prior) ts)" for a
    by (induction ts arbitrary: a) (simp_all add: amount_step gain_def)
  then show ?thesis by (simp add: accrue_def amount_none)
qed

lemma banked_upsert:
  assumes "lg_engineId new = e" "\<And>r. lg_engineId (upd r) = lg_engineId r"
  shows "banked e' (db\<lparr> sd_ledger := upsert (\<lambda>r. lg_engineId r = e) new upd (sd_ledger db) \<rparr>) =
     (if e' = e then (case ledger_of e db of None \<Rightarrow> accrued new | Some r \<Rightarrow> accrued (upd r)) else banked e' db)"
proof (cases "e' = e")
  case True
  then show ?thesis using assms by (simp add: banked_def ledger_of_def find_upsert_same split: option.split)
next
  case False
  then have "find (\<lambda>r. lg_engineId r = e') (upsert (\<lambda>r. lg_engineId r = e) new upd (sd_ledger db)) =
      find (\<lambda>r. lg_engineId r = e') (sd_ledger db)"
    using assms by (intro find_upsert_other) auto
  then show ?thesis using False by (simp add: banked_def ledger_of_def)
qed

lemma banked_settled [simp]: "banked e' (settled_db now e a s) = banked e' (sy_db s)"
  by (auto simp: settled_db_def ensureBaseline_def banked_upsert engineId_simps accrued_baseline new_row
      banked_def [of e "sy_db s"] split: option.split)

lemma banked_accrual:
  "banked e' (accrualOperation e ts (counters prior) db) =
     banked e' db + (if e' = e then sum_list (map (gain prior) ts) else 0)"
  using amount_empty [of "accrue (map reading_of ts) (counters prior)"]
  by (auto simp: accrualOperation_def Let_def banked_upsert engineId_simps accrued_bank new_row amount_accrue
      banked_def [of e db] split: option.split)

lemma banked_persist:
  "banked e' (snd (persistSnapshots now ft e ts prior db)) =
     banked e' db + (if e' = e \<and> \<not> ft_transaction ft then sum_list (map (gain prior) ts) else 0)"
proof -
  have "banked x (db' \<lparr> sd_snapshots := rows \<rparr>) = banked x db'" for x db' rows by (simp add: banked_def ledger_of_def)
  moreover have "banked x (archiveRetired now e live db') = banked x db'" for x live db'
    by (simp add: banked_def ledger_of_def)
  ultimately show ?thesis by (simp add: persistSnapshots_def Let_def banked_accrual)
qed

lemma gain_flow:
  assumes "find (\<lambda>t. nt_hash t = h) ts = Some t"
  shows "gain (priorSnapshots e ts db) t = flow (level e h db) [Present (cur t)]"
proof -
  have "nt_hash t = h" "t \<in> set ts" using assms by (auto simp: find_Some_iff)
  then show ?thesis by (auto simp: gain_def priorSnapshots_def level_def contribution_def split: option.split)
qed

lemma banked_step:
  assumes "lists_once [ev]" "finite H"
    and "\<And>now a ft ts st. ev = Tick now e a ft \<Longrightarrow> both a = Inr (ts, st) \<Longrightarrow> nt_hash ` set ts \<subseteq> H"
  shows "banked e (sy_db (sync_step ev s)) =
    banked e (sy_db s) + (\<Sum>h\<in>H. flow (level e h (sy_db s)) (observed cur e h ev))"
proof (cases ev)
  case (Tick now e' a ft)
  show ?thesis
  proof (cases "ft_before ft = None \<and> \<not> ft_transaction ft \<and> e' = e \<and> (\<exists>r. both a = Inr r)")
    case True
    then obtain ts st where b: "both a = Inr (ts, st)" "ft_before ft = None" "\<not> ft_transaction ft" "e' = e" by auto
    have once: "distinct (map nt_hash ts)" "nt_hash ` set ts \<subseteq> H" using assms b by (simp_all add: lists_once_def Tick)
    let ?prior = "priorSnapshots e ts (settled_db now e a s)"
    have lvl: "level e h (settled_db now e a s) = level e h (sy_db s)" for h by (simp add: level_def)
    have "sum_list (map (gain ?prior) ts) = (\<Sum>h\<in>H. flow (level e h (sy_db s)) (observed cur e h ev))"
      unfolding sum_by_hash [OF assms(2) once(2,1)]
      by (rule sum.cong) (auto simp: Tick b gain_flow lvl split: option.split)
    then show ?thesis using b by (simp add: Tick syncEngine_db persisted_def banked_persist)
  next
    case False
    then have "observed cur e h ev = []" for h by (auto simp: Tick split: sum.splits)
    moreover have "banked e (sy_db (syncEngine now a ft e' s)) = banked e (sy_db s)"
      using False by (auto simp: syncEngine_db persisted_def banked_persist split: sum.split)
    ultimately show ?thesis by (simp add: Tick)
  qed
qed simp

lemma banked_run:
  assumes "finite H"
  shows "lists_once evs \<Longrightarrow> (\<And>now a ft ts st. Tick now e a ft \<in> set evs \<Longrightarrow> both a = Inr (ts, st) \<Longrightarrow> nt_hash ` set ts \<subseteq> H) \<Longrightarrow>
    banked e (sy_db (sync_run evs s)) = banked e (sy_db s) + (\<Sum>h\<in>H. flow (level e h (sy_db s)) (series cur e h evs))"
proof (induction evs arbitrary: s)
  case (Cons ev evs)
  have once: "lists_once [ev]" "lists_once evs" using Cons.prems(1) by (simp_all add: lists_once_def)
  have sub: "ev = Tick now e a ft \<Longrightarrow> both a = Inr (ts, st) \<Longrightarrow> nt_hash ` set ts \<subseteq> H" for now a ft ts st
    using Cons.prems(2) [of now a ft ts st] by simp
  have "banked e (sy_db (sync_run evs (sync_step ev s))) = banked e (sy_db (sync_step ev s)) +
      (\<Sum>h\<in>H. flow (level e h (sy_db (sync_step ev s))) (series cur e h evs))"
    by (rule Cons.IH [OF once(2)]) (rule Cons.prems(2), auto)
  moreover have "banked e (sy_db (sync_step ev s)) =
      banked e (sy_db s) + (\<Sum>h\<in>H. flow (level e h (sy_db s)) (observed cur e h ev))"
    by (rule banked_step [OF once(1) assms sub])
  ultimately show ?case
    by (simp add: sync_run_Cons series_def flow_append level_step [OF once(1)] sum.distrib)
qed (simp add: sync_run_def series_def)

end



section \<open>The totals never go down\<close>

definition answers_ok :: "engine_answers \<Rightarrow> bool" where
  "answers_ok a \<longleftrightarrow>
     (case ea_allTime a of Some (Inr (Some (d, u))) \<Rightarrow> 0 \<le> d \<and> 0 \<le> u | _ \<Rightarrow> True) \<and>
     (case ea_seedList a of Inl err \<Rightarrow> True | Inr ts \<Rightarrow> list_all (\<lambda>t. 0 \<le> nt_downloaded t \<and> 0 \<le> nt_uploaded t) ts) \<and>
     (case ea_list a of Inl err \<Rightarrow> True | Inr ts \<Rightarrow> list_all (\<lambda>t. 0 \<le> nt_downloaded t \<and> 0 \<le> nt_uploaded t) ts)"

definition counts_ok :: "sync_event list \<Rightarrow> bool" where
  "counts_ok evs \<longleftrightarrow> (\<forall>ev\<in>set evs. case ev of Restart \<Rightarrow> True | Tick now e a ft \<Rightarrow> answers_ok a)"

definition ledger_ok :: "sync_db \<Rightarrow> bool" where
  "ledger_ok db \<longleftrightarrow>
     (\<forall>r\<in>set (sd_ledger db). lg_baselineAt r = None \<longrightarrow> lg_baselineDownloaded r = 0 \<and> lg_baselineUploaded r = 0)"

lemma both_listed: "both a = Inr (ts, st) \<Longrightarrow> ea_list a = Inr ts"
  by (auto simp: both_def split: sum.splits)

lemma seedValues_nonneg: "answers_ok a \<Longrightarrow> seedValues a = Some sd \<Longrightarrow> 0 \<le> fst sd \<and> 0 \<le> fst (snd sd)"
  by (auto simp: answers_ok_def seedValues_def list_all_iff math_round_nonneg intro!: sum_list_nonneg
      split: option.splits sum.splits)

lemma ledger_ok_step:
  assumes "ledger_ok (sy_db s)"
  shows "ledger_ok (sy_db (sync_step ev s))"
proof -
  have up: "ledger_ok (db\<lparr> sd_ledger := upsert P new upd (sd_ledger db) \<rparr>)"
    if "ledger_ok db" "ledger_ok (db\<lparr> sd_ledger := [new] \<rparr>)" "\<And>r. ledger_ok (db\<lparr> sd_ledger := [r] \<rparr>) \<Longrightarrow> ledger_ok (db\<lparr> sd_ledger := [upd r] \<rparr>)"
    for db P new upd
    using that set_upsert [of P new upd "sd_ledger db"] by (auto simp: ledger_ok_def)
  have acc: "ledger_ok (accrualOperation e ts prior db)" if "ledger_ok db" for e ts prior db
    using that by (auto simp: accrualOperation_def Let_def intro!: up) (auto simp: ledger_ok_def bank_def new_ledger_row_def)
  have settled: "ledger_ok (settled_db now e a s)" for now e a
    using assms by (auto simp: settled_db_def ensureBaseline_def intro!: up split: option.split)
      (auto simp: ledger_ok_def set_baseline_def)
  have "ledger_ok (snd (persistSnapshots now ft e ts prior db))" if "ledger_ok db" for now ft e ts prior db
    using acc [OF that, of e ts "counters prior"] that by (auto simp: persistSnapshots_def Let_def ledger_ok_def)
  then show ?thesis using assms settled by (cases ev) (auto simp: syncEngine_db persisted_def split: sum.split)
qed

context counter
begin

definition total :: "(string \<Rightarrow> bool) \<Rightarrow> sync_db \<Rightarrow> int" where
  "total Q db = sum_list (map (\<lambda>r. base r + accrued r) (filter (\<lambda>r. Q (lg_engineId r)) (sd_ledger db)))"

lemma total_upsert:
  assumes "0 \<le> base new + accrued new"
    "\<And>r. ledger_of e db = Some r \<Longrightarrow> base r + accrued r \<le> base (upd r) + accrued (upd r) \<and> lg_engineId (upd r) = lg_engineId r"
  shows "total Q db \<le> total Q (db\<lparr> sd_ledger := upsert (\<lambda>r. lg_engineId r = e) new upd (sd_ledger db) \<rparr>)"
  using assms unfolding total_def by (simp add: ledger_of_def) (intro sum_upsert_mono; auto)

lemma total_settled:
  assumes "\<And>r. r \<in> set (sd_ledger (sy_db s)) \<Longrightarrow> lg_baselineAt r = None \<Longrightarrow> base r = 0"
    and "\<And>sd. seedValues a = Some sd \<Longrightarrow> 0 \<le> seed sd"
  shows "total Q (sy_db s) \<le> total Q (settled_db now e a s)"
proof -
  have "r \<in> set (sd_ledger (sy_db s))" if "ledger_of e (sy_db s) = Some r" for r
    using that by (auto simp: ledger_of_def find_Some_iff)
  then show ?thesis
    using assms
    by (auto simp: settled_db_def ensureBaseline_def accrued_baseline base_baseline engineId_simps new_row
        intro!: total_upsert split: option.split)
qed

lemma total_persist:
  assumes "\<And>t. t \<in> set ts \<Longrightarrow> 0 \<le> cur t"
  shows "total Q db \<le> total Q (snd (persistSnapshots now ft e ts prior db))"
proof -
  have "0 \<le> gain prior t" if "t \<in> set ts" for t
    using assms [OF that] by (auto simp: gain_def contribution_def split: option.split)
  then have "0 \<le> amount (accrue (map reading_of ts) (counters prior))"
    unfolding amount_accrue by (auto intro!: sum_list_nonneg)
  then have "total Q db \<le> total Q (accrualOperation e ts (counters prior) db)"
    by (auto simp: accrualOperation_def Let_def accrued_bank base_bank new_row engineId_simps intro!: total_upsert)
  moreover have "total Q (db'\<lparr> sd_snapshots := rows \<rparr>) = total Q db'"
    "total Q (archiveRetired now e live db') = total Q db'" for db' rows live
    by (simp_all add: total_def)
  ultimately show ?thesis by (simp add: persistSnapshots_def Let_def)
qed

end

interpretation down: counter "\<lambda>t. math_round (nt_downloaded t)" sn_downloaded lg_accruedDownloaded lg_baselineDownloaded
  ac_downloaded fst
  by unfold_locales
    (auto simp: snapshot_created_def snapshot_updated_def NO_ACCRUAL_def accrue_step_def counters_def reading_of_def
      accrual_isEmpty_def bank_def set_baseline_def new_ledger_row_def Let_def split: option.split prod.split)

interpretation up: counter "\<lambda>t. math_round (nt_uploaded t)" sn_uploaded lg_accruedUploaded lg_baselineUploaded
  ac_uploaded "\<lambda>sd. fst (snd sd)"
  by unfold_locales
    (auto simp: snapshot_created_def snapshot_updated_def NO_ACCRUAL_def accrue_step_def counters_def reading_of_def
      accrual_isEmpty_def bank_def set_baseline_def new_ledger_row_def Let_def split: option.split prod.split)

interpretation progress: tracked nt_progress sn_progress
  by unfold_locales (simp_all add: snapshot_created_def snapshot_updated_def)

definition listed_hashes :: "engine_answers \<Rightarrow> string list" where
  "listed_hashes a = (case both a of Inl err \<Rightarrow> [] | Inr (ts, st) \<Rightarrow> map nt_hash ts)"

fun listed :: "string \<Rightarrow> sync_event list \<Rightarrow> string list" where
  "listed e [] = []"
| "listed e (Restart # evs) = listed e evs"
| "listed e (Tick now e' a ft # evs) =
     (if e' = e then listed_hashes a else []) @ listed e evs"

lemma listed_covers: "Tick now e a ft \<in> set evs \<Longrightarrow> both a = Inr (ts, st) \<Longrightarrow> nt_hash ` set ts \<subseteq> set (listed e evs)"
proof (induction evs)
  case (Cons ev evs)
  then show ?case by (cases ev) (auto simp: listed_hashes_def)
qed simp

definition accrued_of :: "(ledger_row \<Rightarrow> int) \<Rightarrow> string \<Rightarrow> sync_db \<Rightarrow> int" where
  "accrued_of f e db = (case ledger_of e db of None \<Rightarrow> 0 | Some r \<Rightarrow> f r)"

text \<open>
  C24. No byte is lost or counted twice. Over any history of ticks of any engines, with failing
  statements and restarts in between, what the ledger has accrued for an engine grows by exactly what
  each of its torrents moved by the readings that were persisted: the differences of its counter, a
  counter that went back counting from zero, and nothing for a first sight. Removing a torrent takes
  nothing back.
\<close>

theorem ledger_conserves:
  assumes "lists_once evs"
  shows "accrued_of lg_accruedDownloaded e (sy_db (sync_run evs s)) = accrued_of lg_accruedDownloaded e (sy_db s) +
      (\<Sum>h\<in>set (listed e evs). flow (map_option sn_downloaded (snapshot_of e h (sy_db s)))
                                     (series (\<lambda>t. math_round (nt_downloaded t)) e h evs)) \<and>
    accrued_of lg_accruedUploaded e (sy_db (sync_run evs s)) = accrued_of lg_accruedUploaded e (sy_db s) +
      (\<Sum>h\<in>set (listed e evs). flow (map_option sn_uploaded (snapshot_of e h (sy_db s)))
                                     (series (\<lambda>t. math_round (nt_uploaded t)) e h evs))"
  using down.banked_run [OF _ assms listed_covers] up.banked_run [OF _ assms listed_covers]
  by (simp add: accrued_of_def down.banked_def up.banked_def down.level_def up.level_def)


lemma totals_total:
  "lt_downloaded (totals sel db) = down.total (\<lambda>e. case sel of None \<Rightarrow> True | Some x \<Rightarrow> x = [] \<or> e = x) db"
  "lt_uploaded (totals sel db) = up.total (\<lambda>e. case sel of None \<Rightarrow> True | Some x \<Rightarrow> x = [] \<or> e = x) db"
  by (auto simp: totals_def down.total_def up.total_def Let_def split: option.split)

lemma totals_step:
  assumes "ledger_ok (sy_db s)" "counts_ok [ev]"
  shows "down.total Q (sy_db s) \<le> down.total Q (sy_db (sync_step ev s))"
    "up.total Q (sy_db s) \<le> up.total Q (sy_db (sync_step ev s))"
proof -
  have "down.total Q (sy_db s) \<le> down.total Q (sy_db (sync_step ev s)) \<and>
      up.total Q (sy_db s) \<le> up.total Q (sy_db (sync_step ev s))"
  proof (cases ev)
    case (Tick now e a ft)
    have ok: "answers_ok a" using assms(2) by (simp add: counts_ok_def Tick)
    have settled: "down.total Q (sy_db s) \<le> down.total Q (settled_db now e a s)"
        "up.total Q (sy_db s) \<le> up.total Q (settled_db now e a s)"
      using assms(1) seedValues_nonneg [OF ok]
      by (auto simp: ledger_ok_def intro!: down.total_settled up.total_settled)
    have "down.total Q (settled_db now e a s) \<le> down.total Q (snd (persisted now e a ft ts s))"
        "up.total Q (settled_db now e a s) \<le> up.total Q (snd (persisted now e a ft ts s))"
      if "both a = Inr (ts, st)" for ts st
      using ok both_listed [OF that] unfolding persisted_def
      by (auto simp: answers_ok_def list_all_iff math_round_nonneg intro!: down.total_persist up.total_persist)
    then show ?thesis
      using settled by (auto simp: Tick syncEngine_db intro: order_trans split: sum.split)
  qed simp
  then show "down.total Q (sy_db s) \<le> down.total Q (sy_db (sync_step ev s))"
    "up.total Q (sy_db s) \<le> up.total Q (sy_db (sync_step ev s))" by simp_all
qed

lemma totals_run:
  "ledger_ok (sy_db s) \<Longrightarrow> counts_ok evs \<Longrightarrow>
   down.total Q (sy_db s) \<le> down.total Q (sy_db (sync_run evs s)) \<and> up.total Q (sy_db s) \<le> up.total Q (sy_db (sync_run evs s))"
proof (induction evs arbitrary: s)
  case (Cons ev evs)
  have ok: "counts_ok [ev]" "counts_ok evs" using Cons.prems(2) by (simp_all add: counts_ok_def)
  show ?case
    using totals_step [OF Cons.prems(1) ok(1)] Cons.IH [OF ledger_ok_step [OF Cons.prems(1)] ok(2)]
    unfolding sync_run_Cons by (meson order_trans)
qed (simp add: sync_run_def)

text \<open>
  C25. The totals shown never go down. As long as engines report counters that are not negative, the
  downloaded and the uploaded total, of one engine or of all, are after any history at least what they
  were before it, whatever torrents are removed, reset or re-added, whatever fails and whenever the
  process restarts.
\<close>

theorem totals_never_decrease:
  assumes "ledger_ok (sy_db s)" "counts_ok evs"
  shows "lt_downloaded (totals sel (sy_db s)) \<le> lt_downloaded (totals sel (sy_db (sync_run evs s))) \<and>
    lt_uploaded (totals sel (sy_db s)) \<le> lt_uploaded (totals sel (sy_db (sync_run evs s)))"
  unfolding totals_total using totals_run [OF assms] by blast


section \<open>Completion is announced once\<close>

definition announced :: "string \<Rightarrow> string \<Rightarrow> sync_effect list \<Rightarrow> nat" where
  "announced e h effs = length (filter (\<lambda>x. x = Eff_completed e h) effs)"

lemma announced_simps [simp]:
  "announced e h [] = 0" "announced e h (xs @ ys) = announced e h xs + announced e h ys"
  "announced e h (x # xs) = (if x = Eff_completed e h then 1 else 0) + announced e h xs"
  by (simp_all add: announced_def)

definition edges_in :: "prior_map \<Rightarrow> string \<Rightarrow> normalized_torrent list \<Rightarrow> nat" where
  "edges_in prior h ts =
     (case find (\<lambda>t. nt_hash t = h) ts of None \<Rightarrow> 0 | Some t \<Rightarrow> if rising_edge prior t then 1 else 0)"

lemma announced_transition:
  "announced e' h (snd (transition e prior t st)) = announced e' h (snd st) +
     (if e' = e \<and> nt_hash t = h \<and> rising_edge prior t then 1 else 0)"
  by (cases st) (auto simp: transition_def rising_edge_def Let_def split: option.split prod.split)

lemma announced_transitions:
  "distinct (map nt_hash ts) \<Longrightarrow>
   announced e' h (snd (fold (transition e prior) ts st)) = announced e' h (snd st) +
     (if e' = e then edges_in prior h ts else 0)"
proof (induction ts arbitrary: st)
  case (Cons t ts)
  have "find (\<lambda>x. nt_hash x = nt_hash t) ts = None" using Cons.prems by (auto simp: find_None_iff image_iff)
  then show ?case using Cons by (auto simp: announced_transition edges_in_def)
qed (simp add: edges_in_def)

lemma find_take_Some: "find P (take n xs) = Some x \<Longrightarrow> find P xs = Some x"
  by (induction xs arbitrary: n) (auto simp: take_Cons split: nat.splits if_splits)

lemma announced_applied:
  assumes "distinct (map nt_hash ts)"
  shows "announced e' h (snd (applyTransitions ft e prior ts st)) \<le> announced e' h (snd st) +
      (if e' = e then edges_in prior h ts else 0)"
    and "ft_stop ft = None \<Longrightarrow> announced e' h (snd (applyTransitions ft e prior ts st)) = announced e' h (snd st) +
      (if e' = e then edges_in prior h ts else 0)"
proof -
  have sub: "edges_in prior h (take n ts) \<le> edges_in prior h ts" for n
    using find_take_Some [of "\<lambda>t. nt_hash t = h" n ts] by (auto simp: edges_in_def split: option.split)
  have "distinct (map nt_hash (take n ts))" for n using assms by (simp add: distinct_take flip: take_map)
  note stopped = announced_transitions [OF this] and full = announced_transitions [OF assms]
  show "announced e' h (snd (applyTransitions ft e prior ts st)) \<le> announced e' h (snd st) +
      (if e' = e then edges_in prior h ts else 0)"
    using sub full [of e' h e prior st]
    by (cases "ft_stop ft") (auto simp: applyTransitions_def stopped Let_def split: prod.split)
  show "ft_stop ft = None \<Longrightarrow> announced e' h (snd (applyTransitions ft e prior ts st)) = announced e' h (snd st) +
      (if e' = e then edges_in prior h ts else 0)"
    using full [of e' h e prior st] by (auto simp: applyTransitions_def Let_def split: prod.split)
qed


lemma edges_crossings:
  "edges_in (priorSnapshots e ts db) h ts =
     crossings (progress.level e h db)
       (case find (\<lambda>t. nt_hash t = h) ts of None \<Rightarrow> [Gone] | Some t \<Rightarrow> [Present (nt_progress t)])"
proof (cases "find (\<lambda>t. nt_hash t = h) ts")
  case (Some t)
  then have "nt_hash t = h" "t \<in> set ts" by (auto simp: find_Some_iff)
  then show ?thesis using Some
    by (auto simp: edges_in_def rising_edge_def priorSnapshots_def progress.level_def split: option.split)
qed (simp add: edges_in_def)

lemma announced_offline [simp]: "announced e' h (sy_log (offline now e err s)) = announced e' h (sy_log s)"
  by (simp add: offline_def)

definition cut_short :: "sync_event \<Rightarrow> bool" where
  "cut_short ev \<longleftrightarrow> (case ev of Restart \<Rightarrow> False | Tick now e a ft \<Rightarrow> ft_prune ft \<or> ft_stop ft \<noteq> None)"

lemma announced_synced:
  assumes "both a = Inr (ts, st)" "ft_before ft = None"
  shows "announced e' h (sy_log (syncEngine now a ft e s)) =
    (if fst (persisted now e a ft ts s)
     then announced e' h (snd (applyTransitions ft e (priorSnapshots e ts (settled_db now e a s)) ts
            (sy_errors s, sy_log s @ [Eff_torrents e (map nt_hash ts), Eff_stats e (totals (Some e) (settled_db now e a s))])))
     else announced e' h (sy_log s))"
  using assms by (auto simp: syncEngine_def persisted_def settled_db_def Let_def split: prod.split)

lemma persisted_ok: "fst (persisted now e a ft ts s) \<longleftrightarrow> \<not> ft_transaction ft \<and> \<not> ft_prune ft"
  by (simp add: persisted_def persistSnapshots_def Let_def)

lemma announced_step:
  assumes "lists_once [ev]"
  shows "announced e h (sy_log (sync_step ev s)) \<le>
      announced e h (sy_log s) + crossings (progress.level e h (sy_db s)) (observed nt_progress e h ev)"
    and "\<not> cut_short ev \<Longrightarrow> announced e h (sy_log (sync_step ev s)) =
      announced e h (sy_log s) + crossings (progress.level e h (sy_db s)) (observed nt_progress e h ev)"
proof -
  have "announced e h (sy_log (sync_step ev s)) \<le>
      announced e h (sy_log s) + crossings (progress.level e h (sy_db s)) (observed nt_progress e h ev) \<and>
    (\<not> cut_short ev \<longrightarrow> announced e h (sy_log (sync_step ev s)) =
      announced e h (sy_log s) + crossings (progress.level e h (sy_db s)) (observed nt_progress e h ev))"
  proof (cases ev)
    case (Tick now e' a ft)
    have eff: "sy_log (sync_step (Tick now e' a ft) s) = sy_log (syncEngine now a ft e' s)"
      by (simp add: sync_step.simps Let_def)
    show ?thesis
    proof (cases "ft_before ft = None \<and> (\<exists>r. both a = Inr r)")
      case True
      then obtain ts st where b: "both a = Inr (ts, st)" "ft_before ft = None" by auto
      have once: "distinct (map nt_hash ts)" using assms b(1) by (simp add: lists_once_def Tick)
      have lvl: "progress.level e h (settled_db now e' a s) = progress.level e h (sy_db s)"
        by (simp add: progress.level_def)
      let ?prior = "priorSnapshots e' ts (settled_db now e' a s)"
      let ?st = "(sy_errors s, sy_log s @ [Eff_torrents e' (map nt_hash ts), Eff_stats e' (totals (Some e') (settled_db now e' a s))])"
      show ?thesis
        using announced_applied(1) [OF once, where e' = e and h = h and ft = ft and e = e' and prior = ?prior and st = ?st]
          announced_applied(2) [OF once, where e' = e and h = h and ft = ft and e = e' and prior = ?prior and st = ?st] b lvl
        by (auto simp: eff announced_synced persisted_ok Tick cut_short_def edges_crossings split: option.split)
    next
      case False
      then have "announced e h (sy_log (syncEngine now a ft e' s)) = announced e h (sy_log s)"
        by (auto simp: syncEngine_def Let_def split: prod.split sum.split)
      then show ?thesis using False by (auto simp: eff Tick split: sum.splits)
    qed
  qed (simp add: sync_step.simps)
  then show "announced e h (sy_log (sync_step ev s)) \<le>
      announced e h (sy_log s) + crossings (progress.level e h (sy_db s)) (observed nt_progress e h ev)"
    "\<not> cut_short ev \<Longrightarrow> announced e h (sy_log (sync_step ev s)) =
      announced e h (sy_log s) + crossings (progress.level e h (sy_db s)) (observed nt_progress e h ev)"
    by simp_all
qed

lemma announced_run:
  "lists_once evs \<Longrightarrow>
   announced e h (sy_log (sync_run evs s)) \<le>
     announced e h (sy_log s) + crossings (progress.level e h (sy_db s)) (series nt_progress e h evs) \<and>
   (list_all (\<lambda>ev. \<not> cut_short ev) evs \<longrightarrow> announced e h (sy_log (sync_run evs s)) =
     announced e h (sy_log s) + crossings (progress.level e h (sy_db s)) (series nt_progress e h evs))"
proof (induction evs arbitrary: s)
  case (Cons ev evs)
  have once: "lists_once [ev]" "lists_once evs" using Cons.prems by (simp_all add: lists_once_def)
  have ser: "crossings (progress.level e h (sy_db s)) (series nt_progress e h (ev # evs)) =
      crossings (progress.level e h (sy_db s)) (observed nt_progress e h ev) +
      crossings (progress.level e h (sy_db (sync_step ev s))) (series nt_progress e h evs)"
    by (simp add: series_def crossings_append progress.level_step [OF once(1)])
  show ?case
    using Cons.IH [OF once(2), of "sync_step ev s"] announced_step [OF once(1), of e h s]
    unfolding sync_run_Cons ser by auto
qed (simp add: sync_run_def series_def)

text \<open>
  C26. A completion is announced once per completion. Over any history, with restarts and failing
  statements, the event that a torrent completed is published at most as often as its persisted
  progress crossed from below to complete, and exactly as often when no tick is cut short after its
  transaction.
\<close>

theorem completion_announced_once:
  assumes "lists_once evs"
  shows "announced e h (sy_log (sync_run evs s)) \<le> announced e h (sy_log s) +
      crossings (map_option sn_progress (snapshot_of e h (sy_db s))) (series nt_progress e h evs) \<and>
    (list_all (\<lambda>ev. \<not> cut_short ev) evs \<longrightarrow> announced e h (sy_log (sync_run evs s)) = announced e h (sy_log s) +
      crossings (map_option sn_progress (snapshot_of e h (sy_db s))) (series nt_progress e h evs))"
  using announced_run [OF assms, of e h s] unfolding progress.level_def .


section \<open>Examples\<close>

definition new_sync :: sync_state where
  "new_sync = \<lparr> sy_db = \<lparr> sd_ledger = [], sd_snapshots = [], sd_retired = [] \<rparr>, sy_baselined = {}, sy_errors = (\<lambda>_. None),
                sy_status = (\<lambda>_. None), sy_cache = (\<lambda>_. None), sy_log = [] \<rparr>"

definition torrent :: "string \<Rightarrow> torrent_state \<Rightarrow> rat \<Rightarrow> rat \<Rightarrow> normalized_torrent" where
  "torrent h st p d =
     \<lparr> nt_hash = h, nt_name = h, nt_state = st, nt_progress = p, nt_size = 1000, nt_downloaded = d, nt_uploaded = 0,
       nt_ratio = 0, nt_downloadRate = 0, nt_uploadRate = 0, nt_seedsConnected = 0, nt_seedsTotal = 0,
       nt_peersConnected = 0, nt_label = None, nt_savePath = ''/'', nt_contentPath = [], nt_addedAt = None,
       nt_completedAt = None \<rparr>"

definition answers :: "(string + (int \<times> int) option) option \<Rightarrow> normalized_torrent list \<Rightarrow> engine_answers" where
  "answers all ts = \<lparr> ea_allTime = all, ea_seedList = Inr ts, ea_list = Inr ts, ea_stats = Inr 0 \<rparr>"

definition no_faults :: faults where
  "no_faults = \<lparr> ft_before = None, ft_transaction = False, ft_archive = False, ft_prune = False, ft_stop = None \<rparr>"

definition moving :: "sync_event list" where
  "moving = [Tick 0 ''q'' (answers None [torrent ''h'' TS_DOWNLOADING 0 0]) no_faults,
             Tick 2 ''q'' (answers None [torrent ''h'' TS_DOWNLOADING (1 / 2) 500]) (no_faults\<lparr> ft_transaction := True \<rparr>),
             Restart,
             Tick 4 ''q'' (answers None [torrent ''h'' TS_SEEDING 1 1000]) no_faults,
             Tick 6 ''q'' (answers None []) no_faults]"

theorem ledger_conserves_witness:
  "accrued_of lg_accruedDownloaded ''q'' (sy_db (sync_run moving new_sync)) = 1000"
proof -
  have once: "lists_once moving" by code_simp
  have "accrued_of lg_accruedDownloaded ''q'' (sy_db new_sync) = 0" "set (listed ''q'' moving) = {''h''}"
    "flow (map_option sn_downloaded (snapshot_of ''q'' ''h'' (sy_db new_sync)))
       (series (\<lambda>t. math_round (nt_downloaded t)) ''q'' ''h'' moving) = 1000"
    by code_simp+
  then show ?thesis using ledger_conserves [OF once, of "''q''" new_sync] by simp
qed

theorem totals_never_decrease_witness:
  "lt_downloaded (totals (Some ''q'') (sy_db (sync_run (drop 4 moving) (sync_run (take 4 moving) new_sync)))) \<ge> 1000"
proof -
  have "ledger_ok (sy_db (sync_run (take 4 moving) new_sync))" "counts_ok (drop 4 moving)"
    "lt_downloaded (totals (Some ''q'') (sy_db (sync_run (take 4 moving) new_sync))) = 1000" by code_simp+
  then show ?thesis
    using totals_never_decrease [of "sync_run (take 4 moving) new_sync" "drop 4 moving" "Some ''q''"] by simp
qed

theorem completion_announced_once_witness:
  "announced ''q'' ''h'' (sy_log (sync_run moving new_sync)) = 1"
proof -
  have once: "lists_once moving" by code_simp
  have "list_all (\<lambda>ev. \<not> cut_short ev) moving" "announced ''q'' ''h'' (sy_log new_sync) = 0"
    "crossings (map_option sn_progress (snapshot_of ''q'' ''h'' (sy_db new_sync))) (series nt_progress ''q'' ''h'' moving) = 1"
    by code_simp+
  then show ?thesis using completion_announced_once [OF once, of "''q''" "''h''" new_sync] by simp
qed

text \<open>
  The order of settling the baseline and accruing matters: when the engine cannot tell its all-time
  figure at first, bytes are accrued in the meantime and are then part of the baseline as well.
\<close>

lemma late_baseline_counts_twice:
  "lt_downloaded (totals (Some ''q'') (sy_db (sync_run
     [Tick 0 ''q'' (answers (Some (Inl ''busy'')) [torrent ''h'' TS_DOWNLOADING 0 0]) no_faults,
      Tick 2 ''q'' (answers (Some (Inl ''busy'')) [torrent ''h'' TS_DOWNLOADING 0 100]) no_faults,
      Tick 4 ''q'' (answers (Some (Inr (Some (100, 0)))) [torrent ''h'' TS_DOWNLOADING 0 100]) no_faults] new_sync))) = 200"
  by code_simp

text \<open>A completion is not announced when the snapshots of other torrents could not be removed.\<close>

lemma completion_lost_without_prune:
  "announced ''q'' ''h'' (sy_log (sync_run
     [Tick 0 ''q'' (answers None [torrent ''h'' TS_DOWNLOADING 0 0]) no_faults,
      Tick 2 ''q'' (answers None [torrent ''h'' TS_SEEDING 1 100]) (no_faults\<lparr> ft_prune := True \<rparr>),
      Tick 4 ''q'' (answers None [torrent ''h'' TS_SEEDING 1 100]) no_faults] new_sync)) = 0"
  by code_simp

text \<open>
  The memory of errors is kept by hash alone: a torrent that two engines hold, in error on one of
  them, is announced as failed in every round.
\<close>

definition two_engines :: "sync_event list" where
  "two_engines = [Tick 0 ''a'' (answers None [torrent ''h'' TS_ERROR 0 0]) no_faults,
                  Tick 0 ''b'' (answers None [torrent ''h'' TS_SEEDING 1 0]) no_faults]"

lemma failure_announced_every_round:
  "length (filter (\<lambda>x. x = Eff_failed ''a'' ''h'') (sy_log (sync_run (concat (replicate 5 two_engines)) new_sync))) = 3"
  by code_simp

end
