(* ===== verification/Torrents_Parking.thy ===== *)
theory Torrents_Parking
  imports Torrents_Sync
begin

text \<open>
  Parking: torrents with a dead swarm are held out of the queue of an engine
  (\<^verbatim>\<open>torrents/torrent-parking.service.ts\<close>). The table of parked torrents is a list of
  rows; the operations of an engine and the statements on the table may each fail, which the record
  \<open>park_host\<close> decides over an abstract world. Every call to an engine is kept in a trace. The
  parser of dates is the parameter \<open>parse\<close>; a rule is a whole number, as the service stores it.

  The lemmas show that a sweep pauses a torrent only on evidence that nothing is delivered, that it
  touches no torrent but dead and parked ones, that no parked torrent waits behind a later one, and
  that a torrent that finished or moves again is handed back.
\<close>

section \<open>Rules\<close>

record parking_rules =
  pk_enabled :: bool
  pk_minSeeders :: int
  pk_deadAfterMinutes :: int
  pk_stalledAfterMinutes :: int
  pk_probeBatchSize :: int
  pk_probeIntervalMinutes :: int
  pk_maxProbeIntervalMinutes :: int

definition DEFAULT_PARKING_RULES :: parking_rules where
  "DEFAULT_PARKING_RULES =
     \<lparr> pk_enabled = False, pk_minSeeders = 1, pk_deadAfterMinutes = 30, pk_stalledAfterMinutes = 180,
       pk_probeBatchSize = 20, pk_probeIntervalMinutes = 60, pk_maxProbeIntervalMinutes = 1440 \<rparr>"

record rules_patch =
  rp_enabled :: "bool option"
  rp_minSeeders :: "rat option"
  rp_deadAfterMinutes :: "rat option"
  rp_stalledAfterMinutes :: "rat option"
  rp_probeBatchSize :: "rat option"
  rp_probeIntervalMinutes :: "rat option"
  rp_maxProbeIntervalMinutes :: "rat option"

definition getRules :: "parking_rules option \<Rightarrow> parking_rules" where
  "getRules stored = (case stored of None \<Rightarrow> DEFAULT_PARKING_RULES | Some r \<Rightarrow> r)"

definition math_trunc :: "rat \<Rightarrow> int" where
  "math_trunc q = (if q < 0 then \<lceil>q\<rceil> else \<lfloor>q\<rfloor>)"

definition patched :: "int \<Rightarrow> rat option \<Rightarrow> int" where
  "patched old new = (case new of None \<Rightarrow> old | Some q \<Rightarrow> math_trunc q)"

definition setRules :: "rules_patch \<Rightarrow> parking_rules option \<Rightarrow> parking_rules" where
  "setRules p stored =
     (let r = getRules stored;
          interval = max 1 (patched (pk_probeIntervalMinutes r) (rp_probeIntervalMinutes p))
      in \<lparr> pk_enabled = (case rp_enabled p of None \<Rightarrow> pk_enabled r | Some b \<Rightarrow> b),
           pk_minSeeders = max 0 (patched (pk_minSeeders r) (rp_minSeeders p)),
           pk_deadAfterMinutes = max 1 (patched (pk_deadAfterMinutes r) (rp_deadAfterMinutes p)),
           pk_stalledAfterMinutes = max 0 (patched (pk_stalledAfterMinutes r) (rp_stalledAfterMinutes p)),
           pk_probeBatchSize = max 1 (patched (pk_probeBatchSize r) (rp_probeBatchSize p)),
           pk_probeIntervalMinutes = interval,
           pk_maxProbeIntervalMinutes = max interval (patched (pk_maxProbeIntervalMinutes r) (rp_maxProbeIntervalMinutes p)) \<rparr>)"

definition rules_ok :: "parking_rules \<Rightarrow> bool" where
  "rules_ok r \<longleftrightarrow> 0 \<le> pk_minSeeders r \<and> 1 \<le> pk_deadAfterMinutes r \<and> 0 \<le> pk_stalledAfterMinutes r \<and>
     1 \<le> pk_probeBatchSize r \<and> 1 \<le> pk_probeIntervalMinutes r \<and> pk_probeIntervalMinutes r \<le> pk_maxProbeIntervalMinutes r"

lemma setRules_ok: "rules_ok (setRules p stored)"
  by (simp add: rules_ok_def setRules_def Let_def)


section \<open>Dead swarms\<close>

datatype dead_reason = No_seeders | Stalled

definition deadReason :: "(string \<Rightarrow> int option) \<Rightarrow> normalized_torrent \<Rightarrow> parking_rules \<Rightarrow> int \<Rightarrow> dead_reason option" where
  "deadReason parse t rules now =
     (if nt_state t \<noteq> TS_DOWNLOADING then None
      else if nt_progress t \<ge> 1 then None
      else if nt_downloadRate t > 0 then None
      else if nt_seedsConnected t > 0 then None
      else (case (case nt_addedAt t of None \<Rightarrow> None | Some a \<Rightarrow> if a = [] then None else parse a) of
              None \<Rightarrow> None
            | Some addedAt \<Rightarrow>
                (let ageMs = now - addedAt in
                 if nt_peersConnected t = 0 \<and> nt_seedsTotal t < pk_minSeeders rules \<and> ageMs \<ge> pk_deadAfterMinutes rules * 60000
                   then Some No_seeders
                 else if pk_stalledAfterMinutes rules > 0 \<and> ageMs \<ge> pk_stalledAfterMinutes rules * 60000 then Some Stalled
                 else None)))"

record parked_row =
  pr_engineId :: string
  pr_hash :: string
  pr_name :: string
  pr_reason :: dead_reason
  pr_parkedAt :: int
  pr_probingSince :: "int option"
  pr_lastProbedAt :: "int option"
  pr_probeCount :: nat
  pr_lastSeeders :: int

definition nextProbeAt :: "parking_rules \<Rightarrow> parked_row \<Rightarrow> int" where
  "nextProbeAt rules row =
     (case pr_lastProbedAt row of
        None \<Rightarrow> 0
      | Some l \<Rightarrow>
          (let backoff = min (pk_probeIntervalMinutes rules * 2 ^ (pr_probeCount row - 1)) (pk_maxProbeIntervalMinutes rules)
           in l + backoff * 60000))"

definition isProbeDue :: "parking_rules \<Rightarrow> int \<Rightarrow> parked_row \<Rightarrow> bool" where
  "isProbeDue rules now row \<longleftrightarrow> now \<ge> nextProbeAt rules row"


section \<open>Engine and table\<close>

datatype park_call = Pause string | Resume string | Force string bool

text \<open>
  \<open>ho_call\<close> and \<open>ho_db\<close> decide whether the next call to the engine, or the next statement
  on the table, succeeds.
\<close>

record 'w park_host =
  ho_call :: "park_call \<Rightarrow> 'w \<Rightarrow> bool \<times> 'w"
  ho_db :: "'w \<Rightarrow> bool \<times> 'w"

record 'w park_state =
  ps_rows :: "parked_row list"
  ps_calls :: "(string \<times> park_call) list"
  ps_world :: 'w

definition engine_call :: "'w park_host \<Rightarrow> string \<Rightarrow> park_call \<Rightarrow> 'w park_state \<Rightarrow> bool \<times> 'w park_state" where
  "engine_call h e c st =
     (let (ok, w) = ho_call h c (ps_world st)
      in (ok, st\<lparr> ps_calls := ps_calls st @ [(e, c)], ps_world := w \<rparr>))"

definition statement :: "'w park_host \<Rightarrow> (parked_row list \<Rightarrow> parked_row list) \<Rightarrow> 'w park_state \<Rightarrow> bool \<times> 'w park_state" where
  "statement h f st =
     (let (ok, w) = ho_db h (ps_world st)
      in (ok, st\<lparr> ps_rows := (if ok then f (ps_rows st) else ps_rows st), ps_world := w \<rparr>))"

text \<open>A sequence of awaited calls inside one \<^verbatim>\<open>try\<close>: the first failure ends it.\<close>

fun attempt :: "('s \<Rightarrow> bool \<times> 's) list \<Rightarrow> 's \<Rightarrow> bool \<times> 's" where
  "attempt [] st = (True, st)"
| "attempt (f # fs) st = (let (ok, st') = f st in if ok then attempt fs st' else (False, st'))"

definition is_row :: "string \<Rightarrow> string \<Rightarrow> parked_row \<Rightarrow> bool" where
  "is_row e hash r \<longleftrightarrow> pr_engineId r = e \<and> pr_hash r = hash"

text \<open>\<^verbatim>\<open>delete\<close> with its failure ignored.\<close>

definition park_forget :: "'w park_host \<Rightarrow> string \<Rightarrow> string \<Rightarrow> 'w park_state \<Rightarrow> bool \<times> 'w park_state" where
  "park_forget h e hash st = (True, snd (statement h (filter (\<lambda>r. \<not> is_row e hash r)) st))"

definition update_row :: "string \<Rightarrow> string \<Rightarrow> (parked_row \<Rightarrow> parked_row) \<Rightarrow> parked_row list \<Rightarrow> parked_row list" where
  "update_row e hash f = map (\<lambda>r. if is_row e hash r then f r else r)"

text \<open>
  Creating a row that exists fails on the key; updating a row that does not exist fails. Both fail
  as statements do.
\<close>

definition create_row :: "'w park_host \<Rightarrow> parked_row \<Rightarrow> 'w park_state \<Rightarrow> bool \<times> 'w park_state" where
  "create_row h r st =
     (if list_ex (is_row (pr_engineId r) (pr_hash r)) (ps_rows st) then (False, st)
      else statement h (\<lambda>rows. rows @ [r]) st)"

definition change_row :: "'w park_host \<Rightarrow> string \<Rightarrow> string \<Rightarrow> (parked_row \<Rightarrow> parked_row) \<Rightarrow> 'w park_state \<Rightarrow> bool \<times> 'w park_state" where
  "change_row h e hash f st =
     (if list_ex (is_row e hash) (ps_rows st) then statement h (update_row e hash f) st else (False, st))"


section \<open>The sweep\<close>

definition byHash :: "normalized_torrent list \<Rightarrow> string \<Rightarrow> normalized_torrent option" where
  "byHash torrents hash = find (\<lambda>t. to_lower (nt_hash t) = hash) (rev torrents)"

definition park_one ::
  "'w park_host \<Rightarrow> (string \<Rightarrow> int option) \<Rightarrow> int \<Rightarrow> parking_rules \<Rightarrow> string \<Rightarrow> parked_row list \<Rightarrow> normalized_torrent
     \<Rightarrow> nat \<times> 'w park_state \<Rightarrow> nat \<times> 'w park_state" where
  "park_one h parse now rules e already t = (\<lambda>(n, st).
     let hash = to_lower (nt_hash t) in
     if list_ex (is_row e hash) already then (n, st)
     else (case deadReason parse t rules now of
             None \<Rightarrow> (n, st)
           | Some reason \<Rightarrow>
               (let (ok, st') = attempt
                      [engine_call h e (Pause hash),
                       create_row h \<lparr> pr_engineId = e, pr_hash = hash, pr_name = nt_name t, pr_reason = reason, pr_parkedAt = now,
                                      pr_probingSince = None, pr_lastProbedAt = None, pr_probeCount = 0,
                                      pr_lastSeeders = nt_seedsTotal t \<rparr>] st
                in (if ok then n + 1 else n, st'))))"

definition parkDead ::
  "'w park_host \<Rightarrow> (string \<Rightarrow> int option) \<Rightarrow> int \<Rightarrow> parking_rules \<Rightarrow> string \<Rightarrow> normalized_torrent list
     \<Rightarrow> 'w park_state \<Rightarrow> nat \<times> 'w park_state" where
  "parkDead h parse now rules e torrents st =
     fold (park_one h parse now rules e (ps_rows st)) torrents (0, st)"

definition alive :: "normalized_torrent \<Rightarrow> bool" where
  "alive t \<longleftrightarrow> nt_progress t \<ge> 1 \<or> nt_seedsConnected t > 0 \<or> nt_downloadRate t > 0"

definition judge_one ::
  "'w park_host \<Rightarrow> int \<Rightarrow> string \<Rightarrow> normalized_torrent list \<Rightarrow> parked_row \<Rightarrow> (nat \<times> nat) \<times> 'w park_state
     \<Rightarrow> (nat \<times> nat) \<times> 'w park_state" where
  "judge_one h now e torrents row = (\<lambda>((revived, stillDead), st).
     case byHash torrents (pr_hash row) of
       None \<Rightarrow> ((revived, stillDead), snd (park_forget h e (pr_hash row) st))
     | Some t \<Rightarrow>
         if alive t then
           (let (ok, st') = attempt [engine_call h e (Force (pr_hash row) False), engine_call h e (Resume (pr_hash row)),
                                     park_forget h e (pr_hash row)] st
            in ((if ok then revived + 1 else revived, stillDead), st'))
         else
           (let (ok, st') = attempt [engine_call h e (Force (pr_hash row) False), engine_call h e (Pause (pr_hash row)),
                                     change_row h e (pr_hash row) (\<lambda>r. r\<lparr> pr_probingSince := None, pr_lastProbedAt := Some now,
                                       pr_probeCount := pr_probeCount r + 1, pr_lastSeeders := nt_seedsTotal t \<rparr>)] st
            in ((revived, if ok then stillDead + 1 else stillDead), st')))"

definition judgeProbes ::
  "'w park_host \<Rightarrow> int \<Rightarrow> string \<Rightarrow> normalized_torrent list \<Rightarrow> 'w park_state \<Rightarrow> (nat \<times> nat) \<times> 'w park_state" where
  "judgeProbes h now e torrents st =
     fold (judge_one h now e torrents) (filter (\<lambda>r. pr_engineId r = e \<and> pr_probingSince r \<noteq> None) (ps_rows st)) ((0, 0), st)"

definition due_rows :: "int \<Rightarrow> parking_rules \<Rightarrow> string \<Rightarrow> parked_row list \<Rightarrow> parked_row list" where
  "due_rows now rules e rows =
     take (nat (pk_probeBatchSize rules))
       (js_sort (\<lambda>a b. nextProbeAt rules a - nextProbeAt rules b)
         (filter (isProbeDue rules now) (filter (\<lambda>r. pr_engineId r = e \<and> pr_probingSince r = None) rows)))"

definition probe_one ::
  "'w park_host \<Rightarrow> int \<Rightarrow> string \<Rightarrow> normalized_torrent list \<Rightarrow> parked_row \<Rightarrow> nat \<times> 'w park_state \<Rightarrow> nat \<times> 'w park_state" where
  "probe_one h now e torrents row = (\<lambda>(n, st).
     if byHash torrents (pr_hash row) = None then (n, snd (park_forget h e (pr_hash row) st))
     else (let (ok, st') = attempt [engine_call h e (Force (pr_hash row) True),
                                    change_row h e (pr_hash row) (\<lambda>r. r\<lparr> pr_probingSince := Some now \<rparr>)] st
           in (if ok then n + 1 else n, st')))"

definition startProbes ::
  "'w park_host \<Rightarrow> int \<Rightarrow> parking_rules \<Rightarrow> string \<Rightarrow> normalized_torrent list \<Rightarrow> 'w park_state \<Rightarrow> nat \<times> 'w park_state" where
  "startProbes h now rules e torrents st =
     fold (probe_one h now e torrents) (due_rows now rules e (ps_rows st)) (0, st)"

record tick_summary =
  tk_parked :: nat
  tk_revived :: nat
  tk_probed :: nat
  tk_stillDead :: nat

definition empty_summary :: tick_summary where
  "empty_summary = \<lparr> tk_parked = 0, tk_revived = 0, tk_probed = 0, tk_stillDead = 0 \<rparr>"

text \<open>One engine of the sweep; an engine that does not answer is passed over.\<close>

definition sweep_engine ::
  "'w park_host \<Rightarrow> (string \<Rightarrow> int option) \<Rightarrow> int \<Rightarrow> parking_rules \<Rightarrow> string \<times> normalized_torrent list option
     \<Rightarrow> tick_summary \<times> 'w park_state \<Rightarrow> tick_summary \<times> 'w park_state" where
  "sweep_engine h parse now rules = (\<lambda>(e, listing) (tk, st).
     case listing of
       None \<Rightarrow> (tk, st)
     | Some torrents \<Rightarrow>
         (let ((revived, stillDead), st1) = judgeProbes h now e torrents st;
              (parked, st2) = parkDead h parse now rules e torrents st1;
              (probed, st3) = startProbes h now rules e torrents st2
          in (\<lparr> tk_parked = tk_parked tk + parked, tk_revived = tk_revived tk + revived,
                tk_probed = tk_probed tk + probed, tk_stillDead = tk_stillDead tk + stillDead \<rparr>, st3)))"

definition park_run ::
  "'w park_host \<Rightarrow> (string \<Rightarrow> int option) \<Rightarrow> int \<Rightarrow> parking_rules \<Rightarrow> (string \<times> normalized_torrent list option) list
     \<Rightarrow> 'w park_state \<Rightarrow> tick_summary \<times> 'w park_state" where
  "park_run h parse now rules engines st = fold (sweep_engine h parse now rules) engines (empty_summary, st)"

definition park_tick ::
  "'w park_host \<Rightarrow> (string \<Rightarrow> int option) \<Rightarrow> int \<Rightarrow> parking_rules option \<Rightarrow> (string \<times> normalized_torrent list option) list
     \<Rightarrow> 'w park_state \<Rightarrow> tick_summary \<times> 'w park_state" where
  "park_tick h parse now stored engines st =
     (if pk_enabled (getRules stored) then park_run h parse now (getRules stored) engines st else (empty_summary, st))"

text \<open>Releasing by hand: a failing call ends the request.\<close>

definition unpark :: "'w park_host \<Rightarrow> string \<Rightarrow> string \<Rightarrow> 'w park_state \<Rightarrow> bool \<times> 'w park_state" where
  "unpark h e hash = attempt [engine_call h e (Force hash False), engine_call h e (Resume hash), park_forget h e hash]"

record parking_info =
  pf_reason :: dead_reason
  pf_parkedAt :: int
  pf_lastSeeders :: int
  pf_probeCount :: nat
  pf_probing :: bool

definition annotate :: "string \<Rightarrow> parked_row list \<Rightarrow> normalized_torrent list \<Rightarrow> (normalized_torrent \<times> parking_info option) list" where
  "annotate e rows torrents =
     map (\<lambda>t. (t, map_option (\<lambda>p. \<lparr> pf_reason = pr_reason p, pf_parkedAt = pr_parkedAt p, pf_lastSeeders = pr_lastSeeders p,
                                    pf_probeCount = pr_probeCount p, pf_probing = (pr_probingSince p \<noteq> None) \<rparr>)
                (find (is_row e (nt_hash t)) rows))) torrents"


section \<open>What every operation of a sweep keeps\<close>

lemma attempt_keeps:
  "list_all (\<lambda>f. \<forall>st. I st \<longrightarrow> I (snd (f st))) fs \<Longrightarrow> I st \<Longrightarrow> I (snd (attempt fs st))"
proof (induction fs arbitrary: st)
  case (Cons f fs)
  then have "I (snd (f st))" by simp
  then show ?case using Cons by (cases "f st") auto
qed simp

declare attempt.simps [simp del]

lemma fold_keeps:
  "(\<And>x acc. x \<in> set xs \<Longrightarrow> I (snd acc) \<Longrightarrow> I (snd (f x acc))) \<Longrightarrow> I (snd acc) \<Longrightarrow> I (snd (fold f xs acc))"
  by (induction xs arbitrary: acc) auto

lemma byHash_Some: "byHash ts hash = Some t \<Longrightarrow> t \<in> set ts \<and> to_lower (nt_hash t) = hash"
  by (auto simp: byHash_def find_Some_iff) (metis nth_mem set_rev length_rev)

lemma dead_not_alive: "deadReason parse t rules now \<noteq> None \<Longrightarrow> \<not> alive t"
  by (auto simp: deadReason_def alive_def split: if_splits)

text \<open>
  The interface of a sweep to a property of its states: \<open>known\<close> are the torrents the sweep may
  touch, the laws are the calls and statements it makes, each with what the sweep knows when it makes
  them.
\<close>

locale sweep_invariant =
  fixes I :: "'w park_state \<Rightarrow> bool" and known :: "string \<Rightarrow> string \<Rightarrow> bool"
    and h :: "'w park_host" and parse :: "string \<Rightarrow> int option" and now :: int and rules :: parking_rules
    and engines :: "(string \<times> normalized_torrent list option) list"
  assumes rows_known: "I st \<Longrightarrow> r \<in> set (ps_rows st) \<Longrightarrow> known (pr_engineId r) (pr_hash r)"
    and dead_known: "(e, Some ts) \<in> set engines \<Longrightarrow> t \<in> set ts \<Longrightarrow> deadReason parse t rules now \<noteq> None \<Longrightarrow>
      known e (to_lower (nt_hash t))"
    and call_pause: "I st \<Longrightarrow> (e, Some ts) \<in> set engines \<Longrightarrow> t \<in> set ts \<Longrightarrow> \<not> alive t \<Longrightarrow> known e (to_lower (nt_hash t)) \<Longrightarrow>
      I (snd (engine_call h e (Pause (to_lower (nt_hash t))) st))"
    and call_resume: "I st \<Longrightarrow> (e, Some ts) \<in> set engines \<Longrightarrow> t \<in> set ts \<Longrightarrow> alive t \<Longrightarrow> known e (to_lower (nt_hash t)) \<Longrightarrow>
      I (snd (engine_call h e (Resume (to_lower (nt_hash t))) st))"
    and call_force: "I st \<Longrightarrow> known e hash \<Longrightarrow> I (snd (engine_call h e (Force hash b) st))"
    and row_deleted: "I st \<Longrightarrow> I (snd (park_forget h e hash st))"
    and row_created: "I st \<Longrightarrow> known (pr_engineId r) (pr_hash r) \<Longrightarrow> I (snd (create_row h r st))"
    and row_changed: "I st \<Longrightarrow> (\<And>r. pr_engineId (f r) = pr_engineId r \<and> pr_hash (f r) = pr_hash r) \<Longrightarrow>
      I (snd (change_row h e hash f st))"
begin

lemma judge_one_keeps:
  assumes "(e, Some ts) \<in> set engines" "known e (pr_hash row)" "I (snd acc)"
  shows "I (snd (judge_one h now e ts row acc))"
proof -
  obtain rv sd st where acc: "acc = ((rv, sd), st)" by (metis prod.exhaust)
  show ?thesis
  proof (cases "byHash ts (pr_hash row)")
    case None
    then show ?thesis using assms(3) row_deleted by (simp add: judge_one_def acc)
  next
    case (Some t)
    have t: "t \<in> set ts" "to_lower (nt_hash t) = pr_hash row" using byHash_Some [OF Some] by simp_all
    have "I (snd (attempt [engine_call h e (Force (pr_hash row) False), engine_call h e (Resume (pr_hash row)),
            park_forget h e (pr_hash row)] st))" if "alive t"
      by (rule attempt_keeps)
        (use assms(2,3) acc call_force call_resume [OF _ assms(1) t(1) that] row_deleted t(2) in simp_all)
    moreover have "I (snd (attempt [engine_call h e (Force (pr_hash row) False), engine_call h e (Pause (pr_hash row)),
            change_row h e (pr_hash row) (\<lambda>r. r\<lparr> pr_probingSince := None, pr_lastProbedAt := Some now,
              pr_probeCount := pr_probeCount r + 1, pr_lastSeeders := nt_seedsTotal t \<rparr>)] st))" if "\<not> alive t"
      by (rule attempt_keeps)
        (use assms(2,3) acc call_force call_pause [OF _ assms(1) t(1) that] row_changed t(2) in simp_all)
    ultimately show ?thesis by (auto simp: judge_one_def acc Some Let_def split: prod.splits)
  qed
qed

lemma park_one_keeps:
  assumes "(e, Some ts) \<in> set engines" "t \<in> set ts" "I (snd acc)"
  shows "I (snd (park_one h parse now rules e already t acc))"
proof -
  obtain n st where acc: "acc = (n, st)" by (metis prod.exhaust)
  show ?thesis
  proof (cases "deadReason parse t rules now")
    case (Some reason)
    have k: "known e (to_lower (nt_hash t))" using dead_known [OF assms(1,2)] Some by simp
    have quiet: "\<not> alive t" using dead_not_alive [of parse t rules now] Some by simp
    have "I (snd (attempt [engine_call h e (Pause (to_lower (nt_hash t))), create_row h \<lparr> pr_engineId = e,
             pr_hash = to_lower (nt_hash t), pr_name = nt_name t, pr_reason = reason, pr_parkedAt = now,
             pr_probingSince = None, pr_lastProbedAt = None, pr_probeCount = 0, pr_lastSeeders = nt_seedsTotal t \<rparr>] st))"
      by (rule attempt_keeps)
        (use assms(3) acc k row_created call_pause [OF _ assms(1,2) quiet k] in simp_all)
    then show ?thesis using assms(3) by (auto simp: park_one_def acc Some Let_def split: prod.splits)
  qed (use assms(3) in \<open>simp add: park_one_def acc Let_def\<close>)
qed

lemma probe_one_keeps:
  assumes "known e (pr_hash row)" "I (snd acc)"
  shows "I (snd (probe_one h now e ts row acc))"
proof -
  obtain n st where acc: "acc = (n, st)" by (metis prod.exhaust)
  have "I (snd (attempt [engine_call h e (Force (pr_hash row) True),
          change_row h e (pr_hash row) (\<lambda>r. r\<lparr> pr_probingSince := Some now \<rparr>)] st))"
    by (rule attempt_keeps) (use assms acc call_force row_changed in simp_all)
  then show ?thesis using assms(2) row_deleted by (auto simp: probe_one_def acc Let_def split: prod.splits)
qed

lemma judgeProbes_keeps:
  assumes "(e, Some ts) \<in> set engines" "I st"
  shows "I (snd (judgeProbes h now e ts st))"
  unfolding judgeProbes_def
proof (rule fold_keeps)
  fix row :: parked_row and acc :: "(nat \<times> nat) \<times> 'w park_state"
  assume "row \<in> set (filter (\<lambda>r. pr_engineId r = e \<and> pr_probingSince r \<noteq> None) (ps_rows st))" "I (snd acc)"
  moreover have "known e (pr_hash row)" using calculation(1) rows_known [OF assms(2), of row] by auto
  ultimately show "I (snd (judge_one h now e ts row acc))" by (intro judge_one_keeps [OF assms(1)])
qed (simp add: assms(2))

lemma parkDead_keeps:
  assumes "(e, Some ts) \<in> set engines" "I st"
  shows "I (snd (parkDead h parse now rules e ts st))"
  unfolding parkDead_def by (rule fold_keeps) (use assms in \<open>auto intro!: park_one_keeps [OF assms(1)]\<close>)

lemma startProbes_keeps:
  assumes "I st"
  shows "I (snd (startProbes h now rules e ts st))"
  unfolding startProbes_def
  by (rule fold_keeps)
    (use assms rows_known [OF assms] in \<open>auto simp: due_rows_def dest!: in_set_takeD intro!: probe_one_keeps\<close>)

lemma sweep_engine_keeps:
  assumes "el \<in> set engines" "I (snd acc)"
  shows "I (snd (sweep_engine h parse now rules el acc))"
proof -
  obtain e listing where el: "el = (e, listing)" by (metis prod.exhaust)
  obtain tk st where acc: "acc = (tk, st)" by (metis prod.exhaust)
  show ?thesis
  proof (cases listing)
    case (Some ts)
    then have mem: "(e, Some ts) \<in> set engines" using assms(1) el by simp
    show ?thesis
      using assms(2) judgeProbes_keeps [OF mem, of st] parkDead_keeps [OF mem] startProbes_keeps
      by (auto simp: sweep_engine_def el acc Some Let_def split: prod.splits) (metis snd_conv)
  qed (use assms(2) in \<open>simp add: sweep_engine_def el acc\<close>)
qed

lemma park_run_keeps: "I st \<Longrightarrow> I (snd (park_run h parse now rules engines st))"
  unfolding park_run_def by (rule fold_keeps) (auto intro!: sweep_engine_keeps)

end


section \<open>What a sweep may touch\<close>

lemma engine_call_simps [simp]:
  "ps_rows (snd (engine_call h e c st)) = ps_rows st" "ps_calls (snd (engine_call h e c st)) = ps_calls st @ [(e, c)]"
  by (simp_all add: engine_call_def Let_def split: prod.split)

lemma statement_calls [simp]:
  "ps_calls (snd (statement h f st)) = ps_calls st" "ps_calls (snd (park_forget h e hash st)) = ps_calls st"
  "ps_calls (snd (create_row h r st)) = ps_calls st" "ps_calls (snd (change_row h e hash g st)) = ps_calls st"
  by (simp_all add: statement_def park_forget_def create_row_def change_row_def Let_def split: prod.split)

lemma statement_rows: "ps_rows (snd (statement h f st)) = ps_rows st \<or> ps_rows (snd (statement h f st)) = f (ps_rows st)"
  by (simp add: statement_def Let_def split: prod.split)

lemma rows_after:
  "set (ps_rows (snd (park_forget h e hash st))) \<subseteq> set (ps_rows st)"
  "set (ps_rows (snd (create_row h r st))) \<subseteq> insert r (set (ps_rows st))"
  "set (ps_rows (snd (change_row h e hash g st))) \<subseteq> set (ps_rows st) \<union> g ` set (ps_rows st)"
proof -
  show "set (ps_rows (snd (park_forget h e hash st))) \<subseteq> set (ps_rows st)"
    using statement_rows [of h "filter (\<lambda>r. \<not> is_row e hash r)" st] by (auto simp: park_forget_def)
  show "set (ps_rows (snd (create_row h r st))) \<subseteq> insert r (set (ps_rows st))"
    using statement_rows [of h "\<lambda>rows. rows @ [r]" st] by (auto simp: create_row_def)
  show "set (ps_rows (snd (change_row h e hash g st))) \<subseteq> set (ps_rows st) \<union> g ` set (ps_rows st)"
    using statement_rows [of h "update_row e hash g" st] by (auto simp: change_row_def update_row_def)
qed

definition may_touch ::
  "parked_row list \<Rightarrow> (string \<Rightarrow> int option) \<Rightarrow> int \<Rightarrow> parking_rules \<Rightarrow> (string \<times> normalized_torrent list option) list
     \<Rightarrow> string \<Rightarrow> string \<Rightarrow> bool" where
  "may_touch rows parse now rules engines e hash \<longleftrightarrow>
     (\<exists>r\<in>set rows. is_row e hash r) \<or>
     (\<exists>ts t. (e, Some ts) \<in> set engines \<and> t \<in> set ts \<and> to_lower (nt_hash t) = hash \<and> deadReason parse t rules now \<noteq> None)"

fun call_ok :: "(string \<times> normalized_torrent list option) list \<Rightarrow> string \<Rightarrow> park_call \<Rightarrow> bool" where
  "call_ok engines e (Pause hash) =
     (\<exists>ts t. (e, Some ts) \<in> set engines \<and> t \<in> set ts \<and> to_lower (nt_hash t) = hash \<and>
             nt_progress t < 1 \<and> nt_downloadRate t \<le> 0 \<and> nt_seedsConnected t \<le> 0)"
| "call_ok engines e (Resume hash) =
     (\<exists>ts t. (e, Some ts) \<in> set engines \<and> t \<in> set ts \<and> to_lower (nt_hash t) = hash \<and>
             (nt_progress t \<ge> 1 \<or> nt_downloadRate t > 0 \<or> nt_seedsConnected t > 0))"
| "call_ok engines e (Force hash b) = True"

fun call_hash :: "park_call \<Rightarrow> string" where
  "call_hash (Pause x) = x" | "call_hash (Resume x) = x" | "call_hash (Force x b) = x"

definition justified ::
  "'w park_state \<Rightarrow> (string \<Rightarrow> int option) \<Rightarrow> int \<Rightarrow> parking_rules \<Rightarrow> (string \<times> normalized_torrent list option) list
     \<Rightarrow> 'w park_state \<Rightarrow> bool" where
  "justified st0 parse now rules engines st \<longleftrightarrow>
     (\<forall>r\<in>set (ps_rows st). may_touch (ps_rows st0) parse now rules engines (pr_engineId r) (pr_hash r)) \<and>
     (\<exists>calls. ps_calls st = ps_calls st0 @ calls \<and>
        (\<forall>(e, c)\<in>set calls. may_touch (ps_rows st0) parse now rules engines e (call_hash c) \<and> call_ok engines e c))"

lemma justified_call:
  assumes "justified st0 parse now rules engines st" "may_touch (ps_rows st0) parse now rules engines e (call_hash c)"
    "call_ok engines e c"
  shows "justified st0 parse now rules engines (snd (engine_call h e c st))"
proof -
  obtain calls where "ps_calls st = ps_calls st0 @ calls"
    "\<forall>(e, c)\<in>set calls. may_touch (ps_rows st0) parse now rules engines e (call_hash c) \<and> call_ok engines e c"
    using assms(1) by (auto simp: justified_def)
  then show ?thesis using assms unfolding justified_def by (auto intro!: exI [of _ "calls @ [(e, c)]"])
qed

lemma justified_rows:
  assumes "justified st0 parse now rules engines st" "ps_calls st' = ps_calls st"
    "\<And>r. r \<in> set (ps_rows st') \<Longrightarrow> r \<in> set (ps_rows st) \<or> may_touch (ps_rows st0) parse now rules engines (pr_engineId r) (pr_hash r)"
  shows "justified st0 parse now rules engines st'"
  using assms(1,2) assms(3) unfolding justified_def by auto

interpretation just: sweep_invariant "justified st0 parse now rules engines" "may_touch (ps_rows st0) parse now rules engines"
  h parse now rules engines for st0 :: "'w park_state" and h parse now rules engines
proof unfold_locales
  fix st :: "'w park_state" and r
  assume "justified st0 parse now rules engines st" "r \<in> set (ps_rows st)"
  then show "may_touch (ps_rows st0) parse now rules engines (pr_engineId r) (pr_hash r)" by (simp add: justified_def)
next
  fix e ts t
  assume "(e, Some ts) \<in> set engines" "t \<in> set ts" "deadReason parse t rules now \<noteq> None"
  then show "may_touch (ps_rows st0) parse now rules engines e (to_lower (nt_hash t))" by (auto simp: may_touch_def)
next
  fix st :: "'w park_state" and e ts t
  assume j: "justified st0 parse now rules engines st" and t: "(e, Some ts) \<in> set engines" "t \<in> set ts"
    and k: "may_touch (ps_rows st0) parse now rules engines e (to_lower (nt_hash t))"
  show "justified st0 parse now rules engines (snd (engine_call h e (Pause (to_lower (nt_hash t))) st))" if "\<not> alive t"
    using that t k by (intro justified_call [OF j]) (auto simp: alive_def not_le not_less)
  show "justified st0 parse now rules engines (snd (engine_call h e (Resume (to_lower (nt_hash t))) st))" if "alive t"
    using that t k by (intro justified_call [OF j]) (auto simp: alive_def)
next
  fix st :: "'w park_state" and e hash b
  assume "justified st0 parse now rules engines st" "may_touch (ps_rows st0) parse now rules engines e hash"
  then show "justified st0 parse now rules engines (snd (engine_call h e (Force hash b) st))"
    by (intro justified_call) auto
next
  fix st :: "'w park_state" and e hash
  assume j: "justified st0 parse now rules engines st"
  show "justified st0 parse now rules engines (snd (park_forget h e hash st))"
    by (rule justified_rows [OF j]) (use rows_after(1) [of h e hash st] in auto)
  show "justified st0 parse now rules engines (snd (create_row h r st))"
    if "may_touch (ps_rows st0) parse now rules engines (pr_engineId r) (pr_hash r)" for r
    by (rule justified_rows [OF j]) (use rows_after(2) [of h r st] that in auto)
  show "justified st0 parse now rules engines (snd (change_row h e hash f st))"
    if "\<And>r. pr_engineId (f r) = pr_engineId r \<and> pr_hash (f r) = pr_hash r" for f
  proof (rule justified_rows [OF j])
    fix r
    assume "r \<in> set (ps_rows (snd (change_row h e hash f st)))"
    then consider "r \<in> set (ps_rows st)" | x where "x \<in> set (ps_rows st)" "r = f x" using rows_after(3) by blast
    then show "r \<in> set (ps_rows st) \<or> may_touch (ps_rows st0) parse now rules engines (pr_engineId r) (pr_hash r)"
      using that j by cases (auto simp: justified_def)
  qed simp
qed

text \<open>
  C27. A sweep pauses nothing that delivers. Whatever calls and statements fail, a sweep calls the
  engines only for torrents that are parked or whose swarm is dead; it pauses only torrents that are
  incomplete, move no bytes and have no seed connected, and resumes only torrents that are complete,
  move bytes or have a seed.
\<close>

theorem sweep_calls_justified:
  "\<exists>calls. ps_calls (snd (park_run h parse now rules engines st)) = ps_calls st @ calls \<and>
     (\<forall>(e, c)\<in>set calls. may_touch (ps_rows st) parse now rules engines e (call_hash c) \<and> call_ok engines e c)"
proof -
  have "justified st parse now rules engines st" by (auto simp: justified_def may_touch_def is_row_def)
  then have "justified st parse now rules engines (snd (park_run h parse now rules engines st))"
    by (rule just.park_run_keeps)
  then show ?thesis by (simp add: justified_def)
qed


section \<open>Handing back\<close>

definition row_key :: "parked_row \<Rightarrow> string \<times> string" where
  "row_key r = (pr_engineId r, pr_hash r)"

definition unique_rows :: "'w park_state \<Rightarrow> bool" where
  "unique_rows st \<longleftrightarrow> distinct (map row_key (ps_rows st))"

lemma is_row_key: "is_row e hash r \<longleftrightarrow> row_key r = (e, hash)"
  by (auto simp: is_row_def row_key_def)

interpretation uniq: sweep_invariant unique_rows "\<lambda>_ _. True" h parse now rules engines
  for h :: "'w park_host" and parse now rules engines
proof unfold_locales
  fix st :: "'w park_state" and e hash
  assume u: "unique_rows st"
  show "unique_rows (snd (park_forget h e hash st))"
    using u statement_rows [of h "filter (\<lambda>r. \<not> is_row e hash r)" st]
    by (auto simp: unique_rows_def park_forget_def distinct_map_filter)
  show "unique_rows (snd (create_row h r st))" for r
    using u statement_rows [of h "\<lambda>rows. rows @ [r]" st]
    by (force simp: unique_rows_def create_row_def list_ex_iff is_row_key row_key_def)
  show "unique_rows (snd (change_row h e hash f st))"
    if "\<And>r. pr_engineId (f r) = pr_engineId r \<and> pr_hash (f r) = pr_hash r" for f
  proof -
    have "map row_key (update_row e hash f rows) = map row_key rows" for rows
      using that by (simp add: update_row_def row_key_def)
    then show ?thesis
      using u statement_rows [of h "update_row e hash f" st] by (auto simp: unique_rows_def change_row_def)
  qed
qed (simp_all add: unique_rows_def)

lemma rows_stay_unique: "unique_rows st \<Longrightarrow> unique_rows (snd (park_run h parse now rules engines st))"
  by (rule uniq.park_run_keeps)

text \<open>\<open>released\<close>: no row of the torrent is left, and of the calls made since \<open>before\<close> one resumed it.\<close>

definition released :: "(string \<times> park_call) list \<Rightarrow> string \<Rightarrow> string \<Rightarrow> 'w park_state \<Rightarrow> bool" where
  "released before e hash st \<longleftrightarrow>
     (\<forall>r\<in>set (ps_rows st). \<not> (pr_engineId r = e \<and> pr_hash r = hash)) \<and>
     (\<exists>calls. ps_calls st = before @ calls \<and> (e, Resume hash) \<in> set calls)"

interpretation logged: sweep_invariant "\<lambda>st. \<exists>calls. ps_calls st = before @ calls" "\<lambda>_ _. True" h parse now rules engines
  for before and h :: "'w park_host" and parse now rules engines
  by unfold_locales auto

definition host_ok :: "'w park_host \<Rightarrow> bool" where
  "host_ok h \<longleftrightarrow> (\<forall>c w. fst (ho_call h c w)) \<and> (\<forall>w. fst (ho_db h w))"

lemma call_succeeds:
  assumes "host_ok h"
  obtains st' where "engine_call h e c st = (True, st')" "ps_calls st' = ps_calls st @ [(e, c)]"
proof -
  have "fst (engine_call h e c st)" using assms by (simp add: host_ok_def engine_call_def Let_def split: prod.split) (metis fst_conv)
  then have "engine_call h e c st = (True, snd (engine_call h e c st))" by (metis prod.collapse)
  then show thesis using that by (metis engine_call_simps(2))
qed

lemma forget_succeeds:
  assumes "host_ok h"
  shows "ps_rows (snd (park_forget h e hash st)) = filter (\<lambda>r. \<not> is_row e hash r) (ps_rows st)"
proof -
  obtain w where "ho_db h (ps_world st) = (True, w)" using assms unfolding host_ok_def by (metis prod.collapse)
  then show ?thesis by (simp add: park_forget_def statement_def)
qed

lemma judge_releases:
  assumes "host_ok h" "byHash ts (pr_hash row) = Some t" "alive t" "\<exists>calls. ps_calls (snd acc) = before @ calls"
  shows "released before e (pr_hash row) (snd (judge_one h now e ts row acc))"
proof -
  obtain rv sd st where acc: "acc = ((rv, sd), st)" by (metis prod.exhaust)
  obtain st1 where st1: "engine_call h e (Force (pr_hash row) False) st = (True, st1)"
    "ps_calls st1 = ps_calls st @ [(e, Force (pr_hash row) False)]" by (rule call_succeeds [OF assms(1)])
  obtain st2 where st2: "engine_call h e (Resume (pr_hash row)) st1 = (True, st2)"
    "ps_calls st2 = ps_calls st1 @ [(e, Resume (pr_hash row))]" by (rule call_succeeds [OF assms(1)])
  have "snd (judge_one h now e ts row acc) = snd (park_forget h e (pr_hash row) st2)"
    using assms(2,3) st1(1) st2(1) by (simp add: judge_one_def acc attempt.simps Let_def split: prod.split)
  then show ?thesis using st1(2) st2(2) assms(4) by (auto simp: released_def is_row_def acc forget_succeeds [OF assms(1)])
qed

lemma released_invariant:
  fixes h :: "'w park_host"
  assumes "\<And>t. t \<in> set ts \<Longrightarrow> to_lower (nt_hash t) = hash \<Longrightarrow> deadReason parse t rules now = None"
  shows "sweep_invariant (released before e hash) (\<lambda>e' h'. \<not> (e' = e \<and> h' = hash)) h parse now rules [(e, Some ts)]"
proof unfold_locales
  fix st :: "'w park_state" and e' hash'
  assume j: "released before e hash st"
  show "released before e hash (snd (park_forget h e' hash' st))"
    using j rows_after(1) [of h e' hash' st] by (auto simp: released_def)
  show "released before e hash (snd (create_row h r st))" if "\<not> (pr_engineId r = e \<and> pr_hash r = hash)" for r
    using j that rows_after(2) [of h r st] by (auto simp: released_def is_row_def)
  show "released before e hash (snd (change_row h e' hash' f st))"
    if "\<And>r. pr_engineId (f r) = pr_engineId r \<and> pr_hash (f r) = pr_hash r" for f
    using j that rows_after(3) [of h e' hash' f st] by (fastforce simp: released_def is_row_def)
qed (use assms in \<open>auto simp: released_def is_row_def\<close>)

lemma judgeProbes_releases:
  assumes "sweep_invariant (released before e (pr_hash row)) (\<lambda>e' h'. \<not> (e' = e \<and> h' = pr_hash row)) h parse now rules [(e, Some ts)]"
    and "host_ok h" "unique_rows st" "row \<in> set (ps_rows st)" "pr_engineId row = e" "pr_probingSince row \<noteq> None"
    and "byHash ts (pr_hash row) = Some t" "alive t" and before: "before = ps_calls st"
  shows "released before e (pr_hash row) (snd (judgeProbes h now e ts st))"
proof -
  let ?L = "filter (\<lambda>r. pr_engineId r = e \<and> pr_probingSince r \<noteq> None) (ps_rows st)"
  have "row \<in> set ?L" using assms(4-6) by simp
  then obtain as bs where L: "?L = as @ row # bs" by (meson split_list)
  have "distinct (map row_key ?L)" using assms(3) by (simp add: unique_rows_def distinct_map_filter)
  then have other: "pr_hash r \<noteq> pr_hash row" if "r \<in> set bs" for r
  proof -
    have "r \<in> set ?L" unfolding L using that by simp
    then have "pr_engineId r = e" by simp
    then show ?thesis using \<open>distinct (map row_key ?L)\<close> that assms(5) unfolding L
      by (auto simp: row_key_def)
  qed
  have "released before e (pr_hash row) (snd (fold (judge_one h now e ts) bs acc))"
    if "released before e (pr_hash row) (snd acc)" for acc
    by (rule fold_keeps [where I = "released before e (pr_hash row)"])
      (use other that in \<open>auto intro!: sweep_invariant.judge_one_keeps [OF assms(1)]\<close>)
  moreover have "\<exists>calls. ps_calls (snd (fold (judge_one h now e ts) as ((0, 0), st))) = before @ calls"
    by (rule fold_keeps [where I = "\<lambda>st. \<exists>calls. ps_calls st = before @ calls"])
      (use before in \<open>auto intro!: logged.judge_one_keeps [where engines = "[(e, Some ts)]" and before = "ps_calls st"]\<close>)
  ultimately show ?thesis unfolding judgeProbes_def L by (simp add: judge_releases [OF assms(2,7,8)])
qed

lemma byHash_known:
  assumes "distinct (map (\<lambda>t. to_lower (nt_hash t)) ts)" "t \<in> set ts" "to_lower (nt_hash t) = hash"
  shows "byHash ts hash = Some t"
proof (cases "byHash ts hash")
  case None
  then show ?thesis using assms(2,3) by (auto simp: byHash_def find_None_iff)
next
  case (Some t')
  then show ?thesis using byHash_Some [OF Some] assms by (auto simp: distinct_map inj_on_def)
qed

text \<open>
  C28. What finished or moves again is handed back. When the calls and statements succeed and the
  engine lists no hash twice, a sweep of the engine resumes every torrent on probation that has all
  its data, or has a seed connected, or receives bytes, drops its row, and does not park it again in
  that sweep. Having all its data is enough by itself: such a torrent connects to no seeds and
  receives nothing.
\<close>

theorem alive_torrent_released:
  assumes "host_ok h" "unique_rows st" "row \<in> set (ps_rows st)" "pr_engineId row = e" "pr_probingSince row \<noteq> None"
    and "distinct (map (\<lambda>t. to_lower (nt_hash t)) ts)" "t \<in> set ts" "to_lower (nt_hash t) = pr_hash row"
    and "nt_progress t \<ge> 1 \<or> nt_seedsConnected t > 0 \<or> nt_downloadRate t > 0"
  shows "released (ps_calls st) e (pr_hash row) (snd (sweep_engine h parse now rules (e, Some ts) (tk, st)))"
proof -
  let ?hash = "pr_hash row"
  let ?known = "\<lambda>e' h'. \<not> (e' = e \<and> h' = ?hash)"
  have alive: "alive t" using assms(9) by (simp add: alive_def)
  have dead: "deadReason parse t' rules now = None" if "t' \<in> set ts" "to_lower (nt_hash t') = ?hash" for t'
  proof -
    have "t' = t" using that assms(6-8) by (auto simp: distinct_map inj_on_def)
    then show ?thesis using dead_not_alive alive by blast
  qed
  note inv = released_invariant [of ts ?hash parse rules now "ps_calls st" e h, OF dead]
  have mem: "(e, Some ts) \<in> set [(e, Some ts)]" by simp
  have "released (ps_calls st) e ?hash (snd (judgeProbes h now e ts st))"
    by (rule judgeProbes_releases [OF inv assms(1-5) byHash_known [OF assms(6-8)] alive refl])
  then show ?thesis
    using sweep_invariant.parkDead_keeps [OF inv mem] sweep_invariant.startProbes_keeps [OF inv]
    by (auto simp: sweep_engine_def Let_def split: prod.splits) (metis snd_conv)
qed



section \<open>Probing in turn\<close>

lemma nextProbe_comparator: "js_comparator (\<lambda>a b. nextProbeAt rules a - nextProbeAt rules b)"
  by unfold_locales (auto simp: sgn_if)

interpretation probe_order: js_comparator "\<lambda>a b. nextProbeAt rules a - nextProbeAt rules b" for rules
  by (rule nextProbe_comparator)

lemma left_out_of_take:
  assumes "sorted_wrt R xs" "x \<in> set xs" "x \<notin> set (take n xs)"
  shows "length (take n xs) = n \<and> (\<forall>y\<in>set (take n xs). R y x)"
proof -
  have split: "sorted_wrt R (take n xs @ drop n xs)" "x \<in> set (take n xs @ drop n xs)" using assms(1,2) by simp_all
  then have x: "x \<in> set (drop n xs)" using assms(3) by (simp only: set_append Un_iff) simp
  then have "n \<le> length xs" by (metis drop_all empty_iff list.set(1) nle_le)
  then show ?thesis using split(1) x unfolding sorted_wrt_append by simp
qed

text \<open>
  No parked torrent waits behind a later one. Of the parked torrents that are not being probed
  and are due, a sweep probes as many as the batch allows; one that is left out finds the batch full
  of torrents whose turn came no later than its own.
\<close>

theorem probes_in_turn:
  "set (due_rows now rules e rows) \<subseteq> {r \<in> set rows. pr_engineId r = e \<and> pr_probingSince r = None \<and> isProbeDue rules now r} \<and>
   (\<forall>r. r \<in> set rows \<and> pr_engineId r = e \<and> pr_probingSince r = None \<and> isProbeDue rules now r \<and>
        r \<notin> set (due_rows now rules e rows) \<longrightarrow>
      length (due_rows now rules e rows) = nat (pk_probeBatchSize rules) \<and>
      (\<forall>x\<in>set (due_rows now rules e rows). nextProbeAt rules x \<le> nextProbeAt rules r))"
proof -
  let ?n = "nat (pk_probeBatchSize rules)"
  let ?xs = "js_sort (\<lambda>a b. nextProbeAt rules a - nextProbeAt rules b)
    (filter (isProbeDue rules now) (filter (\<lambda>r. pr_engineId r = e \<and> pr_probingSince r = None) rows))"
  have due: "due_rows now rules e rows = take ?n ?xs" by (simp add: due_rows_def)
  have late: "length (take ?n ?xs) = ?n \<and> (\<forall>x\<in>set (take ?n ?xs). nextProbeAt rules x \<le> nextProbeAt rules r)"
    if "r \<in> set ?xs" "r \<notin> set (take ?n ?xs)" for r
    using left_out_of_take [OF probe_order.sort_sorted that] by auto
  have "set (take ?n ?xs) \<subseteq> set ?xs" by (rule set_take_subset)
  then show ?thesis unfolding due using late by auto
qed

lemma backoff_arith:
  fixes i m a b l :: int
  assumes "1 \<le> i" "i \<le> m" "i \<le> a" "a \<le> b" "P \<Longrightarrow> b = 2 * a"
  shows "l + i * 60000 \<le> l + min a m * 60000 \<and> l + min a m * 60000 \<le> l + m * 60000 \<and>
    l + min a m * 60000 - l \<le> l + min b m * 60000 - l \<and>
    (P \<longrightarrow> l + min b m * 60000 - l = min (2 * (l + min a m * 60000 - l)) (m * 60000))"
  using assms by (cases P) (auto simp: min_def)

text \<open>
  Probes back off within bounds. Under any rules the service stores, the pause before the next
  probe is at least the interval and at most the maximum, doubles with every failed probe until the
  maximum is reached, and never shrinks.
\<close>

theorem probe_backoff_bounded:
  assumes "pr_lastProbedAt row = Some l" and "rules = setRules p stored"
  shows "l + pk_probeIntervalMinutes rules * 60000 \<le> nextProbeAt rules row \<and>
    nextProbeAt rules row \<le> l + pk_maxProbeIntervalMinutes rules * 60000 \<and>
    nextProbeAt rules row - l \<le> nextProbeAt rules (row\<lparr> pr_probeCount := pr_probeCount row + 1 \<rparr>) - l \<and>
    (0 < pr_probeCount row \<longrightarrow>
       nextProbeAt rules (row\<lparr> pr_probeCount := pr_probeCount row + 1 \<rparr>) - l =
         min (2 * (nextProbeAt rules row - l)) (pk_maxProbeIntervalMinutes rules * 60000))"
proof -
  have ok: "1 \<le> pk_probeIntervalMinutes rules" "pk_probeIntervalMinutes rules \<le> pk_maxProbeIntervalMinutes rules"
    using setRules_ok [of p stored] assms(2) by (simp_all add: rules_ok_def)
  let ?i = "pk_probeIntervalMinutes rules" and ?m = "pk_maxProbeIntervalMinutes rules" and ?c = "pr_probeCount row"
  have grow: "?i \<le> ?i * 2 ^ k" for k :: nat using ok(1) by simp
  have twice: "?i * 2 ^ ?c = 2 * (?i * 2 ^ (?c - 1))" if "0 < ?c" using that by (cases ?c) simp_all
  have mono: "?i * 2 ^ (?c - 1) \<le> ?i * 2 ^ ?c" using ok(1) by (intro mult_left_mono power_increasing) simp_all
  have at: "nextProbeAt rules row = l + min (?i * 2 ^ (?c - 1)) ?m * 60000"
    "nextProbeAt rules (row\<lparr> pr_probeCount := ?c + 1 \<rparr>) = l + min (?i * 2 ^ ?c) ?m * 60000"
    using assms(1) by (simp_all add: nextProbeAt_def)
  show ?thesis unfolding at by (rule backoff_arith [OF ok grow mono twice])
qed


section \<open>Examples\<close>

definition always :: "unit park_host" where
  "always = \<lparr> ho_call = (\<lambda>c w. (True, w)), ho_db = (\<lambda>w. (True, w)) \<rparr>"

definition held :: "nat \<Rightarrow> int option \<Rightarrow> parked_row" where
  "held n probing = \<lparr> pr_engineId = ''q'', pr_hash = ''h'', pr_name = ''h'', pr_reason = Stalled, pr_parkedAt = 0,
     pr_probingSince = probing, pr_lastProbedAt = Some 1000, pr_probeCount = n, pr_lastSeeders = 0 \<rparr>"

definition dead_listing :: "(string \<times> normalized_torrent list option) list" where
  "dead_listing = [(''q'', Some [torrent ''H'' TS_DOWNLOADING 0 0\<lparr> nt_addedAt := Some ''x'' \<rparr>])]"

theorem sweep_calls_justified_witness:
  "ps_calls (snd (park_run always (\<lambda>_. Some 0) 86400000 DEFAULT_PARKING_RULES dead_listing \<lparr> ps_rows = [], ps_calls = [], ps_world = () \<rparr>)) =
     [(''q'', Pause ''h''), (''q'', Force ''h'' True)] \<and> call_ok dead_listing ''q'' (Pause ''h'')"
proof -
  let ?st = "\<lparr> ps_rows = [], ps_calls = [], ps_world = () \<rparr>"
  have calls: "ps_calls (snd (park_run always (\<lambda>_. Some 0) 86400000 DEFAULT_PARKING_RULES dead_listing ?st)) =
     [(''q'', Pause ''h''), (''q'', Force ''h'' True)]" by code_simp
  show ?thesis
    using sweep_calls_justified [of always "\<lambda>_. Some 0" 86400000 DEFAULT_PARKING_RULES dead_listing ?st] unfolding calls by auto
qed

theorem probes_in_turn_witness:
  "nextProbeAt (DEFAULT_PARKING_RULES\<lparr> pk_probeBatchSize := 1 \<rparr>) (held 1 None) \<le>
     nextProbeAt (DEFAULT_PARKING_RULES\<lparr> pk_probeBatchSize := 1 \<rparr>) (held 2 None)"
proof -
  let ?r = "DEFAULT_PARKING_RULES\<lparr> pk_probeBatchSize := 1 \<rparr>"
  have "due_rows 100000000 ?r ''q'' [held 2 None, held 1 None] = [held 1 None]" "isProbeDue ?r 100000000 (held 2 None)"
    "held 2 None \<noteq> held 1 None" "pr_engineId (held 2 None) = ''q''" "pr_probingSince (held 2 None) = None" by code_simp+
  then show ?thesis using probes_in_turn [of 100000000 ?r "''q''" "[held 2 None, held 1 None]"] by simp
qed

theorem alive_torrent_released_witness:
  "nt_seedsConnected (torrent ''h'' TS_PAUSED 1 1000) = 0 \<and> nt_downloadRate (torrent ''h'' TS_PAUSED 1 1000) = 0 \<and>
   released [] ''q'' ''h'' (snd (sweep_engine always (\<lambda>_. None) 5 DEFAULT_PARKING_RULES (''q'', Some [torrent ''h'' TS_PAUSED 1 1000])
     (empty_summary, \<lparr> ps_rows = [held 3 (Some 1)], ps_calls = [], ps_world = () \<rparr>)))"
proof -
  let ?st = "\<lparr> ps_rows = [held 3 (Some 1)], ps_calls = [], ps_world = () \<rparr>"
  have "to_lower (nt_hash (torrent ''h'' TS_PAUSED 1 1000)) = pr_hash (held 3 (Some 1))"
    "pr_hash (held 3 (Some 1)) = ''h''" "pr_engineId (held 3 (Some 1)) = ''q''"
    "nt_seedsConnected (torrent ''h'' TS_PAUSED 1 1000) = 0" "nt_downloadRate (torrent ''h'' TS_PAUSED 1 1000) = 0"
    by code_simp+
  moreover have "host_ok always" by (simp add: host_ok_def always_def)
  ultimately show ?thesis
    using alive_torrent_released [of always ?st "held 3 (Some 1)" "''q''" "[torrent ''h'' TS_PAUSED 1 1000]"
      "torrent ''h'' TS_PAUSED 1 1000" "\<lambda>_. None" 5 DEFAULT_PARKING_RULES empty_summary]
    by (simp add: unique_rows_def held_def torrent_def)
qed

theorem probe_backoff_bounded_witness:
  "nextProbeAt (setRules \<lparr> rp_enabled = Some True, rp_minSeeders = None, rp_deadAfterMinutes = None, rp_stalledAfterMinutes = None,
       rp_probeBatchSize = None, rp_probeIntervalMinutes = Some (5 / 2), rp_maxProbeIntervalMinutes = Some 30 \<rparr> None) (held 9 None)
     \<le> 1000 + 30 * 60000"
proof -
  let ?p = "\<lparr> rp_enabled = Some True, rp_minSeeders = None, rp_deadAfterMinutes = None, rp_stalledAfterMinutes = None,
       rp_probeBatchSize = None, rp_probeIntervalMinutes = Some (5 / 2), rp_maxProbeIntervalMinutes = Some (30 :: rat) \<rparr>"
  have "pr_lastProbedAt (held 9 None) = Some 1000" "pk_maxProbeIntervalMinutes (setRules ?p None) = 30" by code_simp+
  then show ?thesis using probe_backoff_bounded [of "held 9 None" 1000 "setRules ?p None" ?p None] by simp
qed

text \<open>
  A row is written after its torrent was paused: when writing it fails, the torrent stays paused, is
  not judged again because it is not downloading, and is never probed.
\<close>

lemma paused_without_a_row:
  "park_run \<lparr> ho_call = (\<lambda>c w. (True, w)), ho_db = (\<lambda>w. (False, w)) \<rparr> (\<lambda>_. Some 0) 86400000 (DEFAULT_PARKING_RULES\<lparr> pk_enabled := True \<rparr>)
     [(''q'', Some [torrent ''h'' TS_DOWNLOADING 0 0\<lparr> nt_addedAt := Some ''x'' \<rparr>])] \<lparr> ps_rows = [], ps_calls = [], ps_world = () \<rparr> =
     (empty_summary, \<lparr> ps_rows = [], ps_calls = [(''q'', Pause ''h'')], ps_world = () \<rparr>) \<and>
   deadReason (\<lambda>_. Some 0) (torrent ''h'' TS_PAUSED 0 0\<lparr> nt_addedAt := Some ''x'' \<rparr>) DEFAULT_PARKING_RULES now = None"
proof -
  have "park_run \<lparr> ho_call = (\<lambda>c w. (True, w)), ho_db = (\<lambda>w. (False, w)) \<rparr> (\<lambda>_. Some 0) 86400000 (DEFAULT_PARKING_RULES\<lparr> pk_enabled := True \<rparr>)
     [(''q'', Some [torrent ''h'' TS_DOWNLOADING 0 0\<lparr> nt_addedAt := Some ''x'' \<rparr>])] \<lparr> ps_rows = [], ps_calls = [], ps_world = () \<rparr> =
     (empty_summary, \<lparr> ps_rows = [], ps_calls = [(''q'', Pause ''h'')], ps_world = () \<rparr>)" by code_simp
  then show ?thesis by (simp add: deadReason_def torrent_def)
qed

end
