(* ===== verification/Bencode.thy ===== *)
theory Bencode
  imports Js_Prelude
begin

text \<open>
  The reader of torrent files, \<^verbatim>\<open>infrastructure/rtorrent/bencode.ts\<close>, which finds the
  bytes of the info dictionary. A buffer is a string of bytes and a position an offset in it; a byte
  beyond the end reads as the zero character, as \<^verbatim>\<open>String.fromCharCode(undefined)\<close> does. The
  reader is recursive and may run for ever, so it takes fuel: \<open>None\<close> is that the fuel did not
  suffice, \<open>Some (Inl err)\<close> a thrown error. Keys are kept as bytes, and the number an integer
  is read as is exact. SHA-1 is the parameter \<open>sha1\<close>.

  The theorems are stated against an encoder of the format, \<open>encode\<close>: an encoded file gives the
  hash of exactly the bytes of its info value, and fuel as long as the file suffices; every file that
  ends as an encoded one does is read in bounded time; a file that does not may never be.
\<close>

section \<open>Buffers\<close>

definition byte_at :: "string \<Rightarrow> nat \<Rightarrow> char" where
  "byte_at buf pos = (if pos < length buf then buf ! pos else CHR 0x00)"

fun first_index :: "char \<Rightarrow> string \<Rightarrow> nat option" where
  "first_index c [] = None"
| "first_index c (d # s) = (if d = c then Some 0 else map_option Suc (first_index c s))"

text \<open>\<^verbatim>\<open>indexOf\<close> with a start; no occurrence is \<open>None\<close>, which the code has as -1.\<close>

definition index_of :: "string \<Rightarrow> char \<Rightarrow> nat \<Rightarrow> nat option" where
  "index_of buf c pos = map_option (\<lambda>i. pos + i) (first_index c (drop pos buf))"

definition slice :: "string \<Rightarrow> nat \<Rightarrow> nat \<Rightarrow> string" where
  "slice buf a b = take (b - a) (drop a buf)"

text \<open>Reading as ASCII drops the highest bit.\<close>

definition ascii_byte :: "char \<Rightarrow> char" where
  "ascii_byte c = char_of ((of_char c :: nat) mod 128)"

text \<open>\<^verbatim>\<open>parseInt(s, 10)\<close>: white space, a sign, then as many digits as there are.\<close>

definition parse_int :: "string \<Rightarrow> int option" where
  "parse_int s =
     (let t = dropWhile is_ws s;
          neg = (case t of [] \<Rightarrow> False | c # _ \<Rightarrow> c = CHR ''-'');
          u = (case t of [] \<Rightarrow> [] | c # r \<Rightarrow> if c = CHR ''-'' \<or> c = CHR ''+'' then r else t);
          ds = takeWhile is_digit u
      in if ds = [] then None else Some (if neg then - int (digits_val ds) else int (digits_val ds)))"


section \<open>The reader\<close>

datatype bvalue =
  BInt "int option" | BString string | BList "bvalue list" | BDict "(string \<times> bvalue \<times> nat \<times> nat) list"

type_synonym 'a reading = "(string + 'a \<times> nat) option"

definition readInt :: "string \<Rightarrow> nat \<Rightarrow> bvalue \<times> nat" where
  "readInt buf pos =
     (case index_of buf (CHR ''e'') (pos + 1) of
        None \<Rightarrow> (BInt None, 0)
      | Some end \<Rightarrow> (BInt (parse_int (map ascii_byte (slice buf (pos + 1) end))), end + 1))"

definition readString :: "string \<Rightarrow> nat \<Rightarrow> string + string \<times> nat" where
  "readString buf pos =
     (case index_of buf (CHR '':'') pos of
        None \<Rightarrow> Inl ''Invalid bencode: missing string length delimiter''
      | Some colon \<Rightarrow>
          (case parse_int (map ascii_byte (slice buf pos colon)) of
             None \<Rightarrow> Inl ''Invalid bencode: string length out of bounds''
           | Some len \<Rightarrow>
               (let start = colon + 1 in
                if len < 0 \<or> int start + len > int (length buf) then Inl ''Invalid bencode: string length out of bounds''
                else Inr (slice buf start (start + nat len), start + nat len))))"

definition set_entry :: "string \<Rightarrow> 'a \<Rightarrow> (string \<times> 'a) list \<Rightarrow> (string \<times> 'a) list" where
  "set_entry k v m = (k, v) # filter (\<lambda>(k', _). k' \<noteq> k) m"

fun decode :: "nat \<Rightarrow> string \<Rightarrow> nat \<Rightarrow> bvalue reading"
  and readList :: "nat \<Rightarrow> string \<Rightarrow> nat \<Rightarrow> bvalue list \<Rightarrow> bvalue list reading"
  and readDict :: "nat \<Rightarrow> string \<Rightarrow> nat \<Rightarrow> (string \<times> bvalue \<times> nat \<times> nat) list \<Rightarrow> (string \<times> bvalue \<times> nat \<times> nat) list reading" where
  "decode 0 buf pos = None"
| "decode (Suc n) buf pos =
     (let c = byte_at buf pos in
      if c = CHR ''i'' then Some (Inr (readInt buf pos))
      else if c = CHR ''l'' then
        (case readList n buf (pos + 1) [] of
           None \<Rightarrow> None | Some (Inl err) \<Rightarrow> Some (Inl err) | Some (Inr (vs, p)) \<Rightarrow> Some (Inr (BList vs, p)))
      else if c = CHR ''d'' then
        (case readDict n buf (pos + 1) [] of
           None \<Rightarrow> None | Some (Inl err) \<Rightarrow> Some (Inl err) | Some (Inr (m, p)) \<Rightarrow> Some (Inr (BDict m, p)))
      else if is_digit c then
        (case readString buf pos of Inl err \<Rightarrow> Some (Inl err) | Inr (s, p) \<Rightarrow> Some (Inr (BString s, p)))
      else Some (Inl (''Invalid bencode at offset '' @ nat_digits pos)))"
| "readList 0 buf pos out = None"
| "readList (Suc n) buf pos out =
     (if byte_at buf pos = CHR ''e'' then Some (Inr (out, pos + 1))
      else (case decode n buf pos of
              None \<Rightarrow> None | Some (Inl err) \<Rightarrow> Some (Inl err)
            | Some (Inr (v, p)) \<Rightarrow> readList n buf p (out @ [v])))"
| "readDict 0 buf pos out = None"
| "readDict (Suc n) buf pos out =
     (if byte_at buf pos = CHR ''e'' then Some (Inr (out, pos + 1))
      else (case readString buf pos of
              Inl err \<Rightarrow> Some (Inl err)
            | Inr (key, start) \<Rightarrow>
                (case decode n buf start of
                   None \<Rightarrow> None | Some (Inl err) \<Rightarrow> Some (Inl err)
                 | Some (Inr (v, p)) \<Rightarrow> readDict n buf p (set_entry key (v, start, p) out))))"

text \<open>The first byte of a file is passed over whatever it is.\<close>

definition infoHashFromTorrent :: "nat \<Rightarrow> (string \<Rightarrow> string) \<Rightarrow> string \<Rightarrow> (string + string) option" where
  "infoHashFromTorrent fuel sha1 buf =
     (case readDict fuel buf 1 [] of
        None \<Rightarrow> None
      | Some (Inl err) \<Rightarrow> Some (Inl err)
      | Some (Inr (m, _)) \<Rightarrow>
          (case map_of m ''info'' of
             None \<Rightarrow> Some (Inl ''Torrent file missing info dictionary'')
           | Some (v, start, end) \<Rightarrow> Some (Inr (to_lower (sha1 (slice buf start end))))))"


section \<open>The format\<close>

datatype benc = EInt int | EStr string | EList "benc list" | EDict "(string \<times> benc) list"

definition encode_string :: "string \<Rightarrow> string" where
  "encode_string s = nat_digits (length s) @ '':'' @ s"

fun encode :: "benc \<Rightarrow> string" where
  "encode (EInt i) = ''i'' @ int_digits i @ ''e''"
| "encode (EStr s) = encode_string s"
| "encode (EList vs) = ''l'' @ concat (map encode vs) @ ''e''"
| "encode (EDict kvs) = ''d'' @ concat (map (\<lambda>(k, v). encode_string k @ encode v) kvs) @ ''e''"


section \<open>Reading what was encoded\<close>

lemma byte_at_here [simp]: "byte_at (pre @ c # r) (length pre) = c"
  by (simp add: byte_at_def)

lemma first_index_append: "c \<notin> set w \<Longrightarrow> first_index c (w @ c # r) = Some (length w)"
  by (induction w) auto

lemma index_of_here: "c \<notin> set w \<Longrightarrow> index_of (pre @ w @ c # r) c (length pre) = Some (length pre + length w)"
  by (simp add: index_of_def first_index_append)

lemma slice_here [simp]: "slice (pre @ w @ r) (length pre) (length pre + length w) = w"
  by (simp add: slice_def)

lemma ascii_digits: "\<forall>c\<in>set w. is_digit c \<Longrightarrow> map ascii_byte w = w"
  by (intro map_idI) (auto simp: ascii_byte_def is_digit_def)

lemma digit_chars: "is_digit c \<Longrightarrow> c \<noteq> CHR ''-'' \<and> c \<noteq> CHR ''+'' \<and> c \<noteq> CHR '':'' \<and> c \<noteq> CHR ''e'' \<and> c \<noteq> CHR ''i'' \<and>
    c \<noteq> CHR ''l'' \<and> c \<noteq> CHR ''d'' \<and> \<not> is_ws c"
  by (auto simp: is_digit_def is_ws_def)

lemma parse_int_digits: "parse_int (nat_digits n) = Some (int n)"
proof -
  obtain c r where cr: "nat_digits n = c # r" using nat_digits_nonempty by (metis list.exhaust)
  have all: "\<forall>x\<in>set (nat_digits n). is_digit x" using nat_digits_is_digit by blast
  then have "is_digit c" by (simp add: cr)
  with all have "dropWhile is_ws (nat_digits n) = nat_digits n" "takeWhile is_digit (nat_digits n) = nat_digits n"
    using digit_chars cr by (auto simp: takeWhile_eq_all_conv)
  then show ?thesis using digit_chars [OF \<open>is_digit c\<close>] digits_val_nat_digits [of n]
    by (simp add: parse_int_def Let_def cr)
qed

lemma readString_encode:
  "readString (pre @ encode_string s @ post) (length pre) = Inr (s, length pre + length (encode_string s))"
proof -
  let ?buf = "pre @ encode_string s @ post" and ?ds = "nat_digits (length s)"
  have buf: "?buf = pre @ ?ds @ CHR '':'' # s @ post" by (simp add: encode_string_def)
  have digits: "\<forall>c\<in>set ?ds. is_digit c" using nat_digits_is_digit by blast
  then have "CHR '':'' \<notin> set ?ds" using digit_chars by blast
  then have colon: "index_of ?buf (CHR '':'') (length pre) = Some (length pre + length ?ds)"
    unfolding buf by (rule index_of_here)
  have "slice ?buf (length pre) (length pre + length ?ds) = ?ds" unfolding buf by (rule slice_here)
  then have len: "parse_int (map ascii_byte (slice ?buf (length pre) (length pre + length ?ds))) = Some (int (length s))"
    using ascii_digits [OF digits] by (simp add: parse_int_digits)
  have "slice ?buf (length pre + length ?ds + 1) (length pre + length ?ds + 1 + length s) = s"
    using slice_here [of "pre @ ?ds @ '':''" s post] by (simp add: buf)
  then show ?thesis using colon len by (simp add: readString_def encode_string_def)
qed

lemma readInt_encode:
  "snd (readInt (pre @ encode (EInt i) @ post) (length pre)) = length pre + length (encode (EInt i))"
proof -
  have "CHR ''e'' \<notin> set (int_digits i)"
    using nat_digits_is_digit digit_chars by (auto simp: int_digits_def split: if_splits)
  then have "index_of ((pre @ ''i'') @ int_digits i @ CHR ''e'' # post) (CHR ''e'') (length (pre @ ''i'')) =
      Some (length (pre @ ''i'') + length (int_digits i))"
    by (rule index_of_here)
  then show ?thesis by (simp add: readInt_def)
qed

lemma encode_string_first: "\<exists>c r. encode_string s = c # r \<and> is_digit c"
  using nat_digits_is_digit [of _ "length s"] nat_digits_nonempty [of "length s"]
  by (cases "nat_digits (length s)") (auto simp: encode_string_def)

lemma encode_first: "\<exists>c r. encode v = c # r \<and> c \<noteq> CHR ''e''"
  using encode_string_first digit_chars by (cases v) fastforce+

definition body :: "(string \<times> benc) list \<Rightarrow> string" where
  "body kvs = concat (map (\<lambda>(k, v). encode_string k @ encode v) kvs)"

text \<open>That a value is read wherever its encoding stands, with fuel as long as the encoding.\<close>

definition reads :: "benc \<Rightarrow> bool" where
  "reads v \<longleftrightarrow> (\<forall>n pre post. length (encode v) \<le> n \<longrightarrow>
     (\<exists>bv. decode n (pre @ encode v @ post) (length pre) = Some (Inr (bv, length pre + length (encode v)))))"

lemma readsD:
  assumes "reads v" "length (encode v) \<le> n"
  obtains bv where "decode n (pre @ encode v @ post) (length pre) = Some (Inr (bv, length pre + length (encode v)))"
  using assms unfolding reads_def by blast

lemma readList_encode:
  assumes "\<And>v. v \<in> set vs \<Longrightarrow> reads v" "length (concat (map encode vs)) + 1 \<le> n"
  shows "\<exists>out'. readList n (pre @ concat (map encode vs) @ CHR ''e'' # post) (length pre) out =
    Some (Inr (out', length pre + length (concat (map encode vs)) + 1))"
  using assms
proof (induction vs arbitrary: n pre out)
  case Nil
  then show ?case by (cases n) auto
next
  case (Cons v vs)
  then obtain m where n: "n = Suc m" by (cases n) auto
  let ?rest = "concat (map encode vs) @ CHR ''e'' # post"
  obtain c r where cr: "encode v = c # r" "c \<noteq> CHR ''e''" using encode_first by blast
  have len: "length (encode v) \<le> m" "length (concat (map encode vs)) + 1 \<le> m" using Cons.prems(2) cr(1) by (simp_all add: n)
  obtain bv where bv: "decode m (pre @ encode v @ ?rest) (length pre) = Some (Inr (bv, length pre + length (encode v)))"
    by (rule readsD [OF _ len(1)]) (use Cons.prems(1) in simp)
  obtain out' where "readList m ((pre @ encode v) @ ?rest) (length (pre @ encode v)) (out @ [bv]) =
      Some (Inr (out', length (pre @ encode v) + length (concat (map encode vs)) + 1))"
    using Cons.IH [OF _ len(2), of "pre @ encode v"] Cons.prems(1) by auto
  then show ?case using bv cr by (simp add: n)
qed

lemma readDict_encode:
  assumes "\<And>k v. (k, v) \<in> set kvs \<Longrightarrow> reads v" "length (body kvs) + 1 \<le> n"
  shows "\<exists>m. readDict n (pre @ body kvs @ CHR ''e'' # post) (length pre) out = Some (Inr (m, length pre + length (body kvs) + 1)) \<and>
    (\<forall>k. case map_of (rev kvs) k of
           None \<Rightarrow> map_of m k = map_of out k
         | Some v \<Rightarrow> \<exists>bv q. map_of m k = Some (bv, q, q + length (encode v)) \<and>
                     slice (pre @ body kvs @ CHR ''e'' # post) q (q + length (encode v)) = encode v)"
  using assms
proof (induction kvs arbitrary: n pre out)
  case Nil
  then show ?case by (cases n) (auto simp: body_def)
next
  case (Cons kv kvs)
  obtain k v where kv: "kv = (k, v)" by (metis prod.exhaust)
  obtain m where n: "n = Suc m" using Cons.prems(2) by (cases n) auto
  let ?rest = "body kvs @ CHR ''e'' # post" and ?pre = "pre @ encode_string k @ encode v" and ?at = "length (pre @ encode_string k)"
  obtain c r where cr: "encode_string k = c # r" "is_digit c" using encode_string_first by blast
  have buf: "pre @ body (kv # kvs) @ CHR ''e'' # post = pre @ encode_string k @ encode v @ ?rest"
    by (simp add: body_def kv)
  have len: "length (encode v) \<le> m" "length (body kvs) + 1 \<le> m" using Cons.prems(2) cr(1) by (simp_all add: n body_def kv)
  obtain bv where bv: "decode m ((pre @ encode_string k) @ encode v @ ?rest) ?at = Some (Inr (bv, ?at + length (encode v)))"
    by (rule readsD [OF _ len(1)]) (use Cons.prems(1) [of k v] kv in simp)
  obtain out' where rec: "readDict m (?pre @ ?rest) (length ?pre) (set_entry k (bv, ?at, ?at + length (encode v)) out) =
      Some (Inr (out', length ?pre + length (body kvs) + 1))"
    and last: "\<forall>x. case map_of (rev kvs) x of
           None \<Rightarrow> map_of out' x = map_of (set_entry k (bv, ?at, ?at + length (encode v)) out) x
         | Some v \<Rightarrow> \<exists>bv q. map_of out' x = Some (bv, q, q + length (encode v)) \<and>
                     slice (?pre @ ?rest) q (q + length (encode v)) = encode v"
    using Cons.IH [OF _ len(2), of ?pre "set_entry k (bv, ?at, ?at + length (encode v)) out"] Cons.prems(1) by auto
  have step: "readDict n (pre @ body (kv # kvs) @ CHR ''e'' # post) (length pre) out =
      Some (Inr (out', length pre + length (body (kv # kvs)) + 1))"
    using rec bv readString_encode [of pre k "encode v @ ?rest"] cr digit_chars [OF cr(2)]
    unfolding buf n by (simp add: body_def kv add.assoc)
  have entry: "map_of (set_entry k x out) y = (if y = k then Some x else map_of out y)" for x y
    by (induction out) (auto simp: set_entry_def)
  have "slice (?pre @ ?rest) ?at (?at + length (encode v)) = encode v"
    using slice_here [of "pre @ encode_string k" "encode v" ?rest] by simp
  then have here: "slice (pre @ body (kv # kvs) @ CHR ''e'' # post) ?at (?at + length (encode v)) = encode v"
    unfolding buf by simp
  have "case map_of (rev (kv # kvs)) x of
       None \<Rightarrow> map_of out' x = map_of out x
     | Some v \<Rightarrow> \<exists>bv q. map_of out' x = Some (bv, q, q + length (encode v)) \<and>
                 slice (pre @ body (kv # kvs) @ CHR ''e'' # post) q (q + length (encode v)) = encode v" for x
    using last [rule_format, of x] here by (cases "map_of (rev kvs) x") (auto simp: map_add_def entry kv buf [unfolded kv])
  then show ?case using step by blast
qed


lemma all_read: "reads v"
proof (induction v)
  case (EInt i)
  show ?case unfolding reads_def
  proof (intro allI impI)
    fix n pre post
    assume "length (encode (EInt i)) \<le> n"
    then obtain m where n: "n = Suc m" by (cases n) auto
    show "\<exists>bv. decode n (pre @ encode (EInt i) @ post) (length pre) = Some (Inr (bv, length pre + length (encode (EInt i))))"
      using readInt_encode [of pre i post] by (cases "readInt (pre @ encode (EInt i) @ post) (length pre)") (simp add: n)
  qed
next
  case (EStr s)
  obtain c r where cr: "encode_string s = c # r" "is_digit c" using encode_string_first by blast
  show ?case unfolding reads_def
  proof (intro allI impI)
    fix n pre post
    assume "length (encode (EStr s)) \<le> n"
    then obtain m where n: "n = Suc m" using cr by (cases n) auto
    show "\<exists>bv. decode n (pre @ encode (EStr s) @ post) (length pre) = Some (Inr (bv, length pre + length (encode (EStr s))))"
      using readString_encode [of pre s post] cr digit_chars [OF cr(2)] by (simp add: n)
  qed
next
  case (EList vs)
  show ?case unfolding reads_def
  proof (intro allI impI)
    fix n pre post
    assume len: "length (encode (EList vs)) \<le> n"
    then obtain m where n: "n = Suc m" by (cases n) auto
    have "\<exists>out'. readList m ((pre @ ''l'') @ concat (map encode vs) @ CHR ''e'' # post) (length (pre @ ''l'')) [] =
        Some (Inr (out', length (pre @ ''l'') + length (concat (map encode vs)) + 1))"
      by (rule readList_encode) (use EList len in \<open>auto simp: n\<close>)
    then show "\<exists>bv. decode n (pre @ encode (EList vs) @ post) (length pre) = Some (Inr (bv, length pre + length (encode (EList vs))))"
      by (auto simp: n add.assoc)
  qed
next
  case (EDict kvs)
  have read: "reads v" if "(k, v) \<in> set kvs" for k v using EDict.IH [of "(k, v)" v] that by auto
  show ?case unfolding reads_def
  proof (intro allI impI)
    fix n pre post
    assume len: "length (encode (EDict kvs)) \<le> n"
    then obtain m where n: "n = Suc m" by (cases n) auto
    have "\<exists>out'. readDict m ((pre @ ''d'') @ body kvs @ CHR ''e'' # post) (length (pre @ ''d'')) [] =
        Some (Inr (out', length (pre @ ''d'') + length (body kvs) + 1))"
      using readDict_encode [of kvs m "pre @ ''d''" post "[]"] read len by (auto simp: n body_def)
    then show "\<exists>bv. decode n (pre @ encode (EDict kvs) @ post) (length pre) = Some (Inr (bv, length pre + length (encode (EDict kvs))))"
      by (auto simp: n add.assoc body_def)
  qed
qed

text \<open>
  C33. The hash of a torrent file is the hash of its info value. For every file in the format, whatever
  its values and however deep they nest, fuel as long as the file suffices, and the result is the
  digest of exactly the bytes the info value is encoded in, the last one when the key repeats; a file
  without an info key is refused. Bytes after the dictionary do not matter.
\<close>

theorem infoHash_of_encoded:
  assumes "length (encode (EDict kvs)) \<le> fuel"
  shows "infoHashFromTorrent fuel sha1 (encode (EDict kvs) @ post) =
    (case map_of (rev kvs) ''info'' of
       None \<Rightarrow> Some (Inl ''Torrent file missing info dictionary'')
     | Some v \<Rightarrow> Some (Inr (to_lower (sha1 (encode v)))))"
proof -
  have len: "length (body kvs) + 1 \<le> fuel" using assms by (simp add: body_def)
  obtain m where m: "readDict fuel (''d'' @ body kvs @ CHR ''e'' # post) (length ''d'') [] = Some (Inr (m, length ''d'' + length (body kvs) + 1))"
    and info: "case map_of (rev kvs) ''info'' of
           None \<Rightarrow> map_of m ''info'' = map_of [] ''info''
         | Some v \<Rightarrow> \<exists>bv q. map_of m ''info'' = Some (bv, q, q + length (encode v)) \<and>
                     slice (''d'' @ body kvs @ CHR ''e'' # post) q (q + length (encode v)) = encode v"
    using readDict_encode [OF all_read len, of "''d''" post "[]"] by meson
  have buf: "encode (EDict kvs) @ post = ''d'' @ body kvs @ CHR ''e'' # post" by (simp add: body_def)
  show ?thesis using m info unfolding infoHashFromTorrent_def buf by (auto split: option.splits)
qed

theorem infoHash_of_encoded_witness:
  "infoHashFromTorrent 50 (\<lambda>s. s) (encode (EDict [(''name'', EStr ''x:e''), (''info'', EList [EInt (-3)])]) @ ''??'') = Some (Inr ''li-3ee'')"
proof -
  have "length (encode (EDict [(''name'', EStr ''x:e''), (''info'', EList [EInt (-3)])])) \<le> 50" by code_simp
  moreover have "to_lower (encode (EList [EInt (-3)])) = ''li-3ee''" by code_simp
  ultimately show ?thesis
    using infoHash_of_encoded [of "[(''name'', EStr ''x:e''), (''info'', EList [EInt (-3)])]" 50 "\<lambda>s. s" "''??''"] by simp
qed


section \<open>Whether reading ends\<close>

definition ends_e :: "string \<Rightarrow> bool" where
  "ends_e buf \<longleftrightarrow> buf \<noteq> [] \<and> last buf = CHR ''e''"

lemma first_index_bound: "first_index c w = Some i \<Longrightarrow> i < length w"
  by (induction w arbitrary: i) (auto split: if_splits)

lemma first_index_some: "c \<in> set w \<Longrightarrow> first_index c w \<noteq> None"
  by (induction w) auto

lemma index_of_bound: "index_of buf c pos = Some i \<Longrightarrow> pos \<le> i \<and> i < length buf"
  using first_index_bound [of c "drop pos buf"] by (auto simp: index_of_def)

lemma readString_progress: "readString buf pos = Inr (s, p) \<Longrightarrow> pos < p \<and> p \<le> length buf"
  using index_of_bound [of buf "CHR '':''" pos] by (auto simp: readString_def Let_def split: option.splits if_splits)

lemma byte_at_inside: "byte_at buf pos \<noteq> CHR 0x00 \<Longrightarrow> pos < length buf"
  by (auto simp: byte_at_def split: if_splits)

lemma readInt_progress:
  assumes "ends_e buf" "byte_at buf pos = CHR ''i''"
  shows "pos < snd (readInt buf pos) \<and> snd (readInt buf pos) \<le> length buf"
proof -
  have pos: "pos < length buf" using byte_at_inside assms(2) by simp
  have "pos \<noteq> length buf - 1" using assms pos by (auto simp: ends_e_def byte_at_def last_conv_nth)
  then have "drop (pos + 1) buf \<noteq> []" "last (drop (pos + 1) buf) = CHR ''e''" using pos assms(1) by (auto simp: ends_e_def)
  then have "CHR ''e'' \<in> set (drop (pos + 1) buf)" by (metis last_in_set)
  then have "index_of buf (CHR ''e'') (pos + 1) \<noteq> None" using first_index_some by (simp add: index_of_def)
  then show ?thesis using index_of_bound [of buf "CHR ''e''" "pos + 1"] by (auto simp: readInt_def split: option.split)
qed

lemma decode_Inr:
  assumes "decode (Suc n) buf pos = Some (Inr (v, p))"
  shows "(byte_at buf pos = CHR ''i'' \<and> p = snd (readInt buf pos)) \<or>
    (byte_at buf pos = CHR ''l'' \<and> (\<exists>vs. readList n buf (pos + 1) [] = Some (Inr (vs, p)))) \<or>
    (byte_at buf pos = CHR ''d'' \<and> (\<exists>m. readDict n buf (pos + 1) [] = Some (Inr (m, p)))) \<or>
    (\<exists>s. readString buf pos = Inr (s, p))"
  using assms by (simp add: Let_def split: if_splits option.splits sum.splits prod.splits)

lemma readList_Inr:
  assumes "readList (Suc n) buf pos out = Some (Inr (vs, p))"
  shows "(byte_at buf pos = CHR ''e'' \<and> p = pos + 1) \<or>
    (\<exists>v q. decode n buf pos = Some (Inr (v, q)) \<and> readList n buf q (out @ [v]) = Some (Inr (vs, p)))"
  using assms by (simp split: if_splits option.splits sum.splits prod.splits)

lemma readDict_Inr:
  assumes "readDict (Suc n) buf pos m = Some (Inr (m', p))"
  shows "(byte_at buf pos = CHR ''e'' \<and> p = pos + 1) \<or>
    (\<exists>k st v q. readString buf pos = Inr (k, st) \<and> decode n buf st = Some (Inr (v, q)) \<and>
       readDict n buf q (set_entry k (v, st, q) m) = Some (Inr (m', p)))"
  using assms by (simp split: if_splits option.splits sum.splits prod.splits)

lemma reading_progress:
  assumes "ends_e buf"
  shows "(\<forall>pos v p. decode n buf pos = Some (Inr (v, p)) \<longrightarrow> pos < p \<and> p \<le> length buf) \<and>
    (\<forall>pos out vs p. readList n buf pos out = Some (Inr (vs, p)) \<longrightarrow> pos < p \<and> p \<le> length buf) \<and>
    (\<forall>pos m m' p. readDict n buf pos m = Some (Inr (m', p)) \<longrightarrow> pos < p \<and> p \<le> length buf)"
proof (induction n)
  case (Suc n)
  have inside: "byte_at buf pos = CHR ''e'' \<Longrightarrow> pos + 1 \<le> length buf" for pos using byte_at_inside [of buf pos] by simp
  have IH: "decode n buf pos = Some (Inr (v, p)) \<Longrightarrow> pos < p \<and> p \<le> length buf"
    "readList n buf pos out = Some (Inr (vs, p)) \<Longrightarrow> pos < p \<and> p \<le> length buf"
    "readDict n buf pos m = Some (Inr (m', p)) \<Longrightarrow> pos < p \<and> p \<le> length buf" for pos v out vs m m' p
    using Suc.IH by blast+
  show ?case
  proof (intro conjI allI impI)
    fix pos v p
    assume r: "decode (Suc n) buf pos = Some (Inr (v, p))"
    have "pos < p \<and> p \<le> length buf" using decode_Inr [OF r]
    proof (elim disjE conjE exE)
      fix vs
      assume "readList n buf (pos + 1) [] = Some (Inr (vs, p))"
      then show ?thesis using IH(2) by fastforce
    next
      fix m
      assume "readDict n buf (pos + 1) [] = Some (Inr (m, p))"
      then show ?thesis using IH(3) by fastforce
    qed (use readInt_progress [OF assms, of pos] readString_progress [of buf pos] in auto)
    then show "pos < p" "p \<le> length buf" by simp_all
  next
    fix pos out vs p
    assume r: "readList (Suc n) buf pos out = Some (Inr (vs, p))"
    show "pos < p" "p \<le> length buf"
      using readList_Inr [OF r] inside IH by (metis less_add_one order.strict_trans)+
  next
    fix pos m m' p
    assume r: "readDict (Suc n) buf pos m = Some (Inr (m', p))"
    have "pos < p \<and> p \<le> length buf" using readDict_Inr [OF r]
    proof (elim disjE conjE exE)
      fix k st v q
      assume "readString buf pos = Inr (k, st)" "decode n buf st = Some (Inr (v, q))"
        "readDict n buf q (set_entry k (v, st, q) m) = Some (Inr (m', p))"
      then have "pos < st" "st < q" "q < p" "p \<le> length buf" using readString_progress IH(1,3) by blast+
      then show ?thesis by simp
    qed (use inside in simp)
    then show "pos < p" "p \<le> length buf" by simp_all
  qed
qed simp

lemma reading_ends:
  assumes "ends_e buf"
  shows "(\<forall>pos. 2 * (length buf - pos) + 1 \<le> n \<longrightarrow> decode n buf pos \<noteq> None) \<and>
    (\<forall>pos out. 2 * (length buf - pos) + 2 \<le> n \<longrightarrow> readList n buf pos out \<noteq> None) \<and>
    (\<forall>pos m. 2 * (length buf - pos) + 2 \<le> n \<longrightarrow> readDict n buf pos m \<noteq> None)"
proof (induction n)
  case (Suc n)
  have less: "2 * (length buf - q) + 2 \<le> n" if "pos < q" "q \<le> length buf" "2 * (length buf - pos) \<le> n" for pos q
    using that by linarith
  note IH = Suc.IH [THEN conjunct1, rule_format] Suc.IH [THEN conjunct2, THEN conjunct1, rule_format]
    Suc.IH [THEN conjunct2, THEN conjunct2, rule_format]
  note prog = reading_progress [OF assms, of n, THEN conjunct1, rule_format]
  show ?case
  proof (intro conjI allI impI)
    fix pos
    assume n: "2 * (length buf - pos) + 1 \<le> Suc n"
    have "2 * (length buf - (pos + 1)) + 2 \<le> n" if "byte_at buf pos \<noteq> CHR 0x00"
      using byte_at_inside [OF that] n by linarith
    then have "readList n buf (pos + 1) [] \<noteq> None" "readDict n buf (pos + 1) [] \<noteq> None" if "byte_at buf pos \<in> {CHR ''l'', CHR ''d''}"
      using that IH(2,3) by auto
    then show "decode (Suc n) buf pos \<noteq> None" by (auto simp: Let_def split: option.split sum.split)
  next
    fix pos out
    assume n: "2 * (length buf - pos) + 2 \<le> Suc n"
    then have "decode n buf pos \<noteq> None" using IH(1) by simp
    moreover have "readList n buf q (out @ [v]) \<noteq> None" if "decode n buf pos = Some (Inr (v, q))" for v q
      by (rule IH(2) [OF less]) (use prog [OF that] n in auto)
    ultimately show "readList (Suc n) buf pos out \<noteq> None" by (auto split: sum.split)
  next
    fix pos m
    assume n: "2 * (length buf - pos) + 2 \<le> Suc n"
    have "decode n buf st \<noteq> None \<and> (\<forall>v q. decode n buf st = Some (Inr (v, q)) \<longrightarrow> readDict n buf q (set_entry k (v, st, q) m) \<noteq> None)"
      if rs: "readString buf pos = Inr (k, st)" for k st
    proof (intro conjI allI impI)
      have st: "pos < st" "st \<le> length buf" using readString_progress [OF rs] by simp_all
      show "decode n buf st \<noteq> None" by (rule IH(1)) (use st n in linarith)
      show "readDict n buf q (set_entry k (v, st, q) m) \<noteq> None" if "decode n buf st = Some (Inr (v, q))" for v q
        by (rule IH(3) [OF less]) (use prog [OF that] st n in auto)
    qed
    then show "readDict (Suc n) buf pos m \<noteq> None" by (auto split: option.split sum.split)
  qed
qed simp

text \<open>
  Reading a file that ends as torrent files do ends. On every buffer whose last byte is the end
  mark, malformed or not, twice the length in fuel lets the reader return or throw.
\<close>

theorem infoHash_terminates:
  assumes "ends_e buf" "2 * length buf \<le> fuel"
  shows "infoHashFromTorrent fuel sha1 buf \<noteq> None"
proof -
  have "readDict fuel buf 1 [] \<noteq> None"
    using reading_ends [OF assms(1), of fuel] assms by (cases buf) (auto simp: ends_e_def)
  then show ?thesis by (auto simp: infoHashFromTorrent_def split: option.split sum.split)
qed

theorem infoHash_terminates_witness:
  "infoHashFromTorrent 20 (\<lambda>s. s) ''d4:infolli'' = None \<and> infoHashFromTorrent 24 (\<lambda>s. s) ''d4:infollie'' \<noteq> None"
proof -
  have "infoHashFromTorrent 20 (\<lambda>s. s) ''d4:infolli'' = None" "ends_e ''d4:infollie''" by code_simp+
  then show ?thesis using infoHash_terminates [of "''d4:infollie''" 24] by simp
qed

text \<open>
  A search for the end of an integer that finds none leaves the reader at the start of the file.
\<close>

lemma hostile_list: "readList n ''i0:li'' 0 out = None"
proof (induction n arbitrary: out)
  case (Suc n)
  have "byte_at ''i0:li'' 0 = CHR ''i''" "readInt ''i0:li'' 0 = (BInt None, 0)" by code_simp+
  then have "decode n ''i0:li'' 0 = None \<or> decode n ''i0:li'' 0 = Some (Inr (BInt None, 0))" by (cases n) auto
  then show ?case using Suc.IH \<open>byte_at ''i0:li'' 0 = CHR ''i''\<close> by auto
qed simp

text \<open>
  Not every file lets the reader end. On a certain file of five bytes it reads the same integer
  over and over, adding it to a list each time: no amount of fuel suffices.
\<close>

theorem infoHash_hostile_file: "infoHashFromTorrent fuel sha1 ''i0:li'' = None"
proof -
  have at: "byte_at ''i0:li'' 1 = CHR ''0''" "byte_at ''i0:li'' 3 = CHR ''l''" "byte_at ''i0:li'' 4 = CHR ''i''"
    "readString ''i0:li'' 1 = Inr ([], 3)" "readInt ''i0:li'' 4 = (BInt None, 0)" by code_simp+
  have "readList n ''i0:li'' 4 [] = None" for n
  proof (cases n)
    case (Suc m)
    then show ?thesis using at hostile_list by (cases m) (simp_all del: readList.simps add: readList.simps(2) [of _ _ 4])
  qed simp
  then have "decode n ''i0:li'' 3 = None" for n using at by (cases n) simp_all
  then show ?thesis using at by (cases fuel) (simp_all add: infoHashFromTorrent_def)
qed

end
