(* ===== verification/Auth_Sessions.thy ===== *)
theory Auth_Sessions
  imports Js_Prelude
begin

text \<open>
  Accounts and sessions: \<^verbatim>\<open>auth/auth.service.ts\<close>,
  \<^verbatim>\<open>two-factor/two-factor.service.ts\<close> and the service of
  \<^verbatim>\<open>users/users.module.ts\<close>. The tables of users, roles and refresh tokens are lists of
  rows; a request is one step, with the time and the random values it draws as arguments. Password
  hashing, SHA-256, the cipher and time-based codes are parameters.

  The theorems are about histories of requests: an ended session never comes back, and a login needs
  every factor of the account. Requests whose parts interleave are in \<open>Auth_Interleaving\<close>.
\<close>

section \<open>Rows\<close>

record user_row =
  us_id :: string
  us_username :: string
  us_email :: string
  us_displayName :: "string option"
  us_passwordHash :: string
  us_isActive :: bool
  us_isSystem :: bool
  us_failedLoginAttempts :: int
  us_lockedUntil :: "int option"
  us_totpSecret :: "string option"
  us_totpEnabled :: bool
  us_recoveryCodes :: "string list"
  us_roles :: "string list"

record role_row =
  ro_name :: string
  ro_permissions :: "string list"

record token_row =
  rk_userId :: string
  rk_tokenHash :: string
  rk_family :: string
  rk_expiresAt :: int
  rk_revokedAt :: "int option"

record auth_user =
  aw_id :: string
  aw_username :: string
  aw_roles :: "string list"
  aw_permissions :: "string list"
  aw_isActive :: bool

record auth_state =
  au_users :: "user_row list"
  au_roles :: "role_row list"
  au_tokens :: "token_row list"

text \<open>
  \<open>ah_verify\<close> may throw; \<open>ah_hash\<close> takes the salt, \<open>ah_encrypt\<close> the
  initialisation vector; \<open>ah_totp\<close> tests a code against a secret at a time.
\<close>

record auth_host =
  ah_verify :: "string \<Rightarrow> string \<Rightarrow> bool option"
  ah_hash :: "string \<Rightarrow> string \<Rightarrow> string"
  ah_sha256 :: "string \<Rightarrow> string"
  ah_encrypt :: "string \<Rightarrow> string \<Rightarrow> string"
  ah_decrypt :: "string \<Rightarrow> string option"
  ah_totp :: "int \<Rightarrow> string \<Rightarrow> string \<Rightarrow> bool"

datatype auth_error = Http http_error | Two_factor_required | Internal string

type_synonym 'a auth_result = "(auth_error + 'a) \<times> auth_state"

text \<open>The random values a login or a refresh draws, and what it hands out.\<close>

record mint =
  mi_raw :: string
  mi_family :: string

record grant =
  gr_refreshToken :: string
  gr_user :: auth_user

definition user_by_id :: "string \<Rightarrow> auth_state \<Rightarrow> user_row option" where
  "user_by_id uid st = find (\<lambda>u. us_id u = uid) (au_users st)"

definition user_by_name :: "string \<Rightarrow> auth_state \<Rightarrow> user_row option" where
  "user_by_name un st = find (\<lambda>u. us_username u = un) (au_users st)"

definition change_user :: "string \<Rightarrow> (user_row \<Rightarrow> user_row) \<Rightarrow> auth_state \<Rightarrow> auth_state" where
  "change_user uid f st = st\<lparr> au_users := map (\<lambda>u. if us_id u = uid then f u else u) (au_users st) \<rparr>"

text \<open>\<^verbatim>\<open>updateMany\<close> with \<^verbatim>\<open>revokedAt: null\<close> in its filter.\<close>

definition revoke_live :: "int \<Rightarrow> (token_row \<Rightarrow> bool) \<Rightarrow> auth_state \<Rightarrow> auth_state" where
  "revoke_live now P st =
     st\<lparr> au_tokens := map (\<lambda>t. if P t \<and> rk_revokedAt t = None then t\<lparr> rk_revokedAt := Some now \<rparr> else t) (au_tokens st) \<rparr>"

definition revoke_all :: "int \<Rightarrow> (token_row \<Rightarrow> bool) \<Rightarrow> auth_state \<Rightarrow> auth_state" where
  "revoke_all now P st = st\<lparr> au_tokens := map (\<lambda>t. if P t then t\<lparr> rk_revokedAt := Some now \<rparr> else t) (au_tokens st) \<rparr>"


section \<open>Tokens\<close>

definition permissions_of :: "role_row list \<Rightarrow> string list \<Rightarrow> string list" where
  "permissions_of roles names =
     rev (remdups (rev (concat (map (\<lambda>n. case find (\<lambda>r. ro_name r = n) roles of None \<Rightarrow> [] | Some r \<Rightarrow> ro_permissions r) names))))"

definition auth_user_of :: "role_row list \<Rightarrow> user_row \<Rightarrow> auth_user" where
  "auth_user_of roles u =
     \<lparr> aw_id = us_id u, aw_username = us_username u, aw_roles = us_roles u,
       aw_permissions = permissions_of roles (us_roles u), aw_isActive = us_isActive u \<rparr>"

definition loadAuthUser :: "string \<Rightarrow> auth_state \<Rightarrow> auth_error + auth_user" where
  "loadAuthUser uid st =
     (case user_by_id uid st of None \<Rightarrow> Inl (Internal ''no user'') | Some u \<Rightarrow> Inr (auth_user_of (au_roles st) u))"

text \<open>The hash of a token is unique in the table: a second row with it is refused.\<close>

definition issueTokens ::
  "auth_host \<Rightarrow> int \<Rightarrow> int \<Rightarrow> mint \<Rightarrow> string option \<Rightarrow> auth_user \<Rightarrow> auth_state \<Rightarrow> grant auth_result" where
  "issueTokens h now ttlDays m family who st =
     (let tokenFamily = (case family of None \<Rightarrow> mi_family m | Some f \<Rightarrow> f);
          row = \<lparr> rk_userId = aw_id who, rk_tokenHash = ah_sha256 h (mi_raw m), rk_family = tokenFamily,
                  rk_expiresAt = now + ttlDays * 86400000, rk_revokedAt = None \<rparr>
      in if list_ex (\<lambda>t. rk_tokenHash t = rk_tokenHash row) (au_tokens st) then (Inl (Internal ''unique''), st)
         else (Inr \<lparr> gr_refreshToken = tokenFamily @ ''.'' @ mi_raw m, gr_user = who \<rparr>,
               st\<lparr> au_tokens := au_tokens st @ [row] \<rparr>))"


section \<open>Second factor\<close>

definition is_alnum :: "char \<Rightarrow> bool" where
  "is_alnum c \<longleftrightarrow> (let n = (of_char c :: nat) in (97 \<le> n \<and> n \<le> 122) \<or> is_digit c)"

definition hashCode :: "auth_host \<Rightarrow> string \<Rightarrow> string" where
  "hashCode h code = ah_sha256 h (filter is_alnum (to_lower code))"

definition given :: "string option \<Rightarrow> bool" where
  "given s \<longleftrightarrow> s \<noteq> None \<and> s \<noteq> Some []"

definition verifyForLogin :: "auth_host \<Rightarrow> int \<Rightarrow> user_row \<Rightarrow> string \<Rightarrow> auth_state \<Rightarrow> bool auth_result" where
  "verifyForLogin h now u token st =
     (if \<not> us_totpEnabled u \<or> \<not> given (us_totpSecret u) then (Inr True, st)
      else
        (case ah_decrypt h (the (us_totpSecret u)) of
           None \<Rightarrow> (Inl (Internal ''decrypt''), st)
         | Some secret \<Rightarrow>
             if ah_totp h now secret (trim token) then (Inr True, st)
             else
               (let hashed = hashCode h (trim token) in
                if hashed \<in> set (us_recoveryCodes u) then
                  (Inr True, change_user (us_id u)
                     (\<lambda>x. x\<lparr> us_recoveryCodes := filter (\<lambda>c. c \<noteq> hashed) (us_recoveryCodes u) \<rparr>) st)
                else (Inr False, st))))"

definition must_find :: "string \<Rightarrow> auth_state \<Rightarrow> (user_row \<Rightarrow> 'a auth_result) \<Rightarrow> 'a auth_result" where
  "must_find uid st k = (case user_by_id uid st of None \<Rightarrow> (Inl (Internal ''no user''), st) | Some u \<Rightarrow> k u)"

text \<open>\<open>secret\<close> is the generated secret and \<open>iv\<close> the vector it is encrypted with.\<close>

definition setup_2fa :: "auth_host \<Rightarrow> string \<Rightarrow> string \<Rightarrow> string \<Rightarrow> auth_state \<Rightarrow> string auth_result" where
  "setup_2fa h secret iv uid st = must_find uid st (\<lambda>u.
     if us_totpEnabled u then (Inl (Http (Bad_request ''Two-factor is already enabled'')), st)
     else (Inr secret, change_user uid (\<lambda>x. x\<lparr> us_totpSecret := Some (ah_encrypt h iv secret) \<rparr>) st))"

definition enable_2fa :: "auth_host \<Rightarrow> int \<Rightarrow> string list \<Rightarrow> string \<Rightarrow> string \<Rightarrow> auth_state \<Rightarrow> string list auth_result" where
  "enable_2fa h now codes uid code st = must_find uid st (\<lambda>u.
     if us_totpEnabled u then (Inl (Http (Bad_request ''Two-factor is already enabled'')), st)
     else if \<not> given (us_totpSecret u) then (Inl (Http (Bad_request ''Start setup before enabling two-factor'')), st)
     else (case ah_decrypt h (the (us_totpSecret u)) of
             None \<Rightarrow> (Inl (Internal ''decrypt''), st)
           | Some secret \<Rightarrow>
               if \<not> ah_totp h now secret (trim code) then (Inl (Http (Bad_request ''Invalid verification code'')), st)
               else (Inr codes, change_user uid (\<lambda>x. x\<lparr> us_totpEnabled := True, us_recoveryCodes := map (hashCode h) codes \<rparr>) st)))"

definition disable_2fa :: "auth_host \<Rightarrow> string \<Rightarrow> string \<Rightarrow> auth_state \<Rightarrow> unit auth_result" where
  "disable_2fa h uid password st = must_find uid st (\<lambda>u.
     if ah_verify h (us_passwordHash u) password \<noteq> Some True then (Inl (Http (Unauthorized ''Incorrect password'')), st)
     else (Inr (), change_user uid (\<lambda>x. x\<lparr> us_totpEnabled := False, us_totpSecret := None, us_recoveryCodes := [] \<rparr>) st))"

definition regenerateRecoveryCodes ::
  "auth_host \<Rightarrow> int \<Rightarrow> string list \<Rightarrow> string \<Rightarrow> string \<Rightarrow> auth_state \<Rightarrow> string list auth_result" where
  "regenerateRecoveryCodes h now codes uid code st = must_find uid st (\<lambda>u.
     if \<not> us_totpEnabled u \<or> \<not> given (us_totpSecret u) then (Inl (Http (Bad_request ''Two-factor is not enabled'')), st)
     else (case ah_decrypt h (the (us_totpSecret u)) of
             None \<Rightarrow> (Inl (Internal ''decrypt''), st)
           | Some secret \<Rightarrow>
               if \<not> ah_totp h now secret (trim code) then (Inl (Http (Bad_request ''Invalid verification code'')), st)
               else (Inr codes, change_user uid (\<lambda>x. x\<lparr> us_recoveryCodes := map (hashCode h) codes \<rparr>) st)))"


section \<open>Login\<close>

definition MAX_FAILED_ATTEMPTS :: int where "MAX_FAILED_ATTEMPTS = 5"

definition LOCKOUT_MS :: int where "LOCKOUT_MS = 900000"

text \<open>The count is the one of the row that was read, one more than it is written back.\<close>

definition registerFailedLogin :: "int \<Rightarrow> user_row \<Rightarrow> auth_state \<Rightarrow> auth_state" where
  "registerFailedLogin now u st =
     (let attempts = us_failedLoginAttempts u + 1; lock = attempts \<ge> MAX_FAILED_ATTEMPTS
      in change_user (us_id u) (\<lambda>x. x\<lparr> us_failedLoginAttempts := (if lock then 0 else attempts),
             us_lockedUntil := (if lock then Some (now + LOCKOUT_MS) else us_lockedUntil x) \<rparr>) st)"

definition is_locked :: "int \<Rightarrow> user_row \<Rightarrow> bool" where
  "is_locked now u \<longleftrightarrow> (case us_lockedUntil u of None \<Rightarrow> False | Some l \<Rightarrow> l > now)"

text \<open>After every factor was accepted.\<close>

definition admit :: "auth_host \<Rightarrow> int \<Rightarrow> int \<Rightarrow> mint \<Rightarrow> user_row \<Rightarrow> auth_state \<Rightarrow> grant auth_result" where
  "admit h now ttlDays m u st =
     (let st1 = change_user (us_id u) (\<lambda>x. x\<lparr> us_failedLoginAttempts := 0, us_lockedUntil := None \<rparr>) st
      in case loadAuthUser (us_id u) st1 of
           Inl e \<Rightarrow> (Inl e, st1)
         | Inr who \<Rightarrow> issueTokens h now ttlDays m None who st1)"

text \<open>The rest of a login once the row was read.\<close>

definition login_from ::
  "auth_host \<Rightarrow> int \<Rightarrow> int \<Rightarrow> mint \<Rightarrow> user_row option \<Rightarrow> string \<Rightarrow> string option \<Rightarrow> auth_state \<Rightarrow> grant auth_result" where
  "login_from h now ttlDays m user password totp st =
     (case user of
        None \<Rightarrow> (Inl (Http (Unauthorized ''Invalid credentials'')), st)
      | Some u \<Rightarrow>
          if is_locked now u then
            (Inl (Http (Unauthorized ''Account temporarily locked due to failed attempts. Try again later.'')), st)
          else
            (let valid = (ah_verify h (us_passwordHash u) password = Some True) in
             if \<not> valid \<or> \<not> us_isActive u then
               (Inl (Http (Unauthorized ''Invalid credentials'')),
                if us_isActive u \<and> \<not> valid then registerFailedLogin now u st else st)
             else if us_totpEnabled u then
               (if \<not> given totp then (Inl Two_factor_required, st)
                else (case verifyForLogin h now u (the totp) st of
                        (Inl e, st1) \<Rightarrow> (Inl e, st1)
                      | (Inr False, st1) \<Rightarrow> (Inl (Http (Unauthorized ''Invalid two-factor code'')), registerFailedLogin now u st1)
                      | (Inr True, st1) \<Rightarrow> admit h now ttlDays m u st1))
             else admit h now ttlDays m u st))"

definition login ::
  "auth_host \<Rightarrow> int \<Rightarrow> int \<Rightarrow> mint \<Rightarrow> string \<Rightarrow> string \<Rightarrow> string option \<Rightarrow> auth_state \<Rightarrow> grant auth_result" where
  "login h now ttlDays m username password totp st =
     login_from h now ttlDays m (user_by_name username st) password totp st"


section \<open>Refresh, logout, password\<close>

definition token_parts :: "string \<Rightarrow> string \<times> string option" where
  "token_parts raw = (case split_on (CHR ''.'') raw of (f # s # _) \<Rightarrow> (f, Some s) | [f] \<Rightarrow> (f, None) | [] \<Rightarrow> ([], None))"

text \<open>
  A refresh in parts, between which other requests are served. Once the row was read, at the time
  \<open>readAt\<close>, it is revoked, or the whole session is when the row was revoked before;
  \<^verbatim>\<open>update\<close> fails when the row is gone.
\<close>

definition refresh_revoke ::
  "int \<Rightarrow> int \<Rightarrow> string \<Rightarrow> token_row option \<Rightarrow> auth_state \<Rightarrow> token_row auth_result" where
  "refresh_revoke readAt now family stored st =
     (case stored of
        None \<Rightarrow> (Inl (Http (Unauthorized ''Invalid refresh token'')), st)
      | Some t \<Rightarrow>
          if rk_family t \<noteq> family then (Inl (Http (Unauthorized ''Invalid refresh token'')), st)
          else if rk_revokedAt t \<noteq> None then
            (Inl (Http (Unauthorized ''Refresh token reuse detected'')), revoke_live now (\<lambda>x. rk_family x = family) st)
          else if rk_expiresAt t < readAt then (Inl (Http (Unauthorized ''Refresh token expired'')), st)
          else if \<not> list_ex (\<lambda>x. rk_tokenHash x = rk_tokenHash t) (au_tokens st) then (Inl (Internal ''no row''), st)
          else (Inr t, revoke_all now (\<lambda>x. rk_tokenHash x = rk_tokenHash t) st))"

text \<open>Then the owner is looked up and the next token of the family issued.\<close>

definition refresh_issue ::
  "auth_host \<Rightarrow> int \<Rightarrow> int \<Rightarrow> mint \<Rightarrow> string \<Rightarrow> token_row \<Rightarrow> auth_state \<Rightarrow> grant auth_result" where
  "refresh_issue h now ttlDays m family t st =
     (case loadAuthUser (rk_userId t) st of
        Inl e \<Rightarrow> (Inl e, st)
      | Inr who \<Rightarrow>
          if \<not> aw_isActive who then
            (Inl (Http (Unauthorized ''Account is disabled'')), revoke_live now (\<lambda>x. rk_userId x = rk_userId t) st)
          else issueTokens h now ttlDays m (Some family) who st)"

definition refresh_from ::
  "auth_host \<Rightarrow> int \<Rightarrow> int \<Rightarrow> mint \<Rightarrow> string \<Rightarrow> token_row option \<Rightarrow> auth_state \<Rightarrow> grant auth_result" where
  "refresh_from h now ttlDays m family stored st =
     (case refresh_revoke now now family stored st of
        (Inl e, st1) \<Rightarrow> (Inl e, st1)
      | (Inr t, st1) \<Rightarrow> refresh_issue h now ttlDays m family t st1)"

definition stored_token :: "auth_host \<Rightarrow> string \<Rightarrow> auth_state \<Rightarrow> token_row option" where
  "stored_token h secret st = find (\<lambda>t. rk_tokenHash t = ah_sha256 h secret) (au_tokens st)"

definition refresh_token :: "auth_host \<Rightarrow> int \<Rightarrow> int \<Rightarrow> mint \<Rightarrow> string \<Rightarrow> auth_state \<Rightarrow> grant auth_result" where
  "refresh_token h now ttlDays m raw st =
     (let (family, secret) = token_parts raw in
      if family = [] \<or> \<not> given secret then (Inl (Http (Unauthorized ''Malformed refresh token'')), st)
      else refresh_from h now ttlDays m family (stored_token h (the secret) st) st)"

definition logout :: "auth_host \<Rightarrow> int \<Rightarrow> string \<Rightarrow> auth_state \<Rightarrow> auth_state" where
  "logout h now raw st =
     (let (family, secret) = token_parts raw in
      if \<not> given secret then st
      else revoke_all now (\<lambda>x. rk_tokenHash x = ah_sha256 h (the secret) \<and> rk_family x = family) st)"

definition changePassword :: "auth_host \<Rightarrow> int \<Rightarrow> string \<Rightarrow> string \<Rightarrow> string \<Rightarrow> string \<Rightarrow> auth_state \<Rightarrow> unit auth_result" where
  "changePassword h now salt uid currentPassword newPassword st = must_find uid st (\<lambda>u.
     case ah_verify h (us_passwordHash u) currentPassword of
       None \<Rightarrow> (Inl (Internal ''argon2''), st)
     | Some False \<Rightarrow> (Inl (Http (Bad_request ''Current password is incorrect'')), st)
     | Some True \<Rightarrow>
         (Inr (), revoke_live now (\<lambda>x. rk_userId x = uid)
            (change_user uid (\<lambda>x. x\<lparr> us_passwordHash := ah_hash h salt newPassword \<rparr>) st)))"



section \<open>Administration of users\<close>

text \<open>Who asks: the identity that was established for the request.\<close>

record identity =
  id_id :: string
  id_username :: string
  id_roles :: "string list"
  id_permissions :: "string list"

definition SUPER_ADMIN :: string where "SUPER_ADMIN = ''SUPER_ADMIN''"

text \<open>Roles are found by name; a name that is missing or given twice makes the counts differ.\<close>

definition resolveRoleIds :: "role_row list \<Rightarrow> string list \<Rightarrow> auth_error + string list" where
  "resolveRoleIds roles names =
     (let found = filter (\<lambda>r. ro_name r \<in> set names) roles in
      if length found \<noteq> length names then Inl (Http (Bad_request ''One or more roles do not exist''))
      else Inr (map ro_name found))"

definition assertMayAssignRoles :: "string list option \<Rightarrow> identity \<Rightarrow> string option \<Rightarrow> auth_error + unit" where
  "assertMayAssignRoles roleNames actor target =
     (case roleNames of
        None \<Rightarrow> Inr ()
      | Some names \<Rightarrow>
          if SUPER_ADMIN \<notin> set (id_roles actor) \<and> SUPER_ADMIN \<in> set names then
            Inl (Http (Forbidden ''Only a super admin can grant the SUPER_ADMIN role''))
          else if given target \<and> target = Some (id_id actor) then Inl (Http (Forbidden ''You cannot change your own roles''))
          else Inr ())"

record create_dto =
  cd_username :: string
  cd_email :: string
  cd_displayName :: "string option"
  cd_password :: string
  cd_roleNames :: "string list"

record update_dto =
  ud_email :: "string option"
  ud_displayName :: "string option"
  ud_isActive :: "bool option"
  ud_roleNames :: "string list option"

text \<open>Identifiers, names and addresses are unique in the table.\<close>

definition create_user :: "auth_host \<Rightarrow> string \<Rightarrow> string \<Rightarrow> create_dto \<Rightarrow> identity \<Rightarrow> auth_state \<Rightarrow> string auth_result" where
  "create_user h salt uid dto actor st =
     (case assertMayAssignRoles (Some (cd_roleNames dto)) actor None of
        Inl e \<Rightarrow> (Inl e, st)
      | Inr _ \<Rightarrow>
          (case resolveRoleIds (au_roles st) (cd_roleNames dto) of
             Inl e \<Rightarrow> (Inl e, st)
           | Inr roleIds \<Rightarrow>
               if list_ex (\<lambda>u. us_id u = uid \<or> us_username u = cd_username dto \<or> us_email u = cd_email dto) (au_users st)
                 then (Inl (Internal ''unique''), st)
               else (Inr uid, st\<lparr> au_users := au_users st @
                       [\<lparr> us_id = uid, us_username = cd_username dto, us_email = cd_email dto,
                          us_displayName = cd_displayName dto, us_passwordHash = ah_hash h salt (cd_password dto),
                          us_isActive = True, us_isSystem = False, us_failedLoginAttempts = 0, us_lockedUntil = None,
                          us_totpSecret = None, us_totpEnabled = False, us_recoveryCodes = [], us_roles = roleIds \<rparr>] \<rparr>)))"

text \<open>The roles are written before the row is; an address that is taken fails the second write only.\<close>

definition update_row_of :: "int \<Rightarrow> string \<Rightarrow> update_dto \<Rightarrow> auth_state \<Rightarrow> unit auth_result" where
  "update_row_of now uid dto st =
     (if (case ud_email dto of None \<Rightarrow> False
          | Some e \<Rightarrow> list_ex (\<lambda>u. us_id u \<noteq> uid \<and> us_email u = e) (au_users st)) then (Inl (Internal ''unique''), st)
      else
        (let st1 = change_user uid (\<lambda>x. x\<lparr>
               us_email := (case ud_email dto of None \<Rightarrow> us_email x | Some e \<Rightarrow> e),
               us_displayName := (case ud_displayName dto of None \<Rightarrow> us_displayName x | Some n \<Rightarrow> Some n),
               us_isActive := (case ud_isActive dto of None \<Rightarrow> us_isActive x | Some a \<Rightarrow> a) \<rparr>) st
         in (Inr (), if ud_isActive dto = Some False then revoke_live now (\<lambda>t. rk_userId t = uid) st1 else st1)))"

definition update_user :: "int \<Rightarrow> string \<Rightarrow> update_dto \<Rightarrow> identity \<Rightarrow> auth_state \<Rightarrow> unit auth_result" where
  "update_user now uid dto actor st =
     (case user_by_id uid st of
        None \<Rightarrow> (Inl (Http (Not_found ''User not found'')), st)
      | Some existing \<Rightarrow>
          (case assertMayAssignRoles (ud_roleNames dto) actor (Some uid) of
             Inl e \<Rightarrow> (Inl e, st)
           | Inr _ \<Rightarrow>
               (case ud_roleNames dto of
                  None \<Rightarrow> update_row_of now uid dto st
                | Some names \<Rightarrow>
                    (case resolveRoleIds (au_roles st) names of
                       Inl e \<Rightarrow> (Inl e, st)
                     | Inr roleIds \<Rightarrow> update_row_of now uid dto (change_user uid (\<lambda>x. x\<lparr> us_roles := roleIds \<rparr>) st)))))"

text \<open>The tokens of a removed user go with it.\<close>

definition remove_user :: "string \<Rightarrow> auth_state \<Rightarrow> unit auth_result" where
  "remove_user uid st =
     (case user_by_id uid st of
        None \<Rightarrow> (Inl (Http (Not_found ''User not found'')), st)
      | Some u \<Rightarrow>
          if us_isSystem u then (Inl (Http (Bad_request ''System users cannot be deleted'')), st)
          else (Inr (), st\<lparr> au_users := filter (\<lambda>x. us_id x \<noteq> uid) (au_users st),
                            au_tokens := filter (\<lambda>t. rk_userId t \<noteq> uid) (au_tokens st) \<rparr>))"


section \<open>Histories\<close>

datatype auth_request =
  Login mint string string "string option"
| Refresh mint string
| Logout string
| Change_password string string string string
| Setup_2fa string string string
| Enable_2fa "string list" string string
| Disable_2fa string string
| Regenerate "string list" string string
| Create_user string string create_dto identity
| Update_user string update_dto identity
| Remove_user string

text \<open>What a request does to the tables.\<close>

fun auth_step :: "auth_host \<Rightarrow> int \<Rightarrow> int \<times> auth_request \<Rightarrow> auth_state \<Rightarrow> auth_state" where
  "auth_step h ttl (now, Login m un pw totp) st = snd (login h now ttl m un pw totp st)"
| "auth_step h ttl (now, Refresh m raw) st = snd (refresh_token h now ttl m raw st)"
| "auth_step h ttl (now, Logout raw) st = logout h now raw st"
| "auth_step h ttl (now, Change_password salt uid old new) st = snd (changePassword h now salt uid old new st)"
| "auth_step h ttl (now, Setup_2fa secret iv uid) st = snd (setup_2fa h secret iv uid st)"
| "auth_step h ttl (now, Enable_2fa codes uid code) st = snd (enable_2fa h now codes uid code st)"
| "auth_step h ttl (now, Disable_2fa uid pw) st = snd (disable_2fa h uid pw st)"
| "auth_step h ttl (now, Regenerate codes uid code) st = snd (regenerateRecoveryCodes h now codes uid code st)"
| "auth_step h ttl (now, Create_user salt uid dto actor) st = snd (create_user h salt uid dto actor st)"
| "auth_step h ttl (now, Update_user uid dto actor) st = snd (update_user now uid dto actor st)"
| "auth_step h ttl (now, Remove_user uid) st = snd (remove_user uid st)"

definition auth_run :: "auth_host \<Rightarrow> int \<Rightarrow> (int \<times> auth_request) list \<Rightarrow> auth_state \<Rightarrow> auth_state" where
  "auth_run h ttl reqs st = fold (auth_step h ttl) reqs st"

text \<open>Every login draws a family that is in use nowhere.\<close>

fun families_fresh :: "string set \<Rightarrow> (int \<times> auth_request) list \<Rightarrow> bool" where
  "families_fresh used [] \<longleftrightarrow> True"
| "families_fresh used ((now, Login m un pw totp) # rs) \<longleftrightarrow> mi_family m \<notin> used \<and> families_fresh (insert (mi_family m) used) rs"
| "families_fresh used (_ # rs) \<longleftrightarrow> families_fresh used rs"

definition live :: "string \<Rightarrow> auth_state \<Rightarrow> token_row list" where
  "live f st = filter (\<lambda>t. rk_family t = f \<and> rk_revokedAt t = None) (au_tokens st)"



section \<open>What a request does to the tokens\<close>

definition add_token :: "token_row \<Rightarrow> auth_state \<Rightarrow> auth_state" where
  "add_token row st = st\<lparr> au_tokens := au_tokens st @ [row] \<rparr>"

lemma tokens_change_user [simp]: "au_tokens (change_user uid f st) = au_tokens st"
  by (simp add: change_user_def)

lemma revoke_live_eq: "revoke_live now K st = revoke_all now (\<lambda>t. K t \<and> rk_revokedAt t = None) st"
  by (simp add: revoke_live_def revoke_all_def)

lemma tokens_registerFailedLogin [simp]: "au_tokens (registerFailedLogin now u st) = au_tokens st"
  by (simp add: registerFailedLogin_def Let_def)

lemma tokens_verifyForLogin: "verifyForLogin h now u token st = (r, st') \<Longrightarrow> au_tokens st' = au_tokens st"
  by (auto simp: verifyForLogin_def Let_def split: if_splits option.splits)

lemma issueTokens_tokens:
  assumes "issueTokens h now ttl m family who st = (r, st')"
  shows "st' = st \<or> (\<exists>row. st' = add_token row st \<and> rk_userId row = aw_id who \<and> rk_revokedAt row = None \<and>
           rk_family row = (case family of None \<Rightarrow> mi_family m | Some f \<Rightarrow> f))"
  using assms by (auto simp: issueTokens_def Let_def add_token_def split: if_splits)

lemma admit_tokens:
  assumes "admit h now ttl m u st = (r, st')"
  shows "au_tokens st' = au_tokens st \<or> (\<exists>row. au_tokens st' = au_tokens st @ [row] \<and> rk_family row = mi_family m)"
  using assms by (auto simp: admit_def Let_def add_token_def split: sum.splits dest!: issueTokens_tokens)

lemma login_from_tokens:
  "au_tokens (snd (login_from h now ttl m user pw totp st)) = au_tokens st \<or>
   (\<exists>row. au_tokens (snd (login_from h now ttl m user pw totp st)) = au_tokens st @ [row] \<and> rk_family row = mi_family m)"
proof -
  have admitted: "au_tokens (snd (admit h now ttl m u s)) = au_tokens s \<or>
      (\<exists>row. au_tokens (snd (admit h now ttl m u s)) = au_tokens s @ [row] \<and> rk_family row = mi_family m)" for u s
    by (rule admit_tokens) (rule prod.collapse [symmetric])
  show ?thesis
  proof (cases user)
    case (Some u)
    show ?thesis
    proof (cases "verifyForLogin h now u (the totp) st")
      case (Pair r st1)
      then have "au_tokens st1 = au_tokens st" by (rule tokens_verifyForLogin)
      then show ?thesis using Some Pair admitted [of u st] admitted [of u st1]
        by (cases r) (auto simp: login_from_def Let_def split: bool.splits)
    qed
  qed (simp add: login_from_def)
qed

text \<open>
  An invariant of the tokens: it looks at them only, and survives revoking and dropping tokens and
  opening a session under a family not used before. Everything but a refresh keeps it.
\<close>

locale token_invariant =
  fixes P :: "string set \<Rightarrow> auth_state \<Rightarrow> bool"
  assumes tables: "au_tokens st' = au_tokens st \<Longrightarrow> P used st \<Longrightarrow> P used st'"
    and grow: "P used st \<Longrightarrow> P (insert f used) st"
    and revoke: "P used st \<Longrightarrow> P used (revoke_all now K st)"
    and drop: "P used st \<Longrightarrow> P used (st\<lparr> au_tokens := filter K (au_tokens st) \<rparr>)"
    and opens: "P used st \<Longrightarrow> rk_family row \<notin> used \<Longrightarrow> P (insert (rk_family row) used) (add_token row st)"
begin

lemma login_from_keeps:
  assumes "P used st" "mi_family m \<notin> used"
  shows "P (insert (mi_family m) used) (snd (login_from h now ttl m user pw totp st))"
  using login_from_tokens [of h now ttl m user pw totp st]
proof
  assume "au_tokens (snd (login_from h now ttl m user pw totp st)) = au_tokens st"
  then show ?thesis using tables grow assms(1) by blast
next
  assume "\<exists>row. au_tokens (snd (login_from h now ttl m user pw totp st)) = au_tokens st @ [row] \<and> rk_family row = mi_family m"
  then obtain row where row: "au_tokens (snd (login_from h now ttl m user pw totp st)) = au_tokens (add_token row st)" "rk_family row = mi_family m"
    by (auto simp: add_token_def)
  then show ?thesis using tables [OF row(1)] opens [OF assms(1), of row] assms(2) by simp
qed

lemma others_keep:
  assumes "P used st"
  shows "P used (logout h now raw st)" "P used (snd (changePassword h now salt uid old new st))"
    "P used (snd (update_user now uid dto actor st))" "P used (snd (remove_user uid st))"
proof -
  show "P used (logout h now raw st)" using assms revoke by (simp add: logout_def split: prod.split)
  have user: "P used (change_user i f s)" if "P used s" for i f s using tables [OF tokens_change_user] that by blast
  then show "P used (snd (changePassword h now salt uid old new st))"
    using assms revoke by (auto simp: changePassword_def must_find_def revoke_live_eq split: option.split bool.split)
  have row: "P used (snd (update_row_of now uid dto s))" if "P used s" for s
    using that user revoke by (auto simp: update_row_of_def Let_def revoke_live_eq)
  show "P used (snd (update_user now uid dto actor st))"
    using assms user row by (auto simp: update_user_def split: option.split sum.split)
  have "P used (st\<lparr> au_users := us, au_tokens := filter (\<lambda>t. rk_userId t \<noteq> uid) (au_tokens st) \<rparr>)" for us
    using tables [of _ "st\<lparr> au_tokens := filter (\<lambda>t. rk_userId t \<noteq> uid) (au_tokens st) \<rparr>"] drop assms by simp
  then show "P used (snd (remove_user uid st))" using assms by (simp add: remove_user_def split: option.split)
qed

lemma same_tokens:
  assumes "P used st"
  shows "P used (snd (setup_2fa h secret iv uid st))" "P used (snd (enable_2fa h now codes uid code st))"
    "P used (snd (disable_2fa h uid pw st))" "P used (snd (regenerateRecoveryCodes h now codes uid code st))"
    "P used (snd (create_user h salt nid dto actor st))"
proof -
  have user: "P used (change_user i f st)" for i f using tables [OF tokens_change_user] assms by blast
  show "P used (snd (setup_2fa h secret iv uid st))" "P used (snd (enable_2fa h now codes uid code st))"
    "P used (snd (disable_2fa h uid pw st))" "P used (snd (regenerateRecoveryCodes h now codes uid code st))"
    using assms user
    by (auto simp: setup_2fa_def enable_2fa_def disable_2fa_def regenerateRecoveryCodes_def must_find_def split: option.split)
  have "P used (st\<lparr> au_users := us \<rparr>)" for us by (rule tables [OF _ assms]) simp
  then show "P used (snd (create_user h salt nid dto actor st))"
    using assms by (auto simp: create_user_def split: sum.split)
qed

end

text \<open>An invariant of sessions survives the exchange of a live token for a new one as well.\<close>

locale session_invariant = token_invariant +
  assumes rotate: "P used st \<Longrightarrow> t \<in> set (au_tokens st) \<Longrightarrow> rk_revokedAt t = None \<Longrightarrow> rk_family row = rk_family t \<Longrightarrow>
      rk_userId row = rk_userId t \<Longrightarrow> P used (add_token row (revoke_all now (\<lambda>x. rk_tokenHash x = rk_tokenHash t) st))"
begin

lemma refresh_from_keeps:
  assumes "P used st" "\<And>t. stored = Some t \<Longrightarrow> t \<in> set (au_tokens st)"
  shows "P used (snd (refresh_from h now ttl m family stored st))"
proof (cases stored)
  case (Some t)
  let ?st1 = "revoke_all now (\<lambda>x. rk_tokenHash x = rk_tokenHash t) st"
  have st1: "P used ?st1" using revoke assms(1) by blast
  have issue: "P used (snd (issueTokens h now ttl m (Some family) who ?st1))"
    if "rk_family t = family" "rk_revokedAt t = None" "loadAuthUser (rk_userId t) ?st1 = Inr who" for who
  proof -
    have uid: "aw_id who = rk_userId t"
      using that(3) by (auto simp: loadAuthUser_def user_by_id_def auth_user_of_def find_Some_iff split: option.splits)
    obtain r st2 where i: "issueTokens h now ttl m (Some family) who ?st1 = (r, st2)" by fastforce
    from issueTokens_tokens [OF i] show ?thesis
      using i st1 rotate [OF assms(1) assms(2) [OF Some] that(2), of _ now] that(1) uid by auto
  qed
  show ?thesis using Some assms(1) st1 issue revoke
    by (auto simp: refresh_from_def refresh_revoke_def refresh_issue_def revoke_live_eq split: sum.split)
qed (simp add: refresh_from_def refresh_revoke_def assms(1))

lemma refresh_keeps:
  assumes "P used st"
  shows "P used (snd (refresh_token h now ttl m raw st))"
proof -
  have "P used (snd (refresh_from h now ttl m family (stored_token h secret st) st))" for family secret
    by (rule refresh_from_keeps [OF assms]) (auto simp: stored_token_def find_Some_iff)
  then show ?thesis using assms by (simp add: refresh_token_def split: prod.split)
qed

lemma step_keeps:
  assumes "P used st" "families_fresh used [(now, req)]"
  shows "\<exists>used'. P used' (auth_step h ttl (now, req) st) \<and> used \<subseteq> used' \<and> (\<forall>rs. families_fresh used ((now, req) # rs) \<longrightarrow> families_fresh used' rs)"
proof (cases req)
  case (Login m un pw totp)
  then show ?thesis using assms login_from_keeps [of used st m] by (intro exI [of _ "insert (mi_family m) used"]) (auto simp: login_def)
qed (use assms refresh_keeps others_keep same_tokens in \<open>auto intro!: exI [of _ used]\<close>)

lemma run_keeps:
  assumes "P used st" "families_fresh used reqs"
  shows "\<exists>used'. used \<subseteq> used' \<and> P used' (auth_run h ttl reqs st)"
  using assms
proof (induction reqs arbitrary: used st)
  case (Cons r reqs)
  obtain now req where r: "r = (now, req)" by fastforce
  have one: "families_fresh used [(now, req)]" using Cons.prems(2) unfolding r by (cases req) auto
  obtain used' where u: "P used' (auth_step h ttl (now, req) st)" "used \<subseteq> used'" "families_fresh used' reqs"
    using step_keeps [OF Cons.prems(1) one] Cons.prems(2) unfolding r by blast
  then show ?case using Cons.IH [OF u(1,3)] r by (auto simp: auth_run_def)
qed (auto simp: auth_run_def)

end


section \<open>Live tokens\<close>

definition families :: "auth_state \<Rightarrow> string set" where
  "families st = rk_family ` set (au_tokens st)"

definition mark :: "int \<Rightarrow> (token_row \<Rightarrow> bool) \<Rightarrow> token_row \<Rightarrow> token_row" where
  "mark now K t = (if K t then t\<lparr> rk_revokedAt := Some now \<rparr> else t)"

lemma mark_simps [simp]:
  "rk_family (mark now K t) = rk_family t" "rk_userId (mark now K t) = rk_userId t" "rk_tokenHash (mark now K t) = rk_tokenHash t"
  "rk_revokedAt (mark now K t) = None \<longleftrightarrow> rk_revokedAt t = None \<and> \<not> K t"
  by (simp_all add: mark_def)

lemma tokens_revoke [simp]: "au_tokens (revoke_all now K st) = map (mark now K) (au_tokens st)"
  by (simp add: revoke_all_def mark_def)

lemma families_simps [simp]:
  "families (revoke_all now K st) = families st" "families (add_token row st) = insert (rk_family row) (families st)"
  by (simp_all add: families_def add_token_def image_image)

lemma families_drop: "families (st\<lparr> au_tokens := filter K (au_tokens st) \<rparr>) \<subseteq> families st"
  by (auto simp: families_def)

lemma live_add [simp]:
  "live f (add_token row st) = live f st @ (if rk_family row = f \<and> rk_revokedAt row = None then [row] else [])"
  by (simp add: live_def add_token_def)

lemma live_revoke: "live f (revoke_all now K st) = filter (\<lambda>t. \<not> K t) (live f st)"
proof -
  have "filter (\<lambda>t. rk_family t = f \<and> rk_revokedAt t = None) (map (mark now K) ts) =
    filter (\<lambda>t. \<not> K t) (filter (\<lambda>t. rk_family t = f \<and> rk_revokedAt t = None) ts)" for ts
    by (induction ts) (auto simp: mark_def)
  then show ?thesis by (simp add: live_def)
qed

lemma live_tokens: "au_tokens st' = au_tokens st \<Longrightarrow> live f st' = live f st"
  by (simp add: live_def)

lemma live_drop: "live f (st\<lparr> au_tokens := filter K (au_tokens st) \<rparr>) = filter K (live f st)"
  by (simp add: live_def conj_commute)

lemma live_only:
  assumes "length (live f st) \<le> 1" "t \<in> set (au_tokens st)" "rk_revokedAt t = None" "rk_family t = f"
  shows "live f st = [t]"
proof -
  have "t \<in> set (live f st)" using assms(2-4) by (simp add: live_def)
  then show ?thesis using assms(1) by (cases "live f st"; cases "tl (live f st)") auto
qed

section \<open>Ended sessions\<close>

definition ended :: "string \<Rightarrow> string set \<Rightarrow> auth_state \<Rightarrow> bool" where
  "ended f used st \<longleftrightarrow> f \<in> used \<and> live f st = []"

interpretation dead: session_invariant "ended f"
proof
  show "ended f used (add_token row (revoke_all now (\<lambda>x. rk_tokenHash x = rk_tokenHash t) st))"
    if "ended f used st" "t \<in> set (au_tokens st)" "rk_revokedAt t = None" "rk_family row = rk_family t" for used st t row now
  proof -
    have "rk_family t \<noteq> f" using that(1-3) by (auto simp: ended_def live_def filter_empty_conv)
    then show ?thesis using that(1,4) by (simp add: ended_def live_revoke)
  qed
  show "ended f used (revoke_all now K st)" if "ended f used st" for used now K st
    using that by (simp add: ended_def live_revoke)
qed (auto simp: ended_def live_def add_token_def filter_empty_conv)

lemma refresh_needs_live:
  assumes "refresh_token h now ttl m raw st = (Inr g, st')" "token_parts raw = (f, secret)"
  shows "\<exists>t\<in>set (live f st). rk_tokenHash t = ah_sha256 h (the secret) \<and> now \<le> rk_expiresAt t \<and>
    (\<exists>u. user_by_id (rk_userId t) st = Some u \<and> us_isActive u)"
proof -
  obtain t where t: "stored_token h (the secret) st = Some t" "rk_family t = f" "rk_revokedAt t = None" "\<not> rk_expiresAt t < now"
    and who: "\<exists>w. loadAuthUser (rk_userId t) (revoke_all now (\<lambda>x. rk_tokenHash x = rk_tokenHash t) st) = Inr w \<and> aw_isActive w"
    using assms by (auto simp: refresh_token_def refresh_from_def refresh_revoke_def refresh_issue_def Let_def split: if_splits option.splits sum.splits)
  have "t \<in> set (au_tokens st)" "rk_tokenHash t = ah_sha256 h (the secret)"
    using t(1) by (auto simp: stored_token_def find_Some_iff)
  moreover have "\<exists>u. user_by_id (rk_userId t) st = Some u \<and> us_isActive u"
    using who by (auto simp: loadAuthUser_def user_by_id_def revoke_all_def auth_user_of_def split: option.splits)
  ultimately show ?thesis using t(2-4) by (auto simp: live_def)
qed

lemma reuse_ends:
  assumes "refresh_token h now ttl m raw st0 = (Inl (Http (Unauthorized ''Refresh token reuse detected'')), st)" "token_parts raw = (f, secret)"
  shows "live f st = [] \<and> f \<in> families st"
proof -
  have issue: "fst (issueTokens h now ttl m fam who s) \<noteq> Inl (Http x)" for fam who s x
    by (auto simp: issueTokens_def Let_def)
  have load: "loadAuthUser uid s \<noteq> Inl (Http x)" for uid s x by (auto simp: loadAuthUser_def split: option.split)
  obtain t where t: "stored_token h (the secret) st0 = Some t" "rk_family t = f" "st = revoke_live now (\<lambda>x. rk_family x = f) st0"
    using assms issue load
    by (auto simp: refresh_token_def refresh_from_def refresh_revoke_def refresh_issue_def Let_def split: if_splits option.splits sum.splits)
       (metis fst_conv)+
  have "t \<in> set (au_tokens st0)" using t(1) by (auto simp: stored_token_def find_Some_iff)
  then have "f \<in> families st" using t(2) unfolding t(3) revoke_live_eq families_simps by (auto simp: families_def)
  then show ?thesis unfolding t(3) revoke_live_eq live_revoke by (auto simp: live_def filter_empty_conv)
qed

lemma user_sessions_end: "live f (revoke_live now (\<lambda>x. rk_userId x = uid) st) = filter (\<lambda>t. rk_userId t \<noteq> uid) (live f st)"
  unfolding revoke_live_eq live_revoke by (rule filter_cong) (auto simp: live_def)



section \<open>The standing of an account\<close>

text \<open>An answer to a wrong password or a wrong code, and one after which the counters start again.\<close>

fun wrong_factor :: "auth_error + grant \<Rightarrow> bool" where
  "wrong_factor (Inl (Http (Unauthorized e))) \<longleftrightarrow> e = ''Invalid credentials'' \<or> e = ''Invalid two-factor code''"
| "wrong_factor _ \<longleftrightarrow> False"

fun starts_over :: "auth_error + grant \<Rightarrow> bool" where
  "starts_over (Inr g) \<longleftrightarrow> True"
| "starts_over (Inl (Internal e)) \<longleftrightarrow> True"
| "starts_over _ \<longleftrightarrow> False"

definition ids_distinct :: "auth_state \<Rightarrow> bool" where
  "ids_distinct st \<longleftrightarrow> distinct (map us_id (au_users st))"

definition standing :: "string \<Rightarrow> auth_state \<Rightarrow> (string \<times> int \<times> int option) option" where
  "standing un st = map_option (\<lambda>u. (us_id u, us_failedLoginAttempts u, us_lockedUntil u)) (user_by_name un st)"

lemma find_append_Some: "find Q xs \<noteq> None \<Longrightarrow> find Q (xs @ ys) = find Q xs"
  by (induction xs) auto

lemma distinct_map_filter_of: "distinct (map g xs) \<Longrightarrow> distinct (map g (filter Q xs))"
  by (induction xs) auto

lemma find_map_rows:
  assumes "\<And>u. us_username (f u) = us_username u"
  shows "find (\<lambda>u. us_username u = un) (map f us) = map_option f (find (\<lambda>u. us_username u = un) us)"
  using assms by (induction us) auto

lemma user_by_name_change:
  assumes "\<And>u. us_username (f u) = us_username u"
  shows "user_by_name un (change_user uid f st) = map_option (\<lambda>u. if us_id u = uid then f u else u) (user_by_name un st)"
  unfolding user_by_name_def change_user_def using assms by (simp add: find_map_rows)

lemma ids_change:
  assumes "\<And>u. us_id (f u) = us_id u"
  shows "ids_distinct (change_user uid f st) = ids_distinct st"
proof -
  have "map us_id (au_users (change_user uid f st)) = map us_id (au_users st)"
    using assms by (simp add: change_user_def comp_def if_distrib [of us_id] cong: if_cong)
  then show ?thesis by (simp add: ids_distinct_def)
qed

lemma standing_change:
  assumes "\<And>u. us_username (f u) = us_username u" "\<And>u. us_id (f u) = us_id u"
    "\<And>u. us_failedLoginAttempts (f u) = us_failedLoginAttempts u" "\<And>u. us_lockedUntil (f u) = us_lockedUntil u"
  shows "standing un (change_user uid f st) = standing un st"
  using assms by (cases "user_by_name un st") (auto simp: standing_def user_by_name_change)

lemma users_tokens [simp]:
  "standing un (st\<lparr> au_tokens := ts \<rparr>) = standing un st" "ids_distinct (st\<lparr> au_tokens := ts \<rparr>) = ids_distinct st"
  "standing un (revoke_live now K st) = standing un st" "ids_distinct (revoke_live now K st) = ids_distinct st"
  "standing un (revoke_all now K st) = standing un st" "ids_distinct (revoke_all now K st) = ids_distinct st"
  by (simp_all add: standing_def user_by_name_def ids_distinct_def revoke_live_def revoke_all_def)

lemma users_issueTokens [simp]:
  "standing un (snd (issueTokens h now ttl m fam who st)) = standing un st"
  "ids_distinct (snd (issueTokens h now ttl m fam who st)) = ids_distinct st"
  by (simp_all add: issueTokens_def Let_def)

lemma refresh_revoke_users [simp]: "au_users (snd (refresh_revoke r now f stored st)) = au_users st"
  by (simp add: refresh_revoke_def revoke_live_def revoke_all_def split: option.split)

lemma refresh_issue_users [simp]: "au_users (snd (refresh_issue h now ttl m f t st)) = au_users st"
  by (simp add: refresh_issue_def issueTokens_def revoke_live_def Let_def split: sum.split)

lemma refresh_users: "au_users (snd (refresh_token h now ttl m raw st)) = au_users st"
proof -
  have "au_users (snd (refresh_from h now ttl m f stored st)) = au_users st" for f stored
    by (cases "refresh_revoke now now f stored st")
      (use refresh_revoke_users [of now now f stored st] in \<open>simp add: refresh_from_def del: refresh_revoke_users split: sum.split\<close>)
  then show ?thesis by (simp add: refresh_token_def split: prod.split)
qed

lemma by_users:
  "au_users s = au_users st \<Longrightarrow> standing un s = standing un st"
  "au_users s = au_users st \<Longrightarrow> ids_distinct s = ids_distinct st"
  by (simp_all add: standing_def user_by_name_def ids_distinct_def)

lemma users_quiet:
  "standing un (snd (refresh_token h now ttl m raw st)) = standing un st"
  "standing un (logout h now raw st) = standing un st"
  "standing un (snd (changePassword h now salt uid old new st)) = standing un st"
  "standing un (snd (setup_2fa h secret iv uid st)) = standing un st"
  "standing un (snd (enable_2fa h now codes uid code st)) = standing un st"
  "standing un (snd (disable_2fa h uid pw st)) = standing un st"
  "standing un (snd (regenerateRecoveryCodes h now codes uid code st)) = standing un st"
  "standing un (snd (update_user now uid dto actor st)) = standing un st"
  by (simp_all add: by_users(1) [OF refresh_users] logout_def changePassword_def setup_2fa_def enable_2fa_def
      disable_2fa_def regenerateRecoveryCodes_def update_user_def update_row_of_def must_find_def Let_def standing_change
      split: prod.split option.split sum.split bool.split)

lemma ids_quiet:
  "ids_distinct (snd (refresh_token h now ttl m raw st)) = ids_distinct st"
  "ids_distinct (logout h now raw st) = ids_distinct st"
  "ids_distinct (snd (changePassword h now salt uid old new st)) = ids_distinct st"
  "ids_distinct (snd (setup_2fa h secret iv uid st)) = ids_distinct st"
  "ids_distinct (snd (enable_2fa h now codes uid code st)) = ids_distinct st"
  "ids_distinct (snd (disable_2fa h uid pw st)) = ids_distinct st"
  "ids_distinct (snd (regenerateRecoveryCodes h now codes uid code st)) = ids_distinct st"
  "ids_distinct (snd (update_user now uid dto actor st)) = ids_distinct st"
  by (simp_all add: by_users(2) [OF refresh_users] logout_def changePassword_def setup_2fa_def enable_2fa_def
      disable_2fa_def regenerateRecoveryCodes_def update_user_def update_row_of_def must_find_def Let_def ids_change
      split: prod.split option.split sum.split bool.split)


lemma users_verifyForLogin:
  assumes "verifyForLogin h now u token st = (r, st')"
  shows "standing un st' = standing un st" "ids_distinct st' = ids_distinct st"
  using assms by (auto simp: verifyForLogin_def Let_def standing_change ids_change split: if_splits option.splits)

lemma standing_registerFailedLogin:
  "standing un (registerFailedLogin now u st) =
     map_option (\<lambda>(i, n, l). if i = us_id u
       then (i, if us_failedLoginAttempts u + 1 \<ge> MAX_FAILED_ATTEMPTS then 0 else us_failedLoginAttempts u + 1,
             if us_failedLoginAttempts u + 1 \<ge> MAX_FAILED_ATTEMPTS then Some (now + LOCKOUT_MS) else l) else (i, n, l)) (standing un st)"
  by (cases "user_by_name un st") (auto simp: standing_def registerFailedLogin_def Let_def user_by_name_change)

lemma ids_registerFailedLogin [simp]: "ids_distinct (registerFailedLogin now u st) = ids_distinct st"
  by (simp add: registerFailedLogin_def Let_def ids_change)

lemma standing_admit_other:
  assumes "\<And>i n l. standing un st = Some (i, n, l) \<Longrightarrow> i \<noteq> us_id u"
  shows "standing un (snd (admit h now ttl m u st)) = standing un st"
  using assms by (cases "user_by_name un st") (auto simp: admit_def Let_def standing_def user_by_name_change issueTokens_def
      user_by_name_def change_user_def find_map_rows split: sum.split)

lemma ids_admit [simp]: "ids_distinct (snd (admit h now ttl m u st)) = ids_distinct st"
  by (simp add: admit_def Let_def ids_change split: sum.split)

lemma ids_login: "ids_distinct (snd (login h now ttl m un pw totp st)) = ids_distinct st"
  by (auto simp: login_def login_from_def Let_def dest: users_verifyForLogin split: option.split prod.split sum.split bool.split)

section \<open>Factors\<close>

definition factors_ok :: "auth_state \<Rightarrow> bool" where
  "factors_ok st \<longleftrightarrow> (\<forall>u\<in>set (au_users st). us_totpEnabled u \<longrightarrow> given (us_totpSecret u))"

lemma factors_change:
  assumes "factors_ok st" "\<And>u. u \<in> set (au_users st) \<Longrightarrow> us_id u = uid \<Longrightarrow> (us_totpEnabled u \<longrightarrow> given (us_totpSecret u)) \<Longrightarrow>
      us_totpEnabled (f u) \<longrightarrow> given (us_totpSecret (f u))"
  shows "factors_ok (change_user uid f st)"
  using assms by (auto simp: factors_ok_def change_user_def)

lemma factors_tokens [simp]:
  "factors_ok (st\<lparr> au_tokens := ts \<rparr>) = factors_ok st" "factors_ok (revoke_live now K st) = factors_ok st"
  "factors_ok (revoke_all now K st) = factors_ok st" "factors_ok (snd (issueTokens h now ttl m fam who st)) = factors_ok st"
  by (simp_all add: factors_ok_def revoke_live_def revoke_all_def issueTokens_def Let_def)

lemma factors_verify: "verifyForLogin h now u token st = (r, st') \<Longrightarrow> factors_ok st \<Longrightarrow> factors_ok st'"
  by (auto simp: verifyForLogin_def Let_def split: if_splits option.splits intro!: factors_change)

lemma factors_login:
  assumes "factors_ok st"
  shows "factors_ok (snd (login h now ttl m un pw totp st))"
proof -
  have admit: "factors_ok (snd (admit h now ttl m u s))" if "factors_ok s" for u s
  proof -
    have "factors_ok (change_user (us_id u) (\<lambda>x. x\<lparr> us_failedLoginAttempts := 0, us_lockedUntil := None \<rparr>) s)"
      using that by (rule factors_change) simp
    then show ?thesis by (simp add: admit_def Let_def split: sum.split)
  qed
  have reg: "factors_ok (registerFailedLogin now u s)" if "factors_ok s" for u s
    unfolding registerFailedLogin_def Let_def using that by (rule factors_change) simp
  show ?thesis using assms admit reg factors_verify
    by (auto simp: login_def login_from_def Let_def split: option.split prod.split sum.split bool.split)
qed

lemma ids_create: "ids_distinct st \<Longrightarrow> ids_distinct (snd (create_user h salt uid dto actor st))"
  by (auto simp: create_user_def ids_distinct_def list_ex_iff split: sum.split)

lemma ids_remove: "ids_distinct st \<Longrightarrow> ids_distinct (snd (remove_user uid st))"
  by (auto simp: remove_user_def ids_distinct_def distinct_map_filter_of split: option.split)

lemma ids_step: "ids_distinct st \<Longrightarrow> ids_distinct (auth_step h ttl (now, req) st)"
  by (cases req) (simp_all add: ids_quiet ids_login ids_create ids_remove)

lemma user_by_id_change:
  assumes "\<And>u. us_id (f u) = us_id u"
  shows "user_by_id i (change_user uid f st) = map_option (\<lambda>u. if us_id u = uid then f u else u) (user_by_id i st)"
proof -
  have "find (\<lambda>u. us_id u = i) (map (\<lambda>u. if us_id u = uid then f u else u) us) =
      map_option (\<lambda>u. if us_id u = uid then f u else u) (find (\<lambda>u. us_id u = i) us)" for us
    using assms by (induction us) auto
  then show ?thesis by (simp add: user_by_id_def change_user_def)
qed

lemma only_row:
  assumes "ids_distinct st" "user_by_id uid st = Some u" "x \<in> set (au_users st)" "us_id x = uid"
  shows "x = u"
  using assms by (auto simp: user_by_id_def find_Some_iff ids_distinct_def distinct_map inj_on_def)

lemma factors_step:
  assumes "factors_ok st" "ids_distinct st" "\<forall>iv s. ah_encrypt h iv s \<noteq> []"
  shows "factors_ok (auth_step h ttl (now, req) st)"
proof (cases req)
  case (Login m un pw totp)
  then show ?thesis using factors_login assms(1) by simp
next
  case (Refresh m raw)
  then show ?thesis using assms(1) by (simp add: factors_ok_def refresh_users)
next
  case (Logout raw)
  then show ?thesis using assms(1) by (simp add: logout_def Let_def split: prod.split)
next
  case (Update_user uid dto actor)
  have row: "factors_ok (snd (update_row_of now uid dto s))" if "factors_ok s" for s
    using that by (auto simp: update_row_of_def Let_def intro!: factors_change)
  moreover have "factors_ok (change_user uid (\<lambda>x. x\<lparr> us_roles := ids \<rparr>) st)" for ids
    using assms(1) by (rule factors_change) simp
  ultimately show ?thesis using Update_user assms(1) by (simp add: update_user_def split: option.split sum.split)
next
  case (Create_user salt uid dto actor)
  then show ?thesis using assms(1) by (simp add: create_user_def factors_ok_def split: sum.split)
next
  case (Remove_user uid)
  then show ?thesis using assms(1) by (auto simp: remove_user_def factors_ok_def split: option.split)
next
  case (Enable_2fa codes uid code)
  show ?thesis
  proof (cases "user_by_id uid st")
    case (Some u)
    have "factors_ok (change_user uid (\<lambda>x. x\<lparr> us_totpEnabled := True, us_recoveryCodes := map (hashCode h) codes \<rparr>) st)"
      if "given (us_totpSecret u)"
      using assms(1) by (rule factors_change) (use only_row [OF assms(2) Some] that in auto)
    then show ?thesis using Some assms(1) Enable_2fa by (simp add: enable_2fa_def must_find_def split: option.split)
  qed (simp add: Enable_2fa enable_2fa_def must_find_def assms(1))
qed (use assms(1,3) in \<open>auto simp: changePassword_def setup_2fa_def disable_2fa_def regenerateRecoveryCodes_def must_find_def
       given_def split: option.split bool.split intro!: factors_change\<close>)

lemma factors_run:
  assumes "factors_ok st" "ids_distinct st" "\<forall>iv s. ah_encrypt h iv s \<noteq> []"
  shows "factors_ok (auth_run h ttl reqs st)"
  using assms(1,2)
proof (induction reqs arbitrary: st)
  case (Cons r reqs)
  then show ?case using factors_step [OF _ _ assms(3)] ids_step by (cases r) (auto simp: auth_run_def)
qed (simp add: auth_run_def)

lemma admit_Inr:
  assumes "admit h now ttl m u st = (Inr g, st')" "user_by_id (us_id u) st = Some x"
  shows "aw_id (gr_user g) = us_id u \<and> au_users st' = au_users (change_user (us_id u) (\<lambda>x. x\<lparr> us_failedLoginAttempts := 0, us_lockedUntil := None \<rparr>) st)"
  using assms by (auto simp: admit_def Let_def issueTokens_def loadAuthUser_def auth_user_of_def user_by_id_def find_Some_iff
      split: option.splits if_splits)

text \<open>
  C38. A login needs every factor. After any history, whoever gets in named an active account that is
  not locked and gave its password; when the account has a second factor, also a code that is valid
  now, or an unused recovery code, which is used up by it: no row of the account has it afterwards.
\<close>

theorem login_needs_factors:
  assumes "factors_ok st0" "ids_distinct st0" "\<forall>iv s. ah_encrypt h iv s \<noteq> []"
    and "login h now ttl m un pw totp (auth_run h ttl reqs st0) = (Inr g, st')"
  shows "\<exists>u. user_by_name un (auth_run h ttl reqs st0) = Some u \<and> us_isActive u \<and> \<not> is_locked now u \<and>
    ah_verify h (us_passwordHash u) pw = Some True \<and>
    (us_totpEnabled u \<longrightarrow> (\<exists>code secret. totp = Some code \<and> ah_decrypt h (the (us_totpSecret u)) = Some secret \<and>
       (ah_totp h now secret (trim code) \<or>
        hashCode h (trim code) \<in> set (us_recoveryCodes u) \<and>
        (\<forall>x\<in>set (au_users st'). us_id x = us_id u \<longrightarrow> hashCode h (trim code) \<notin> set (us_recoveryCodes x)))))"
proof -
  let ?st = "auth_run h ttl reqs st0"
  have fac: "factors_ok ?st" by (rule factors_run [OF assms(1-3)])
  obtain u where u: "user_by_name un ?st = Some u" "us_isActive u" "\<not> is_locked now u" "ah_verify h (us_passwordHash u) pw = Some True"
    using assms(4) by (auto simp: login_def login_from_def Let_def split: option.splits if_splits)
  have mem: "u \<in> set (au_users ?st)" using u(1) by (auto simp: user_by_name_def find_Some_iff)
  have second: "\<exists>code secret. totp = Some code \<and> ah_decrypt h (the (us_totpSecret u)) = Some secret \<and>
       (ah_totp h now secret (trim code) \<or> hashCode h (trim code) \<in> set (us_recoveryCodes u) \<and>
        (\<forall>x\<in>set (au_users st'). us_id x = us_id u \<longrightarrow> hashCode h (trim code) \<notin> set (us_recoveryCodes x)))" if on: "us_totpEnabled u"
  proof -
    obtain code where code: "totp = Some code" using assms(4) u on
      by (cases totp) (auto simp: login_def login_from_def given_def split: if_splits)
    have sec: "given (us_totpSecret u)" using fac mem on by (auto simp: factors_ok_def)
    obtain st1 where st1: "verifyForLogin h now u code ?st = (Inr True, st1)" "admit h now ttl m u st1 = (Inr g, st')"
      using assms(4) u on code by (auto simp: login_def login_from_def split: if_splits prod.splits sum.splits bool.splits)
    obtain secret where secret: "ah_decrypt h (the (us_totpSecret u)) = Some secret"
      using st1(1) on sec by (auto simp: verifyForLogin_def split: option.splits)
    show ?thesis
    proof (cases "ah_totp h now secret (trim code)")
      case False
      let ?c = "hashCode h (trim code)"
      have used: "?c \<in> set (us_recoveryCodes u)"
        "st1 = change_user (us_id u) (\<lambda>x. x\<lparr> us_recoveryCodes := filter (\<lambda>c. c \<noteq> ?c) (us_recoveryCodes u) \<rparr>) ?st"
        using st1(1) on sec secret False by (auto simp: verifyForLogin_def Let_def split: if_splits)
      have "\<exists>x. user_by_id (us_id u) st1 = Some x"
        unfolding used(2) using mem by (simp add: user_by_id_change) (auto simp: user_by_id_def find_None_iff simp flip: not_None_eq)
      then have "au_users st' = au_users (change_user (us_id u) (\<lambda>x. x\<lparr> us_failedLoginAttempts := 0, us_lockedUntil := None \<rparr>) st1)"
        using admit_Inr [OF st1(2)] by blast
      then have "?c \<notin> set (us_recoveryCodes x)" if "x \<in> set (au_users st')" "us_id x = us_id u" for x
        using that used(2) by (auto simp: change_user_def split: if_splits)
      then show ?thesis using used(1) code secret by blast
    qed (use code secret in blast)
  qed
  show ?thesis using u second by blast
qed


section \<open>Examples\<close>

text \<open>A host whose hashes are the texts themselves; the code that is valid is always the secret.\<close>

definition plain_host :: auth_host where
  "plain_host = \<lparr> ah_verify = (\<lambda>hash pw. Some (hash = pw)), ah_hash = (\<lambda>salt pw. pw), ah_sha256 = (\<lambda>s. s),
     ah_encrypt = (\<lambda>iv s. CHR ''#'' # s), ah_decrypt = (\<lambda>s. Some (tl s)), ah_totp = (\<lambda>now secret code. secret = code) \<rparr>"

definition ann :: user_row where
  "ann = \<lparr> us_id = ''1'', us_username = ''ann'', us_email = ''a@x'', us_displayName = None, us_passwordHash = ''pw'',
     us_isActive = True, us_isSystem = False, us_failedLoginAttempts = 0, us_lockedUntil = None, us_totpSecret = Some ''#s'',
     us_totpEnabled = True, us_recoveryCodes = [''r''], us_roles = [] \<rparr>"

definition small_auth :: auth_state where
  "small_auth = \<lparr> au_users = [ann], au_roles = [], au_tokens = [] \<rparr>"

definition mint_of :: "string \<Rightarrow> string \<Rightarrow> mint" where
  "mint_of raw f = \<lparr> mi_raw = raw, mi_family = f \<rparr>"

definition sessions :: "(int \<times> auth_request) list" where
  "sessions = [(0, Login (mint_of ''a'' ''F'') ''ann'' ''pw'' (Some ''s'')), (1, Refresh (mint_of ''b'' ''G'') ''F.a''),
     (2, Login (mint_of ''c'' ''H'') ''ann'' ''pw'' (Some ''R''))]"


theorem login_needs_factors_witness:
  "\<exists>g st'. login plain_host 3 30 (mint_of ''d'' ''K'') ''ann'' ''pw'' (Some ''s'') (auth_run plain_host 30 sessions small_auth) = (Inr g, st') \<and>
    (\<exists>u. user_by_name ''ann'' (auth_run plain_host 30 sessions small_auth) = Some u \<and> ah_verify plain_host (us_passwordHash u) ''pw'' = Some True)"
proof -
  let ?st = "auth_run plain_host 30 sessions small_auth"
  have "starts_over (fst (login plain_host 3 30 (mint_of ''d'' ''K'') ''ann'' ''pw'' (Some ''s'') ?st)) \<and>
      \<not> (case fst (login plain_host 3 30 (mint_of ''d'' ''K'') ''ann'' ''pw'' (Some ''s'') ?st) of Inl _ \<Rightarrow> True | Inr _ \<Rightarrow> False)" by code_simp
  then obtain g st' where l: "login plain_host 3 30 (mint_of ''d'' ''K'') ''ann'' ''pw'' (Some ''s'') ?st = (Inr g, st')"
    by (cases "login plain_host 3 30 (mint_of ''d'' ''K'') ''ann'' ''pw'' (Some ''s'') ?st") (auto split: sum.splits)
  have "factors_ok small_auth" "ids_distinct small_auth" "\<forall>iv s. ah_encrypt plain_host iv s \<noteq> []"
    by (simp_all add: factors_ok_def ids_distinct_def small_auth_def ann_def given_def plain_host_def)
  from login_needs_factors [OF this l] l show ?thesis by blast
qed

end
