(* ===== verification/Auth_Access.thy ===== *)
theory Auth_Access
  imports Auth_Sessions
begin

text \<open>
  Who a request acts as: \<^verbatim>\<open>auth/strategies/jwt.strategy.ts\<close>,
  \<^verbatim>\<open>auth/guards/permissions.guard.ts\<close> and the routes of \<^verbatim>\<open>users/users.module.ts\<close>.
  The claims of an access token come from the platform, which has checked its signature and expiry;
  the identity is read again from the tables, kept for a short while, and taken from the claims when
  the database does not answer.

  The theorems state how old an identity can be, and that only a super admin makes super admins.
\<close>

section \<open>Identities\<close>

record claims =
  jp_sub :: string
  jp_username :: string
  jp_roles :: "string list"
  jp_permissions :: "string list"
  jp_type :: string

record access_state =
  ac_db :: auth_state
  ac_cache :: "(string \<times> int \<times> identity option) list"
  ac_degraded :: bool
  ac_admitted :: nat
  ac_audits :: "nat list"

definition REVALIDATE_TTL_MS :: int where "REVALIDATE_TTL_MS = 15000"

definition identity_of :: "auth_state \<Rightarrow> string \<Rightarrow> identity option" where
  "identity_of db uid =
     (case user_by_id uid db of
        None \<Rightarrow> None
      | Some u \<Rightarrow>
          if us_isActive u then Some \<lparr> id_id = us_id u, id_username = us_username u, id_roles = us_roles u,
                                       id_permissions = permissions_of (au_roles db) (us_roles u) \<rparr>
          else None)"

text \<open>The result is \<open>None\<close> when the database did not answer.\<close>

definition currentIdentity :: "int \<Rightarrow> bool \<Rightarrow> string \<Rightarrow> access_state \<Rightarrow> identity option option \<times> access_state" where
  "currentIdentity now ok uid st =
     (let read = (if \<not> ok then (None, st)
                  else
                    (let resolved = identity_of (ac_db st) uid;
                         kept = (if length (ac_cache st) > 1000 then [] else ac_cache st)
                     in (Some resolved, st\<lparr> ac_cache := (uid, now, resolved) # filter (\<lambda>(k, _). k \<noteq> uid) kept \<rparr>)))
      in case map_of (ac_cache st) uid of
           None \<Rightarrow> read
         | Some (since, r) \<Rightarrow> if now - since < REVALIDATE_TTL_MS then (Some r, st) else read)"

definition enterDegraded :: "access_state \<Rightarrow> access_state" where
  "enterDegraded st = st\<lparr> ac_admitted := ac_admitted st + 1, ac_degraded := True \<rparr>"

definition leaveDegraded :: "access_state \<Rightarrow> access_state" where
  "leaveDegraded st =
     (if \<not> ac_degraded st then st
      else st\<lparr> ac_degraded := False, ac_admitted := 0, ac_audits := ac_audits st @ [ac_admitted st] \<rparr>)"

definition of_claims :: "claims \<Rightarrow> identity" where
  "of_claims c = \<lparr> id_id = jp_sub c, id_username = jp_username c, id_roles = jp_roles c, id_permissions = jp_permissions c \<rparr>"

definition validate :: "bool \<Rightarrow> int \<Rightarrow> bool \<Rightarrow> claims \<Rightarrow> access_state \<Rightarrow> (http_error + identity) \<times> access_state" where
  "validate failClosed now ok c st =
     (if jp_type c \<noteq> ''access'' then (Inl (Unauthorized ''Invalid token type''), st)
      else
        (case currentIdentity now ok (jp_sub c) st of
           (None, st1) \<Rightarrow>
             if failClosed then (Inl (Unauthorized ''Cannot verify the account right now''), st1)
             else (Inr (of_claims c), enterDegraded st1)
         | (Some None, st1) \<Rightarrow> (Inl (Unauthorized ''Account is no longer active''), leaveDegraded st1)
         | (Some (Some who), st1) \<Rightarrow> (Inr who, leaveDegraded st1)))"

definition permissions_guard :: "string list \<Rightarrow> identity option \<Rightarrow> http_error + unit" where
  "permissions_guard required user =
     (if required = [] then Inr ()
      else (case user of
              None \<Rightarrow> Inl (Forbidden ''Not authenticated'')
            | Some u \<Rightarrow>
                if SUPER_ADMIN \<in> set (id_roles u) then Inr ()
                else
                  (let missing = filter (\<lambda>p. p \<notin> set (id_permissions u)) required in
                   if missing \<noteq> [] then Inl (Forbidden (''Missing permission(s): '' @ join_with '', '' missing)) else Inr ())))"


section \<open>Routes\<close>

datatype users_route = Post_user string string create_dto | Patch_user string update_dto | Delete_user string

definition USERS_MANAGE :: string where "USERS_MANAGE = ''users.manage''"

fun users_request :: "identity \<Rightarrow> users_route \<Rightarrow> auth_request" where
  "users_request who (Post_user salt uid dto) = Create_user salt uid dto who"
| "users_request who (Patch_user uid dto) = Update_user uid dto who"
| "users_request who (Delete_user uid) = Remove_user uid"

text \<open>Other requests, authenticated requests elsewhere, and the administration of users behind both guards.\<close>

datatype access_event = Plain int auth_request | Visit int bool claims | Admin int bool claims users_route

fun access_step :: "auth_host \<Rightarrow> int \<Rightarrow> bool \<Rightarrow> access_event \<Rightarrow> access_state \<Rightarrow> access_state" where
  "access_step h ttl fc (Plain now req) st = st\<lparr> ac_db := auth_step h ttl (now, req) (ac_db st) \<rparr>"
| "access_step h ttl fc (Visit now ok c) st = snd (validate fc now ok c st)"
| "access_step h ttl fc (Admin now ok c route) st =
     (case validate fc now ok c st of
        (Inl e, st1) \<Rightarrow> st1
      | (Inr who, st1) \<Rightarrow>
          (case permissions_guard [USERS_MANAGE] (Some who) of
             Inl e \<Rightarrow> st1
           | Inr _ \<Rightarrow> st1\<lparr> ac_db := auth_step h ttl (now, users_request who route) (ac_db st1) \<rparr>))"

definition access_run :: "auth_host \<Rightarrow> int \<Rightarrow> bool \<Rightarrow> access_event list \<Rightarrow> access_state \<Rightarrow> access_state" where
  "access_run h ttl fc evs st = fold (access_step h ttl fc) evs st"

fun event_time :: "access_event \<Rightarrow> int" where
  "event_time (Plain now _) = now" | "event_time (Visit now _ _) = now" | "event_time (Admin now _ _ _) = now"

text \<open>The tables as every event found them, with its time.\<close>

fun past :: "auth_host \<Rightarrow> int \<Rightarrow> bool \<Rightarrow> access_event list \<Rightarrow> access_state \<Rightarrow> (int \<times> auth_state) list" where
  "past h ttl fc [] st = []"
| "past h ttl fc (ev # evs) st = (event_time ev, ac_db st) # past h ttl fc evs (access_step h ttl fc ev st)"


section \<open>How old an identity is\<close>

definition cache_sound :: "(int \<times> auth_state) set \<Rightarrow> access_state \<Rightarrow> bool" where
  "cache_sound seen st \<longleftrightarrow> (\<forall>(uid, since, r)\<in>set (ac_cache st). \<exists>db. (since, db) \<in> seen \<and> r = identity_of db uid)"

lemma cache_degraded [simp]:
  "ac_cache (enterDegraded st) = ac_cache st" "ac_cache (leaveDegraded st) = ac_cache st"
  "ac_db (enterDegraded st) = ac_db st" "ac_db (leaveDegraded st) = ac_db st"
  by (simp_all add: enterDegraded_def leaveDegraded_def)

lemma cache_sound_degraded [simp]:
  "cache_sound seen (enterDegraded st) = cache_sound seen st" "cache_sound seen (leaveDegraded st) = cache_sound seen st"
  by (simp_all add: cache_sound_def)

lemma currentIdentity_db: "currentIdentity now ok uid st = (r, st') \<Longrightarrow> ac_db st' = ac_db st"
  by (auto simp: currentIdentity_def Let_def split: option.splits if_splits)

lemma currentIdentity_sound:
  assumes "currentIdentity now ok uid st = (r, st')" "cache_sound seen st"
  shows "cache_sound (insert (now, ac_db st) seen) st' \<and>
    (\<forall>who. r = Some who \<longrightarrow> (\<exists>s db. (s, db) \<in> insert (now, ac_db st) seen \<and> now - s < REVALIDATE_TTL_MS \<and> who = identity_of db uid)) \<and>
    (r = None \<longrightarrow> \<not> ok)"
proof -
  let ?seen = "insert (now, ac_db st) seen"
  let ?kept = "if length (ac_cache st) > 1000 then [] else ac_cache st"
  have old: "cache_sound ?seen st" using assms(2) unfolding cache_sound_def by blast
  have entry: "\<exists>db. (since, db) \<in> seen \<and> who = identity_of db uid" if "map_of (ac_cache st) uid = Some (since, who)" for since who
    using map_of_SomeD [OF that] assms(2) unfolding cache_sound_def by blast
  have "set ?kept \<subseteq> set (ac_cache st)" by simp
  then have new: "cache_sound ?seen (st\<lparr> ac_cache := (uid, now, identity_of (ac_db st) uid) # filter (\<lambda>(k, _). k \<noteq> uid) ?kept \<rparr>)"
    using old unfolding cache_sound_def by auto
  show ?thesis
  proof (cases "\<exists>since who. map_of (ac_cache st) uid = Some (since, who) \<and> now - since < REVALIDATE_TTL_MS")
    case True
    then obtain since who where hit: "map_of (ac_cache st) uid = Some (since, who)" "now - since < REVALIDATE_TTL_MS" by blast
    then have "r = Some who" "st' = st" using assms(1) by (simp_all add: currentIdentity_def)
    then show ?thesis using old entry [OF hit(1)] hit(2) by blast
  next
    case False
    then have "(r, st') = (if \<not> ok then (None, st) else (Some (identity_of (ac_db st) uid),
        st\<lparr> ac_cache := (uid, now, identity_of (ac_db st) uid) # filter (\<lambda>(k, _). k \<noteq> uid) ?kept \<rparr>))"
      using assms(1) by (auto simp: currentIdentity_def Let_def split: option.splits)
    moreover have "\<exists>s db. (s, db) \<in> ?seen \<and> now - s < REVALIDATE_TTL_MS \<and> identity_of (ac_db st) uid = identity_of db uid"
      by (intro exI [of _ now] exI [of _ "ac_db st"]) (simp add: REVALIDATE_TTL_MS_def)
    ultimately show ?thesis using old new by (cases ok) simp_all
  qed
qed

lemma validate_sound:
  assumes "validate fc now ok c st = (r, st')" "cache_sound seen st"
  shows "cache_sound (insert (now, ac_db st) seen) st' \<and> ac_db st' = ac_db st \<and>
    (\<forall>who. r = Inr who \<longrightarrow> \<not> ok \<and> \<not> fc \<and> who = of_claims c \<or>
       (\<exists>s db. (s, db) \<in> insert (now, ac_db st) seen \<and> now - s < REVALIDATE_TTL_MS \<and> identity_of db (jp_sub c) = Some who))"
proof -
  obtain x st1 where c: "currentIdentity now ok (jp_sub c) st = (x, st1)" by fastforce
  have grow: "cache_sound (insert (now, ac_db st) seen) st" using assms(2) unfolding cache_sound_def by blast
  note sound = currentIdentity_sound [OF c assms(2)]
  show ?thesis
  proof (cases "jp_type c = ''access''")
    case True
    show ?thesis
    proof (cases x)
      case None
      then show ?thesis using assms(1) c True sound currentIdentity_db [OF c] by (auto simp: validate_def split: if_splits)
    next
      case (Some y)
      then have old: "\<exists>s db. (s, db) \<in> insert (now, ac_db st) seen \<and> now - s < REVALIDATE_TTL_MS \<and> y = identity_of db (jp_sub c)"
        using sound by blast
      have "st' = leaveDegraded st1" "\<And>who. r = Inr who \<Longrightarrow> y = Some who"
        using assms(1) c True Some by (auto simp: validate_def split: option.splits)
      then show ?thesis using old sound currentIdentity_db [OF c] by (metis cache_degraded(4) cache_sound_degraded(2))
    qed
  qed (use assms(1) grow in \<open>auto simp: validate_def\<close>)
qed

lemma step_sound:
  assumes "cache_sound seen st"
  shows "cache_sound (insert (event_time ev, ac_db st) seen) (access_step h ttl fc ev st)"
proof (cases ev)
  case (Plain now req)
  then show ?thesis using assms unfolding cache_sound_def by auto
next
  case (Visit now ok c)
  obtain r st1 where v: "validate fc now ok c st = (r, st1)" by fastforce
  then show ?thesis using Visit validate_sound [OF v assms] by simp
next
  case (Admin now ok c route)
  obtain r st1 where v: "validate fc now ok c st = (r, st1)" by fastforce
  then show ?thesis using Admin validate_sound [OF v assms]
    by (auto simp: cache_sound_def split: sum.splits)
qed

lemma run_sound:
  assumes "cache_sound seen st"
  shows "cache_sound (set (past h ttl fc evs st) \<union> seen) (access_run h ttl fc evs st)"
  using assms
proof (induction evs arbitrary: seen st)
  case (Cons ev evs)
  have "cache_sound (insert (event_time ev, ac_db st) seen) (access_step h ttl fc ev st)" by (rule step_sound [OF Cons.prems])
  from Cons.IH [OF this] show ?case by (simp add: access_run_def)
qed (simp add: access_run_def)

lemma recent_identity:
  assumes "ac_cache st = []" "validate fc now ok c (access_run h ttl fc evs st) = (Inr who, st')"
  shows "\<not> ok \<and> \<not> fc \<and> who = of_claims c \<or>
    (\<exists>(s, db)\<in>set (past h ttl fc evs st @ [(now, ac_db (access_run h ttl fc evs st))]).
       now - s < REVALIDATE_TTL_MS \<and> identity_of db (jp_sub c) = Some who)"
proof -
  have "cache_sound {} st" using assms(1) by (simp add: cache_sound_def)
  from validate_sound [OF assms(2) run_sound [OF this]] show ?thesis by auto
qed

text \<open>
  C39. A request acts as the account is, or was within a quarter of a minute. After any history, an
  identity that is accepted has exactly the roles and permissions that an active account had in the
  tables at some moment less than fifteen seconds ago; only when the database does not answer, and the
  installation does not refuse then, is it what the token claims.
\<close>

theorem identity_recent:
  assumes "ac_cache st = []" "validate fc now ok c (access_run h ttl fc evs st) = (Inr who, st')"
  shows "\<not> ok \<and> \<not> fc \<and> who = of_claims c \<or>
    (\<exists>(s, db)\<in>set (past h ttl fc evs st @ [(now, ac_db (access_run h ttl fc evs st))]).
       now - s < REVALIDATE_TTL_MS \<and> identity_of db (jp_sub c) = Some who)"
  by (rule recent_identity [OF assms])


section \<open>Super admins\<close>

definition holds_super :: "auth_state \<Rightarrow> string \<Rightarrow> bool" where
  "holds_super db uid \<longleftrightarrow> (\<exists>u\<in>set (au_users db). us_id u = uid \<and> SUPER_ADMIN \<in> set (us_roles u))"

lemma super_change:
  assumes "holds_super (change_user i f db) uid" "\<And>u. us_id (f u) = us_id u" "\<And>u. us_roles (f u) = us_roles u"
  shows "holds_super db uid"
  using assms by (auto simp: holds_super_def change_user_def split: if_splits)

lemma super_tokens [simp]:
  "holds_super (db\<lparr> au_tokens := ts \<rparr>) = holds_super db" "holds_super (revoke_live now K db) = holds_super db"
  "holds_super (revoke_all now K db) = holds_super db" "holds_super (snd (issueTokens h now ttl m fam who db)) = holds_super db"
  by (simp_all add: fun_eq_iff holds_super_def revoke_live_def revoke_all_def issueTokens_def Let_def)

lemma super_login:
  assumes "holds_super (snd (login h now ttl m un pw totp db)) uid"
  shows "holds_super db uid"
proof -
  have admit: "holds_super s uid" if "holds_super (snd (admit h now ttl m u s)) uid" for u s
    using that by (auto simp: admit_def Let_def split: sum.splits dest!: super_change)
  have reg: "holds_super s uid" if "holds_super (registerFailedLogin now u s) uid" for u s
    using that by (auto simp: registerFailedLogin_def Let_def dest!: super_change)
  have verify: "holds_super s uid" if "verifyForLogin h now u token s = (r, s')" "holds_super s' uid" for u token s r s'
    using that by (auto simp: verifyForLogin_def Let_def split: if_splits option.splits dest!: super_change)
  show ?thesis using assms
    by (auto simp: login_def login_from_def Let_def split: option.splits prod.splits sum.splits bool.splits if_splits
        dest: admit reg verify)
qed

fun is_admin_request :: "auth_request \<Rightarrow> bool" where
  "is_admin_request (Create_user _ _ _ _) \<longleftrightarrow> True"
| "is_admin_request (Update_user _ _ _) \<longleftrightarrow> True"
| "is_admin_request _ \<longleftrightarrow> False"

lemma super_plain:
  assumes "holds_super (auth_step h ttl (now, req) db) uid" "\<not> is_admin_request req"
  shows "holds_super db uid"
proof (cases req)
  case (Login m un pw totp)
  then show ?thesis using assms super_login by simp
next
  case (Refresh m raw)
  then show ?thesis using assms by (simp add: holds_super_def refresh_users)
next
  case (Remove_user i)
  then show ?thesis using assms by (auto simp: remove_user_def holds_super_def split: option.splits if_splits)
qed (use assms in \<open>auto simp: logout_def changePassword_def setup_2fa_def enable_2fa_def
      disable_2fa_def regenerateRecoveryCodes_def must_find_def Let_def
      split: prod.splits option.splits sum.splits bool.splits if_splits dest!: super_change\<close>)

lemma resolveRoleIds_sub: "resolveRoleIds roles names = Inr ids \<Longrightarrow> set ids \<subseteq> set names"
  by (auto simp: resolveRoleIds_def Let_def split: if_splits)

lemma may_assign: "assertMayAssignRoles (Some names) actor target = Inr u \<Longrightarrow> SUPER_ADMIN \<in> set names \<Longrightarrow> SUPER_ADMIN \<in> set (id_roles actor)"
  by (auto simp: assertMayAssignRoles_def split: if_splits)

lemma super_create:
  assumes "holds_super (snd (create_user h salt i dto actor db)) uid" "\<not> holds_super db uid"
  shows "SUPER_ADMIN \<in> set (id_roles actor)"
proof -
  let ?db = "snd (create_user h salt i dto actor db)"
  have "?db = db \<or> (\<exists>v ids row. assertMayAssignRoles (Some (cd_roleNames dto)) actor None = Inr v \<and>
      resolveRoleIds (au_roles db) (cd_roleNames dto) = Inr ids \<and> au_users ?db = au_users db @ [row] \<and> us_roles row = ids)"
    by (simp add: create_user_def split: sum.split)
  then obtain v ids row where ok: "assertMayAssignRoles (Some (cd_roleNames dto)) actor None = Inr v"
      "resolveRoleIds (au_roles db) (cd_roleNames dto) = Inr ids" "au_users ?db = au_users db @ [row]" "us_roles row = ids"
  proof (elim disjE exE conjE)
    assume "?db = db"
    with assms show thesis by simp
  qed (rule that)
  have "SUPER_ADMIN \<in> set ids" using assms ok(3,4) unfolding holds_super_def by auto
  then show ?thesis using resolveRoleIds_sub [OF ok(2)] may_assign [OF ok(1)] by blast
qed

lemma super_update:
  assumes "holds_super (snd (update_user now i dto actor db)) uid" "\<not> holds_super db uid"
  shows "SUPER_ADMIN \<in> set (id_roles actor)"
proof -
  have row: "holds_super s uid" if "holds_super (snd (update_row_of now i dto s)) uid" for s
    using that by (auto simp: update_row_of_def Let_def split: if_splits dest!: super_change)
  have roles: "holds_super db uid \<or> SUPER_ADMIN \<in> set ids"
    if "holds_super (change_user i (\<lambda>x. x\<lparr> us_roles := ids \<rparr>) db) uid" for ids
    using that by (auto simp: holds_super_def change_user_def split: if_splits)
  obtain names v ids where ok: "ud_roleNames dto = Some names" "assertMayAssignRoles (ud_roleNames dto) actor (Some i) = Inr v"
      "resolveRoleIds (au_roles db) names = Inr ids"
      "holds_super (snd (update_row_of now i dto (change_user i (\<lambda>x. x\<lparr> us_roles := ids \<rparr>) db))) uid"
  proof -
    have "\<not> holds_super (snd (update_row_of now i dto db)) uid" using row assms(2) by blast
    then have "\<exists>names v ids. ud_roleNames dto = Some names \<and> assertMayAssignRoles (ud_roleNames dto) actor (Some i) = Inr v \<and>
        resolveRoleIds (au_roles db) names = Inr ids \<and>
        holds_super (snd (update_row_of now i dto (change_user i (\<lambda>x. x\<lparr> us_roles := ids \<rparr>) db))) uid"
      using assms unfolding update_user_def by (simp split: option.splits sum.splits if_splits)
    then show thesis using that by (elim exE conjE)
  qed
  have "SUPER_ADMIN \<in> set ids" using roles [OF row [OF ok(4)]] assms(2) by blast
  then show ?thesis using resolveRoleIds_sub [OF ok(3)] may_assign ok(1,2) by (metis subsetD)
qed

text \<open>
  C40. Only a super admin makes super admins. After any history of requests, in which users are
  administered through their routes only, an event by which a user comes to hold the role is a request
  to those routes by an identity that itself holds it: one that held it in the tables less than fifteen
  seconds before, or, while the database did not answer, one whose token says so.
\<close>

theorem super_admin_from_super_admin:
  assumes "ac_cache st = []" "\<forall>now req. Plain now req \<in> set (evs @ [ev]) \<longrightarrow> \<not> is_admin_request req"
    and "holds_super (ac_db (access_run h ttl fc (evs @ [ev]) st)) uid" "\<not> holds_super (ac_db (access_run h ttl fc evs st)) uid"
  shows "\<exists>now ok c route who. ev = Admin now ok c route \<and> SUPER_ADMIN \<in> set (id_roles who) \<and>
    (\<not> ok \<and> \<not> fc \<and> who = of_claims c \<or>
     (\<exists>(s, db)\<in>set (past h ttl fc evs st @ [(now, ac_db (access_run h ttl fc evs st))]).
        now - s < REVALIDATE_TTL_MS \<and> identity_of db (jp_sub c) = Some who))"
proof -
  let ?st = "access_run h ttl fc evs st"
  have last: "access_run h ttl fc (evs @ [ev]) st = access_step h ttl fc ev ?st" by (simp add: access_run_def)
  have sound: "cache_sound (set (past h ttl fc evs st) \<union> {}) ?st" using assms(1) by (intro run_sound) (simp add: cache_sound_def)
  show ?thesis
  proof (cases ev)
    case (Plain now req)
    then show ?thesis using assms(2-4) super_plain unfolding last by auto
  next
    case (Visit now ok c)
    obtain r st1 where v: "validate fc now ok c ?st = (r, st1)" by fastforce
    then show ?thesis using assms(3,4) Visit validate_sound [OF v sound] unfolding last by simp
  next
    case (Admin now ok c route)
    obtain r st1 where v: "validate fc now ok c ?st = (r, st1)" by fastforce
    then have db: "ac_db st1 = ac_db ?st" using validate_sound [OF v sound] by simp
    obtain who where who: "r = Inr who" "holds_super (auth_step h ttl (now, users_request who route) (ac_db ?st)) uid"
      using assms(3,4) Admin v db unfolding last by (auto split: sum.splits)
    have "SUPER_ADMIN \<in> set (id_roles who)"
    proof (cases route)
      case (Post_user salt i dto)
      then show ?thesis using super_create who(2) assms(4) by auto
    next
      case (Patch_user i dto)
      then show ?thesis using super_update who(2) assms(4) by auto
    next
      case (Delete_user i)
      then show ?thesis using super_plain [of h ttl now "Remove_user i"] who(2) assms(4) by auto
    qed
    moreover have "\<not> ok \<and> \<not> fc \<and> who = of_claims c \<or>
     (\<exists>(s, db)\<in>set (past h ttl fc evs st @ [(now, ac_db ?st)]). now - s < REVALIDATE_TTL_MS \<and> identity_of db (jp_sub c) = Some who)"
      by (rule recent_identity [OF assms(1) v [unfolded who(1)]])
    ultimately show ?thesis using Admin by (intro exI conjI) assumption+
  qed
qed


section \<open>Examples\<close>

definition boss :: user_row where
  "boss = ann\<lparr> us_id := ''9'', us_username := ''boss'', us_email := ''b@x'', us_totpEnabled := False, us_roles := [SUPER_ADMIN] \<rparr>"

definition manager :: identity where
  "manager = \<lparr> id_id = ''1'', id_username = ''ann'', id_roles = [''MANAGER''], id_permissions = [USERS_MANAGE] \<rparr>"

definition access_example :: access_state where
  "access_example = \<lparr> ac_db = \<lparr> au_users = [ann\<lparr> us_roles := [''MANAGER''] \<rparr>, boss],
       au_roles = [\<lparr> ro_name = ''MANAGER'', ro_permissions = [USERS_MANAGE] \<rparr>, \<lparr> ro_name = SUPER_ADMIN, ro_permissions = [] \<rparr>], au_tokens = [] \<rparr>,
     ac_cache = [], ac_degraded = False, ac_admitted = 0, ac_audits = [] \<rparr>"

definition claims_of :: "string \<Rightarrow> claims" where
  "claims_of uid = \<lparr> jp_sub = uid, jp_username = uid, jp_roles = [], jp_permissions = [], jp_type = ''access'' \<rparr>"

definition promote :: access_event where
  "promote = Admin 20000 True (claims_of ''9'') (Patch_user ''1'' \<lparr> ud_email = None, ud_displayName = None, ud_isActive = None, ud_roleNames = Some [SUPER_ADMIN] \<rparr>)"

theorem identity_recent_witness:
  "\<exists>who st'. validate False 16000 True (claims_of ''1'') (access_run plain_host 30 False [Visit 0 True (claims_of ''1'')] access_example) = (Inr who, st') \<and>
     (\<exists>(s, db)\<in>set (past plain_host 30 False [Visit 0 True (claims_of ''1'')] access_example @
          [(16000, ac_db (access_run plain_host 30 False [Visit 0 True (claims_of ''1'')] access_example))]).
        16000 - s < REVALIDATE_TTL_MS \<and> identity_of db ''1'' = Some who)"
proof -
  let ?evs = "[Visit 0 True (claims_of ''1'')]"
  let ?st = "access_run plain_host 30 False ?evs access_example"
  have "(case fst (validate False 16000 True (claims_of ''1'') ?st) of Inl _ \<Rightarrow> False | Inr _ \<Rightarrow> True)" by code_simp
  then obtain who st' where v: "validate False 16000 True (claims_of ''1'') ?st = (Inr who, st')"
    by (cases "validate False 16000 True (claims_of ''1'') ?st") (auto split: sum.splits)
  have "ac_cache access_example = []" by (simp add: access_example_def)
  from identity_recent [OF this v] v show ?thesis by (simp add: claims_of_def)
qed

theorem super_admin_from_super_admin_witness:
  "\<exists>now ok c route (who :: identity). promote = Admin now ok c route \<and> SUPER_ADMIN \<in> set (id_roles who)"
proof -
  have hyp: "ac_cache access_example = []" "\<forall>now req. Plain now req \<in> set ([] @ [promote]) \<longrightarrow> \<not> is_admin_request req"
    by (simp_all add: access_example_def promote_def)
  have "holds_super (ac_db (access_run plain_host 30 False ([] @ [promote]) access_example)) ''1''"
    "\<not> holds_super (ac_db (access_run plain_host 30 False [] access_example)) ''1''"
    by code_simp+
  from super_admin_from_super_admin [OF hyp this] show ?thesis
    by (elim exE conjE) (intro exI conjI, assumption+)
qed

text \<open>
  The rule about roles looks only at what is granted: whoever may manage users takes the role from a
  super admin, and gives out roles whose permissions it does not hold.
\<close>

lemma manager_demotes_super:
  "let db = ac_db access_example;
       db' = snd (update_user 0 ''9'' \<lparr> ud_email = None, ud_displayName = None, ud_isActive = Some False, ud_roleNames = Some [] \<rparr> manager db)
   in holds_super db ''9'' \<and> \<not> holds_super db' ''9'' \<and> identity_of db' ''9'' = None"
  by code_simp

end
