(* ===== verification/Auth_Interleaving.thy ===== *)
theory Auth_Interleaving
  imports Auth_Sessions
begin

text \<open>
  Logins and refreshes whose parts interleave. The handlers of \<^verbatim>\<open>auth/auth.service.ts\<close> await
  the database between reading a row and writing it, so other requests are served in between. A login
  is two parts: the row of the user is read and its lock tested; then the factors are checked and the
  outcome is written. A refresh is three: the row of the token is read and its dates tested; it is
  revoked; its owner is looked up and the next token inserted. What was begun and not finished is a
  list of stages beside the tables, and a history is a list of events, each of which begins a request,
  carries on with one of the stages, or is another request in one piece.

  The theorems say what holds when no two refreshes of one session overlap, or no two logins of one
  account, everything else interleaving freely: a session has one live token and one owner, and
  guesses at the factors of an account are bounded. The examples show that neither holds without.
\<close>

section \<open>Parts of requests\<close>

datatype stage =
  Login_read int string string "string option" "user_row option"
| Refresh_read int string "token_row option"
| Refresh_revoked string token_row

datatype auth_event =
  Begin_login int string string "string option"
| Begin_refresh int string
| Continue nat int mint
| Other int auth_request

text \<open>The lock is tested when the row is read, at \<open>readAt\<close>; a lock does not return as time passes.\<close>

definition login_finish ::
  "auth_host \<Rightarrow> int \<Rightarrow> int \<Rightarrow> int \<Rightarrow> mint \<Rightarrow> user_row option \<Rightarrow> string \<Rightarrow> string option \<Rightarrow> auth_state \<Rightarrow>
   grant auth_result" where
  "login_finish h readAt now ttlDays m user password totp st =
     (if (case user of None \<Rightarrow> False | Some u \<Rightarrow> is_locked readAt u) then
        (Inl (Http (Unauthorized ''Account temporarily locked due to failed attempts. Try again later.'')), st)
      else login_from h now ttlDays m user password totp st)"

text \<open>Carrying on with a stage gives the answer, or the next stage.\<close>

fun stage_step ::
  "auth_host \<Rightarrow> int \<Rightarrow> int \<Rightarrow> mint \<Rightarrow> stage \<Rightarrow> auth_state \<Rightarrow> ((auth_error + grant) + stage) \<times> auth_state" where
  "stage_step h ttl now m (Login_read readAt un pw totp user) st =
     (case login_finish h readAt now ttl m user pw totp st of (r, st') \<Rightarrow> (Inl r, st'))"
| "stage_step h ttl now m (Refresh_read readAt family stored) st =
     (case refresh_revoke readAt now family stored st of
        (Inl e, st') \<Rightarrow> (Inl (Inl e), st')
      | (Inr t, st') \<Rightarrow> (Inr (Refresh_revoked family t), st'))"
| "stage_step h ttl now m (Refresh_revoked family t) st =
     (case refresh_issue h now ttl m family t st of (r, st') \<Rightarrow> (Inl r, st'))"

fun part_step :: "auth_host \<Rightarrow> int \<Rightarrow> auth_event \<Rightarrow> stage list \<times> auth_state \<Rightarrow> stage list \<times> auth_state" where
  "part_step h ttl (Begin_login now un pw totp) (ps, st) =
     (ps @ [Login_read now un pw totp (user_by_name un st)], st)"
| "part_step h ttl (Begin_refresh now raw) (ps, st) =
     (let (family, secret) = token_parts raw in
      if family = [] \<or> \<not> given secret then (ps, st)
      else (ps @ [Refresh_read now family (stored_token h (the secret) st)], st))"
| "part_step h ttl (Continue k now m) (ps, st) =
     (if k < length ps then
        (case stage_step h ttl now m (ps ! k) st of
           (Inl answer, st') \<Rightarrow> (take k ps @ drop (Suc k) ps, st')
         | (Inr p, st') \<Rightarrow> (take k ps @ p # drop (Suc k) ps, st'))
      else (ps, st))"
| "part_step h ttl (Other now req) (ps, st) = (ps, auth_step h ttl (now, req) st)"

definition part_run ::
  "auth_host \<Rightarrow> int \<Rightarrow> auth_event list \<Rightarrow> stage list \<times> auth_state \<Rightarrow> stage list \<times> auth_state" where
  "part_run h ttl evs c = fold (part_step h ttl) evs c"

text \<open>Requests whose parts follow each other without a gap are the requests of \<open>Auth_Sessions\<close>.\<close>

lemma login_in_parts:
  "part_run h ttl [Begin_login now un pw totp, Continue 0 now m] ([], st) =
     ([], auth_step h ttl (now, Login m un pw totp) st)"
proof -
  have "snd (login_finish h now now ttl m user pw totp st) = snd (login_from h now ttl m user pw totp st)" for user
    by (cases user) (simp_all add: login_finish_def login_from_def)
  then show ?thesis by (simp add: part_run_def login_def split: prod.split) (metis snd_conv)
qed

lemma refresh_in_parts:
  "part_run h ttl [Begin_refresh now raw, Continue 0 now m, Continue 0 now m] ([], st) =
     ([], auth_step h ttl (now, Refresh m raw) st)"
proof (cases "token_parts raw")
  case (Pair family secret)
  show ?thesis
  proof (cases "family = [] \<or> \<not> given secret")
    case False
    obtain r st1 where "refresh_revoke now now family (stored_token h (the secret) st) st = (r, st1)" by fastforce
    with Pair False show ?thesis
      by (cases r) (simp_all add: part_run_def refresh_token_def refresh_from_def split: prod.split)
  qed (use Pair in \<open>auto simp: part_run_def refresh_token_def\<close>)
qed


section \<open>Disciplines\<close>

text \<open>Every draw of a family is new; logins and refreshes are given in parts.\<close>

fun draws_fresh :: "string set \<Rightarrow> auth_event list \<Rightarrow> bool" where
  "draws_fresh used [] \<longleftrightarrow> True"
| "draws_fresh used (Continue k now m # evs) \<longleftrightarrow> mi_family m \<notin> used \<and> draws_fresh (insert (mi_family m) used) evs"
| "draws_fresh used (_ # evs) \<longleftrightarrow> draws_fresh used evs"

fun in_parts :: "auth_event \<Rightarrow> bool" where
  "in_parts (Other now (Login m un pw totp)) \<longleftrightarrow> False"
| "in_parts (Other now (Refresh m raw)) \<longleftrightarrow> False"
| "in_parts _ \<longleftrightarrow> True"

fun stage_family :: "stage \<Rightarrow> string option" where
  "stage_family (Login_read _ _ _ _ _) = None"
| "stage_family (Refresh_read _ family _) = Some family"
| "stage_family (Refresh_revoked family _) = Some family"

text \<open>No refresh of a session begins while another one of it is under way.\<close>

fun refreshes_apart :: "auth_host \<Rightarrow> int \<Rightarrow> auth_event list \<Rightarrow> stage list \<times> auth_state \<Rightarrow> bool" where
  "refreshes_apart h ttl [] c \<longleftrightarrow> True"
| "refreshes_apart h ttl (ev # evs) c \<longleftrightarrow>
     (case ev of
        Begin_refresh now raw \<Rightarrow> Some (fst (token_parts raw)) \<notin> stage_family ` set (fst c)
      | _ \<Rightarrow> True) \<and>
     refreshes_apart h ttl evs (part_step h ttl ev c)"


section \<open>One live token\<close>

text \<open>
  What a stage knows of its session: whatever is live of it is the token that was read; after the
  revocation nothing is; and every token of it belongs to the owner of that token.
\<close>

definition live_is :: "auth_state \<Rightarrow> string \<Rightarrow> string \<Rightarrow> bool" where
  "live_is st f hash \<longleftrightarrow> (\<forall>x\<in>set (live f st). rk_tokenHash x = hash)"

definition owned_by :: "auth_state \<Rightarrow> string \<Rightarrow> string \<Rightarrow> bool" where
  "owned_by st f uid \<longleftrightarrow> (\<forall>x\<in>set (au_tokens st). rk_family x = f \<longrightarrow> rk_userId x = uid)"

fun stage_ok :: "string set \<Rightarrow> auth_state \<Rightarrow> stage \<Rightarrow> bool" where
  "stage_ok used st (Login_read _ _ _ _ _) \<longleftrightarrow> True"
| "stage_ok used st (Refresh_read _ f None) \<longleftrightarrow> True"
| "stage_ok used st (Refresh_read _ f (Some t)) \<longleftrightarrow>
     (rk_family t = f \<and> rk_revokedAt t = None \<longrightarrow>
        f \<in> used \<and> live_is st f (rk_tokenHash t) \<and> owned_by st f (rk_userId t))"
| "stage_ok used st (Refresh_revoked f t) \<longleftrightarrow> f \<in> used \<and> live f st = [] \<and> owned_by st f (rk_userId t)"

lemma stage_cases:
  obtains (login) r un pw totp u where "p = Login_read r un pw totp u" | (none) r f where "p = Refresh_read r f None"
  | (read) r f t where "p = Refresh_read r f (Some t)" | (revoked) f t where "p = Refresh_revoked f t"
  by (metis stage.exhaust option.exhaust)

definition one_owner :: "auth_state \<Rightarrow> bool" where
  "one_owner st \<longleftrightarrow>
     (\<forall>t\<in>set (au_tokens st). \<forall>x\<in>set (au_tokens st). rk_family t = rk_family x \<longrightarrow> rk_userId t = rk_userId x)"

definition sessions_ok :: "stage list \<Rightarrow> string set \<Rightarrow> auth_state \<Rightarrow> bool" where
  "sessions_ok ps used st \<longleftrightarrow>
     families st \<subseteq> used \<and> (\<forall>f. length (live f st) \<le> 1) \<and> one_owner st \<and> (\<forall>p\<in>set ps. stage_ok used st p)"

lemma unused_not_live: "families st \<subseteq> used \<Longrightarrow> f \<notin> used \<Longrightarrow> live f st = []"
  by (auto simp: families_def live_def filter_empty_conv)

text \<open>\<open>same_owners\<close>: every token of the second state continues one of the first.\<close>

definition same_owners :: "auth_state \<Rightarrow> auth_state \<Rightarrow> bool" where
  "same_owners st st' \<longleftrightarrow>
     (\<forall>x\<in>set (au_tokens st'). \<exists>y\<in>set (au_tokens st). rk_family y = rk_family x \<and> rk_userId y = rk_userId x)"

lemma owned_by_shrink: "owned_by st f uid \<Longrightarrow> same_owners st st' \<Longrightarrow> owned_by st' f uid"
  unfolding owned_by_def same_owners_def by metis

lemma owned_by_add: "f \<noteq> rk_family row \<Longrightarrow> owned_by (add_token row st) f uid = owned_by st f uid"
  by (auto simp: owned_by_def add_token_def)

lemma live_is_add: "f \<noteq> rk_family row \<Longrightarrow> live_is (add_token row st) f hash = live_is st f hash"
  by (simp add: live_is_def)

lemma stage_ok_shrink:
  assumes "stage_ok used st p" "\<And>f. set (live f st') \<subseteq> set (live f st)" "same_owners st st'"
  shows "stage_ok used st' p"
proof -
  have "live_is st' f hash" if "live_is st f hash" for f hash using that assms(2) [of f] unfolding live_is_def by blast
  moreover have "live f st' = []" if "live f st = []" for f using that assms(2) [of f] by simp
  ultimately show ?thesis using assms(1) owned_by_shrink [OF _ assms(3)] by (cases p rule: stage_cases) simp_all
qed

lemma stage_ok_add:
  assumes "stage_ok used st p" "stage_family p \<noteq> Some (rk_family row)"
  shows "stage_ok used (add_token row st) p"
  using assms by (cases p rule: stage_cases) (auto simp: owned_by_add live_is_add)

lemma stage_ok_grow: "stage_ok used st p \<Longrightarrow> used \<subseteq> used' \<Longrightarrow> stage_ok used' st p"
  by (cases p rule: stage_cases) auto

lemma stage_family_used:
  assumes "stage_ok used st p" "stage_family p = Some f" "f \<notin> used"
  shows "stage_ok used' (add_token row st) p"
  using assms by (cases p rule: stage_cases) auto

lemma one_owner_owned: "one_owner st \<longleftrightarrow> (\<forall>t\<in>set (au_tokens st). owned_by st (rk_family t) (rk_userId t))"
  unfolding one_owner_def owned_by_def by metis

lemma one_owner_sub: "one_owner st \<Longrightarrow> same_owners st st' \<Longrightarrow> one_owner st'"
  unfolding one_owner_def same_owners_def by metis

lemma one_owner_add:
  assumes "one_owner st" "owned_by st (rk_family row) (rk_userId row)"
  shows "one_owner (add_token row st)"
proof -
  have toks: "set (au_tokens (add_token row st)) = insert row (set (au_tokens st))" by (simp add: add_token_def)
  show ?thesis unfolding one_owner_def toks using assms unfolding one_owner_def owned_by_def by (metis insertE)
qed

lemma sessions_shrink:
  assumes "sessions_ok ps used st" "families st' \<subseteq> families st" "\<And>f. length (live f st') \<le> length (live f st)"
    "\<And>f. set (live f st') \<subseteq> set (live f st)"
    "same_owners st st'"
  shows "sessions_ok ps used st'"
  using assms(1) unfolding sessions_ok_def
proof (elim conjE, intro conjI)
  assume all: "families st \<subseteq> used" "\<forall>f. length (live f st) \<le> 1" "one_owner st" "\<forall>p\<in>set ps. stage_ok used st p"
  show "families st' \<subseteq> used" using assms(2) all(1) by blast
  show "\<forall>f. length (live f st') \<le> 1" using assms(3) all(2) order_trans by blast
  show "one_owner st'" by (rule one_owner_sub [OF all(3) assms(5)])
  show "\<forall>p\<in>set ps. stage_ok used st' p" using stage_ok_shrink [OF _ assms(4,5)] all(4) by blast
qed

interpretation parts: token_invariant "sessions_ok ps" for ps
proof
  show "sessions_ok ps used st'" if "au_tokens st' = au_tokens st" "sessions_ok ps used st" for used st st'
    by (rule sessions_shrink [OF that(2)]) (use that(1) in \<open>auto simp: families_def live_def same_owners_def\<close>)
  show "sessions_ok ps (insert f used) st" if "sessions_ok ps used st" for f used st
    using that unfolding sessions_ok_def by (auto intro: stage_ok_grow)
  show "sessions_ok ps used (revoke_all now K st)" if "sessions_ok ps used st" for used now K st
    by (rule sessions_shrink [OF that]) (auto simp: live_revoke same_owners_def)
  show "sessions_ok ps used (st\<lparr> au_tokens := filter K (au_tokens st) \<rparr>)" if "sessions_ok ps used st" for used K st
    by (rule sessions_shrink [OF that]) (use families_drop in \<open>auto simp: live_drop same_owners_def\<close>)
  show "sessions_ok ps (insert (rk_family row) used) (add_token row st)"
    if ok: "sessions_ok ps used st" and fresh: "rk_family row \<notin> used" for used row st
  proof -
    from ok have all: "families st \<subseteq> used" "\<forall>f. length (live f st) \<le> 1" "one_owner st" "\<forall>p\<in>set ps. stage_ok used st p"
      by (simp_all add: sessions_ok_def)
    have none: "owned_by st (rk_family row) (rk_userId row)"
      using all(1) fresh by (auto simp: families_def owned_by_def)
    have "length (live f (add_token row st)) \<le> 1" for f
      using all(2) unused_not_live [OF all(1) fresh] by (cases "rk_family row = f") auto
    moreover have "stage_ok (insert (rk_family row) used) (add_token row st) p" if "p \<in> set ps" for p
    proof (cases "stage_family p = Some (rk_family row)")
      case True
      then show ?thesis using stage_family_used all(4) that fresh by blast
    next
      case False
      then show ?thesis using stage_ok_grow [OF stage_ok_add] all(4) that by blast
    qed
    ultimately show ?thesis
      using all(1) one_owner_add [OF all(3) none] by (auto simp: sessions_ok_def)
  qed
qed

lemma sessions_split: "sessions_ok (xs @ p # zs) used st \<longleftrightarrow> sessions_ok (xs @ zs) used st \<and> stage_ok used st p"
  by (auto simp: sessions_ok_def)

abbreviation fams :: "stage list \<Rightarrow> string list" where
  "fams ps \<equiv> List.map_filter stage_family ps"

lemma fams_append [simp]: "fams (xs @ ys) = fams xs @ fams ys"
  by (simp add: List.map_filter_def)

lemma fams_Cons [simp]: "fams (p # ps) = (case stage_family p of None \<Rightarrow> [] | Some f \<Rightarrow> [f]) @ fams ps"
  by (simp add: List.map_filter_def split: option.split)

lemma in_fams: "f \<in> set (fams ps) \<longleftrightarrow> Some f \<in> stage_family ` set ps"
  by (auto simp: List.map_filter_def image_iff) (metis option.sel option.distinct(1))+

definition parts_ok :: "string set \<Rightarrow> stage list \<times> auth_state \<Rightarrow> bool" where
  "parts_ok used c \<longleftrightarrow> sessions_ok (fst c) used (snd c) \<and> distinct (fams (fst c))"

text \<open>The last part of a refresh: the session it belongs to is that of no other stage.\<close>

lemma sessions_rotate:
  assumes "sessions_ok qs used st" "stage_ok used st (Refresh_revoked f t)" "f \<notin> set (fams qs)"
    "rk_family row = f" "rk_userId row = rk_userId t"
  shows "sessions_ok qs used (add_token row st)"
proof -
  have len: "length (live g (add_token row st)) \<le> 1" for g
    using assms(1,2,4) by (cases "g = f") (auto simp: sessions_ok_def)
  have "one_owner (add_token row st)"
    using assms(1,2,4,5) by (intro one_owner_add) (auto simp: sessions_ok_def)
  moreover have "stage_ok used (add_token row st) p" if "p \<in> set qs" for p
  proof (rule stage_ok_add)
    show "stage_ok used st p" using assms(1) that by (simp add: sessions_ok_def)
    show "stage_family p \<noteq> Some (rk_family row)" using assms(3,4) that unfolding in_fams by (metis imageI)
  qed
  ultimately show ?thesis using assms(1,2,4) len by (simp add: sessions_ok_def)
qed

lemma refresh_issue_keeps:
  assumes "sessions_ok qs used st" "stage_ok used st (Refresh_revoked f t)" "f \<notin> set (fams qs)"
  shows "sessions_ok qs used (snd (refresh_issue h now ttl m f t st))"
proof (cases "loadAuthUser (rk_userId t) st")
  case (Inr who)
  have uid: "aw_id who = rk_userId t"
    using Inr by (auto simp: loadAuthUser_def user_by_id_def auth_user_of_def find_Some_iff split: option.splits)
  obtain r st2 where i: "issueTokens h now ttl m (Some f) who st = (r, st2)" by fastforce
  have "sessions_ok qs used st2"
    using issueTokens_tokens [OF i] sessions_rotate [OF assms] assms(1) uid by auto
  then show ?thesis
    using Inr i parts.revoke [OF assms(1)] by (simp add: refresh_issue_def revoke_live_eq)
qed (simp add: refresh_issue_def assms(1))

lemma refresh_revoke_keeps:
  assumes "sessions_ok ps used st" "stage_ok used st (Refresh_read readAt f stored)"
    and "refresh_revoke readAt now f stored st = (r, st')"
  shows "sessions_ok ps used st' \<and> (\<forall>t. r = Inr t \<longrightarrow> stage_ok used st' (Refresh_revoked f t))"
proof (cases r)
  case (Inl e)
  have "st' = st \<or> st' = revoke_live now (\<lambda>x. rk_family x = f) st"
    using assms(3) Inl by (auto simp: refresh_revoke_def split: option.splits if_splits)
  then show ?thesis using Inl assms(1) parts.revoke [OF assms(1)] unfolding revoke_live_eq by auto
next
  case (Inr t)
  then have t: "stored = Some t" "rk_family t = f" "rk_revokedAt t = None"
    "st' = revoke_all now (\<lambda>x. rk_tokenHash x = rk_tokenHash t) st"
    using assms(3) by (auto simp: refresh_revoke_def split: option.splits if_splits)
  have old: "f \<in> used" "live_is st f (rk_tokenHash t)" "owned_by st f (rk_userId t)" using assms(2) t by auto
  have "live f st' = []" using old(2) by (simp add: t(4) live_revoke live_is_def filter_empty_conv)
  moreover have "owned_by st' f (rk_userId t)"
    by (rule owned_by_shrink [OF old(3)]) (auto simp: t(4) same_owners_def)
  ultimately show ?thesis using Inr old(1) parts.revoke [OF assms(1)] t(4) by simp
qed

lemma login_finish_keeps:
  assumes "sessions_ok ps used st" "mi_family m \<notin> used"
  shows "sessions_ok ps (insert (mi_family m) used) (snd (login_finish h readAt now ttl m user pw totp st))"
  using parts.login_from_keeps [OF assms] parts.grow [OF assms(1)] by (simp add: login_finish_def)

lemma continue_keeps:
  assumes "parts_ok used (ps, st)" "mi_family m \<notin> used"
  shows "parts_ok (insert (mi_family m) used) (part_step h ttl (Continue k now m) (ps, st))"
proof (cases "k < length ps")
  case True
  define xs zs where "xs = take k ps" and "zs = drop (Suc k) ps"
  have ps: "ps = xs @ ps ! k # zs" unfolding xs_def zs_def using True by (rule id_take_nth_drop)
  have ok: "sessions_ok ps used st" "distinct (fams ps)" using assms(1) by (simp_all add: parts_ok_def)
  have rest: "sessions_ok (xs @ zs) used st" "stage_ok used st (ps ! k)"
    using ok(1) sessions_split [of xs "ps ! k" zs] ps by simp_all
  have dist: "distinct (fams xs @ (case stage_family (ps ! k) of None \<Rightarrow> [] | Some f \<Rightarrow> [f]) @ fams zs)"
    using ok(2) ps by (metis fams_append fams_Cons)
  have grown: "sessions_ok qs (insert (mi_family m) used) s" if "sessions_ok qs used s" for qs s
    using parts.grow that by blast
  show ?thesis
  proof (cases "ps ! k")
    case (Login_read r un pw totp u)
    then show ?thesis
      using True dist login_finish_keeps [OF rest(1) assms(2), of h r now ttl u pw totp]
      by (auto simp: parts_ok_def xs_def zs_def split: prod.split)
  next
    case (Refresh_read r f stored)
    obtain a st' where a: "refresh_revoke r now f stored st = (a, st')" by fastforce
    have new: "sessions_ok (xs @ zs) used st'" "\<And>t. a = Inr t \<Longrightarrow> stage_ok used st' (Refresh_revoked f t)"
      using refresh_revoke_keeps [OF rest(1) _ a] rest(2) Refresh_read by simp_all
    show ?thesis
    proof (cases a)
      case (Inl e)
      then show ?thesis using True Refresh_read a dist grown [OF new(1)] by (simp add: parts_ok_def xs_def zs_def)
    next
      case (Inr t)
      have "sessions_ok (xs @ Refresh_revoked f t # zs) used st'" unfolding sessions_split using new Inr by simp
      from grown [OF this] show ?thesis using True Refresh_read a Inr dist by (simp add: parts_ok_def xs_def zs_def)
    qed
  next
    case (Refresh_revoked f t)
    have "f \<notin> set (fams (xs @ zs))" using dist Refresh_revoked by auto
    then have "sessions_ok (xs @ zs) used (snd (refresh_issue h now ttl m f t st))"
      using refresh_issue_keeps [OF rest(1)] rest(2) Refresh_revoked by simp
    from grown [OF this] show ?thesis
      using True Refresh_revoked dist by (auto simp: parts_ok_def xs_def zs_def split: prod.split)
  qed
qed (use assms parts.grow in \<open>auto simp: parts_ok_def\<close>)

lemma begin_refresh_ok:
  assumes "sessions_ok ps used st"
  shows "stage_ok used st (Refresh_read now f (stored_token h secret st))"
proof (cases "stored_token h secret st")
  case (Some t)
  then have t: "t \<in> set (au_tokens st)" by (auto simp: stored_token_def find_Some_iff)
  have all: "families st \<subseteq> used" "\<forall>f. length (live f st) \<le> 1" "one_owner st" using assms by (simp_all add: sessions_ok_def)
  have "live_is st f (rk_tokenHash t)" if "rk_family t = f" "rk_revokedAt t = None"
    using live_only [OF _ t that(2,1)] all(2) by (simp add: live_is_def)
  moreover have "rk_family t \<in> used" using all(1) t by (auto simp: families_def)
  ultimately show ?thesis using Some all(3) t by (auto simp: one_owner_owned)
qed simp

fun drawn :: "string set \<Rightarrow> auth_event \<Rightarrow> string set" where
  "drawn used (Continue k now m) = insert (mi_family m) used"
| "drawn used _ = used"

lemma part_step_keeps:
  assumes "parts_ok used c" "in_parts ev" "draws_fresh used (ev # evs)" "refreshes_apart h ttl (ev # evs) c"
  shows "parts_ok (drawn used ev) (part_step h ttl ev c) \<and> draws_fresh (drawn used ev) evs"
proof (cases c)
  case (Pair ps st)
  have ok: "sessions_ok ps used st" "distinct (fams ps)" using assms(1) Pair by (simp_all add: parts_ok_def)
  show ?thesis
  proof (cases ev)
    case (Begin_login now un pw totp)
    then show ?thesis using assms(3) ok Pair by (simp add: parts_ok_def sessions_ok_def)
  next
    case (Begin_refresh now raw)
    obtain f secret where raw: "token_parts raw = (f, secret)" by fastforce
    have "f \<notin> set (fams ps)" using assms(4) Begin_refresh raw Pair by (simp add: in_fams)
    moreover have "sessions_ok (ps @ [Refresh_read now f (stored_token h (the secret) st)]) used st"
      using begin_refresh_ok [OF ok(1)] ok(1) by (simp add: sessions_ok_def)
    ultimately show ?thesis using assms(1,3) ok Begin_refresh raw Pair by (simp add: parts_ok_def)
  next
    case (Continue k now m)
    then show ?thesis using continue_keeps assms(1,3) Pair by simp
  next
    case (Other now req)
    have "sessions_ok ps used (auth_step h ttl (now, req) st)"
      using assms(2) Other parts.others_keep [OF ok(1)] parts.same_tokens [OF ok(1)] by (cases req) simp_all
    then show ?thesis using assms(3) ok Other Pair by (simp add: parts_ok_def)
  qed
qed

lemma part_run_keeps:
  assumes "parts_ok used c" "\<forall>ev\<in>set evs. in_parts ev" "draws_fresh used evs" "refreshes_apart h ttl evs c"
  shows "\<exists>used'. parts_ok used' (part_run h ttl evs c)"
  using assms
proof (induction evs arbitrary: used c)
  case (Cons ev evs)
  then have "parts_ok (drawn used ev) (part_step h ttl ev c) \<and> draws_fresh (drawn used ev) evs"
    by (intro part_step_keeps) simp_all
  then show ?case using Cons.IH [of "drawn used ev" "part_step h ttl ev c"] Cons.prems by (simp add: part_run_def)
qed (auto simp: part_run_def)

text \<open>
  C35. A session has one live token and one owner. The parts of logins and refreshes and all other
  requests may interleave in any way in which no refresh of a session begins before the one before it
  of that session is through: then at most one token of a session can be exchanged at any time, and
  all tokens of a session belong to the user who logged in. The condition is needed, and nothing in
  the code enforces it: two refreshes that read the same token before either revokes it both get a
  live token (lemma refresh_race).
\<close>

theorem one_live_token:
  assumes "\<forall>ev\<in>set evs. in_parts ev" "draws_fresh (families st) evs" "refreshes_apart h ttl evs ([], st)"
    and "\<forall>f. length (live f st) \<le> 1" "one_owner st" "part_run h ttl evs ([], st) = (ps, st')"
  shows "length (live f st') \<le> 1 \<and> one_owner st'"
proof -
  have "parts_ok (families st) ([], st)" using assms(4,5) by (simp add: parts_ok_def sessions_ok_def List.map_filter_def)
  from part_run_keeps [OF this assms(1-3)] show ?thesis using assms(6) by (auto simp: parts_ok_def sessions_ok_def)
qed


section \<open>Guessing\<close>

fun login_stage :: "string \<Rightarrow> stage \<Rightarrow> bool" where
  "login_stage un (Login_read _ un' _ _ _) \<longleftrightarrow> un' = un"
| "login_stage un _ \<longleftrightarrow> False"

text \<open>
  A guess is a login of an active account that is answered with a wrong password or a wrong code.
  What happens to an account undisturbed neither starts its counters over nor removes it.
\<close>

fun part_guess :: "auth_host \<Rightarrow> int \<Rightarrow> string \<Rightarrow> auth_event \<Rightarrow> stage list \<times> auth_state \<Rightarrow> bool" where
  "part_guess h ttl un (Continue k now m) (ps, st) \<longleftrightarrow>
     k < length ps \<and>
     (case ps ! k of
        Login_read readAt un' pw totp (Some u) \<Rightarrow>
          un' = un \<and> us_isActive u \<and> wrong_factor (fst (login_finish h readAt now ttl m (Some u) pw totp st))
      | _ \<Rightarrow> False)"
| "part_guess h ttl un _ c \<longleftrightarrow> False"

fun part_disturbs :: "auth_host \<Rightarrow> int \<Rightarrow> string \<Rightarrow> auth_event \<Rightarrow> stage list \<times> auth_state \<Rightarrow> bool" where
  "part_disturbs h ttl un (Continue k now m) (ps, st) \<longleftrightarrow>
     k < length ps \<and>
     (case ps ! k of
        Login_read readAt un' pw totp user \<Rightarrow>
          un' = un \<and> starts_over (fst (login_finish h readAt now ttl m user pw totp st))
      | _ \<Rightarrow> False)"
| "part_disturbs h ttl un (Other now (Remove_user uid)) (ps, st) \<longleftrightarrow> map_option us_id (user_by_name un st) = Some uid"
| "part_disturbs h ttl un _ c \<longleftrightarrow> False"

fun part_guesses :: "auth_host \<Rightarrow> int \<Rightarrow> string \<Rightarrow> auth_event list \<Rightarrow> stage list \<times> auth_state \<Rightarrow> int" where
  "part_guesses h ttl un [] c = 0"
| "part_guesses h ttl un (ev # evs) c =
     (if part_guess h ttl un ev c then 1 else 0) + part_guesses h ttl un evs (part_step h ttl ev c)"

fun undisturbed :: "auth_host \<Rightarrow> int \<Rightarrow> string \<Rightarrow> auth_event list \<Rightarrow> stage list \<times> auth_state \<Rightarrow> bool" where
  "undisturbed h ttl un [] c \<longleftrightarrow> True"
| "undisturbed h ttl un (ev # evs) c \<longleftrightarrow> \<not> part_disturbs h ttl un ev c \<and> undisturbed h ttl un evs (part_step h ttl ev c)"

text \<open>No login of the account begins while another one of it is under way.\<close>

fun logins_apart :: "auth_host \<Rightarrow> int \<Rightarrow> string \<Rightarrow> auth_event list \<Rightarrow> stage list \<times> auth_state \<Rightarrow> bool" where
  "logins_apart h ttl un [] c \<longleftrightarrow> True"
| "logins_apart h ttl un (ev # evs) c \<longleftrightarrow>
     (case ev of
        Begin_login now un' pw totp \<Rightarrow> un' = un \<longrightarrow> \<not> list_ex (login_stage un) (fst c)
      | _ \<Rightarrow> True) \<and>
     logins_apart h ttl un evs (part_step h ttl ev c)"

fun event_time :: "auth_event \<Rightarrow> int" where
  "event_time (Begin_login now _ _ _) = now"
| "event_time (Begin_refresh now _) = now"
| "event_time (Continue _ now _) = now"
| "event_time (Other now _) = now"

text \<open>The guesses a user has left until the time \<open>horizon\<close>.\<close>

fun room :: "int \<Rightarrow> (string \<times> int \<times> int option) option \<Rightarrow> int" where
  "room horizon (Some (_, n, l)) = (if (case l of None \<Rightarrow> False | Some x \<Rightarrow> x \<ge> horizon) then 0 else MAX_FAILED_ATTEMPTS - n)"
| "room horizon None = 0"

lemma other_id:
  assumes "ids_distinct st" "user_by_name a st = Some u" "user_by_name b st = Some v" "a \<noteq> b"
  shows "us_id u \<noteq> us_id v"
proof -
  have "u \<in> set (au_users st)" "v \<in> set (au_users st)" "us_username u = a" "us_username v = b"
    using assms(2,3) by (auto simp: user_by_name_def find_Some_iff)
  then show ?thesis using assms(1,4) by (auto simp: ids_distinct_def distinct_map inj_on_def)
qed

lemma standing_login_other:
  assumes "\<And>i n l. standing un st = Some (i, n, l) \<Longrightarrow> i \<noteq> us_id u"
  shows "standing un (snd (login_from h now ttl m (Some u) pw totp st)) = standing un st"
proof -
  have reg: "standing un (registerFailedLogin now u s) = standing un st" if "standing un s = standing un st" for s
    using assms that by (cases "standing un st") (auto simp: standing_registerFailedLogin)
  have adm: "standing un (snd (admit h now ttl m u s)) = standing un st" if "standing un s = standing un st" for s
    using standing_admit_other [of un s u h now ttl m] assms that by metis
  obtain r s where v: "verifyForLogin h now u (the totp) st = (r, s)" by fastforce
  note same = users_verifyForLogin(1) [OF v]
  show ?thesis using reg [OF refl] adm [OF refl] reg [OF same] adm [OF same] same v
    by (cases r) (auto simp: login_from_def Let_def split: bool.split)
qed

lemma ids_login_finish: "ids_distinct (snd (login_finish h readAt now ttl m user pw totp st)) = ids_distinct st"
  by (auto simp: login_finish_def login_from_def Let_def dest: users_verifyForLogin split: option.split prod.split sum.split bool.split)

text \<open>A login of the user itself that does not start the counters over.\<close>

lemma room_login:
  assumes at: "standing un st = Some (us_id u, us_failedLoginAttempts u, us_lockedUntil u)"
    and low: "us_failedLoginAttempts u < MAX_FAILED_ATTEMPTS" and time: "now < horizon" "horizon \<le> now + LOCKOUT_MS"
    and out: "login_from h now ttl m (Some u) pw totp st = (a, st')" "\<not> starts_over a"
  shows "\<exists>n' l'. standing un st' = Some (us_id u, n', l') \<and> n' < MAX_FAILED_ATTEMPTS \<and>
    room horizon (Some (us_id u, n', l')) + (if us_isActive u \<and> wrong_factor a then 1 else 0) \<le> room horizon (standing un st)"
    (is "\<exists>n' l'. ?goal n' l'")
proof -
  have stay: ?thesis if "st' = st" "\<not> (us_isActive u \<and> wrong_factor a)"
    using that at low by (auto simp del: room.simps)
  show ?thesis
  proof (cases "is_locked now u")
    case True
    then show ?thesis using out(1) by (intro stay) (auto simp: login_from_def)
  next
    case False
    have fine: "room horizon (standing un st) = MAX_FAILED_ATTEMPTS - us_failedLoginAttempts u"
      using False time(1) by (auto simp: at is_locked_def split: option.splits)
    have fail: ?thesis if "st' = registerFailedLogin now u s" "standing un s = standing un st" for s
    proof -
      let ?n = "us_failedLoginAttempts u + 1"
      have "?goal (if ?n \<ge> MAX_FAILED_ATTEMPTS then 0 else ?n)
          (if ?n \<ge> MAX_FAILED_ATTEMPTS then Some (now + LOCKOUT_MS) else us_lockedUntil u)"
        using that low time(2) unfolding fine by (auto simp: standing_registerFailedLogin at MAX_FAILED_ATTEMPTS_def)
      then show ?thesis by blast
    qed
    have admit: "starts_over (fst (admit h now ttl m u s))" for s
      by (auto simp: admit_def loadAuthUser_def issueTokens_def Let_def split: option.split)
    obtain r s where v: "verifyForLogin h now u (the totp) st = (r, s)" by fastforce
    have internal: "r = Inl e \<Longrightarrow> \<exists>x. e = Internal x" for e
      using v by (auto simp: verifyForLogin_def Let_def split: if_splits option.splits)
    have a: "a = fst (login_from h now ttl m (Some u) pw totp st)" "st' = snd (login_from h now ttl m (Some u) pw totp st)"
      using out(1) by simp_all
    show ?thesis
    proof (cases "ah_verify h (us_passwordHash u) pw = Some True \<and> us_isActive u")
      case wrong: False
      show ?thesis
      proof (cases "us_isActive u")
        case True
        then show ?thesis using False wrong a by (intro fail [of st]) (simp_all add: login_from_def)
      next
        case idle: False
        then show ?thesis using False a by (intro stay) (simp_all add: login_from_def)
      qed
    next
      case right: True
      show ?thesis
      proof (cases "us_totpEnabled u \<and> given totp")
        case True
        have "r = Inr False"
          using False right True v out(2) admit internal a
          by (cases r) (auto simp: login_from_def split: bool.splits)
        then show ?thesis using False right True v users_verifyForLogin(1) [OF v] a
          by (intro fail [of s]) (simp_all add: login_from_def)
      next
        case missing: False
        then show ?thesis using False right out(2) admit a
          by (intro stay) (auto simp: login_from_def split: if_splits)
      qed
    qed
  qed
qed

lemma room_login_finish:
  assumes "standing un st = Some (us_id u, us_failedLoginAttempts u, us_lockedUntil u)"
    "us_failedLoginAttempts u < MAX_FAILED_ATTEMPTS" "now < horizon" "horizon \<le> now + LOCKOUT_MS"
    and out: "login_finish h readAt now ttl m (Some u) pw totp st = (a, st')" "\<not> starts_over a"
  shows "\<exists>n' l'. standing un st' = Some (us_id u, n', l') \<and> n' < MAX_FAILED_ATTEMPTS \<and>
    room horizon (Some (us_id u, n', l')) + (if us_isActive u \<and> wrong_factor a then 1 else 0) \<le> room horizon (standing un st)"
proof (cases "is_locked readAt u")
  case True
  then have "st' = st" "\<not> wrong_factor a" using out(1) by (auto simp: login_finish_def)
  then show ?thesis using assms(1,2) by (auto simp del: room.simps)
next
  case False
  then have "login_from h now ttl m (Some u) pw totp st = (a, st')" using out(1) by (simp add: login_finish_def)
  from room_login [OF assms(1-4) this out(2)] show ?thesis .
qed

text \<open>
  What a stage of a login knows of the account \<open>un\<close>, whose id is \<open>i\<close>: the counters it read are those of
  the row still, and a login of another name writes to another row.
\<close>

fun counts_ok :: "string \<Rightarrow> string \<Rightarrow> auth_state \<Rightarrow> stage \<Rightarrow> bool" where
  "counts_ok un i st (Login_read _ un' _ _ user) \<longleftrightarrow>
     (if un' = un then \<exists>u. user = Some u \<and> standing un st = Some (us_id u, us_failedLoginAttempts u, us_lockedUntil u)
      else \<forall>u. user = Some u \<longrightarrow> us_id u \<noteq> i)"
| "counts_ok un i st _ \<longleftrightarrow> True"

definition guess_ok :: "string \<Rightarrow> string \<Rightarrow> stage list \<times> auth_state \<Rightarrow> bool" where
  "guess_ok un i c \<longleftrightarrow>
     ids_distinct (snd c) \<and> (\<exists>n l. standing un (snd c) = Some (i, n, l) \<and> n < MAX_FAILED_ATTEMPTS) \<and>
     (\<forall>p\<in>set (fst c). counts_ok un i (snd c) p) \<and> length (filter (login_stage un) (fst c)) \<le> 1"

lemma counts_ok_same: "standing un st' = standing un st \<Longrightarrow> counts_ok un i st' p = counts_ok un i st p"
  by (cases p) simp_all

lemma guess_ok_same:
  assumes "guess_ok un i (ps, st)" "standing un st' = standing un st" "ids_distinct st'" "set qs \<subseteq> set ps \<union> {p. \<forall>s. counts_ok un i s p}"
    "filter (login_stage un) qs = filter (login_stage un) ps \<or> length (filter (login_stage un) qs) \<le> length (filter (login_stage un) ps)"
  shows "guess_ok un i (qs, st')"
proof -
  have "counts_ok un i st' p" if "p \<in> set qs" for p
    using that assms(1,4) counts_ok_same [OF assms(2)] by (auto simp: guess_ok_def)
  then show ?thesis using assms(1,2,3,5) by (auto simp: guess_ok_def)
qed

lemma standing_other:
  assumes "ids_distinct st" "standing un st = Some (i, n, l)" "\<not> part_disturbs h ttl un (Other now req) (ps, st)" "in_parts (Other now req)"
  shows "standing un (auth_step h ttl (now, req) st) = standing un st"
proof (cases req)
  case (Create_user salt uid dto actor)
  have "find (\<lambda>u. us_username u = un) (au_users st) \<noteq> None" using assms(2) by (auto simp: standing_def user_by_name_def)
  then have "find (\<lambda>u. us_username u = un) (au_users st @ us) = find (\<lambda>u. us_username u = un) (au_users st)" for us
    by (auto simp: find_append_Some)
  then show ?thesis using Create_user
    by (auto simp: create_user_def standing_def user_by_name_def split: sum.split)
next
  case (Remove_user uid)
  have "find (\<lambda>u. us_username u = un) (filter (\<lambda>x. us_id x \<noteq> uid) us) = find (\<lambda>u. us_username u = un) us"
    if "map_option us_id (find (\<lambda>u. us_username u = un) us) \<noteq> Some uid" for us
    using that by (induction us) auto
  then have "find (\<lambda>u. us_username u = un) (filter (\<lambda>x. us_id x \<noteq> uid) (au_users st)) = find (\<lambda>u. us_username u = un) (au_users st)"
    using Remove_user assms(3) by (simp add: user_by_name_def)
  then show ?thesis using Remove_user
    by (simp add: remove_user_def standing_def user_by_name_def split: option.split)
qed (use assms(4) in \<open>simp_all add: users_quiet\<close>)

lemma counts_ok_not_login: "\<not> login_stage un p \<Longrightarrow> counts_ok un i st' p = counts_ok un i st p"
  by (cases p) simp_all

lemma continue_login:
  assumes ok: "guess_ok un i (xs @ Login_read r un' pw totp user # zs, st)"
    and time: "now < horizon" "horizon \<le> now + LOCKOUT_MS"
    and out: "login_finish h r now ttl m user pw totp st = (a, st')" "un' = un \<Longrightarrow> \<not> starts_over a"
  shows "guess_ok un i (xs @ zs, st') \<and>
    room horizon (standing un st') + (if un' = un \<and> pred_option us_isActive user \<and> wrong_factor a then 1 else 0) \<le> room horizon (standing un st)"
proof -
  have ids: "ids_distinct st'" using ok out(1) ids_login_finish [of h r now ttl m user pw totp st] by (simp add: guess_ok_def)
  show ?thesis
  proof (cases "un' = un")
    case False
    have "standing un st' = standing un st"
    proof (cases user)
      case (Some u)
      then have u: "us_id u \<noteq> i" using ok False by (simp add: guess_ok_def)
      have "standing un (snd (login_from h now ttl m (Some u) pw totp st)) = standing un st"
        by (rule standing_login_other) (use ok u in \<open>auto simp: guess_ok_def\<close>)
      then show ?thesis using out(1) Some by (auto simp: login_finish_def split: if_splits)
    qed (use out(1) in \<open>simp add: login_finish_def login_from_def\<close>)
    moreover from this have "guess_ok un i (xs @ zs, st')"
      by (intro guess_ok_same [OF ok _ ids]) auto
    ultimately show ?thesis using False by simp
  next
    case True
    then obtain u where u: "user = Some u" "standing un st = Some (us_id u, us_failedLoginAttempts u, us_lockedUntil u)"
      using ok by (auto simp: guess_ok_def)
    have i: "us_id u = i" "us_failedLoginAttempts u < MAX_FAILED_ATTEMPTS" using ok u(2) by (auto simp: guess_ok_def)
    obtain n' l' where new: "standing un st' = Some (us_id u, n', l')" "n' < MAX_FAILED_ATTEMPTS"
        "room horizon (Some (us_id u, n', l')) + (if us_isActive u \<and> wrong_factor a then 1 else 0) \<le> room horizon (standing un st)"
      using room_login_finish [OF u(2) i(2) time] out True u(1) by metis
    have none: "filter (login_stage un) (xs @ zs) = []" using ok True by (simp add: guess_ok_def)
    then have "counts_ok un i st' p" if "p \<in> set (xs @ zs)" for p
      using ok that counts_ok_not_login [of un p i st' st] by (auto simp: guess_ok_def filter_empty_conv)
    then have "guess_ok un i (xs @ zs, st')" using ids new(1,2) i(1) none by (simp add: guess_ok_def)
    then show ?thesis using new True u(1) by simp
  qed
qed

lemma room_step:
  assumes ok: "guess_ok un i c" and "in_parts ev" "\<not> part_disturbs h ttl un ev c" "logins_apart h ttl un (ev # evs) c"
    and time: "event_time ev < horizon" "horizon \<le> event_time ev + LOCKOUT_MS"
  shows "guess_ok un i (part_step h ttl ev c) \<and>
    room horizon (standing un (snd (part_step h ttl ev c))) + (if part_guess h ttl un ev c then 1 else 0) \<le> room horizon (standing un (snd c))"
proof (cases c)
  case (Pair ps st)
  have ids: "ids_distinct st" and at: "\<exists>n l. standing un st = Some (i, n, l)" using ok Pair by (auto simp: guess_ok_def)
  have same: ?thesis if "part_step h ttl ev c = (qs, st')" "standing un st' = standing un st" "ids_distinct st'" "\<not> part_guess h ttl un ev c"
      "set qs \<subseteq> set ps \<union> {p. \<forall>s. counts_ok un i s p}" "length (filter (login_stage un) qs) \<le> length (filter (login_stage un) ps)" for qs st'
    using that guess_ok_same [OF ok [unfolded Pair] that(2,3,5)] Pair by simp
  show ?thesis
  proof (cases ev)
    case (Begin_login now un' pw totp)
    have "counts_ok un i st (Login_read now un' pw totp (user_by_name un' st))"
    proof (cases "un' = un")
      case True
      then show ?thesis using at by (auto simp: standing_def)
    next
      case False
      obtain v where "user_by_name un st = Some v" "us_id v = i" using at by (auto simp: standing_def)
      then show ?thesis using False other_id [OF ids _ _ False] by auto
    qed
    moreover have "length (filter (login_stage un) (ps @ [Login_read now un' pw totp (user_by_name un' st)])) \<le> 1"
    proof (cases "un' = un")
      case True
      then have "filter (login_stage un) ps = []" using assms(4) Begin_login Pair by (simp add: list_ex_iff filter_empty_conv)
      then show ?thesis by simp
    qed (use ok Pair in \<open>simp add: guess_ok_def\<close>)
    ultimately show ?thesis using ok Begin_login Pair by (auto simp: guess_ok_def)
  next
    case (Begin_refresh now raw)
    obtain f secret where raw: "token_parts raw = (f, secret)" by fastforce
    show ?thesis
    proof (cases "f = [] \<or> \<not> given secret")
      case True
      then show ?thesis using Begin_refresh raw ids Pair by (intro same [of ps st]) auto
    next
      case False
      then show ?thesis using Begin_refresh raw ids Pair
        by (intro same [of "ps @ [Refresh_read now f (stored_token h (the secret) st)]" st]) auto
    qed
  next
    case (Other now req)
    obtain n l where nl: "standing un st = Some (i, n, l)" using at by blast
    show ?thesis
      using Other Pair ids ids_step standing_other [OF ids nl] assms(2,3)
      by (intro same [of ps "auth_step h ttl (now, req) st"]) auto
  next
    case (Continue k now m)
    show ?thesis
    proof (cases "k < length ps")
      case False
      then show ?thesis using Continue ids Pair by (intro same [of ps st]) auto
    next
      case True
      define xs zs where "xs = take k ps" and "zs = drop (Suc k) ps"
      have ps: "ps = xs @ ps ! k # zs" unfolding xs_def zs_def using True by (rule id_take_nth_drop)
      have sub: "set (xs @ zs) \<subseteq> set ps" "length (filter (login_stage un) (xs @ zs)) \<le> length (filter (login_stage un) ps)"
        using arg_cong [OF ps, of set] arg_cong [OF ps, of "\<lambda>qs. length (filter (login_stage un) qs)"] by auto
      show ?thesis
      proof (cases "ps ! k")
        case (Login_read r un' pw totp user)
        obtain a st' where a: "login_finish h r now ttl m user pw totp st = (a, st')" by fastforce
        have "guess_ok un i (xs @ Login_read r un' pw totp user # zs, st)" using ok Pair ps Login_read by simp
        note step = continue_login [OF this _ _ a, of horizon]
        have "guess_ok un i (xs @ zs, st') \<and>
            room horizon (standing un st') + (if un' = un \<and> pred_option us_isActive user \<and> wrong_factor a then 1 else 0) \<le> room horizon (standing un st)"
          using step time assms(3) Continue Pair True Login_read a by simp
        moreover have "part_guess h ttl un ev c \<longleftrightarrow> un' = un \<and> (\<exists>u. user = Some u \<and> us_isActive u \<and> wrong_factor a)"
          using Continue Pair True Login_read a by (cases user) simp_all
        moreover have "(\<exists>u. user = Some u \<and> us_isActive u \<and> wrong_factor a) \<Longrightarrow> pred_option us_isActive user \<and> wrong_factor a" by auto
        moreover have "part_step h ttl ev c = (xs @ zs, st')" using Continue Pair True Login_read a by (simp add: xs_def zs_def)
        ultimately show ?thesis using Pair by (auto simp del: room.simps split: if_splits)
      next
        case (Refresh_read r f stored)
        obtain a st' where a: "refresh_revoke r now f stored st = (a, st')" by fastforce
        then have users: "au_users st' = au_users st" using refresh_revoke_users [of r now f stored st] by simp
        show ?thesis
        proof (cases a)
          case (Inl e)
          then show ?thesis using Continue Pair True Refresh_read a sub by_users [OF users] ids
            by (intro same [of "xs @ zs" st']) (auto simp: xs_def zs_def)
        next
          case (Inr t)
          then show ?thesis using Continue Pair True Refresh_read a sub by_users [OF users] ids
            by (intro same [of "xs @ Refresh_revoked f t # zs" st']) (auto simp: xs_def zs_def)
        qed
      next
        case (Refresh_revoked f t)
        obtain a st' where a: "refresh_issue h now ttl m f t st = (a, st')" by fastforce
        then have users: "au_users st' = au_users st" using refresh_issue_users [of h now ttl m f t st] by simp
        show ?thesis using Continue Pair True Refresh_revoked a sub by_users [OF users] ids
          by (intro same [of "xs @ zs" st']) (auto simp: xs_def zs_def)
      qed
    qed
  qed
qed

lemma guesses_bounded:
  assumes "guess_ok un i c" "\<forall>ev\<in>set evs. in_parts ev" "undisturbed h ttl un evs c" "logins_apart h ttl un evs c"
    and "\<forall>ev\<in>set evs. event_time ev < horizon \<and> horizon \<le> event_time ev + LOCKOUT_MS"
  shows "part_guesses h ttl un evs c \<le> room horizon (standing un (snd c))"
  using assms
proof (induction evs arbitrary: c)
  case Nil
  then show ?case by (auto simp: guess_ok_def)
next
  case (Cons ev evs)
  have step: "guess_ok un i (part_step h ttl ev c) \<and>
    room horizon (standing un (snd (part_step h ttl ev c))) + (if part_guess h ttl un ev c then 1 else 0) \<le> room horizon (standing un (snd c))"
    by (rule room_step [where evs = evs]) (use Cons.prems in auto)
  have "part_guesses h ttl un evs (part_step h ttl ev c) \<le> room horizon (standing un (snd (part_step h ttl ev c)))"
    by (rule Cons.IH) (use Cons.prems step in auto)
  then show ?case using step by auto
qed

text \<open>
  C37. Guessing is slow, one guess at a time. In any quarter of an hour in which nobody logs in to an
  account and it is not removed, and in which no login of it begins before the one before it was
  answered, everything else interleaving with the parts of these logins in any way, at most five
  attempts with a wrong password or a wrong code, less those already counted, are answered as such;
  all others find the account locked. The condition is needed, and nothing in the code enforces it:
  wrong passwords that are sent at once count as one, so that any number of them is answered (lemma
  guess_race).
\<close>

theorem guesses_limited:
  assumes "ids_distinct st" "user_by_name un st = Some u" "us_failedLoginAttempts u < MAX_FAILED_ATTEMPTS"
    and "\<forall>ev\<in>set evs. in_parts ev \<and> t0 \<le> event_time ev \<and> event_time ev < t0 + LOCKOUT_MS"
    and "undisturbed h ttl un evs ([], st)" "logins_apart h ttl un evs ([], st)"
  shows "part_guesses h ttl un evs ([], st) \<le> MAX_FAILED_ATTEMPTS - us_failedLoginAttempts u"
proof -
  have at: "standing un st = Some (us_id u, us_failedLoginAttempts u, us_lockedUntil u)" using assms(2) by (simp add: standing_def)
  have "guess_ok un (us_id u) ([], st)" using assms(1,3) at by (simp add: guess_ok_def)
  then have "part_guesses h ttl un evs ([], st) \<le> room (t0 + LOCKOUT_MS) (standing un (snd ([] :: stage list, st)))"
    by (rule guesses_bounded) (use assms(4-6) in auto)
  also have "\<dots> \<le> MAX_FAILED_ATTEMPTS - us_failedLoginAttempts u" using assms(3) by (simp add: at)
  finally show ?thesis .
qed


section \<open>Examples and races\<close>

definition two_sessions :: "auth_event list" where
  "two_sessions =
     [Begin_login 0 ''ann'' ''pw'' (Some ''s''), Continue 0 0 (mint_of ''a'' ''F''), Begin_refresh 1 ''F.a'',
      Begin_login 1 ''ann'' ''pw'' (Some ''s''), Continue 0 2 (mint_of ''-'' ''1''), Continue 1 3 (mint_of ''c'' ''H''),
      Continue 0 4 (mint_of ''b'' ''2'')]"

theorem one_live_token_witness:
  "map (length \<circ> (\<lambda>f. live f (snd (part_run plain_host 30 two_sessions ([], small_auth))))) [''F'', ''H''] = [1, 1] \<and>
   length (au_tokens (snd (part_run plain_host 30 two_sessions ([], small_auth)))) = 3 \<and>
   one_owner (snd (part_run plain_host 30 two_sessions ([], small_auth)))"
proof -
  have pre: "\<forall>ev\<in>set two_sessions. in_parts ev" "draws_fresh (families small_auth) two_sessions"
    "\<forall>f. length (live f small_auth) \<le> 1" "one_owner small_auth"
    by (simp_all add: families_def small_auth_def two_sessions_def mint_of_def live_def one_owner_def)
  have apart: "refreshes_apart plain_host 30 two_sessions ([], small_auth)" by code_simp
  note ok = one_live_token [OF pre(1,2) apart pre(3,4) prod.collapse [symmetric]]
  have "live ''F'' (snd (part_run plain_host 30 two_sessions ([], small_auth))) \<noteq> [] \<and>
      live ''H'' (snd (part_run plain_host 30 two_sessions ([], small_auth))) \<noteq> [] \<and>
      length (au_tokens (snd (part_run plain_host 30 two_sessions ([], small_auth)))) = 3"
    by code_simp
  then show ?thesis using ok [of "''F''"] ok [of "''H''"] by (simp add: le_Suc_eq)
qed

text \<open>
  Two refreshes that read the same token before either revokes it both succeed: the session then has
  two live tokens, and no reuse is detected.
\<close>

lemma refresh_race:
  "length (live ''F'' (snd (part_run plain_host 30
     [Begin_login 0 ''ann'' ''pw'' (Some ''s''), Continue 0 0 (mint_of ''a'' ''F''),
      Begin_refresh 1 ''F.a'', Begin_refresh 1 ''F.a'', Continue 0 1 (mint_of ''-'' ''1''), Continue 1 1 (mint_of ''-'' ''2''),
      Continue 0 1 (mint_of ''b'' ''3''), Continue 0 1 (mint_of ''c'' ''4'')] ([], small_auth)))) = 2"
  by code_simp

text \<open>Seven wrong passwords whose logins read the row at the same time are all answered, and count as one.\<close>

definition wrong_at_once :: "auth_event list" where
  "wrong_at_once = replicate 7 (Begin_login 0 ''ann'' ''wrong'' None) @ replicate 7 (Continue 0 1 (mint_of ''-'' ''-''))"

lemma guess_race:
  "part_guesses plain_host 30 ''ann'' wrong_at_once ([], small_auth) = 7"
  "map_option us_failedLoginAttempts (user_by_name ''ann'' (snd (part_run plain_host 30 wrong_at_once ([], small_auth)))) = Some 1"
  by code_simp+

definition wrong_in_turn :: "auth_event list" where
  "wrong_in_turn = concat (replicate 7 [Begin_login 0 ''ann'' ''wrong'' None, Continue 0 1 (mint_of ''-'' ''-'')])"

theorem guesses_limited_witness:
  "part_guesses plain_host 30 ''ann'' wrong_in_turn ([], small_auth) \<le> 5"
proof -
  have "ids_distinct small_auth" "user_by_name ''ann'' small_auth = Some ann" "us_failedLoginAttempts ann < MAX_FAILED_ATTEMPTS"
    by (simp_all add: ids_distinct_def small_auth_def user_by_name_def ann_def MAX_FAILED_ATTEMPTS_def)
  moreover have "undisturbed plain_host 30 ''ann'' wrong_in_turn ([], small_auth)"
    "logins_apart plain_host 30 ''ann'' wrong_in_turn ([], small_auth)" by code_simp+
  moreover have "\<forall>ev\<in>set wrong_in_turn. in_parts ev \<and> 0 \<le> event_time ev \<and> event_time ev < 0 + LOCKOUT_MS"
    by (auto simp: wrong_in_turn_def LOCKOUT_MS_def)
  ultimately show ?thesis
    using guesses_limited [of small_auth "''ann''" ann wrong_in_turn 0 plain_host 30]
    by (simp add: ann_def MAX_FAILED_ATTEMPTS_def)
qed

end
