(* ===== verification/Wf_Graph.thy ===== *)
theory Wf_Graph
  imports Js_Prelude
begin

text \<open>
  The workflow graph (\<^verbatim>\<open>workflows/domain/workflow-graph.types.ts\<close>,
  \<^verbatim>\<open>node-definition.types.ts\<close>) and the restart-safe scheduling core of its executor
  (\<^verbatim>\<open>execution-planner.ts\<close>). Of a retry policy only its attempts are read. Display data (positions, viewport, groups, comments,
  icons) is left out.

  The lemmas show when a node is dispatched and when it is skipped, that a skipped node could
  never have run, and that an acyclic graph is never stuck.
\<close>

section \<open>Graphs\<close>

record workflow_node =
  wn_id :: string
  wn_type :: string
  wn_config :: "(string \<times> jsval) list option"
  wn_maxAttempts :: "rat option"
  wn_timeoutSeconds :: "rat option"

record workflow_edge =
  we_id :: string
  we_sourceNodeId :: string
  we_sourcePort :: "string option"
  we_targetNodeId :: string
  we_targetPort :: "string option"

record workflow_graph =
  wg_schemaVersion :: rat
  wg_nodes :: "workflow_node list"
  wg_edges :: "workflow_edge list"

datatype node_category =
  NC_trigger | NC_condition | NC_branch | NC_action | NC_delay | NC_wait | NC_parallel | NC_join
| NC_transform | NC_variable | NC_approval | NC_subworkflow | NC_end

record node_ports =
  np_inputs :: int
  np_outputs :: "string list"
  np_dynamicOutputs :: bool

record node_definition =
  nd_type :: string
  nd_category :: node_category
  nd_requiredPermission :: "string option"
  nd_requiredModules :: "string list option"
  nd_destructive :: bool
  nd_ports :: node_ports
  nd_requiredConfig :: "string list option"
  nd_actionId :: "string option"

type_synonym node_registry = "string \<rightharpoonup> node_definition"

text \<open>The edges of a graph as a relation on node ids.\<close>

definition edge_rel :: "workflow_edge list \<Rightarrow> (string \<times> string) set" where
  "edge_rel es = {(we_sourceNodeId e, we_targetNodeId e) |e. e \<in> set es}"

definition edges_from :: "workflow_edge list \<Rightarrow> string \<Rightarrow> workflow_edge list" where
  "edges_from es v = filter (\<lambda>e. we_sourceNodeId e = v) es"

definition edges_into :: "workflow_edge list \<Rightarrow> string \<Rightarrow> workflow_edge list" where
  "edges_into es v = filter (\<lambda>e. we_targetNodeId e = v) es"

lemma edge_rel_from: "(v, w) \<in> edge_rel es \<longleftrightarrow> w \<in> we_targetNodeId ` set (edges_from es v)"
  by (auto simp: edge_rel_def edges_from_def)

lemma finite_edge_rel [simp]: "finite (edge_rel es)"
proof -
  have "edge_rel es = (\<lambda>e. (we_sourceNodeId e, we_targetNodeId e)) ` set es"
    by (auto simp: edge_rel_def)
  then show ?thesis by simp
qed


section \<open>Planning the next wave\<close>

datatype node_run_status = NR_pending | NR_running | NR_waiting | NR_succeeded | NR_failed | NR_skipped

record node_run_state =
  nr_status :: node_run_status
  nr_firedPorts :: "string list"

type_synonym run_states = "string \<rightharpoonup> node_run_state"

record planner_lookup =
  pl_isJoin :: "string \<Rightarrow> bool"
  pl_isTrigger :: "string \<Rightarrow> bool"

record planner_view =
  pv_ready :: "string list"
  pv_dead :: "string list"
  pv_quiescent :: bool

datatype edge_class = Edge_live | Edge_dead | Edge_pending

definition edgeState :: "run_states \<Rightarrow> workflow_edge \<Rightarrow> edge_class" where
  "edgeState states edge =
     (case states (we_sourceNodeId edge) of
        None \<Rightarrow> Edge_pending
      | Some src \<Rightarrow>
          (let port = (case we_sourcePort edge of None \<Rightarrow> ''out'' | Some p \<Rightarrow> p)
           in if nr_status src = NR_succeeded \<or> nr_status src = NR_failed
                then (if port \<in> set (nr_firedPorts src) then Edge_live else Edge_dead)
              else if nr_status src = NR_skipped then Edge_dead
              else Edge_pending))"

definition status_of :: "run_states \<Rightarrow> string \<Rightarrow> node_run_status" where
  "status_of states v = (case states v of None \<Rightarrow> NR_pending | Some s \<Rightarrow> nr_status s)"

datatype node_plan = Plan_ready | Plan_dead | Plan_active | Plan_nothing

definition plan_node ::
  "workflow_edge list \<Rightarrow> run_states \<Rightarrow> planner_lookup \<Rightarrow> workflow_node \<Rightarrow> node_plan" where
  "plan_node edges states lookup node =
     (let st = status_of states (wn_id node) in
      if st = NR_running \<or> st = NR_waiting then Plan_active
      else if st \<noteq> NR_pending then Plan_nothing
      else if pl_isTrigger lookup (wn_type node) then Plan_ready
      else
        (let ins = edges_into edges (wn_id node); classes = map (edgeState states) ins;
             live = length (filter (\<lambda>c. c = Edge_live) classes);
             pending = length (filter (\<lambda>c. c = Edge_pending) classes)
         in if ins = [] then Plan_dead
            else if pl_isJoin lookup (wn_type node) then
              (if Edge_dead \<in> set classes \<and> pending = 0 then Plan_dead
               else if live = length ins then Plan_ready
               else Plan_nothing)
            else
              (if live > 0 then Plan_ready
               else if pending = 0 then Plan_dead
               else Plan_nothing)))"

definition planExecution ::
  "workflow_graph \<Rightarrow> run_states \<Rightarrow> planner_lookup \<Rightarrow> planner_view" where
  "planExecution graph states lookup =
     (let p = plan_node (wg_edges graph) states lookup;
          ready = map wn_id (filter (\<lambda>n. p n = Plan_ready) (wg_nodes graph));
          dead = map wn_id (filter (\<lambda>n. p n = Plan_dead) (wg_nodes graph))
      in \<lparr> pv_ready = ready, pv_dead = dead,
           pv_quiescent = (\<not> list_ex (\<lambda>n. p n = Plan_active) (wg_nodes graph) \<and> ready = []) \<rparr>)"


section \<open>When a node runs\<close>

lemma length_filter_all: "length (filter P ys) = length ys \<longleftrightarrow> (\<forall>y\<in>set ys. P y)"
  by (metis filter_True length_filter_less less_irrefl)

lemma plan_ready_iff:
  "plan_node edges states lookup n = Plan_ready \<longleftrightarrow>
     status_of states (wn_id n) = NR_pending \<and>
     (pl_isTrigger lookup (wn_type n) \<or>
      edges_into edges (wn_id n) \<noteq> [] \<and>
      (if pl_isJoin lookup (wn_type n)
       then \<forall>e\<in>set (edges_into edges (wn_id n)). edgeState states e = Edge_live
       else \<exists>e\<in>set (edges_into edges (wn_id n)). edgeState states e = Edge_live))"
proof -
  let ?cs = "map (edgeState states) (edges_into edges (wn_id n))"
  have all: "length (filter (\<lambda>c. c = Edge_live) ?cs) = length (edges_into edges (wn_id n)) \<longleftrightarrow>
      (\<forall>e\<in>set (edges_into edges (wn_id n)). edgeState states e = Edge_live)"
    using length_filter_all [of "\<lambda>c. c = Edge_live" ?cs] by simp
  have some: "0 < length (filter (\<lambda>c. c = Edge_live) ?cs) \<longleftrightarrow>
      (\<exists>e\<in>set (edges_into edges (wn_id n)). edgeState states e = Edge_live)"
    by (auto simp: filter_empty_conv)
  show ?thesis unfolding plan_node_def Let_def using all some by auto
qed

lemma plan_dead_iff:
  "plan_node edges states lookup n = Plan_dead \<longleftrightarrow>
     status_of states (wn_id n) = NR_pending \<and> \<not> pl_isTrigger lookup (wn_type n) \<and>
     (\<forall>e\<in>set (edges_into edges (wn_id n)). edgeState states e \<noteq> Edge_pending) \<and>
     (edges_into edges (wn_id n) = [] \<or>
      (if pl_isJoin lookup (wn_type n)
       then \<exists>e\<in>set (edges_into edges (wn_id n)). edgeState states e = Edge_dead
       else \<forall>e\<in>set (edges_into edges (wn_id n)). edgeState states e \<noteq> Edge_live))"
proof -
  let ?cs = "map (edgeState states) (edges_into edges (wn_id n))"
  have none: "length (filter (\<lambda>c. c = k) ?cs) = 0 \<longleftrightarrow>
      (\<forall>e\<in>set (edges_into edges (wn_id n)). edgeState states e \<noteq> k)" for k
    by (auto simp: filter_empty_conv)
  have dead: "Edge_dead \<in> set ?cs \<longleftrightarrow>
      (\<exists>e\<in>set (edges_into edges (wn_id n)). edgeState states e = Edge_dead)"
    by (auto simp: image_iff eq_commute)
  show ?thesis unfolding plan_node_def Let_def using none [of Edge_pending] none [of Edge_live] dead by auto
qed

lemma planExecution_simps:
  "set (pv_ready (planExecution g states lookup)) =
     wn_id ` {n \<in> set (wg_nodes g). plan_node (wg_edges g) states lookup n = Plan_ready}"
  "set (pv_dead (planExecution g states lookup)) =
     wn_id ` {n \<in> set (wg_nodes g). plan_node (wg_edges g) states lookup n = Plan_dead}"
  "pv_quiescent (planExecution g states lookup) \<longleftrightarrow>
     (\<forall>n\<in>set (wg_nodes g). plan_node (wg_edges g) states lookup n \<noteq> Plan_active) \<and>
     pv_ready (planExecution g states lookup) = []"
  by (auto simp: planExecution_def Let_def list_ex_iff)

lemma plan_active_iff:
  "plan_node edges states lookup n = Plan_active \<longleftrightarrow>
     status_of states (wn_id n) = NR_running \<or> status_of states (wn_id n) = NR_waiting"
  unfolding plan_node_def Let_def by auto

lemma edgeState_pending_iff:
  "edgeState states e = Edge_pending \<longleftrightarrow>
     status_of states (we_sourceNodeId e) \<in> {NR_pending, NR_running, NR_waiting}"
proof (cases "states (we_sourceNodeId e)")
  case None
  then show ?thesis by (simp add: edgeState_def status_of_def)
next
  case (Some src)
  then show ?thesis by (cases "nr_status src") (simp_all add: edgeState_def status_of_def Let_def)
qed

lemma plan_node_decides:
  assumes "\<forall>e\<in>set (edges_into edges (wn_id n)).
      edgeState states e = Edge_live \<or> edgeState states e = Edge_dead"
    and "status_of states (wn_id n) = NR_pending"
  shows "plan_node edges states lookup n = Plan_ready \<or> plan_node edges states lookup n = Plan_dead"
proof (cases "plan_node edges states lookup n = Plan_ready")
  case False
  have resolved: "\<forall>e\<in>set (edges_into edges (wn_id n)). edgeState states e \<noteq> Edge_pending"
    using assms(1) by force
  show ?thesis
  proof (cases "pl_isJoin lookup (wn_type n)")
    case True
    then show ?thesis using False assms resolved unfolding plan_ready_iff plan_dead_iff by auto
  next
    case join: False
    then show ?thesis using False assms resolved unfolding plan_ready_iff plan_dead_iff by auto
  qed
qed simp

text \<open>A two-node workflow on which the properties are evaluated.\<close>

definition demo_wf :: workflow_graph where
  "demo_wf = \<lparr> wg_schemaVersion = 1,
     wg_nodes = [\<lparr> wn_id = ''t'', wn_type = ''trigger'', wn_config = None,
                   wn_maxAttempts = None, wn_timeoutSeconds = None \<rparr>,
                 \<lparr> wn_id = ''a'', wn_type = ''action'', wn_config = None,
                   wn_maxAttempts = None, wn_timeoutSeconds = None \<rparr>],
     wg_edges = [\<lparr> we_id = ''e'', we_sourceNodeId = ''t'', we_sourcePort = None,
                   we_targetNodeId = ''a'', we_targetPort = None \<rparr>] \<rparr>"

definition demo_lookup :: planner_lookup where
  "demo_lookup = \<lparr> pl_isJoin = (\<lambda>ty. ty = ''join''), pl_isTrigger = (\<lambda>ty. ty = ''trigger'') \<rparr>"

definition demo_run :: "node_run_status \<Rightarrow> string list \<Rightarrow> node_run_status \<Rightarrow> run_states" where
  "demo_run t ports a = [''t'' \<mapsto> \<lparr> nr_status = t, nr_firedPorts = ports \<rparr>,
                         ''a'' \<mapsto> \<lparr> nr_status = a, nr_firedPorts = [] \<rparr>]"

lemmas demo_wf_simps = demo_wf_def demo_lookup_def demo_run_def planExecution_def plan_node_def
  status_of_def edges_into_def edgeState_def

text \<open>
  An acyclic workflow is never stuck. If a planning round finds nothing to dispatch and
  nothing to skip while no node is running or waiting, then no node of the workflow is pending:
  the execution is over. Needed are only that the graph has no cycle and that its edges leave
  from nodes of the graph, both of which validation establishes.
\<close>

lemma planExecution_progress:
  assumes "acyclic (edge_rel (wg_edges g))"
    and "\<forall>e\<in>set (wg_edges g). we_sourceNodeId e \<in> wn_id ` set (wg_nodes g)"
    and "pv_quiescent (planExecution g states lookup)"
    and "pv_dead (planExecution g states lookup) = []"
  shows "\<forall>n\<in>set (wg_nodes g). status_of states (wn_id n) \<notin> {NR_pending, NR_running, NR_waiting}"
proof -
  let ?es = "wg_edges g" and ?ids = "wn_id ` set (wg_nodes g)"
  let ?pending = "{v \<in> ?ids. status_of states v = NR_pending}"
  have idle: "status_of states v \<noteq> NR_running \<and> status_of states v \<noteq> NR_waiting" if "v \<in> ?ids" for v
    using that assms(3) by (auto simp: planExecution_simps(3) plan_active_iff)
  have quiet: "plan_node ?es states lookup n \<noteq> Plan_ready \<and> plan_node ?es states lookup n \<noteq> Plan_dead"
    if "n \<in> set (wg_nodes g)" for n
    using that assms(3,4) planExecution_simps(1,2) [of g states lookup]
    by (auto simp: planExecution_simps(3))
  have "?pending = {}"
  proof (rule ccontr)
    assume "?pending \<noteq> {}"
    moreover have "wf (edge_rel ?es)" using assms(1) by (intro finite_acyclic_wf) simp
    ultimately obtain v where v: "v \<in> ?pending" and
      least: "\<And>u. (u, v) \<in> edge_rel ?es \<Longrightarrow> u \<notin> ?pending"
      using wfE_min [of "edge_rel ?es" _ ?pending] by blast
    then obtain n where n: "n \<in> set (wg_nodes g)" "v = wn_id n" "status_of states (wn_id n) = NR_pending"
      by blast
    have res: "\<forall>e\<in>set (edges_into ?es (wn_id n)). edgeState states e \<noteq> Edge_pending"
    proof
      fix e assume "e \<in> set (edges_into ?es (wn_id n))"
      then have e: "e \<in> set ?es" "we_targetNodeId e = v" by (auto simp: edges_into_def n)
      then have "(we_sourceNodeId e, v) \<in> edge_rel ?es" by (auto simp: edge_rel_def)
      then have "we_sourceNodeId e \<notin> ?pending" by (rule least)
      moreover have "we_sourceNodeId e \<in> ?ids" using assms(2) e(1) by blast
      ultimately show "edgeState states e \<noteq> Edge_pending"
        using idle by (auto simp: edgeState_pending_iff)
    qed
    then have "\<forall>e\<in>set (edges_into ?es (wn_id n)).
        edgeState states e = Edge_live \<or> edgeState states e = Edge_dead"
      by (metis edge_class.exhaust)
    then have "plan_node ?es states lookup n = Plan_ready \<or> plan_node ?es states lookup n = Plan_dead"
      using n(3) by (rule plan_node_decides)
    then show False using quiet [OF n(1)] by blast
  qed
  then show ?thesis using idle by blast
qed

text \<open>\<open>settled_later\<close>: what has finished keeps its status and its fired ports.\<close>

definition settled_later :: "run_states \<Rightarrow> run_states \<Rightarrow> bool" where
  "settled_later states states' \<longleftrightarrow>
     (\<forall>v s. states v = Some s \<and> nr_status s \<in> {NR_succeeded, NR_failed, NR_skipped} \<longrightarrow>
            states' v = Some s)"

lemma edgeState_settled:
  "settled_later states states' \<Longrightarrow> edgeState states e \<noteq> Edge_pending \<Longrightarrow>
   edgeState states' e = edgeState states e"
proof -
  assume later: "settled_later states states'" and "edgeState states e \<noteq> Edge_pending"
  then obtain s where s: "states (we_sourceNodeId e) = Some s"
      "nr_status s \<in> {NR_succeeded, NR_failed, NR_skipped}"
    by (cases "states (we_sourceNodeId e)") (auto simp: edgeState_def Let_def split: if_splits)
  with later have "states' (we_sourceNodeId e) = Some s" by (auto simp: settled_later_def)
  with s show "edgeState states' e = edgeState states e" by (simp add: edgeState_def)
qed

text \<open>
  Skipping is final and safe. A node that a round plans to skip can at no later point of
  the execution be planned to run, as long as finished nodes keep their result; and a node is
  dispatched only when it is a trigger, or an incoming edge has fired, or for a join all of
  them have.
\<close>

theorem planExecution_skips_safely:
  assumes "distinct (map wn_id (wg_nodes g))" and "settled_later states states'"
    and "v \<in> set (pv_dead (planExecution g states lookup))"
  shows "v \<notin> set (pv_ready (planExecution g states' lookup))"
proof
  assume "v \<in> set (pv_ready (planExecution g states' lookup))"
  then obtain n' where n': "n' \<in> set (wg_nodes g)" "v = wn_id n'"
      "plan_node (wg_edges g) states' lookup n' = Plan_ready"
    by (auto simp: planExecution_simps)
  obtain n where n: "n \<in> set (wg_nodes g)" "v = wn_id n"
      "plan_node (wg_edges g) states lookup n = Plan_dead"
    using assms(3) by (auto simp: planExecution_simps)
  have "n' = n" using assms(1) n n' by (auto simp: distinct_map dest: inj_onD)
  with n' n have ready: "plan_node (wg_edges g) states' lookup n = Plan_ready" by simp
  have same: "\<forall>e\<in>set (edges_into (wg_edges g) (wn_id n)). edgeState states' e = edgeState states e"
    using n(3) edgeState_settled [OF assms(2)] by (auto simp: plan_dead_iff)
  have "\<not> pl_isTrigger lookup (wn_type n)" using n(3) by (simp add: plan_dead_iff)
  then show False
  proof (cases "pl_isJoin lookup (wn_type n)")
    case True
    then show ?thesis using ready n(3) same unfolding plan_ready_iff plan_dead_iff by auto
  next
    case False
    then show ?thesis using ready n(3) same unfolding plan_ready_iff plan_dead_iff by auto
  qed
qed

theorem planExecution_skips_safely_witness:
  "''a'' \<in> set (pv_dead (planExecution demo_wf (demo_run NR_failed [''failed''] NR_pending) demo_lookup)) \<and>
   ''a'' \<notin> set (pv_ready (planExecution demo_wf (demo_run NR_failed [''failed''] NR_pending) demo_lookup))"
proof -
  let ?st = "demo_run NR_failed [''failed''] NR_pending"
  have dist: "distinct (map wn_id (wg_nodes demo_wf))" by (simp add: demo_wf_def)
  have later: "settled_later ?st ?st" by (simp add: settled_later_def)
  have dead: "''a'' \<in> set (pv_dead (planExecution demo_wf ?st demo_lookup))"
    by (simp add: demo_wf_simps Let_def)
  show ?thesis using planExecution_skips_safely [OF dist later dead] dead by blast
qed

end
