(* ===== verification/Wf_Validator.thy ===== *)
theory Wf_Validator
  imports Wf_Graph "HOL-Library.AList"
begin

text \<open>
  The publish gate of workflows: \<^verbatim>\<open>workflows/domain/workflow-validator.ts\<close>. A finding is
  its code with the node or edge it names; the English message text is left out. The graph is
  typed, so the shape test that opens the function always holds. A map from node ids to their
  edges is the list of accepted edges, filtered; the colour map of the cycle search is an
  association list in insertion order.

  The lemmas show that both graph searches end and are exact (reachability and acyclicity), and
  that a graph is accepted exactly when it meets a declarative list of rules, on which the
  executor relies.
\<close>

section \<open>Limits, options and results\<close>

definition maxNodes :: nat where "maxNodes = 200"
definition maxEdges :: nat where "maxEdges = 500"
definition maxParallelBranches :: nat where "maxParallelBranches = 20"
definition maxDelaySeconds :: rat where "maxDelaySeconds = 30 * 24 * 3600"
definition maxWaitTimeoutSeconds :: rat where "maxWaitTimeoutSeconds = 30 * 24 * 3600"

record validate_options =
  vo_grantedPermissions :: "string set option"
  vo_enabledModules :: "string set option"
  vo_selfWorkflowId :: "string option"

record validation_finding =
  vf_code :: string
  vf_nodeId :: "string option"
  vf_edgeId :: "string option"

record validation_result =
  vr_valid :: bool
  vr_errors :: "validation_finding list"
  vr_warnings :: "validation_finding list"

definition graph_finding :: "string \<Rightarrow> validation_finding" where
  "graph_finding c = \<lparr> vf_code = c, vf_nodeId = None, vf_edgeId = None \<rparr>"

definition node_finding :: "string \<Rightarrow> workflow_node \<Rightarrow> validation_finding" where
  "node_finding c n = \<lparr> vf_code = c, vf_nodeId = Some (wn_id n), vf_edgeId = None \<rparr>"

definition edge_finding :: "string \<Rightarrow> workflow_edge \<Rightarrow> validation_finding" where
  "edge_finding c e = \<lparr> vf_code = c, vf_nodeId = None, vf_edgeId = Some (we_id e) \<rparr>"

text \<open>\<open>report b f\<close>: the finding, when the condition that reports it holds.\<close>

definition report :: "bool \<Rightarrow> 'a \<Rightarrow> 'a list" where
  "report b f = (if b then [f] else [])"

definition config_value :: "workflow_node \<Rightarrow> string \<Rightarrow> jsval" where
  "config_value n key = (case wn_config n of None \<Rightarrow> JUndef | Some c \<Rightarrow> get_prop c key)"


section \<open>Nodes\<close>

definition blank_value :: "jsval \<Rightarrow> bool" where
  "blank_value v \<longleftrightarrow> v = JUndef \<or> v = JNull \<or> v = JStr []"

definition validateNodeConfig :: "workflow_node \<Rightarrow> node_definition \<Rightarrow> validation_finding list" where
  "validateNodeConfig node d =
     concat (map (\<lambda>key. report (blank_value (config_value node key))
                           (node_finding ''node.missing_config'' node))
                 (case nd_requiredConfig d of None \<Rightarrow> [] | Some ks \<Rightarrow> ks))"

definition lacks_permission :: "validate_options \<Rightarrow> node_definition \<Rightarrow> bool" where
  "lacks_permission opts d =
     (case vo_grantedPermissions opts of
        None \<Rightarrow> False
      | Some granted \<Rightarrow>
          (case nd_requiredPermission d of None \<Rightarrow> False | Some p \<Rightarrow> p \<noteq> [] \<and> p \<notin> granted))"

definition missing_modules :: "validate_options \<Rightarrow> node_definition \<Rightarrow> string list" where
  "missing_modules opts d =
     (case vo_enabledModules opts of
        None \<Rightarrow> []
      | Some enabled \<Rightarrow>
          (case nd_requiredModules d of None \<Rightarrow> [] | Some ms \<Rightarrow> filter (\<lambda>m. m \<notin> enabled) ms))"

definition invokes_itself :: "validate_options \<Rightarrow> workflow_node \<Rightarrow> node_definition \<Rightarrow> bool" where
  "invokes_itself opts node d =
     (nd_category d = NC_subworkflow \<and>
      (case vo_selfWorkflowId opts of
         None \<Rightarrow> False
       | Some w \<Rightarrow> w \<noteq> [] \<and> strict_eq (config_value node ''workflowId'') (JStr w)))"

definition check_node ::
  "node_registry \<Rightarrow> validate_options \<Rightarrow> workflow_node \<Rightarrow> validation_finding list" where
  "check_node registry opts node =
     (case registry (wn_type node) of
        None \<Rightarrow> [node_finding ''node.unknown_type'' node]
      | Some d \<Rightarrow>
          validateNodeConfig node d
          @ report (lacks_permission opts d) (node_finding ''node.permission_denied'' node)
          @ map (\<lambda>_. node_finding ''node.module_disabled'' node) (missing_modules opts d)
          @ report (invokes_itself opts node d) (node_finding ''node.recursive_subworkflow'' node))"

text \<open>The first pass: \<open>byId\<close> keeps the first node of every id, in order.\<close>

definition add_node ::
  "node_registry \<Rightarrow> validate_options \<Rightarrow> workflow_node \<Rightarrow>
   workflow_node list \<times> validation_finding list \<Rightarrow> workflow_node list \<times> validation_finding list" where
  "add_node registry opts node = (\<lambda>(byId, errors).
     if wn_id node \<in> wn_id ` set byId
     then (byId, errors @ [node_finding ''node.duplicate_id'' node])
     else (byId @ [node], errors @ check_node registry opts node))"

definition index_nodes ::
  "node_registry \<Rightarrow> validate_options \<Rightarrow> workflow_node list \<Rightarrow>
   workflow_node list \<times> validation_finding list" where
  "index_nodes registry opts nodes = fold (add_node registry opts) nodes ([], [])"

definition node_by_id :: "workflow_node list \<Rightarrow> string \<Rightarrow> workflow_node option" where
  "node_by_id byId v = find (\<lambda>n. wn_id n = v) byId"

definition triggers_of :: "node_registry \<Rightarrow> workflow_node list \<Rightarrow> workflow_node list" where
  "triggers_of registry nodes =
     filter (\<lambda>n. map_option nd_category (registry (wn_type n)) = Some NC_trigger) nodes"


section \<open>Edges\<close>

definition source_port_findings :: "workflow_edge \<Rightarrow> node_definition \<Rightarrow> validation_finding list" where
  "source_port_findings edge d =
     (let outputs = np_outputs (nd_ports d) in
      if outputs = [] then [edge_finding ''edge.no_source_port'' edge]
      else report (\<not> np_dynamicOutputs (nd_ports d) \<and>
                   (case we_sourcePort edge of None \<Rightarrow> hd outputs | Some p \<Rightarrow> p) \<notin> set outputs)
             (edge_finding ''edge.invalid_source_port'' edge))"

definition target_port_findings :: "workflow_edge \<Rightarrow> node_definition \<Rightarrow> validation_finding list" where
  "target_port_findings edge d =
     report (np_inputs (nd_ports d) = 0) (edge_finding ''edge.no_target_port'' edge)"

definition validatePort ::
  "(workflow_edge \<Rightarrow> node_definition \<Rightarrow> validation_finding list) \<Rightarrow> node_registry \<Rightarrow>
   workflow_edge \<Rightarrow> workflow_node \<Rightarrow> validation_finding list" where
  "validatePort port_findings registry edge node =
     (case registry (wn_type node) of None \<Rightarrow> [] | Some d \<Rightarrow> port_findings edge d)"

text \<open>The second pass: an edge between two known nodes is entered into the maps.\<close>

record edge_scan =
  sc_edgeIds :: "string set"
  sc_edges :: "workflow_edge list"
  sc_errors :: "validation_finding list"

definition add_edge ::
  "node_registry \<Rightarrow> workflow_node list \<Rightarrow> workflow_edge \<Rightarrow> edge_scan \<Rightarrow> edge_scan" where
  "add_edge registry byId edge sc =
     (let dup = report (we_id edge \<in> sc_edgeIds sc) (edge_finding ''edge.duplicate_id'' edge);
          src = node_by_id byId (we_sourceNodeId edge);
          dst = node_by_id byId (we_targetNodeId edge);
          unknown = report (src = None) (edge_finding ''edge.unknown_source'' edge)
                  @ report (dst = None) (edge_finding ''edge.unknown_target'' edge);
          sc' = sc \<lparr> sc_edgeIds := insert (we_id edge) (sc_edgeIds sc) \<rparr>
      in case (src, dst) of
           (Some s, Some t) \<Rightarrow>
             sc' \<lparr> sc_edges := sc_edges sc @ [edge],
                   sc_errors := sc_errors sc @ dup
                     @ report (we_sourceNodeId edge = we_targetNodeId edge)
                         (edge_finding ''edge.self_loop'' edge)
                     @ validatePort source_port_findings registry edge s
                     @ validatePort target_port_findings registry edge t \<rparr>
         | _ \<Rightarrow> sc' \<lparr> sc_errors := sc_errors sc @ dup @ unknown \<rparr>)"

definition index_edges ::
  "node_registry \<Rightarrow> workflow_node list \<Rightarrow> workflow_edge list \<Rightarrow> edge_scan" where
  "index_edges registry byId es =
     fold (add_edge registry byId) es \<lparr> sc_edgeIds = {}, sc_edges = [], sc_errors = [] \<rparr>"


section \<open>Connectivity and the rules per node\<close>

text \<open>\<open>num_str\<close> prints a number, which \<^verbatim>\<open>Number()\<close> needs for an array operand.\<close>

definition wait_findings ::
  "(rat \<Rightarrow> string) \<Rightarrow> workflow_node \<Rightarrow> node_definition \<Rightarrow> workflow_edge list \<Rightarrow>
   validation_finding list" where
  "wait_findings num_str node d outs =
     (if (nd_category d = NC_wait \<or> nd_category d = NC_approval) \<and>
         ''timeout'' \<in> set (np_outputs (nd_ports d))
      then (let hasTimeout = list_ex (\<lambda>e. we_sourcePort e = Some ''timeout'') outs;
                timeoutCfg = js_number num_str (config_value node ''timeoutSeconds'')
            in report (\<not> hasTimeout \<and> \<not> jn_less (Fin 0) timeoutCfg)
                 (node_finding ''node.wait_without_timeout'' node)
             @ report (jn_less (Fin maxWaitTimeoutSeconds) timeoutCfg)
                 (node_finding ''node.wait_timeout_too_long'' node))
      else [])"

definition delay_findings ::
  "(rat \<Rightarrow> string) \<Rightarrow> workflow_node \<Rightarrow> node_definition \<Rightarrow> validation_finding list" where
  "delay_findings num_str node d =
     (if nd_category d = NC_delay
      then (let duration = js_number num_str (config_value node ''duration'')
            in if \<not> jn_less (Fin 0) duration then [node_finding ''node.delay_unbounded'' node]
               else report (jn_less (Fin maxDelaySeconds) duration)
                      (node_finding ''node.delay_too_long'' node))
      else [])"

definition input_findings ::
  "workflow_node \<Rightarrow> node_definition \<Rightarrow> workflow_edge list \<Rightarrow> workflow_edge list \<Rightarrow>
   validation_finding list" where
  "input_findings node d ins outs =
     report (nd_category d = NC_trigger \<and> ins \<noteq> []) (node_finding ''node.trigger_has_input'' node)
     @ report (np_inputs (nd_ports d) = 0 \<and> ins \<noteq> [] \<and> nd_category d \<noteq> NC_trigger)
         (node_finding ''node.unexpected_input'' node)
     @ report (np_inputs (nd_ports d) = 1 \<and> length ins > 1 \<and> nd_category d \<noteq> NC_join)
         (node_finding ''node.multiple_inputs'' node)
     @ report (nd_category d = NC_end \<and> outs \<noteq> []) (node_finding ''node.end_has_output'' node)"

definition safeguard_findings ::
  "workflow_node \<Rightarrow> node_definition \<Rightarrow> workflow_edge list \<Rightarrow> validation_finding list" where
  "safeguard_findings node d outs =
     report (nd_category d = NC_parallel \<and> length outs > maxParallelBranches)
       (node_finding ''node.parallel_too_wide'' node)
     @ report (nd_destructive d \<and>
               \<not> strict_eq (config_value node ''acknowledgeDestructive'') (JBool True))
         (node_finding ''node.destructive_unguarded'' node)
     @ report (wn_type node = ''trigger.scheduled'' \<and>
               \<not> truthy (config_value node ''executionIdentity''))
         (node_finding ''node.scheduled_without_identity'' node)"

definition rule_errors ::
  "(rat \<Rightarrow> string) \<Rightarrow> node_registry \<Rightarrow> workflow_edge list \<Rightarrow> workflow_node \<Rightarrow>
   validation_finding list" where
  "rule_errors num_str registry es node =
     (case registry (wn_type node) of
        None \<Rightarrow> []
      | Some d \<Rightarrow>
          (let outs = edges_from es (wn_id node); ins = edges_into es (wn_id node)
           in input_findings node d ins outs @ wait_findings num_str node d outs
              @ delay_findings num_str node d @ safeguard_findings node d outs))"

definition rule_warnings ::
  "node_registry \<Rightarrow> workflow_edge list \<Rightarrow> workflow_node \<Rightarrow> validation_finding list" where
  "rule_warnings registry es node =
     (case registry (wn_type node) of
        None \<Rightarrow> []
      | Some d \<Rightarrow>
          report (nd_category d \<noteq> NC_trigger \<and> np_inputs (nd_ports d) \<noteq> 0 \<and>
                  edges_into es (wn_id node) = [])
            (node_finding ''node.orphan_input'' node)
          @ report (nd_category d \<noteq> NC_end \<and> np_outputs (nd_ports d) \<noteq> [] \<and>
                    edges_from es (wn_id node) = [])
              (node_finding ''node.dangling_output'' node))"


section \<open>Reachability\<close>

lemma targets_from: "we_targetNodeId ` set (edges_from es v) \<subseteq> we_targetNodeId ` set es"
  by (auto simp: edges_from_def)

text \<open>
  The stack of \<^verbatim>\<open>detectUnreachable\<close>, its top first; \<^verbatim>\<open>push\<close> of every target in
  order leaves the last one on top.
\<close>

function reach_loop :: "workflow_edge list \<Rightarrow> string list \<Rightarrow> string set \<Rightarrow> string set" where
  "reach_loop es [] seen = seen"
| "reach_loop es (v # stack) seen =
     (if v \<in> seen then reach_loop es stack seen
      else reach_loop es (rev (map we_targetNodeId (edges_from es v)) @ stack) (insert v seen))"
  by pat_completeness auto

termination
proof (relation "measures [\<lambda>(es, stack, seen). card ((set stack \<union> we_targetNodeId ` set es) - seen),
    \<lambda>(es, stack, seen). length stack]", goal_cases)
  case (2 es v stack seen)
  have "card ((set stack \<union> we_targetNodeId ` set es) - seen)
        \<le> card ((set (v # stack) \<union> we_targetNodeId ` set es) - seen)"
    by (rule card_mono) auto
  then show ?case by auto
next
  case (3 es v stack seen)
  have "card ((set (rev (map we_targetNodeId (edges_from es v)) @ stack) \<union> we_targetNodeId ` set es)
               - insert v seen)
        < card ((set (v # stack) \<union> we_targetNodeId ` set es) - seen)"
    using 3 targets_from [of es v] by (intro psubset_card_mono) auto
  then show ?case by simp
qed simp

definition detectUnreachable ::
  "workflow_node list \<Rightarrow> workflow_node list \<Rightarrow> workflow_edge list \<Rightarrow> validation_finding list" where
  "detectUnreachable byId triggers es =
     (let seen = reach_loop es (rev (map wn_id triggers)) {}
      in map (node_finding ''node.unreachable'') (filter (\<lambda>n. wn_id n \<notin> seen) byId))"


section \<open>Cycles\<close>

datatype colour = White | Gray | Black

type_synonym colours = "(string \<times> colour) list"

definition whites :: "colours \<Rightarrow> string set" where
  "whites color = {v. map_of color v = Some White}"

lemma finite_whites [simp]: "finite (whites color)"
  by (rule finite_subset [of _ "dom (map_of color)"]) (auto simp: whites_def finite_dom_map_of)

lemma whites_update: "whites (AList.update v c color) = (if c = White then insert v (whites color) else whites color - {v})"
  by (auto simp: whites_def update_conv' split: if_splits)

definition frame_work :: "workflow_edge list \<Rightarrow> (string \<times> nat) list \<Rightarrow> nat" where
  "frame_work es frames = length frames + sum_list (map (\<lambda>(v, i). length (edges_from es v) - i) frames)"

text \<open>The explicit stack of frames (node, next edge), its top first.\<close>

function visit :: "workflow_edge list \<Rightarrow> (string \<times> nat) list \<Rightarrow> colours \<Rightarrow> bool \<times> colours" where
  "visit es [] color = (False, color)"
| "visit es ((v, i) # stack) color =
     (let edges = edges_from es v in
      if i \<ge> length edges then visit es stack (AList.update v Black color)
      else
        (let nxt = we_targetNodeId (edges ! i) in
         if map_of color nxt = Some Gray then (True, color)
         else if map_of color nxt = Some White
           then visit es ((nxt, 0) # (v, Suc i) # stack) (AList.update nxt Gray color)
         else visit es ((v, Suc i) # stack) color))"
  by pat_completeness auto

termination
proof (relation "measures [\<lambda>(es, stack, color). card (whites color),
    \<lambda>(es, stack, color). frame_work es stack]", goal_cases)
  case (2 es v i stack color)
  have "card (whites (AList.update v Black color)) \<le> card (whites color)"
    by (rule card_mono) (auto simp: whites_update)
  then show ?case by (auto simp: frame_work_def)
next
  case (3 es v i stack color)
  then have "we_targetNodeId (edges_from es v ! i) \<in> whites color" by (simp add: whites_def)
  then have "card (whites color - {we_targetNodeId (edges_from es v ! i)}) < card (whites color)"
    by (intro card_Diff1_less) simp_all
  with 3 show ?case by (simp add: whites_update)
next
  case (4 es v i stack color)
  then show ?case by (auto simp: frame_work_def)
qed simp

fun cycle_from :: "workflow_edge list \<Rightarrow> string list \<Rightarrow> colours \<Rightarrow> bool" where
  "cycle_from es [] color = False"
| "cycle_from es (v # vs) color =
     (if map_of color v = Some White
      then (case visit es [(v, 0)] (AList.update v Gray color) of
              (True, _) \<Rightarrow> True
            | (False, color') \<Rightarrow> cycle_from es vs color')
      else cycle_from es vs color)"

definition hasCycle :: "workflow_node list \<Rightarrow> workflow_edge list \<Rightarrow> bool" where
  "hasCycle byId es = cycle_from es (map wn_id byId) (map (\<lambda>n. (wn_id n, White)) byId)"


section \<open>The gate\<close>

definition validateWorkflowGraph ::
  "(rat \<Rightarrow> string) \<Rightarrow> workflow_graph \<Rightarrow> node_registry \<Rightarrow> validate_options \<Rightarrow> validation_result" where
  "validateWorkflowGraph num_str graph registry opts =
     (let nodes = wg_nodes graph; edges = wg_edges graph;
          version = report (wg_schemaVersion graph \<noteq> 1) (graph_finding ''graph.schema_version'')
      in if nodes = []
         then \<lparr> vr_valid = False, vr_errors = version @ [graph_finding ''graph.empty''], vr_warnings = [] \<rparr>
         else
           (let (byId, node_errors) = index_nodes registry opts nodes;
                triggers = triggers_of registry nodes;
                sc = index_edges registry byId edges;
                errors = version
                  @ report (length nodes > maxNodes) (graph_finding ''graph.too_many_nodes'')
                  @ report (length edges > maxEdges) (graph_finding ''graph.too_many_edges'')
                  @ node_errors
                  @ report (triggers = []) (graph_finding ''graph.no_trigger'')
                  @ sc_errors sc
                  @ concat (map (rule_errors num_str registry (sc_edges sc)) byId)
                  @ report (hasCycle byId (sc_edges sc)) (graph_finding ''graph.cycle'');
                warnings = concat (map (rule_warnings registry (sc_edges sc)) byId)
                  @ detectUnreachable byId triggers (sc_edges sc)
            in \<lparr> vr_valid = (errors = []), vr_errors = errors, vr_warnings = warnings \<rparr>))"


section \<open>The searches are exact\<close>

lemma reach_loop_spec:
  "\<forall>v\<in>seen. edge_rel es `` {v} \<subseteq> seen \<union> set stack \<Longrightarrow>
   reach_loop es stack seen = seen \<union> (edge_rel es)\<^sup>* `` set stack"
proof (induction es stack seen rule: reach_loop.induct)
  case (1 es seen)
  then show ?case by simp
next
  case (2 es v stack seen)
  let ?R = "edge_rel es"
  show ?case
  proof (cases "v \<in> seen")
    case True
    with "2.prems" have prems: "\<forall>u\<in>seen. ?R `` {u} \<subseteq> seen \<union> set stack" by auto
    have "w \<in> seen \<union> ?R\<^sup>* `` set stack" if "(v, w) \<in> ?R\<^sup>*" for w
      using that
    proof (induction rule: rtrancl_induct)
      case base
      then show ?case using True by simp
    next
      case (step y z)
      then show ?case using prems by (auto intro: rtrancl_into_rtrancl)
    qed
    then show ?thesis using "2.IH"(1) [OF True prems] True by auto
  next
    case False
    let ?ts = "rev (map we_targetNodeId (edges_from es v)) @ stack"
    have succ: "set (rev (map we_targetNodeId (edges_from es v))) = ?R `` {v}"
      by (auto simp: edge_rel_from)
    have "\<forall>u\<in>insert v seen. ?R `` {u} \<subseteq> insert v seen \<union> set ?ts"
      using "2.prems" succ by auto
    from "2.IH"(2) [OF False this]
    have "reach_loop es (v # stack) seen = insert v seen \<union> ?R\<^sup>* `` (?R `` {v} \<union> set stack)"
      using False succ by simp
    also have "\<dots> = seen \<union> ?R\<^sup>* `` set (v # stack)"
      by (auto intro: converse_rtrancl_into_rtrancl elim: converse_rtranclE)
    finally show ?thesis .
  qed
qed

lemma detectUnreachable_spec:
  "set (detectUnreachable byId triggers es) =
     {node_finding ''node.unreachable'' n |n. n \<in> set byId \<and>
        wn_id n \<notin> (edge_rel es)\<^sup>* `` (wn_id ` set triggers)}"
  using reach_loop_spec [of "{}" es "rev (map wn_id triggers)"]
  by (auto simp: detectUnreachable_def)

text \<open>
  What the cycle search keeps: a grey node is on the stack, a black node starts no infinite
  path, every edge a frame has passed leads to a black node or to the frame above, and each
  frame has an edge to the one above.
\<close>

fun frames_ok :: "workflow_edge list \<Rightarrow> colours \<Rightarrow> string option \<Rightarrow> (string \<times> nat) list \<Rightarrow> bool" where
  "frames_ok es color up [] = True"
| "frames_ok es color up ((v, i) # stack) =
     ((\<forall>j < min i (length (edges_from es v)).
         map_of color (we_targetNodeId (edges_from es v ! j)) = Some Black \<or>
         up = Some (we_targetNodeId (edges_from es v ! j))) \<and>
      (\<forall>u. up = Some u \<longrightarrow> (v, u) \<in> edge_rel es) \<and>
      frames_ok es color (Some v) stack)"

definition search_inv :: "workflow_edge list \<Rightarrow> (string \<times> nat) list \<Rightarrow> colours \<Rightarrow> bool" where
  "search_inv es frames color \<longleftrightarrow>
     we_targetNodeId ` set es \<subseteq> dom (map_of color) \<and>
     {v. map_of color v = Some Gray} \<subseteq> fst ` set frames \<and>
     {v. map_of color v = Some Black} \<subseteq> Wellfounded.acc ((edge_rel es)\<inverse>) \<and>
     frames_ok es color None frames"

lemma search_invI:
  assumes "we_targetNodeId ` set es \<subseteq> dom (map_of color)"
    and "\<And>v. map_of color v = Some Gray \<Longrightarrow> v \<in> fst ` set frames"
    and "\<And>v. map_of color v = Some Black \<Longrightarrow> v \<in> Wellfounded.acc ((edge_rel es)\<inverse>)"
    and "frames_ok es color None frames"
  shows "search_inv es frames color"
  using assms by (auto simp: search_inv_def)

lemma search_invD:
  assumes "search_inv es frames color"
  shows "we_targetNodeId ` set es \<subseteq> dom (map_of color)"
    and "map_of color v = Some Gray \<Longrightarrow> v \<in> fst ` set frames"
    and "map_of color v = Some Black \<Longrightarrow> v \<in> Wellfounded.acc ((edge_rel es)\<inverse>)"
    and "frames_ok es color None frames"
  using assms by (auto simp: search_inv_def)

lemma frames_ok_mono:
  assumes "frames_ok es color up frames"
    and "\<And>v. map_of color v = Some Black \<Longrightarrow> map_of color' v = Some Black"
    and "up' = up \<or> up' = None \<and> (\<forall>u. up = Some u \<longrightarrow> map_of color' u = Some Black)"
  shows "frames_ok es color' up' frames"
  using assms(1,3)
proof (induction frames arbitrary: up up')
  case (Cons f stack)
  obtain v i where f: "f = (v, i)" by (cases f)
  note old = Cons.prems(1) [unfolded f frames_ok.simps] and up = Cons.prems(2)
  show ?case unfolding f frames_ok.simps
  proof (intro conjI allI impI)
    fix j assume "j < min i (length (edges_from es v))"
    then have "map_of color (we_targetNodeId (edges_from es v ! j)) = Some Black \<or>
        up = Some (we_targetNodeId (edges_from es v ! j))" using old by blast
    then show "map_of color' (we_targetNodeId (edges_from es v ! j)) = Some Black \<or>
        up' = Some (we_targetNodeId (edges_from es v ! j))" using assms(2) up by auto
  next
    fix u assume "up' = Some u"
    then show "(v, u) \<in> edge_rel es" using old up by auto
  next
    show "frames_ok es color' (Some v) stack" using Cons.IH old by blast
  qed
qed simp

lemma frames_path:
  assumes "frames_ok es color (Some u) frames" and "w \<in> fst ` set frames"
  shows "(w, u) \<in> (edge_rel es)\<^sup>+"
  using assms
proof (induction frames arbitrary: u)
  case (Cons f frames)
  obtain v i where f: "f = (v, i)" by (cases f)
  with Cons.prems have vu: "(v, u) \<in> edge_rel es" and rest: "frames_ok es color (Some v) frames" by auto
  show ?case
  proof (cases "w = v")
    case True
    then show ?thesis using vu by auto
  next
    case False
    then have "(w, v) \<in> (edge_rel es)\<^sup>+" using Cons.IH [OF rest] Cons.prems(2) f by auto
    then show ?thesis using vu by (rule trancl_into_trancl)
  qed
qed simp

lemma edge_rel_nth: "i < length (edges_from es v) \<Longrightarrow> (v, we_targetNodeId (edges_from es v ! i)) \<in> edge_rel es"
  by (auto simp: edge_rel_from)

lemma acc_by_edges:
  assumes "\<forall>j < length (edges_from es v). we_targetNodeId (edges_from es v ! j) \<in> Wellfounded.acc ((edge_rel es)\<inverse>)"
  shows "v \<in> Wellfounded.acc ((edge_rel es)\<inverse>)"
proof (rule accI)
  fix w assume "(w, v) \<in> (edge_rel es)\<inverse>"
  then have "w \<in> we_targetNodeId ` set (edges_from es v)" by (simp add: edge_rel_from)
  then show "w \<in> Wellfounded.acc ((edge_rel es)\<inverse>)" using assms by (auto simp: in_set_conv_nth)
qed

lemma search_inv_pop:
  assumes inv: "search_inv es ((v, i) # stack) color" and "length (edges_from es v) \<le> i"
  shows "search_inv es stack (AList.update v Black color)"
proof -
  have "\<forall>j < length (edges_from es v). map_of color (we_targetNodeId (edges_from es v ! j)) = Some Black"
    using search_invD(4) [OF inv] assms(2) by (auto simp: min_def)
  then have v: "v \<in> Wellfounded.acc ((edge_rel es)\<inverse>)"
    using search_invD(3) [OF inv] by (intro acc_by_edges) blast
  show ?thesis
  proof (rule search_invI)
    show "we_targetNodeId ` set es \<subseteq> dom (map_of (AList.update v Black color))"
      using search_invD(1) [OF inv] by (auto simp: update_conv')
    show "u \<in> fst ` set stack" if "map_of (AList.update v Black color) u = Some Gray" for u
      using that search_invD(2) [OF inv, of u] by (cases "u = v") (auto simp: update_conv')
    show "u \<in> Wellfounded.acc ((edge_rel es)\<inverse>)"
      if "map_of (AList.update v Black color) u = Some Black" for u
      using that search_invD(3) [OF inv, of u] v by (cases "u = v") (auto simp: update_conv')
    show "frames_ok es (AList.update v Black color) None stack"
    proof (rule frames_ok_mono [of es color "Some v"])
      show "frames_ok es color (Some v) stack" using search_invD(4) [OF inv] by simp
    qed (simp_all add: update_conv')
  qed
qed

lemma search_inv_push:
  assumes "search_inv es ((v, i) # stack) color" and i: "i < length (edges_from es v)"
    and white: "map_of color (we_targetNodeId (edges_from es v ! i)) = Some White"
  shows "search_inv es ((we_targetNodeId (edges_from es v ! i), 0) # (v, Suc i) # stack)
           (AList.update (we_targetNodeId (edges_from es v ! i)) Gray color)"
proof -
  let ?n = "we_targetNodeId (edges_from es v ! i)"
  let ?c = "AList.update ?n Gray color"
  have keep: "map_of ?c u = Some Black" if "map_of color u = Some Black" for u
    using that white by (cases "u = ?n") (auto simp: update_conv')
  have stack: "frames_ok es ?c (Some v) stack"
  proof (rule frames_ok_mono [of es color "Some v"])
    show "frames_ok es color (Some v) stack" using search_invD(4) [OF assms(1)] by simp
  qed (use keep in auto)
  have passed: "map_of ?c (we_targetNodeId (edges_from es v ! j)) = Some Black \<or>
      Some ?n = Some (we_targetNodeId (edges_from es v ! j))"
    if "j < min (Suc i) (length (edges_from es v))" for j
  proof (cases "j = i")
    case False
    with that have "map_of color (we_targetNodeId (edges_from es v ! j)) = Some Black"
      using assms(1) by (auto simp: search_inv_def)
    then show ?thesis using keep by blast
  qed simp
  show ?thesis
  proof (rule search_invI)
    show "we_targetNodeId ` set es \<subseteq> dom (map_of ?c)"
      using search_invD(1) [OF assms(1)] by (auto simp: update_conv')
    show "u \<in> fst ` set ((?n, 0) # (v, Suc i) # stack)" if "map_of ?c u = Some Gray" for u
      using that search_invD(2) [OF assms(1), of u] by (cases "u = ?n") (auto simp: update_conv')
    show "u \<in> Wellfounded.acc ((edge_rel es)\<inverse>)" if "map_of ?c u = Some Black" for u
      using that search_invD(3) [OF assms(1), of u] by (cases "u = ?n") (auto simp: update_conv')
    have "frames_ok es ?c (Some ?n) ((v, Suc i) # stack)"
      unfolding frames_ok.simps
    proof (intro conjI allI impI)
      show "map_of ?c (we_targetNodeId (edges_from es v ! j)) = Some Black \<or>
          Some ?n = Some (we_targetNodeId (edges_from es v ! j))"
        if "j < min (Suc i) (length (edges_from es v))" for j
        using that by (rule passed)
    qed (use stack edge_rel_nth [OF i] in simp_all)
    then show "frames_ok es ?c None ((?n, 0) # (v, Suc i) # stack)"
      by (simp only: frames_ok.simps) simp
  qed
qed

lemma search_inv_pass:
  assumes "search_inv es ((v, i) # stack) color" and i: "i < length (edges_from es v)"
    and "map_of color (we_targetNodeId (edges_from es v ! i)) \<notin> {Some White, Some Gray}"
  shows "search_inv es ((v, Suc i) # stack) color"
proof -
  let ?n = "we_targetNodeId (edges_from es v ! i)"
  have "?n \<in> we_targetNodeId ` set es" using targets_from [of es v] i by (auto dest: nth_mem)
  then have "?n \<in> dom (map_of color)" using search_invD(1) [OF assms(1)] by blast
  then obtain c where "map_of color ?n = Some c" by auto
  then have black: "map_of color ?n = Some Black" using assms(3) by (cases c) simp_all
  have "map_of color (we_targetNodeId (edges_from es v ! j)) = Some Black"
    if "j < min (Suc i) (length (edges_from es v))" for j
    using that black assms(1) by (cases "j = i") (auto simp: search_inv_def)
  then show ?thesis using assms(1) by (auto simp: search_inv_def)
qed

lemma search_inv_cycle:
  assumes "search_inv es ((v, i) # stack) color" and i: "i < length (edges_from es v)"
    and "map_of color (we_targetNodeId (edges_from es v ! i)) = Some Gray"
  shows "\<not> acyclic (edge_rel es)"
proof -
  let ?n = "we_targetNodeId (edges_from es v ! i)"
  have edge: "(v, ?n) \<in> edge_rel es" using i by (rule edge_rel_nth)
  have "?n = v \<or> (?n, v) \<in> (edge_rel es)\<^sup>+"
    using assms(1,3) frames_path [of es color v stack ?n] by (auto simp: search_inv_def)
  then have "(v, v) \<in> (edge_rel es)\<^sup>+" using edge by (auto intro: trancl_into_trancl2)
  then show ?thesis by (auto simp: acyclic_def)
qed

lemma visit_step:
  "length (edges_from es v) \<le> i \<Longrightarrow> visit es ((v, i) # stack) color = visit es stack (AList.update v Black color)"
  "i < length (edges_from es v) \<Longrightarrow> map_of color (we_targetNodeId (edges_from es v ! i)) = Some Gray \<Longrightarrow>
     visit es ((v, i) # stack) color = (True, color)"
  "i < length (edges_from es v) \<Longrightarrow> map_of color (we_targetNodeId (edges_from es v ! i)) = Some White \<Longrightarrow>
     visit es ((v, i) # stack) color =
       visit es ((we_targetNodeId (edges_from es v ! i), 0) # (v, Suc i) # stack)
         (AList.update (we_targetNodeId (edges_from es v ! i)) Gray color)"
  "i < length (edges_from es v) \<Longrightarrow>
     map_of color (we_targetNodeId (edges_from es v ! i)) \<notin> {Some White, Some Gray} \<Longrightarrow>
     visit es ((v, i) # stack) color = visit es ((v, Suc i) # stack) color"
  by (subst visit.simps(2), simp add: Let_def del: visit.simps)+

declare visit.simps(2) [simp del]

lemma visit_spec:
  assumes "search_inv es frames color" and "visit es frames color = (found, color')"
  shows "(if found then \<not> acyclic (edge_rel es)
          else search_inv es [] color' \<and> whites color' \<subseteq> whites color \<and>
               dom (map_of color) \<subseteq> dom (map_of color'))"
  using assms
proof (induction es frames color rule: visit.induct)
  case (1 es color)
  then show ?case by auto
next
  case (2 es v i stack color)
  let ?n = "we_targetNodeId (edges_from es v ! i)"
  consider (pop) "length (edges_from es v) \<le> i" | (gray) "i < length (edges_from es v)" "map_of color ?n = Some Gray"
    | (push) "i < length (edges_from es v)" "map_of color ?n = Some White"
    | (pass) "i < length (edges_from es v)" "map_of color ?n \<notin> {Some White, Some Gray}"
    by fastforce
  then show ?case
  proof cases
    case pop
    have "visit es stack (AList.update v Black color) = (found, color')"
      using "2.prems"(2) visit_step(1) [OF pop] by simp
    note later = "2.IH"(1) [OF refl pop search_inv_pop [OF "2.prems"(1) pop] this]
    show ?thesis
    proof (cases found)
      case False
      then show ?thesis using later by (auto simp: whites_update update_conv')
    qed (use later in simp)
  next
    case gray
    then show ?thesis using search_inv_cycle [OF "2.prems"(1) gray] "2.prems"(2) visit_step(2) [OF gray] by auto
  next
    case push
    then have nle: "\<not> length (edges_from es v) \<le> i" and ng: "map_of color ?n \<noteq> Some Gray" by simp_all
    have "visit es ((?n, 0) # (v, Suc i) # stack) (AList.update ?n Gray color) = (found, color')"
      using "2.prems"(2) visit_step(3) [OF push] by simp
    note later = "2.IH"(2) [OF refl nle refl ng push(2) search_inv_push [OF "2.prems"(1) push] this]
    show ?thesis
    proof (cases found)
      case False
      then show ?thesis using later by (auto simp: whites_update update_conv')
    qed (use later in simp)
  next
    case pass
    then have nle: "\<not> length (edges_from es v) \<le> i" and ng: "map_of color ?n \<noteq> Some Gray"
      and nw: "map_of color ?n \<noteq> Some White" by simp_all
    have "visit es ((v, Suc i) # stack) color = (found, color')"
      using "2.prems"(2) visit_step(4) [OF pass] by simp
    from "2.IH"(3) [OF refl nle refl ng nw search_inv_pass [OF "2.prems"(1) pass] this]
    show ?thesis .
  qed
qed

lemma cycle_from_spec:
  assumes "search_inv es [] color" and "whites color \<subseteq> set vs"
    and "\<forall>e\<in>set es. we_sourceNodeId e \<in> dom (map_of color)"
  shows "cycle_from es vs color \<longleftrightarrow> \<not> acyclic (edge_rel es)"
  using assms
proof (induction es vs color rule: cycle_from.induct)
  case (1 es color)
  let ?A = "Wellfounded.acc ((edge_rel es)\<inverse>)"
  have black: "v \<in> ?A" if known: "v \<in> dom (map_of color)" for v
  proof -
    obtain c where c: "map_of color v = Some c" using known by auto
    then show ?thesis using "1.prems"(1,2) by (cases c) (auto simp: search_inv_def whites_def)
  qed
  have "v \<in> ?A" for v
  proof (cases "v \<in> dom (map_of color)")
    case False
    then have "edges_from es v = []" using "1.prems"(3) by (auto simp: edges_from_def filter_empty_conv)
    then show ?thesis by (intro acc_by_edges) simp
  qed (rule black)
  then have "wf ((edge_rel es)\<inverse>)" by (intro acc_wfI) simp
  then have "acyclic ((edge_rel es)\<inverse>)" by (rule wf_acyclic)
  then show ?case by simp
next
  case (2 es v vs color)
  show ?case
  proof (cases "map_of color v = Some White")
    case True
    obtain found color' where v: "visit es [(v, 0)] (AList.update v Gray color) = (found, color')"
      by fastforce
    note old = search_invD [OF "2.prems"(1)]
    have "search_inv es [(v, 0)] (AList.update v Gray color)"
    proof (rule search_invI)
      show "we_targetNodeId ` set es \<subseteq> dom (map_of (AList.update v Gray color))"
        using old(1) by (auto simp: update_conv')
      show "u \<in> fst ` set [(v, 0)]" if "map_of (AList.update v Gray color) u = Some Gray" for u
        using that old(2) [of u] by (cases "u = v") (auto simp: update_conv')
      show "u \<in> Wellfounded.acc ((edge_rel es)\<inverse>)"
        if "map_of (AList.update v Gray color) u = Some Black" for u
        using that old(3) [of u] by (cases "u = v") (auto simp: update_conv')
    qed simp
    note fact = visit_spec [OF this v]
    show ?thesis
    proof (cases found)
      case found: False
      then have inv: "search_inv es [] color'" and wh: "whites color' \<subseteq> set vs"
        and "dom (map_of color) \<subseteq> dom (map_of color')"
        using fact "2.prems"(2) by (auto simp: whites_update update_conv')
      moreover from this(3) have "\<forall>e\<in>set es. we_sourceNodeId e \<in> dom (map_of color')"
        using "2.prems"(3) by blast
      ultimately have "cycle_from es vs color' \<longleftrightarrow> \<not> acyclic (edge_rel es)"
        using "2.IH"(1) [OF True v [symmetric]] found by auto
      then show ?thesis using v True found by simp
    qed (use fact v True in auto)
  next
    case False
    then show ?thesis using "2.IH"(2) [OF False] "2.prems" by (auto simp: whites_def)
  qed
qed

lemma hasCycle_iff:
  assumes "\<forall>e\<in>set es. we_sourceNodeId e \<in> wn_id ` set byId \<and> we_targetNodeId e \<in> wn_id ` set byId"
  shows "hasCycle byId es \<longleftrightarrow> \<not> acyclic (edge_rel es)"
proof -
  let ?c = "map (\<lambda>n. (wn_id n, White)) byId"
  have dom: "dom (map_of ?c) = wn_id ` set byId" by (force simp: dom_map_of_conv_image_fst)
  have white: "c = White" if "map_of ?c v = Some c" for v c using map_of_SomeD [OF that] by auto
  have "search_inv es [] ?c"
  proof (rule search_invI)
    show "we_targetNodeId ` set es \<subseteq> dom (map_of ?c)" using assms unfolding dom by blast
  qed (auto dest: white)
  moreover have "whites ?c \<subseteq> set (map wn_id byId)" using dom by (auto simp: whites_def)
  ultimately show ?thesis
    unfolding hasCycle_def using assms dom by (intro cycle_from_spec) simp_all
qed


section \<open>What the gate lets through\<close>

text \<open>The rules of a publishable workflow, stated over the graph itself.\<close>

definition node_permitted :: "validate_options \<Rightarrow> workflow_node \<Rightarrow> node_definition \<Rightarrow> bool" where
  "node_permitted opts n d \<longleftrightarrow>
     (\<forall>ks key. nd_requiredConfig d = Some ks \<and> key \<in> set ks \<longrightarrow> \<not> blank_value (config_value n key)) \<and>
     (\<forall>granted p. vo_grantedPermissions opts = Some granted \<and> nd_requiredPermission d = Some p \<and> p \<noteq> []
        \<longrightarrow> p \<in> granted) \<and>
     (\<forall>enabled ms. vo_enabledModules opts = Some enabled \<and> nd_requiredModules d = Some ms
        \<longrightarrow> set ms \<subseteq> enabled) \<and>
     (\<forall>w. nd_category d = NC_subworkflow \<and> vo_selfWorkflowId opts = Some w \<and> w \<noteq> []
        \<longrightarrow> \<not> strict_eq (config_value n ''workflowId'') (JStr w))"

definition node_connected ::
  "(rat \<Rightarrow> string) \<Rightarrow> workflow_edge list \<Rightarrow> workflow_node \<Rightarrow> node_definition \<Rightarrow> bool" where
  "node_connected num_str es n d \<longleftrightarrow>
     (let ins = edges_into es (wn_id n); outs = edges_from es (wn_id n); cat = nd_category d;
          num = (\<lambda>key. js_number num_str (config_value n key))
      in (cat = NC_trigger \<or> np_inputs (nd_ports d) = 0 \<longrightarrow> ins = []) \<and>
         (np_inputs (nd_ports d) = 1 \<and> cat \<noteq> NC_join \<longrightarrow> length ins \<le> 1) \<and>
         (cat = NC_end \<longrightarrow> outs = []) \<and>
         (cat \<in> {NC_wait, NC_approval} \<and> ''timeout'' \<in> set (np_outputs (nd_ports d)) \<longrightarrow>
            ((\<exists>e\<in>set outs. we_sourcePort e = Some ''timeout'') \<or> jn_less (Fin 0) (num ''timeoutSeconds'')) \<and>
            \<not> jn_less (Fin maxWaitTimeoutSeconds) (num ''timeoutSeconds'')) \<and>
         (cat = NC_delay \<longrightarrow> jn_less (Fin 0) (num ''duration'') \<and>
            \<not> jn_less (Fin maxDelaySeconds) (num ''duration'')) \<and>
         (cat = NC_parallel \<longrightarrow> length outs \<le> maxParallelBranches) \<and>
         (nd_destructive d \<longrightarrow> config_value n ''acknowledgeDestructive'' = JBool True) \<and>
         (wn_type n = ''trigger.scheduled'' \<longrightarrow> truthy (config_value n ''executionIdentity'')))"

definition edge_legal :: "node_registry \<Rightarrow> workflow_node list \<Rightarrow> workflow_edge \<Rightarrow> bool" where
  "edge_legal registry nodes e \<longleftrightarrow>
     (\<exists>s\<in>set nodes. \<exists>t\<in>set nodes. wn_id s = we_sourceNodeId e \<and> wn_id t = we_targetNodeId e \<and>
        we_sourceNodeId e \<noteq> we_targetNodeId e \<and>
        (\<forall>d. registry (wn_type s) = Some d \<longrightarrow> np_outputs (nd_ports d) \<noteq> [] \<and>
           (np_dynamicOutputs (nd_ports d) \<or> we_sourcePort e = None \<or>
            the (we_sourcePort e) \<in> set (np_outputs (nd_ports d)))) \<and>
        (\<forall>d. registry (wn_type t) = Some d \<longrightarrow> np_inputs (nd_ports d) \<noteq> 0))"

definition publishable ::
  "(rat \<Rightarrow> string) \<Rightarrow> workflow_graph \<Rightarrow> node_registry \<Rightarrow> validate_options \<Rightarrow> bool" where
  "publishable num_str g registry opts \<longleftrightarrow>
     wg_schemaVersion g = 1 \<and> wg_nodes g \<noteq> [] \<and>
     length (wg_nodes g) \<le> maxNodes \<and> length (wg_edges g) \<le> maxEdges \<and>
     distinct (map wn_id (wg_nodes g)) \<and> distinct (map we_id (wg_edges g)) \<and>
     (\<exists>n\<in>set (wg_nodes g). \<exists>d. registry (wn_type n) = Some d \<and> nd_category d = NC_trigger) \<and>
     (\<forall>n\<in>set (wg_nodes g). \<exists>d. registry (wn_type n) = Some d \<and>
        node_permitted opts n d \<and> node_connected num_str (wg_edges g) n d) \<and>
     (\<forall>e\<in>set (wg_edges g). edge_legal registry (wg_nodes g) e) \<and>
     acyclic (edge_rel (wg_edges g))"

lemma report_Nil [simp]: "report b f = [] \<longleftrightarrow> \<not> b"
  by (simp add: report_def)

lemma check_node_Nil:
  "check_node registry opts n = [] \<longleftrightarrow> (\<exists>d. registry (wn_type n) = Some d \<and> node_permitted opts n d)"
proof (cases "registry (wn_type n)")
  case (Some d)
  have "validateNodeConfig n d = [] \<longleftrightarrow>
      (\<forall>ks key. nd_requiredConfig d = Some ks \<and> key \<in> set ks \<longrightarrow> \<not> blank_value (config_value n key))"
    by (cases "nd_requiredConfig d") (auto simp: validateNodeConfig_def)
  moreover have "\<not> lacks_permission opts d \<longleftrightarrow>
      (\<forall>granted p. vo_grantedPermissions opts = Some granted \<and> nd_requiredPermission d = Some p \<and> p \<noteq> []
        \<longrightarrow> p \<in> granted)"
    by (auto simp: lacks_permission_def split: option.splits)
  moreover have "missing_modules opts d = [] \<longleftrightarrow>
      (\<forall>enabled ms. vo_enabledModules opts = Some enabled \<and> nd_requiredModules d = Some ms
        \<longrightarrow> set ms \<subseteq> enabled)"
    by (auto simp: missing_modules_def filter_empty_conv split: option.splits)
  moreover have "\<not> invokes_itself opts n d \<longleftrightarrow>
      (\<forall>w. nd_category d = NC_subworkflow \<and> vo_selfWorkflowId opts = Some w \<and> w \<noteq> []
        \<longrightarrow> \<not> strict_eq (config_value n ''workflowId'') (JStr w))"
    by (auto simp: invokes_itself_def split: option.splits)
  ultimately show ?thesis using Some by (simp add: check_node_def node_permitted_def)
qed (simp add: check_node_def)

lemma fold_add_node:
  "snd (fold (add_node registry opts) nodes (byId, errors)) = [] \<longleftrightarrow>
     errors = [] \<and> distinct (map wn_id nodes) \<and> wn_id ` set nodes \<inter> wn_id ` set byId = {} \<and>
     (\<forall>n\<in>set nodes. check_node registry opts n = [])"
  "snd (fold (add_node registry opts) nodes (byId, errors)) = [] \<Longrightarrow>
   fst (fold (add_node registry opts) nodes (byId, errors)) = byId @ nodes"
  by (induction nodes arbitrary: byId errors) (auto simp: add_node_def)

lemma node_by_id_iff:
  "distinct (map wn_id nodes) \<Longrightarrow> node_by_id nodes v = Some n \<longleftrightarrow> n \<in> set nodes \<and> wn_id n = v"
  unfolding node_by_id_def by (induction nodes) force+

lemma validatePort_Nil:
  "validatePort source_port_findings registry e n = [] \<longleftrightarrow>
     (\<forall>d. registry (wn_type n) = Some d \<longrightarrow> np_outputs (nd_ports d) \<noteq> [] \<and>
        (np_dynamicOutputs (nd_ports d) \<or> we_sourcePort e = None \<or>
         the (we_sourcePort e) \<in> set (np_outputs (nd_ports d))))"
  "validatePort target_port_findings registry e n = [] \<longleftrightarrow>
     (\<forall>d. registry (wn_type n) = Some d \<longrightarrow> np_inputs (nd_ports d) \<noteq> 0)"
  by (auto simp: validatePort_def source_port_findings_def target_port_findings_def Let_def
      split: option.splits)

lemma add_edge_effect:
  assumes "distinct (map wn_id nodes)"
  shows "sc_edgeIds (add_edge registry nodes e sc) = insert (we_id e) (sc_edgeIds sc)"
    and "sc_errors (add_edge registry nodes e sc) = [] \<longleftrightarrow>
           sc_errors sc = [] \<and> we_id e \<notin> sc_edgeIds sc \<and> edge_legal registry nodes e"
    and "edge_legal registry nodes e \<Longrightarrow> sc_edges (add_edge registry nodes e sc) = sc_edges sc @ [e]"
proof -
  note id = node_by_id_iff [OF assms]
  show "sc_edgeIds (add_edge registry nodes e sc) = insert (we_id e) (sc_edgeIds sc)"
    by (simp add: add_edge_def Let_def split: option.splits)
  show "sc_errors (add_edge registry nodes e sc) = [] \<longleftrightarrow>
      sc_errors sc = [] \<and> we_id e \<notin> sc_edgeIds sc \<and> edge_legal registry nodes e"
  proof (cases "node_by_id nodes (we_sourceNodeId e)")
    case None
    then have "\<not> (\<exists>a\<in>set nodes. wn_id a = we_sourceNodeId e)" using id by (metis option.distinct(1))
    then have "\<not> edge_legal registry nodes e" unfolding edge_legal_def by blast
    then show ?thesis using None by (simp add: add_edge_def Let_def split: option.splits)
  next
    case src: (Some n)
    show ?thesis
    proof (cases "node_by_id nodes (we_targetNodeId e)")
      case None
      then have "\<not> (\<exists>a\<in>set nodes. wn_id a = we_targetNodeId e)" using id by (metis option.distinct(1))
      then have "\<not> edge_legal registry nodes e" unfolding edge_legal_def by blast
      then show ?thesis using None src by (simp add: add_edge_def Let_def)
    next
      case (Some m)
      have "edge_legal registry nodes e \<longleftrightarrow> we_sourceNodeId e \<noteq> we_targetNodeId e \<and>
          validatePort source_port_findings registry e n = [] \<and>
          validatePort target_port_findings registry e m = []"
      proof
        assume "edge_legal registry nodes e"
        then obtain a b where "a \<in> set nodes" "b \<in> set nodes" "wn_id a = we_sourceNodeId e"
            "wn_id b = we_targetNodeId e" and ok: "we_sourceNodeId e \<noteq> we_targetNodeId e"
            "validatePort source_port_findings registry e a = []"
            "validatePort target_port_findings registry e b = []"
          unfolding edge_legal_def validatePort_Nil by blast
        then have "node_by_id nodes (we_sourceNodeId e) = Some a" "node_by_id nodes (we_targetNodeId e) = Some b"
          unfolding id by simp_all
        then show "we_sourceNodeId e \<noteq> we_targetNodeId e \<and>
            validatePort source_port_findings registry e n = [] \<and>
            validatePort target_port_findings registry e m = []"
          using ok src Some by simp
      next
        assume "we_sourceNodeId e \<noteq> we_targetNodeId e \<and>
            validatePort source_port_findings registry e n = [] \<and>
            validatePort target_port_findings registry e m = []"
        then show "edge_legal registry nodes e"
          using src Some unfolding edge_legal_def validatePort_Nil id by blast
      qed
      then show ?thesis using Some src by (auto simp: add_edge_def Let_def)
    qed
  qed
  assume "edge_legal registry nodes e"
  then obtain a b where "node_by_id nodes (we_sourceNodeId e) = Some a"
      "node_by_id nodes (we_targetNodeId e) = Some b"
    using id unfolding edge_legal_def by blast
  then show "sc_edges (add_edge registry nodes e sc) = sc_edges sc @ [e]"
    by (simp add: add_edge_def Let_def)
qed

lemma fold_add_edge:
  assumes "distinct (map wn_id nodes)"
  shows "sc_errors (fold (add_edge registry nodes) es sc) = [] \<longleftrightarrow>
           sc_errors sc = [] \<and> distinct (map we_id es) \<and> we_id ` set es \<inter> sc_edgeIds sc = {} \<and>
           (\<forall>e\<in>set es. edge_legal registry nodes e)"
    and "\<forall>e\<in>set es. edge_legal registry nodes e \<Longrightarrow>
         sc_edges (fold (add_edge registry nodes) es sc) = sc_edges sc @ es"
proof (induction es arbitrary: sc)
  case (Cons e es)
  {
    case 1
    show ?case using Cons.IH(1) [of "add_edge registry nodes e sc"]
      by (auto simp: add_edge_effect(1,2) [OF assms])
  next
    case 2
    then show ?case using Cons.IH(2) [of "add_edge registry nodes e sc"]
      by (simp add: add_edge_effect(3) [OF assms])
  }
qed simp_all

lemma rule_errors_Nil:
  assumes "registry (wn_type n) = Some d"
  shows "rule_errors num_str registry es n = [] \<longleftrightarrow> node_connected num_str es n d"
proof -
  let ?ins = "edges_into es (wn_id n)" and ?outs = "edges_from es (wn_id n)"
  have true: "strict_eq v (JBool True) \<longleftrightarrow> v = JBool True" for v by (cases v) auto
  have "safeguard_findings n d ?outs = [] \<longleftrightarrow>
      (nd_category d = NC_parallel \<longrightarrow> length ?outs \<le> maxParallelBranches) \<and>
      (nd_destructive d \<longrightarrow> config_value n ''acknowledgeDestructive'' = JBool True) \<and>
      (wn_type n = ''trigger.scheduled'' \<longrightarrow> truthy (config_value n ''executionIdentity''))"
    unfolding safeguard_findings_def append_is_Nil_conv report_Nil true not_less [symmetric] by blast
  moreover have "delay_findings num_str n d = [] \<longleftrightarrow> (nd_category d = NC_delay \<longrightarrow>
      jn_less (Fin 0) (js_number num_str (config_value n ''duration'')) \<and>
      \<not> jn_less (Fin maxDelaySeconds) (js_number num_str (config_value n ''duration'')))"
    by (auto simp: delay_findings_def Let_def)
  moreover have "wait_findings num_str n d ?outs = [] \<longleftrightarrow>
      (nd_category d \<in> {NC_wait, NC_approval} \<and> ''timeout'' \<in> set (np_outputs (nd_ports d)) \<longrightarrow>
        ((\<exists>e\<in>set ?outs. we_sourcePort e = Some ''timeout'') \<or>
          jn_less (Fin 0) (js_number num_str (config_value n ''timeoutSeconds''))) \<and>
        \<not> jn_less (Fin maxWaitTimeoutSeconds) (js_number num_str (config_value n ''timeoutSeconds'')))"
    unfolding wait_findings_def Let_def if_distrib [of "\<lambda>x. x = []"] append_is_Nil_conv report_Nil list_ex_iff
    by simp
  moreover have "input_findings n d ?ins ?outs = [] \<longleftrightarrow>
      (nd_category d = NC_trigger \<or> np_inputs (nd_ports d) = 0 \<longrightarrow> ?ins = []) \<and>
      (np_inputs (nd_ports d) = 1 \<and> nd_category d \<noteq> NC_join \<longrightarrow> length ?ins \<le> 1) \<and>
      (nd_category d = NC_end \<longrightarrow> ?outs = [])"
    unfolding input_findings_def append_is_Nil_conv report_Nil not_less [symmetric] by blast
  ultimately show ?thesis using assms by (simp add: rule_errors_def node_connected_def Let_def)
qed

lemma edge_legal_ends:
  "edge_legal registry nodes e \<Longrightarrow>
   we_sourceNodeId e \<in> wn_id ` set nodes \<and> we_targetNodeId e \<in> wn_id ` set nodes"
  unfolding edge_legal_def by (metis image_eqI)

lemma triggers_of_Nil:
  "triggers_of registry nodes = [] \<longleftrightarrow>
     \<not> (\<exists>n\<in>set nodes. \<exists>d. registry (wn_type n) = Some d \<and> nd_category d = NC_trigger)"
  by (auto simp: triggers_of_def filter_empty_conv)

lemma scans_clean:
  assumes "index_nodes registry opts nodes = (byId, node_errors)" and "node_errors = []"
  shows "byId = nodes" "distinct (map wn_id nodes)" "\<forall>n\<in>set nodes. check_node registry opts n = []"
  using assms fold_add_node [of registry opts nodes "[]" "[]"] by (auto simp: index_nodes_def)

lemma index_edges_clean:
  assumes "distinct (map wn_id nodes)"
  shows "sc_errors (index_edges registry nodes es) = [] \<longleftrightarrow>
           distinct (map we_id es) \<and> (\<forall>e\<in>set es. edge_legal registry nodes e)"
    and "\<forall>e\<in>set es. edge_legal registry nodes e \<Longrightarrow> sc_edges (index_edges registry nodes es) = es"
  using fold_add_edge [OF assms] by (simp_all add: index_edges_def)

lemma validate_publishable:
  "vr_valid (validateWorkflowGraph num_str g registry opts) \<longleftrightarrow> publishable num_str g registry opts"
proof -
  let ?ns = "wg_nodes g" and ?es = "wg_edges g"
  obtain byId errs where ix: "index_nodes registry opts ?ns = (byId, errs)" by fastforce
  have errs: "errs = [] \<longleftrightarrow> distinct (map wn_id ?ns) \<and> (\<forall>n\<in>set ?ns. check_node registry opts n = [])"
    using fold_add_node(1) [of registry opts ?ns "[]" "[]"] ix by (simp add: index_nodes_def)
  show ?thesis
  proof (cases "errs = [] \<and> sc_errors (index_edges registry byId ?es) = []")
    case False
    have "\<not> (distinct (map wn_id ?ns) \<and> (\<forall>n\<in>set ?ns. check_node registry opts n = []) \<and>
        distinct (map we_id ?es) \<and> (\<forall>e\<in>set ?es. edge_legal registry ?ns e))"
      using False errs scans_clean(1) [OF ix] index_edges_clean(1) by metis
    then have "\<not> publishable num_str g registry opts"
      unfolding publishable_def check_node_Nil by blast
    then show ?thesis using False ix by (auto simp: validateWorkflowGraph_def Let_def)
  next
    case True
    then have clean: "byId = ?ns" "distinct (map wn_id ?ns)"
        "\<forall>n\<in>set ?ns. \<exists>d. registry (wn_type n) = Some d \<and> node_permitted opts n d"
      using scans_clean [OF ix] by (simp_all add: check_node_Nil)
    then have edges: "distinct (map we_id ?es)" "\<forall>e\<in>set ?es. edge_legal registry ?ns e"
        "sc_edges (index_edges registry ?ns ?es) = ?es"
      using True index_edges_clean [where nodes = ?ns and registry = registry and es = ?es] by simp_all
    have "hasCycle ?ns ?es \<longleftrightarrow> \<not> acyclic (edge_rel ?es)"
      using edges(2) edge_legal_ends by (intro hasCycle_iff) blast
    moreover have "concat (map (rule_errors num_str registry ?es) ?ns) = [] \<longleftrightarrow>
        (\<forall>n\<in>set ?ns. \<exists>d. registry (wn_type n) = Some d \<and> node_permitted opts n d \<and>
           node_connected num_str ?es n d)"
      using clean(3) rule_errors_Nil by fastforce
    ultimately show ?thesis
      using clean(1,2) edges True ix
      by (simp add: validateWorkflowGraph_def Let_def publishable_def triggers_of_Nil not_less)
  qed
qed

text \<open>
  C15. The publish gate is exact. Validation accepts a graph precisely when it meets the rules
  of a publishable workflow: version and size limits, unique ids, a trigger, known and permitted
  node types with their required configuration, edges between existing nodes on existing ports,
  the connectivity, time-out, delay, fan-out and safeguard rules, and no cycle. Both graph
  searches inside it terminate on every graph, well formed or not.
\<close>

theorem validateWorkflowGraph_iff:
  "vr_valid (validateWorkflowGraph num_str g registry opts) \<longleftrightarrow> publishable num_str g registry opts"
  by (rule validate_publishable)

text \<open>
  C16. A published workflow always runs to its end. The executor does no structural checking of
  its own; on a graph the gate accepted, a planning round that dispatches nothing and skips
  nothing while no node is running or waiting means that every node has finished.
\<close>

theorem validated_never_stuck:
  assumes "vr_valid (validateWorkflowGraph num_str g registry opts)"
    and "pv_quiescent (planExecution g states lookup)"
    and "pv_dead (planExecution g states lookup) = []"
  shows "\<forall>n\<in>set (wg_nodes g). status_of states (wn_id n) \<in> {NR_succeeded, NR_failed, NR_skipped}"
proof -
  have pub: "publishable num_str g registry opts" using assms(1) by (simp add: validate_publishable)
  then have "acyclic (edge_rel (wg_edges g))" by (simp add: publishable_def)
  moreover have "\<forall>e\<in>set (wg_edges g). we_sourceNodeId e \<in> wn_id ` set (wg_nodes g)"
    using pub edge_legal_ends unfolding publishable_def by blast
  ultimately have "\<forall>n\<in>set (wg_nodes g). status_of states (wn_id n) \<notin> {NR_pending, NR_running, NR_waiting}"
    using assms(2,3) by (rule planExecution_progress)
  then show ?thesis using node_run_status.exhaust by blast
qed

definition demo_node_definition :: "string \<Rightarrow> node_category \<Rightarrow> int \<Rightarrow> node_definition" where
  "demo_node_definition ty cat ins = \<lparr> nd_type = ty, nd_category = cat, nd_requiredPermission = None,
     nd_requiredModules = None, nd_destructive = False,
     nd_ports = \<lparr> np_inputs = ins, np_outputs = [''out''], np_dynamicOutputs = False \<rparr>,
     nd_requiredConfig = None, nd_actionId = None \<rparr>"

definition demo_registry :: node_registry where
  "demo_registry = [''trigger'' \<mapsto> demo_node_definition ''trigger'' NC_trigger 0,
                    ''action'' \<mapsto> demo_node_definition ''action'' NC_action 1]"

definition demo_options :: validate_options where
  "demo_options = \<lparr> vo_grantedPermissions = Some {}, vo_enabledModules = Some {}, vo_selfWorkflowId = None \<rparr>"

lemma demo_wf_valid: "vr_valid (validateWorkflowGraph num_str demo_wf demo_registry demo_options)"
  by (simp add: validateWorkflowGraph_def demo_wf_def demo_registry_def demo_node_definition_def
      demo_options_def index_nodes_def add_node_def check_node_def validateNodeConfig_def
      lacks_permission_def missing_modules_def invokes_itself_def index_edges_def add_edge_def
      node_by_id_def validatePort_def source_port_findings_def target_port_findings_def
      triggers_of_def rule_errors_def input_findings_def wait_findings_def delay_findings_def
      safeguard_findings_def edges_into_def edges_from_def hasCycle_def visit.simps(2)
      maxNodes_def maxEdges_def Let_def)

theorem validated_never_stuck_witness:
  "vr_valid (validateWorkflowGraph (\<lambda>_. ''1'') demo_wf demo_registry demo_options) \<and>
   status_of (demo_run NR_succeeded [''out''] NR_succeeded) ''a'' \<in> {NR_succeeded, NR_failed, NR_skipped}"
proof -
  let ?st = "demo_run NR_succeeded [''out''] NR_succeeded"
  have "pv_quiescent (planExecution demo_wf ?st demo_lookup)" "pv_dead (planExecution demo_wf ?st demo_lookup) = []"
    by (simp_all add: demo_wf_simps Let_def)
  from validated_never_stuck [OF demo_wf_valid this] demo_wf_valid show ?thesis
    by (simp add: demo_wf_def)
qed

end
