(* ===== verification/Wf_Simulator.thy ===== *)
theory Wf_Simulator
  imports Wf_Validator
begin

text \<open>
  The dry run of a workflow: \<^verbatim>\<open>workflows/domain/workflow-simulator.ts\<close> with the condition
  evaluator (\<^verbatim>\<open>condition-eval.ts\<close>) and the template renderer (\<^verbatim>\<open>template.ts\<close>).
  A JavaScript exception of the run is the left value of its result. Objects have own
  properties only; the text of a step (detail, warnings) is left out. \<open>num_str\<close> prints a
  number and \<open>rt\<close> is \<^verbatim>\<open>new RegExp(pattern, 'i').test(text)\<close>, with \<open>None\<close> for
  a pattern that does not compile.

  The lemmas show that the order of the run is topological on an acyclic graph, and that the dry
  run reaches exactly the nodes which the executor's planner would dispatch.
\<close>

section \<open>Conditions\<close>

type_synonym regex_test = "string \<Rightarrow> string \<Rightarrow> bool option"

definition applyOperator ::
  "(rat \<Rightarrow> string) \<Rightarrow> regex_test \<Rightarrow> jsval \<Rightarrow> jsval \<Rightarrow> jsval \<Rightarrow> bool" where
  "applyOperator num_str rt op actual v =
     (let num = js_number num_str; str = js_string num_str in
      if op = JStr ''eq'' then strict_eq actual v
      else if op = JStr ''neq'' then \<not> strict_eq actual v
      else if op = JStr ''gt'' then jn_less (num v) (num actual)
      else if op = JStr ''gte'' then jn_le (num v) (num actual)
      else if op = JStr ''lt'' then jn_less (num actual) (num v)
      else if op = JStr ''lte'' then jn_le (num actual) (num v)
      else if op = JStr ''contains'' then includes_str (str actual) (str v)
      else if op = JStr ''matches'' then rt (str v) (str actual) = Some True
      else False)"

text \<open>The property of an object or array: an array has its indices and \<^verbatim>\<open>length\<close>.\<close>

definition array_prop :: "jsval list \<Rightarrow> string \<Rightarrow> jsval" where
  "array_prop vs key =
     (if key = ''length'' then JNum (of_nat (length vs))
      else if key \<noteq> [] \<and> list_all is_digit key \<and> nat_digits (digits_val key) = key \<and> digits_val key < length vs
        then vs ! digits_val key
      else JUndef)"

fun js_prop :: "jsval \<Rightarrow> string \<Rightarrow> jsval option" where
  "js_prop (JObj ps) key = Some (get_prop ps key)"
| "js_prop (JArr vs) key = Some (array_prop vs key)"
| "js_prop _ key = None"

fun resolve_keys :: "jsval \<Rightarrow> string list \<Rightarrow> jsval" where
  "resolve_keys cur [] = cur"
| "resolve_keys cur (key # keys) =
     (case js_prop cur key of None \<Rightarrow> JUndef | Some v \<Rightarrow> resolve_keys v keys)"

definition resolvePath :: "jsval \<Rightarrow> string \<Rightarrow> jsval" where
  "resolvePath context path = (if path = [] then JUndef else resolve_keys context (split_on CHR ''.'' path))"

record workflow_condition =
  cd_field :: string
  cd_op :: jsval
  cd_value :: jsval

definition evaluateCondition ::
  "(rat \<Rightarrow> string) \<Rightarrow> regex_test \<Rightarrow> workflow_condition \<Rightarrow> jsval \<Rightarrow> bool" where
  "evaluateCondition num_str rt cond context =
     applyOperator num_str rt (cd_op cond) (resolvePath context (cd_field cond)) (cd_value cond)"


section \<open>Templates\<close>

definition is_path_char :: "char \<Rightarrow> bool" where
  "is_path_char c \<longleftrightarrow> is_digit c \<or> c = CHR ''_'' \<or> c = CHR ''.'' \<or>
     (65 \<le> (of_char c :: nat) \<and> of_char c \<le> (90 :: nat)) \<or> (97 \<le> (of_char c :: nat) \<and> of_char c \<le> (122 :: nat))"

text \<open>A match of the placeholder pattern at the start of the string: its path and the rest.\<close>

definition match_placeholder :: "string \<Rightarrow> (string \<times> string) option" where
  "match_placeholder s =
     (if take 2 s \<noteq> ''{{'' then None
      else
        (let body = dropWhile is_ws (drop 2 s); path = takeWhile is_path_char body;
             rest = dropWhile is_ws (dropWhile is_path_char body)
         in if path = [] \<or> take 2 rest \<noteq> ''}}'' then None else Some (path, drop 2 rest)))"

lemma match_placeholder_shorter:
  assumes "match_placeholder s = Some (path, rest)"
  shows "length rest < length s"
proof -
  have s: "take 2 s = ''{{''" using assms by (simp add: match_placeholder_def split: if_splits)
  let ?body = "dropWhile is_ws (drop 2 s)"
  have "rest = drop 2 (dropWhile is_ws (dropWhile is_path_char ?body))"
    using assms by (auto simp: match_placeholder_def Let_def split: if_splits)
  then have "length rest \<le> length (dropWhile is_ws (dropWhile is_path_char ?body))" by simp
  also have "\<dots> \<le> length (drop 2 s)"
    by (meson length_dropWhile_le le_trans)
  also have "\<dots> < length s" using s by (cases s) auto
  finally show ?thesis .
qed

function render_string :: "(string \<Rightarrow> string) \<Rightarrow> string \<Rightarrow> string" where
  "render_string subst s =
     (case s of
        [] \<Rightarrow> []
      | c # cs \<Rightarrow>
          (case match_placeholder s of
             Some (path, rest) \<Rightarrow> subst path @ render_string subst rest
           | None \<Rightarrow> c # render_string subst cs))"
  by pat_completeness auto
termination
  by (relation "measure (\<lambda>(subst, s). length s)") (auto dest: match_placeholder_shorter)

definition substitute :: "(rat \<Rightarrow> string) \<Rightarrow> jsval \<Rightarrow> string \<Rightarrow> string" where
  "substitute num_str ctx path =
     (let resolved = resolvePath ctx path in if nullish resolved then [] else js_string num_str resolved)"

fun renderValue :: "(rat \<Rightarrow> string) \<Rightarrow> jsval \<Rightarrow> jsval \<Rightarrow> jsval" where
  "renderValue num_str (JStr s) ctx = JStr (render_string (substitute num_str ctx) s)"
| "renderValue num_str v ctx = v"

definition renderConfig ::
  "(rat \<Rightarrow> string) \<Rightarrow> (string \<times> jsval) list \<Rightarrow> jsval \<Rightarrow> (string \<times> jsval) list" where
  "renderConfig num_str config ctx = map (\<lambda>(k, v). (k, renderValue num_str v ctx)) config"


section \<open>Topological order\<close>

text \<open>\<open>relax\<close>: the loop over the outgoing edges; the pushed targets in order.\<close>

fun relax :: "workflow_edge list \<Rightarrow> (string \<rightharpoonup> int) \<Rightarrow> (string \<rightharpoonup> int) \<times> string list" where
  "relax [] indeg = (indeg, [])"
| "relax (e # es) indeg =
     (let t = we_targetNodeId e;
          d = (case indeg t of None \<Rightarrow> 1 | Some d \<Rightarrow> d) - 1;
          (indeg', pushed) = relax es (indeg(t \<mapsto> d))
      in (indeg', if d \<le> 0 then t # pushed else pushed))"

lemma relax_pushed: "set (snd (relax es indeg)) \<subseteq> we_targetNodeId ` set es"
proof (induction es arbitrary: indeg)
  case (Cons e es)
  show ?case using Cons.IH [of "indeg(we_targetNodeId e \<mapsto>
      (case indeg (we_targetNodeId e) of None \<Rightarrow> 1 | Some d \<Rightarrow> d) - 1)"]
    by (auto simp: Let_def split_beta simp del: fun_upd_apply)
qed simp

function kahn ::
  "workflow_edge list \<Rightarrow> string list \<Rightarrow> (string \<rightharpoonup> int) \<Rightarrow> string list \<Rightarrow> string list" where
  "kahn es [] indeg order = order"
| "kahn es (v # queue) indeg order =
     (if v \<in> set order then kahn es queue indeg order
      else kahn es (queue @ snd (relax (edges_from es v) indeg)) (fst (relax (edges_from es v) indeg))
             (order @ [v]))"
  by pat_completeness auto

termination
proof (relation "measures [\<lambda>(es, queue, indeg, order). card ((set queue \<union> we_targetNodeId ` set es) - set order),
    \<lambda>(es, queue, indeg, order). length queue]", goal_cases)
  case (2 es v queue indeg order)
  have "card ((set queue \<union> we_targetNodeId ` set es) - set order)
        \<le> card ((set (v # queue) \<union> we_targetNodeId ` set es) - set order)"
    by (rule card_mono) auto
  then show ?case by auto
next
  case (3 es v queue indeg order)
  have "set (snd (relax (edges_from es v) indeg)) \<subseteq> we_targetNodeId ` set es"
    using relax_pushed targets_from by (rule order_trans)
  then have "card ((set (queue @ snd (relax (edges_from es v) indeg)) \<union> we_targetNodeId ` set es)
               - set (order @ [v]))
        < card ((set (v # queue) \<union> we_targetNodeId ` set es) - set order)"
    using 3 by (intro psubset_card_mono) auto
  then show ?case by simp
qed simp

definition initial_indegree :: "workflow_graph \<Rightarrow> string \<rightharpoonup> int" where
  "initial_indegree g =
     map_of (map (\<lambda>n. (wn_id n, int (length (edges_into (wg_edges g) (wn_id n))))) (wg_nodes g))"

definition topoOrder :: "workflow_graph \<Rightarrow> string list" where
  "topoOrder g =
     (let indeg = initial_indegree g;
          queue = map wn_id (filter (\<lambda>n. (case indeg (wn_id n) of None \<Rightarrow> 0 | Some d \<Rightarrow> d) = 0) (wg_nodes g));
          order = kahn (wg_edges g) queue indeg []
      in order @ map wn_id (filter (\<lambda>n. wn_id n \<notin> set order) (wg_nodes g)))"


section \<open>The dry run\<close>

datatype sim_outcome =
  SO_executed | SO_evaluated | SO_waited | SO_requested_approval | SO_variable_set | SO_ended
| SO_subworkflow

record simulation_step =
  st_nodeId :: string
  st_nodeType :: string
  st_category :: "node_category option"
  st_outcome :: sim_outcome
  st_chosenPorts :: "jsval list"
  st_renderedConfig :: "(string \<times> jsval) list option"

record would_execute =
  wx_nodeId :: string
  wx_actionId :: string
  wx_input :: "(string \<times> jsval) list"

record simulation_result =
  sr_steps :: "simulation_step list"
  sr_variables :: "(string \<times> jsval) list"
  sr_wouldExecute :: "would_execute list"
  sr_reachedNodeIds :: "string list"
  sr_truncated :: bool

record sim_env =
  se_num_str :: "rat \<Rightarrow> string"
  se_rt :: regex_test
  se_registry :: node_registry
  se_trigger :: "(string \<times> jsval) list"

text \<open>The running state: the result so far and the fired ports of every reached node.\<close>

record sim_state =
  ss_result :: simulation_result
  ss_activePorts :: "string \<rightharpoonup> jsval list"

text \<open>\<open>coalesce\<close> is the operator \<^verbatim>\<open>??\<close>; \<open>prop_of\<close> is \<^verbatim>\<open>v?.key\<close> for a key that no primitive has.\<close>

definition coalesce :: "jsval \<Rightarrow> jsval \<Rightarrow> jsval" where
  "coalesce a b = (if nullish a then b else a)"

definition prop_of :: "jsval \<Rightarrow> string \<Rightarrow> jsval" where
  "prop_of v key = (case js_prop v key of None \<Rightarrow> JUndef | Some x \<Rightarrow> x)"

definition evalContext :: "sim_env \<Rightarrow> sim_state \<Rightarrow> jsval" where
  "evalContext env st =
     JObj ([(''trigger'', JObj (se_trigger env)), (''vars'', JObj (sr_variables (ss_result st)))]
           @ se_trigger env)"

definition type_error :: string where "type_error = ''TypeError''"

text \<open>A condition on a field that is not a string calls a missing \<^verbatim>\<open>split\<close>.\<close>

definition condition_holds :: "sim_env \<Rightarrow> jsval \<Rightarrow> jsval \<Rightarrow> jsval \<Rightarrow> jsval \<Rightarrow> string + bool" where
  "condition_holds env fld op v ctx =
     (case fld of
        JStr f \<Rightarrow> Inr (evaluateCondition (se_num_str env) (se_rt env)
                       \<lparr> cd_field = f, cd_op = op, cd_value = v \<rparr> ctx)
      | _ \<Rightarrow> Inl type_error)"

definition readCondition :: "workflow_node \<Rightarrow> (jsval \<times> jsval \<times> jsval) option" where
  "readCondition node =
     (let c = config_value node; cond = c ''condition'';
          fld = coalesce (c ''field'') (prop_of cond ''field'');
          op = coalesce (coalesce (c ''operator'') (c ''op'')) (prop_of cond ''op'')
      in if \<not> truthy fld \<or> \<not> truthy op then None
         else Some (fld, op, coalesce (c ''value'') (prop_of cond ''value'')))"

fun first_branch :: "sim_env \<Rightarrow> jsval \<Rightarrow> jsval \<Rightarrow> jsval list \<Rightarrow> string + jsval" where
  "first_branch env ctx fallback [] = Inr fallback"
| "first_branch env ctx fallback (b # bs) =
     (if nullish b then Inl type_error
      else if truthy (prop_of b ''field'') \<and> truthy (prop_of b ''operator'')
        then (case condition_holds env (prop_of b ''field'') (prop_of b ''operator'') (prop_of b ''value'') ctx of
                Inl x \<Rightarrow> Inl x
              | Inr True \<Rightarrow> Inr (prop_of b ''port'')
              | Inr False \<Rightarrow> first_branch env ctx fallback bs)
      else first_branch env ctx fallback bs)"

definition chooseBranch :: "sim_env \<Rightarrow> workflow_node \<Rightarrow> jsval \<Rightarrow> string list \<Rightarrow> string + jsval" where
  "chooseBranch env node ctx outs =
     (let fallback = JStr (if ''default'' \<in> set outs \<or> outs = [] then ''default'' else hd outs)
      in case coalesce (config_value node ''branches'') (JArr []) of
           JArr bs \<Rightarrow> first_branch env ctx fallback bs
         | JStr _ \<Rightarrow> Inr fallback
         | _ \<Rightarrow> Inl type_error)"

definition edge_followed :: "sim_state \<Rightarrow> workflow_edge \<Rightarrow> bool" where
  "edge_followed st e \<longleftrightarrow>
     (case ss_activePorts st (we_sourceNodeId e) of
        None \<Rightarrow> False
      | Some ps \<Rightarrow> JStr (case we_sourcePort e of None \<Rightarrow> ''out'' | Some p \<Rightarrow> p) \<in> set ps) \<and>
     we_sourceNodeId e \<in> set (sr_reachedNodeIds (ss_result st))"

definition is_reached :: "node_registry \<Rightarrow> workflow_edge list \<Rightarrow> sim_state \<Rightarrow> workflow_node \<Rightarrow> bool" where
  "is_reached registry es st node =
     (let cat = map_option nd_category (registry (wn_type node));
          ins = edges_into es (wn_id node);
          followed = filter (edge_followed st) ins
      in if cat = Some NC_trigger then True
         else if ins = [] then False
         else if cat = Some NC_join then length followed = length ins
         else length followed > 0)"

text \<open>What the switch on the category does: ports, outcome, new variables and rendered input.\<close>

record node_effect =
  ne_outcome :: sim_outcome
  ne_fired :: "jsval list"
  ne_variable :: "(string \<times> jsval) option"
  ne_input :: "(string \<times> jsval) list option"

definition effect :: "sim_outcome \<Rightarrow> jsval list \<Rightarrow> node_effect" where
  "effect oc fired = \<lparr> ne_outcome = oc, ne_fired = fired, ne_variable = None, ne_input = None \<rparr>"

definition set_list :: "'a list \<Rightarrow> 'a list" where
  "set_list xs = rev (fold (\<lambda>x acc. if x \<in> set acc then acc else x # acc) xs [])"

definition node_switch :: "sim_env \<Rightarrow> sim_state \<Rightarrow> workflow_node \<Rightarrow> string + node_effect" where
  "node_switch env st node =
     (let d = se_registry env (wn_type node);
          outs = (case d of None \<Rightarrow> [''out''] | Some x \<Rightarrow> np_outputs (nd_ports x));
          ctx = evalContext env st
      in case map_option nd_category d of
           Some NC_trigger \<Rightarrow> Inr (effect SO_executed [JStr ''out''])
         | Some NC_condition \<Rightarrow>
             (case readCondition node of
                None \<Rightarrow> Inr (effect SO_evaluated [JStr ''true''])
              | Some (fld, op, v) \<Rightarrow>
                  map_sum id (\<lambda>b. effect SO_evaluated [JStr (if b then ''true'' else ''false'')])
                    (condition_holds env fld op v ctx))
         | Some NC_branch \<Rightarrow>
             map_sum id (\<lambda>p. effect SO_evaluated [p]) (chooseBranch env node ctx outs)
         | Some NC_action \<Rightarrow>
             Inr (effect SO_executed [JStr ''out''] \<lparr> ne_input :=
               Some (renderConfig (se_num_str env) (case wn_config node of None \<Rightarrow> [] | Some c \<Rightarrow> c) ctx) \<rparr>)
         | Some NC_delay \<Rightarrow> Inr (effect SO_waited [JStr ''out''])
         | Some NC_wait \<Rightarrow> Inr (effect SO_waited [JStr ''completed''])
         | Some NC_approval \<Rightarrow> Inr (effect SO_requested_approval [JStr ''approved''])
         | Some NC_variable \<Rightarrow>
             (let key = js_string (se_num_str env) (coalesce (config_value node ''key'') (JStr []))
              in Inr (effect SO_variable_set [JStr ''out''] \<lparr> ne_variable :=
                   (if key = [] then None
                    else Some (key, renderValue (se_num_str env) (config_value node ''value'') ctx)) \<rparr>))
         | Some NC_subworkflow \<Rightarrow> Inr (effect SO_subworkflow [JStr ''out''])
         | Some NC_end \<Rightarrow> Inr (effect SO_ended [])
         | _ \<Rightarrow> Inr (effect SO_executed (set_list (map JStr outs))))"

definition valid_fired :: "sim_env \<Rightarrow> workflow_node \<Rightarrow> jsval list \<Rightarrow> jsval list" where
  "valid_fired env node fired =
     (let d = se_registry env (wn_type node);
          outs = (case d of None \<Rightarrow> [''out''] | Some x \<Rightarrow> np_outputs (nd_ports x));
          dyn = (case d of None \<Rightarrow> False | Some x \<Rightarrow> np_dynamicOutputs (nd_ports x))
      in filter (\<lambda>p. p \<in> JStr ` set outs \<or> dyn) fired)"

definition record_step :: "sim_env \<Rightarrow> workflow_node \<Rightarrow> node_effect \<Rightarrow> sim_state \<Rightarrow> sim_state" where
  "record_step env node ne st =
     (let d = se_registry env (wn_type node); ports = valid_fired env node (ne_fired ne);
          step = \<lparr> st_nodeId = wn_id node, st_nodeType = wn_type node,
                   st_category = map_option nd_category d, st_outcome = ne_outcome ne,
                   st_chosenPorts = ports, st_renderedConfig = ne_input ne \<rparr>;
          r = ss_result st;
          would = (case (ne_input ne, d) of
                     (Some i, Some x) \<Rightarrow>
                       (case nd_actionId x of
                          None \<Rightarrow> []
                        | Some a \<Rightarrow> if a = [] then []
                                   else [\<lparr> wx_nodeId = wn_id node, wx_actionId = a, wx_input = i \<rparr>])
                   | _ \<Rightarrow> [])
      in \<lparr> ss_result =
             \<lparr> sr_steps = sr_steps r @ [step],
               sr_variables = (case ne_variable ne of None \<Rightarrow> sr_variables r
                               | Some (k, v) \<Rightarrow> AList.update k v (sr_variables r)),
               sr_wouldExecute = sr_wouldExecute r @ would,
               sr_reachedNodeIds = (if wn_id node \<in> set (sr_reachedNodeIds r) then sr_reachedNodeIds r
                                    else sr_reachedNodeIds r @ [wn_id node]),
               sr_truncated = sr_truncated r \<rparr>,
           ss_activePorts = (ss_activePorts st)(wn_id node \<mapsto> ports) \<rparr>)"

definition sim_node_by_id :: "workflow_graph \<Rightarrow> string \<Rightarrow> workflow_node option" where
  "sim_node_by_id g v = find (\<lambda>n. wn_id n = v) (rev (wg_nodes g))"

fun sim_loop :: "sim_env \<Rightarrow> workflow_graph \<Rightarrow> string list \<Rightarrow> sim_state \<Rightarrow> string + sim_state" where
  "sim_loop env g [] st = Inr st"
| "sim_loop env g (v # vs) st =
     (if length (sr_steps (ss_result st)) > length (wg_nodes g) + 1
      then Inr (st \<lparr> ss_result := (ss_result st) \<lparr> sr_truncated := True \<rparr> \<rparr>)
      else
        (case sim_node_by_id g v of
           None \<Rightarrow> sim_loop env g vs st
         | Some node \<Rightarrow>
             if \<not> is_reached (se_registry env) (wg_edges g) st node then sim_loop env g vs st
             else (case node_switch env st node of
                     Inl x \<Rightarrow> Inl x
                   | Inr ne \<Rightarrow> sim_loop env g vs (record_step env node ne st))))"

definition simulateWorkflow ::
  "sim_env \<Rightarrow> workflow_graph \<Rightarrow> (string \<times> jsval) list \<Rightarrow> string + simulation_result" where
  "simulateWorkflow env g vars =
     map_sum id ss_result
       (sim_loop env g (topoOrder g)
          \<lparr> ss_result = \<lparr> sr_steps = [], sr_variables = vars, sr_wouldExecute = [],
                          sr_reachedNodeIds = [], sr_truncated = False \<rparr>,
            ss_activePorts = Map.empty \<rparr>)"


section \<open>The order is topological\<close>

definition edges_to :: "workflow_edge list \<Rightarrow> string \<Rightarrow> nat" where
  "edges_to es t = length (filter (\<lambda>e. we_targetNodeId e = t) es)"

definition degree :: "(string \<rightharpoonup> int) \<Rightarrow> string \<Rightarrow> int" where
  "degree indeg t = (case indeg t of None \<Rightarrow> 1 | Some d \<Rightarrow> d)"

lemma relax_effect:
  assumes "\<And>t. 0 < edges_to es t \<Longrightarrow> int (edges_to es t) \<le> degree indeg t"
  shows "fst (relax es indeg) t =
           (if edges_to es t = 0 then indeg t else Some (degree indeg t - int (edges_to es t))) \<and>
         (t \<in> set (snd (relax es indeg)) \<longleftrightarrow> 0 < edges_to es t \<and> degree indeg t = int (edges_to es t))"
  using assms
proof (induction es arbitrary: indeg)
  case (Cons e es)
  let ?t = "we_targetNodeId e"
  define i where "i = indeg(?t \<mapsto> degree indeg ?t - 1)"
  have to: "edges_to (e # es) u = (if u = ?t then Suc (edges_to es u) else edges_to es u)" for u
    by (auto simp: edges_to_def)
  have deg: "degree i u = (if u = ?t then degree indeg u - 1 else degree indeg u)" for u
    by (simp add: degree_def i_def)
  have at_t: "i ?t = Some (degree indeg ?t - 1)" and elsewhere: "u \<noteq> ?t \<Longrightarrow> i u = indeg u" for u
    by (simp_all add: i_def)
  have le: "int (edges_to es u) \<le> degree i u" if "0 < edges_to es u" for u
    using Cons.prems [of u] that unfolding to deg by (auto split: if_splits)
  have unfold: "relax (e # es) indeg = (fst (relax es i),
      if degree indeg ?t - 1 \<le> 0 then ?t # snd (relax es i) else snd (relax es i))"
    by (simp add: Let_def degree_def split_beta i_def)
  show ?case
  proof (cases "t = ?t")
    case True
    have "int (Suc (edges_to es t)) \<le> degree indeg t" using Cons.prems [of t] True by (simp add: to)
    then show ?thesis using Cons.IH [OF le] True at_t unfolding unfold fst_conv snd_conv to deg by auto
  next
    case False
    then show ?thesis using Cons.IH [OF le] elsewhere [OF False] unfolding unfold fst_conv snd_conv to deg by auto
  qed
qed (simp add: edges_to_def)

lemmas relax_spec = relax_effect [THEN conjunct1] relax_effect [THEN conjunct2]

definition open_in :: "workflow_edge list \<Rightarrow> string list \<Rightarrow> string \<Rightarrow> nat" where
  "open_in es order v = length (filter (\<lambda>e. we_sourceNodeId e \<notin> set order) (edges_into es v))"

lemma open_in_snoc:
  assumes "v \<notin> set order"
  shows "open_in es order t = open_in es (order @ [v]) t + edges_to (edges_from es v) t"
  using assms by (induction es) (auto simp: open_in_def edges_to_def edges_into_def edges_from_def)

lemma open_in_0: "open_in es order v = 0 \<longleftrightarrow> (\<forall>e\<in>set (edges_into es v). we_sourceNodeId e \<in> set order)"
  by (auto simp: open_in_def filter_empty_conv)

definition orders_edges :: "workflow_edge list \<Rightarrow> string list \<Rightarrow> bool" where
  "orders_edges es order \<longleftrightarrow>
     (\<forall>xs v ys. order = xs @ v # ys \<longrightarrow> we_sourceNodeId ` set (edges_into es v) \<subseteq> set xs)"

lemma orders_edges_snoc:
  assumes "orders_edges es order" and "open_in es order v = 0"
  shows "orders_edges es (order @ [v])"
  unfolding orders_edges_def
proof (intro allI impI)
  fix xs w ys assume split: "order @ [v] = xs @ w # ys"
  show "we_sourceNodeId ` set (edges_into es w) \<subseteq> set xs"
  proof (cases ys rule: rev_cases)
    case Nil
    then show ?thesis using split assms(2) by (auto simp: open_in_0)
  next
    case (snoc zs z)
    then show ?thesis using split assms(1) by (auto simp: orders_edges_def)
  qed
qed

record kahn_state =
  ks_queue :: "string list"
  ks_indeg :: "string \<rightharpoonup> int"
  ks_order :: "string list"

definition kahn_inv :: "workflow_edge list \<Rightarrow> string set \<Rightarrow> kahn_state \<Rightarrow> bool" where
  "kahn_inv es ids s \<longleftrightarrow>
     (\<forall>v\<in>ids. ks_indeg s v = Some (int (open_in es (ks_order s) v))) \<and>
     set (ks_queue s) \<union> set (ks_order s) \<subseteq> ids \<and>
     (\<forall>v\<in>set (ks_queue s). open_in es (ks_order s) v = 0) \<and>
     (\<forall>v\<in>ids. open_in es (ks_order s) v = 0 \<longrightarrow> v \<in> set (ks_queue s) \<union> set (ks_order s)) \<and>
     distinct (ks_order s) \<and> orders_edges es (ks_order s)"

lemma kahn_inv_step:
  assumes inv: "kahn_inv es ids \<lparr> ks_queue = v # queue, ks_indeg = indeg, ks_order = order \<rparr>"
    and v: "v \<notin> set order" and ends: "\<forall>e\<in>set es. we_targetNodeId e \<in> ids"
  shows "kahn_inv es ids \<lparr> ks_queue = queue @ snd (relax (edges_from es v) indeg),
           ks_indeg = fst (relax (edges_from es v) indeg), ks_order = order @ [v] \<rparr>"
proof -
  let ?L = "edges_from es v" and ?o = "open_in es order" and ?o' = "open_in es (order @ [v])"
  have known: "t \<in> ids" if "0 < edges_to ?L t" for t
    using that ends by (auto simp: edges_to_def edges_from_def filter_empty_conv)
  have deg: "degree indeg t = int (?o t)" if "t \<in> ids" for t
    using inv that by (simp add: kahn_inv_def degree_def)
  have split: "?o t = ?o' t + edges_to ?L t" for t using v by (rule open_in_snoc)
  have le: "int (edges_to ?L t) \<le> degree indeg t" if "0 < edges_to ?L t" for t
    using deg [OF known [OF that]] split [of t] by simp
  note rel = relax_spec [OF le]
  have pushed: "t \<in> set (snd (relax ?L indeg)) \<longleftrightarrow> 0 < edges_to ?L t \<and> ?o' t = 0" for t
  proof (cases "0 < edges_to ?L t")
    case True
    then show ?thesis using rel(2) [of t] deg [OF known] split [of t] by auto
  next
    case False
    then show ?thesis using rel(2) [of t] by simp
  qed
  have "fst (relax ?L indeg) t = Some (int (?o' t))" if "t \<in> ids" for t
    using that inv rel(1) [of t] deg [OF that] split [of t] by (auto simp: kahn_inv_def)
  moreover have "set (queue @ snd (relax ?L indeg)) \<union> set (order @ [v]) \<subseteq> ids"
    using inv pushed known by (auto simp: kahn_inv_def)
  moreover have "\<forall>t\<in>set (queue @ snd (relax ?L indeg)). ?o' t = 0"
    using inv pushed split by (auto simp: kahn_inv_def)
  moreover have "t \<in> set (queue @ snd (relax ?L indeg)) \<union> set (order @ [v])" if "t \<in> ids" "?o' t = 0" for t
    using that inv pushed [of t] split [of t] by (cases "edges_to ?L t = 0") (auto simp: kahn_inv_def)
  moreover have "orders_edges es (order @ [v])"
    using inv by (intro orders_edges_snoc) (auto simp: kahn_inv_def)
  ultimately show ?thesis using inv v by (simp add: kahn_inv_def)
qed

lemma kahn_spec:
  assumes "kahn_inv es ids \<lparr> ks_queue = queue, ks_indeg = indeg, ks_order = order \<rparr>"
    and "\<forall>e\<in>set es. we_sourceNodeId e \<in> ids \<and> we_targetNodeId e \<in> ids" and "acyclic (edge_rel es)"
  shows "distinct (kahn es queue indeg order) \<and> set (kahn es queue indeg order) = ids \<and>
         orders_edges es (kahn es queue indeg order)"
  using assms
proof (induction es queue indeg order rule: kahn.induct)
  case (1 es indeg order)
  have "ids - set order = {}"
  proof (rule ccontr)
    assume "ids - set order \<noteq> {}"
    moreover have "wf (edge_rel es)" using "1.prems"(3) by (intro finite_acyclic_wf) simp
    ultimately obtain v where v: "v \<in> ids - set order"
      and least: "\<And>u. (u, v) \<in> edge_rel es \<Longrightarrow> u \<notin> ids - set order"
      using wfE_min [of "edge_rel es" _ "ids - set order"] by blast
    then have "open_in es order v \<noteq> 0" using "1.prems"(1) by (auto simp: kahn_inv_def)
    then obtain e where "e \<in> set es" "we_targetNodeId e = v" "we_sourceNodeId e \<notin> set order"
      by (auto simp: open_in_0 edges_into_def)
    then show False using least [of "we_sourceNodeId e"] "1.prems"(2) by (auto simp: edge_rel_def)
  qed
  then show ?case using "1.prems"(1) by (auto simp: kahn_inv_def)
next
  case (2 es v queue indeg order)
  show ?case
  proof (cases "v \<in> set order")
    case True
    have "kahn_inv es ids \<lparr> ks_queue = queue, ks_indeg = indeg, ks_order = order \<rparr>"
      using "2.prems"(1) True by (auto simp: kahn_inv_def)
    then show ?thesis using "2.IH"(1) [OF True _ "2.prems"(2,3)] True by simp
  next
    case False
    have "kahn_inv es ids \<lparr> ks_queue = queue @ snd (relax (edges_from es v) indeg),
        ks_indeg = fst (relax (edges_from es v) indeg), ks_order = order @ [v] \<rparr>"
      using "2.prems"(1,2) False by (intro kahn_inv_step) auto
    then show ?thesis using "2.IH"(2) [OF False _ "2.prems"(2,3)] False by simp
  qed
qed

lemma topoOrder_spec:
  assumes "distinct (map wn_id (wg_nodes g))" and "acyclic (edge_rel (wg_edges g))"
    and "\<forall>e\<in>set (wg_edges g). we_sourceNodeId e \<in> wn_id ` set (wg_nodes g) \<and>
           we_targetNodeId e \<in> wn_id ` set (wg_nodes g)"
  shows "distinct (topoOrder g) \<and> set (topoOrder g) = wn_id ` set (wg_nodes g) \<and>
         orders_edges (wg_edges g) (topoOrder g)"
proof -
  let ?es = "wg_edges g" and ?ids = "wn_id ` set (wg_nodes g)" and ?indeg = "initial_indegree g"
  let ?queue = "map wn_id (filter (\<lambda>n. (case ?indeg (wn_id n) of None \<Rightarrow> 0 | Some d \<Rightarrow> d) = 0) (wg_nodes g))"
  have indeg: "?indeg (wn_id n) = Some (int (open_in ?es [] (wn_id n)))" if "n \<in> set (wg_nodes g)" for n
    using that assms(1) unfolding initial_indegree_def
    by (intro map_of_is_SomeI) (auto simp: comp_def open_in_def)
  have "kahn_inv ?es ?ids \<lparr> ks_queue = ?queue, ks_indeg = ?indeg, ks_order = [] \<rparr>"
    using indeg by (auto simp: kahn_inv_def orders_edges_def)
  from kahn_spec [OF this assms(3,2)] show ?thesis by (simp add: topoOrder_def Let_def)
qed


section \<open>The dry run and the executor agree\<close>

text \<open>
  The node states that a dry run stands for: a reached node succeeded and fired the ports of its
  step, every other node was skipped. \<open>lookup_of\<close> is the view of the registry that the
  executor hands to its planner.
\<close>

definition lookup_of :: "node_registry \<Rightarrow> planner_lookup" where
  "lookup_of registry =
     \<lparr> pl_isJoin = (\<lambda>ty. map_option nd_category (registry ty) = Some NC_join),
       pl_isTrigger = (\<lambda>ty. map_option nd_category (registry ty) = Some NC_trigger) \<rparr>"

definition step_ports :: "simulation_step list \<Rightarrow> string \<rightharpoonup> jsval list" where
  "step_ports steps = map_of (map (\<lambda>s. (st_nodeId s, st_chosenPorts s)) steps)"

definition states_of_run :: "simulation_result \<Rightarrow> run_states" where
  "states_of_run r v = Some
     (case step_ports (sr_steps r) v of
        None \<Rightarrow> \<lparr> nr_status = NR_skipped, nr_firedPorts = [] \<rparr>
      | Some ps \<Rightarrow> \<lparr> nr_status = NR_succeeded, nr_firedPorts = [p. JStr p \<leftarrow> ps] \<rparr>)"

text \<open>\<open>run_ok\<close>: what holds when the run has worked off the nodes \<open>xs\<close>.\<close>

definition run_ok :: "sim_env \<Rightarrow> workflow_graph \<Rightarrow> string list \<Rightarrow> sim_state \<Rightarrow> bool" where
  "run_ok env g xs st \<longleftrightarrow>
     (let r = ss_result st in
      sr_reachedNodeIds r = map st_nodeId (sr_steps r) \<and> distinct (sr_reachedNodeIds r) \<and>
      set (sr_reachedNodeIds r) \<subseteq> set xs \<and> ss_activePorts st = step_ports (sr_steps r) \<and>
      \<not> sr_truncated r \<and>
      (\<forall>n\<in>set (wg_nodes g). wn_id n \<in> set xs \<longrightarrow>
         (wn_id n \<in> set (sr_reachedNodeIds r) \<longleftrightarrow> is_reached (se_registry env) (wg_edges g) st n)))"

lemma run_okD:
  assumes "run_ok env g xs st"
  shows "sr_reachedNodeIds (ss_result st) = map st_nodeId (sr_steps (ss_result st))"
    and "distinct (sr_reachedNodeIds (ss_result st))"
    and "set (sr_reachedNodeIds (ss_result st)) \<subseteq> set xs"
    and "ss_activePorts st = step_ports (sr_steps (ss_result st))"
    and "\<not> sr_truncated (ss_result st)"
    and "n \<in> set (wg_nodes g) \<Longrightarrow> wn_id n \<in> set xs \<Longrightarrow>
         wn_id n \<in> set (sr_reachedNodeIds (ss_result st)) \<longleftrightarrow> is_reached (se_registry env) (wg_edges g) st n"
  using assms unfolding run_ok_def Let_def by blast+

lemma is_reached_cong:
  assumes "\<And>v. v \<in> we_sourceNodeId ` set (edges_into es (wn_id n)) \<Longrightarrow>
      ss_activePorts st v = ss_activePorts st' v \<and>
      (v \<in> set (sr_reachedNodeIds (ss_result st)) \<longleftrightarrow> v \<in> set (sr_reachedNodeIds (ss_result st')))"
  shows "is_reached registry es st n = is_reached registry es st' n"
proof -
  have "filter (edge_followed st) (edges_into es (wn_id n)) = filter (edge_followed st') (edges_into es (wn_id n))"
    using assms by (intro filter_cong) (auto simp: edge_followed_def)
  then show ?thesis by (simp add: is_reached_def)
qed

lemma step_ports_snoc:
  "st_nodeId s \<notin> st_nodeId ` set steps \<Longrightarrow>
   step_ports (steps @ [s]) = (step_ports steps)(st_nodeId s \<mapsto> st_chosenPorts s)"
  unfolding step_ports_def by (induction steps) (auto simp: fun_eq_iff)

lemma record_step_facts:
  assumes "wn_id n \<notin> set (sr_reachedNodeIds (ss_result st))"
  shows "sr_reachedNodeIds (ss_result (record_step env n ne st)) =
           sr_reachedNodeIds (ss_result st) @ [wn_id n]"
    and "map st_nodeId (sr_steps (ss_result (record_step env n ne st))) =
           map st_nodeId (sr_steps (ss_result st)) @ [wn_id n]"
    and "sr_truncated (ss_result (record_step env n ne st)) = sr_truncated (ss_result st)"
    and "ss_activePorts (record_step env n ne st) =
           (ss_activePorts st)(wn_id n \<mapsto> valid_fired env n (ne_fired ne))"
    and "wn_id n \<notin> st_nodeId ` set (sr_steps (ss_result st)) \<Longrightarrow>
         step_ports (sr_steps (ss_result (record_step env n ne st))) =
           (step_ports (sr_steps (ss_result st)))(wn_id n \<mapsto> valid_fired env n (ne_fired ne))"
  using assms by (simp_all add: record_step_def Let_def step_ports_snoc)

lemma run_ok_snoc:
  assumes ok: "run_ok env g xs st" and v: "v \<notin> set xs" and n: "n \<in> set (wg_nodes g)" "wn_id n = v"
    and ids: "distinct (map wn_id (wg_nodes g))"
    and order: "orders_edges (wg_edges g) (xs @ v # ys)"
    and st': "st' = (if is_reached (se_registry env) (wg_edges g) st n then record_step env n ne st else st)"
  shows "run_ok env g (xs @ [v]) st'"
proof -
  let ?R = "is_reached (se_registry env) (wg_edges g)"
  have new: "wn_id n \<notin> set (sr_reachedNodeIds (ss_result st))" using run_okD(3) [OF ok] v n(2) by blast
  have steps: "wn_id n \<notin> st_nodeId ` set (sr_steps (ss_result st))"
    using new run_okD(1) [OF ok] by simp
  note facts = record_step_facts(1-4) [OF new, of env ne] record_step_facts(5) [OF new steps, of env ne]
  have sources: "we_sourceNodeId ` set (edges_into (wg_edges g) w) \<subseteq> set xs" if w: "w \<in> set (xs @ [v])" for w
  proof (cases "w = v")
    case True
    then show ?thesis using order by (auto simp: orders_edges_def)
  next
    case False
    then obtain as bs where "xs = as @ w # bs" using w by (auto simp: in_set_conv_decomp)
    moreover from this have "we_sourceNodeId ` set (edges_into (wg_edges g) w) \<subseteq> set as"
      using order unfolding orders_edges_def by (metis append.assoc append_Cons)
    ultimately show ?thesis by auto
  qed
  have same: "?R st' m = ?R st m" if "wn_id m \<in> set (xs @ [v])" for m
  proof (rule is_reached_cong)
    fix u assume "u \<in> we_sourceNodeId ` set (edges_into (wg_edges g) (wn_id m))"
    then have "u \<noteq> wn_id n" using sources [OF that] v n(2) by auto
    then show "ss_activePorts st' u = ss_activePorts st u \<and>
        (u \<in> set (sr_reachedNodeIds (ss_result st')) \<longleftrightarrow> u \<in> set (sr_reachedNodeIds (ss_result st)))"
      using facts st' by simp
  qed
  have only: "m = n" if "m \<in> set (wg_nodes g)" "wn_id m = v" for m
    using that n ids by (auto simp: distinct_map dest: inj_onD)
  have reached: "wn_id m \<in> set (sr_reachedNodeIds (ss_result st')) \<longleftrightarrow> ?R st' m"
    if m: "m \<in> set (wg_nodes g)" "wn_id m \<in> set (xs @ [v])" for m
  proof (cases "wn_id m = v")
    case True
    then have "m = n" using only m(1) by blast
    then show ?thesis using same [OF m(2)] st' new facts(1) by auto
  next
    case False
    then have "wn_id m \<in> set (sr_reachedNodeIds (ss_result st)) \<longleftrightarrow> ?R st m"
      using m run_okD(6) [OF ok] by simp
    then show ?thesis using same [OF m(2)] st' facts(1) False n(2) by auto
  qed
  show ?thesis
  proof (cases "?R st n")
    case True
    then have st': "st' = record_step env n ne st" using st' by simp
    note old = run_okD [OF ok]
    have "sr_reachedNodeIds (ss_result st') = map st_nodeId (sr_steps (ss_result st'))"
      "distinct (sr_reachedNodeIds (ss_result st'))" "\<not> sr_truncated (ss_result st')"
      "ss_activePorts st' = step_ports (sr_steps (ss_result st'))"
      using facts old(1,2,4,5) new unfolding st' by simp_all
    moreover have "set (sr_reachedNodeIds (ss_result st')) \<subseteq> set (xs @ [v])"
      using facts(1) old(3) n(2) unfolding st' by auto
    ultimately show ?thesis using reached unfolding run_ok_def Let_def by blast
  next
    case False
    then have "st' = st" using st' by simp
    moreover have "set (sr_reachedNodeIds (ss_result st)) \<subseteq> set (xs @ [v])" using run_okD(3) [OF ok] by simp blast
    ultimately show ?thesis using reached run_okD(1,2,4,5) [OF ok] unfolding run_ok_def Let_def by blast
  qed
qed

lemma sim_loop_ok:
  assumes "run_ok env g xs st" and "distinct (xs @ ys)" and "orders_edges (wg_edges g) (xs @ ys)"
    and "set (xs @ ys) = wn_id ` set (wg_nodes g)" and "distinct (map wn_id (wg_nodes g))"
    and "sim_loop env g ys st = Inr final"
  shows "run_ok env g (xs @ ys) final"
  using assms
proof (induction ys arbitrary: xs st)
  case (Cons v ys)
  obtain n where n: "n \<in> set (wg_nodes g)" "wn_id n = v"
    using Cons.prems(4) [THEN equalityD1, THEN subsetD, of v] by auto
  have "sim_node_by_id g v = Some n"
    using node_by_id_iff [of "rev (wg_nodes g)" v n] n Cons.prems(5)
    by (simp add: sim_node_by_id_def node_by_id_def rev_map [symmetric])
  moreover have "length (sr_steps (ss_result st)) \<le> length (wg_nodes g)"
  proof -
    have "length (sr_steps (ss_result st)) = card (set (sr_reachedNodeIds (ss_result st)))"
      using run_okD(1,2) [OF Cons.prems(1)] by (metis distinct_card length_map)
    also have "\<dots> \<le> card (wn_id ` set (wg_nodes g))"
      unfolding Cons.prems(4) [symmetric] using run_okD(3) [OF Cons.prems(1)] by (intro card_mono) auto
    also have "\<dots> \<le> length (wg_nodes g)" by (metis card_length length_map set_map)
    finally show ?thesis .
  qed
  ultimately have step: "sim_loop env g (v # ys) st =
      (if \<not> is_reached (se_registry env) (wg_edges g) st n then sim_loop env g ys st
       else (case node_switch env st n of Inl x \<Rightarrow> Inl x
             | Inr ne \<Rightarrow> sim_loop env g ys (record_step env n ne st)))"
    by simp
  have fresh: "v \<notin> set xs" using Cons.prems(2) by simp
  obtain st' ne where loop: "sim_loop env g ys st' = Inr final" and
      "st' = (if is_reached (se_registry env) (wg_edges g) st n then record_step env n ne st else st)"
    using Cons.prems(6) unfolding step by (auto split: if_splits sum.splits)
  then have "run_ok env g (xs @ [v]) st'"
    using Cons.prems(1,3,5) fresh n by (intro run_ok_snoc [of env g xs st v n ys]) auto
  from Cons.IH [OF this _ _ _ Cons.prems(5) loop] Cons.prems(2-4) show ?case by simp
qed simp

lemma simulate_run_ok:
  assumes "publishable num_str g registry opts" and "se_registry env = registry"
    and "simulateWorkflow env g vars = Inr r"
  obtains st where "r = ss_result st" and "run_ok env g (topoOrder g) st"
    and "set (topoOrder g) = wn_id ` set (wg_nodes g)" and "orders_edges (wg_edges g) (topoOrder g)"
proof -
  have "\<forall>e\<in>set (wg_edges g). we_sourceNodeId e \<in> wn_id ` set (wg_nodes g) \<and>
      we_targetNodeId e \<in> wn_id ` set (wg_nodes g)"
    using assms(1) edge_legal_ends unfolding publishable_def by blast
  then have topo: "distinct (topoOrder g)" "set (topoOrder g) = wn_id ` set (wg_nodes g)"
      "orders_edges (wg_edges g) (topoOrder g)"
    using assms(1) topoOrder_spec [of g] by (auto simp: publishable_def)
  let ?st = "\<lparr> ss_result = \<lparr> sr_steps = [], sr_variables = vars, sr_wouldExecute = [],
      sr_reachedNodeIds = [], sr_truncated = False \<rparr>, ss_activePorts = Map.empty \<rparr>"
  obtain st where st: "sim_loop env g (topoOrder g) ?st = Inr st" "r = ss_result st"
    using assms(3) unfolding simulateWorkflow_def by (auto simp: map_sum_def split: sum.splits)
  have "run_ok env g [] ?st" by (simp add: run_ok_def step_ports_def)
  from sim_loop_ok [OF this, of "topoOrder g" st] have "run_ok env g (topoOrder g) st"
    using topo st(1) assms(1) by (simp add: publishable_def)
  then show ?thesis using that st(2) topo by blast
qed

lemma edge_followed_live:
  assumes "run_ok env g xs st" and "we_sourceNodeId e \<noteq> v"
  shows "edge_followed st e \<longleftrightarrow> edgeState ((states_of_run (ss_result st))(v := None)) e = Edge_live"
proof (cases "step_ports (sr_steps (ss_result st)) (we_sourceNodeId e)")
  case None
  then show ?thesis using assms(2) run_okD(4) [OF assms(1)]
    by (simp add: edge_followed_def edgeState_def states_of_run_def Let_def)
next
  case (Some ps)
  then have "we_sourceNodeId e \<in> set (sr_reachedNodeIds (ss_result st))"
    unfolding run_okD(1) [OF assms(1)] step_ports_def by (force dest: map_of_SomeD)
  then show ?thesis using Some assms(2) run_okD(4) [OF assms(1)]
    by (auto simp: edge_followed_def edgeState_def states_of_run_def Let_def split: jsval.splits)
qed

lemma is_reached_ready:
  assumes "run_ok env g xs st" and "wn_id n \<notin> we_sourceNodeId ` set (edges_into (wg_edges g) (wn_id n))"
  shows "is_reached (se_registry env) (wg_edges g) st n \<longleftrightarrow>
     plan_node (wg_edges g) ((states_of_run (ss_result st))(wn_id n := None)) (lookup_of (se_registry env)) n
       = Plan_ready"
proof -
  let ?ins = "edges_into (wg_edges g) (wn_id n)"
  let ?live = "\<lambda>e. edgeState ((states_of_run (ss_result st))(wn_id n := None)) e = Edge_live"
  have same: "edge_followed st e \<longleftrightarrow> ?live e" if "e \<in> set ?ins" for e
    using that assms(2) by (intro edge_followed_live [OF assms(1)]) (metis image_eqI)
  have all: "length (filter (edge_followed st) ?ins) = length ?ins \<longleftrightarrow> (\<forall>e\<in>set ?ins. ?live e)"
    using same length_filter_all [of "edge_followed st" ?ins] by blast
  have some: "0 < length (filter (edge_followed st) ?ins) \<longleftrightarrow> (\<exists>e\<in>set ?ins. ?live e)"
    using same by (auto simp: filter_empty_conv)
  have "status_of ((states_of_run (ss_result st))(wn_id n := None)) (wn_id n) = NR_pending"
    by (simp add: status_of_def)
  then show ?thesis unfolding is_reached_def Let_def all some plan_ready_iff
    by (simp add: lookup_of_def) blast
qed

text \<open>
  C17. The dry run predicts the real run. On a graph the publish gate accepts, a dry run that
  ends is never cut short, and it reaches a node exactly when the executor's planner would
  dispatch that node, given the ports which the other nodes of the dry run fired and with the
  unreached ones skipped.
\<close>

theorem simulation_predicts_dispatch:
  assumes "vr_valid (validateWorkflowGraph num_str g registry opts)"
    and "se_registry env = registry" and "simulateWorkflow env g vars = Inr r"
    and "n \<in> set (wg_nodes g)"
  shows "(wn_id n \<in> set (sr_reachedNodeIds r) \<longleftrightarrow>
          plan_node (wg_edges g) ((states_of_run r)(wn_id n := None)) (lookup_of registry) n = Plan_ready)
         \<and> \<not> sr_truncated r"
proof -
  have pub: "publishable num_str g registry opts" using assms(1) by (simp add: validate_publishable)
  obtain st where st: "r = ss_result st" "run_ok env g (topoOrder g) st"
      "set (topoOrder g) = wn_id ` set (wg_nodes g)" "orders_edges (wg_edges g) (topoOrder g)"
    using simulate_run_ok [OF pub assms(2,3)] .
  have "wn_id n \<notin> we_sourceNodeId ` set (edges_into (wg_edges g) (wn_id n))"
    using pub unfolding publishable_def edge_legal_def edges_into_def by fastforce
  from is_reached_ready [OF st(2) this] run_okD(6) [OF st(2) assms(4)] st(1,3) assms(2,4)
    run_okD(5) [OF st(2)]
  show ?thesis by simp
qed

definition demo_sim_env :: sim_env where
  "demo_sim_env = \<lparr> se_num_str = (\<lambda>q. int_digits \<lfloor>q\<rfloor>), se_rt = (\<lambda>p s. None),
     se_registry = demo_registry, se_trigger = [(''name'', JStr ''x'')] \<rparr>"

lemma demo_topoOrder: "topoOrder demo_wf = [''t'', ''a'']"
  by (simp add: topoOrder_def initial_indegree_def demo_wf_def edges_into_def edges_from_def Let_def)

lemma demo_simulation:
  "\<exists>r. simulateWorkflow demo_sim_env demo_wf [] = Inr r \<and> sr_reachedNodeIds r = [''t'', ''a'']"
  unfolding simulateWorkflow_def demo_topoOrder
  by (simp add: sim_node_by_id_def is_reached_def edge_followed_def node_switch_def record_step_def
      valid_fired_def effect_def demo_sim_env_def demo_registry_def demo_node_definition_def
      demo_wf_def edges_into_def Let_def)

theorem simulation_predicts_dispatch_witness:
  "\<exists>r. simulateWorkflow demo_sim_env demo_wf [] = Inr r \<and> \<not> sr_truncated r \<and>
     plan_node (wg_edges demo_wf) ((states_of_run r)(''a'' := None)) (lookup_of demo_registry)
       (wg_nodes demo_wf ! 1) = Plan_ready"
proof -
  obtain r where r: "simulateWorkflow demo_sim_env demo_wf [] = Inr r" "sr_reachedNodeIds r = [''t'', ''a'']"
    using demo_simulation by blast
  have reg: "se_registry demo_sim_env = demo_registry" by (simp add: demo_sim_env_def)
  have n: "wg_nodes demo_wf ! 1 \<in> set (wg_nodes demo_wf)" by (simp add: demo_wf_def)
  have id: "wn_id (wg_nodes demo_wf ! 1) = ''a''" by (simp add: demo_wf_def)
  note claim = simulation_predicts_dispatch [OF demo_wf_valid reg r(1) n]
  show ?thesis using claim r unfolding id by simp
qed

end
