(* ===== verification/Cleanup_Policy.thy ===== *)
theory Cleanup_Policy
  imports Wf_Simulator
begin

text \<open>
  What a cleanup policy says about a file of the media library: the domain of
  \<^verbatim>\<open>media/cleanup/domain\<close> (\<^verbatim>\<open>policy-document.ts\<close>, \<^verbatim>\<open>condition-catalog.ts\<close>,
  \<^verbatim>\<open>policy-evaluator.ts\<close>, \<^verbatim>\<open>condition-pushdown.ts\<close>, \<^verbatim>\<open>exclusion-rules.ts\<close>,
  \<^verbatim>\<open>fact-assembly.ts\<close>, \<^verbatim>\<open>playback-aggregate.ts\<close>, \<^verbatim>\<open>resolution-class.ts\<close>,
  \<^verbatim>\<open>candidate-fingerprint.ts\<close>). The facts about a file are an object of groups; a fact is
  a value or a date. Printing of numbers and dates, regular expressions, JSON and SHA-256 are
  parameters; the texts of traces are left out.

  The theorems show that the evaluator decides exactly when the facts that are missing do not matter,
  that a candidate passed every mandatory exclusion, and when the database filter derived from a policy
  loses no match.
\<close>

section \<open>Documents\<close>

datatype policy_node =
  Condition string string jsval bool
| All_of "policy_node list"
| Any_of "policy_node list"

record policy_exclusions =
  pe_allowSeeding :: "bool option"
  pe_addedWithinDays :: "rat option"
  pe_ambiguousIdentity :: "bool option"
  pe_requireMeasuredTechnical :: "bool option"
  pe_maxPlaybackAggregateAgeDays :: "rat option"
  pe_excludeIfProgressAbovePercent :: "rat option"

fun collectFieldIds :: "policy_node \<Rightarrow> string list" where
  "collectFieldIds (Condition f _ _ _) = [f]"
| "collectFieldIds (All_of cs) = remdups (concat (map collectFieldIds cs))"
| "collectFieldIds (Any_of cs) = remdups (concat (map collectFieldIds cs))"


section \<open>Catalogue\<close>

record condition_def =
  cc_id :: string
  cc_factPath :: string
  cc_requiresMeasuredData :: bool
  cc_enumValues :: "string list option"

definition cond :: "string \<Rightarrow> string \<Rightarrow> bool \<Rightarrow> string list option \<Rightarrow> condition_def" where
  "cond i p m e = \<lparr> cc_id = i, cc_factPath = p, cc_requiresMeasuredData = m, cc_enumValues = e \<rparr>"

definition CLEANUP_CONDITIONS :: "condition_def list" where
  "CLEANUP_CONDITIONS =
    [
     cond ''metadata.mediaKind'' ''metadata.mediaKind'' False (Some [''movie'', ''tv'', ''anime'', ''music_video'', ''documentary'', ''other_video'']),
     cond ''metadata.releaseYear'' ''metadata.releaseYear'' False None,
     cond ''metadata.releaseDate'' ''metadata.releaseDate'' False None,
     cond ''metadata.genre'' ''metadata.genres'' False None,
     cond ''metadata.certification'' ''metadata.certification'' False None,
     cond ''metadata.language'' ''metadata.language'' False None,
     cond ''metadata.runtimeMinutes'' ''metadata.runtimeMinutes'' False None,
     cond ''metadata.rating'' ''metadata.rating'' False None,
     cond ''metadata.matchStatus'' ''metadata.matchStatus'' False (Some [''unmatched'', ''matched'', ''manual'']),
     cond ''metadata.hasExternalId'' ''metadata.hasExternalId'' False None,
     cond ''metadata.metadataComplete'' ''metadata.metadataComplete'' False None,
     cond ''metadata.inCollection'' ''metadata.inCollection'' False None,
     cond ''metadata.onWatchlist'' ''metadata.onWatchlist'' False None,
     cond ''metadata.tag'' ''metadata.tags'' False None,
     cond ''playback.neverWatched'' ''playback.neverWatched'' False None,
     cond ''playback.completedPlayCount'' ''playback.completedPlayCount'' False None,
     cond ''playback.startedPlayCount'' ''playback.startedPlayCount'' False None,
     cond ''playback.uniqueViewerCount'' ''playback.uniqueViewerCount'' False None,
     cond ''playback.lastPlayedAt'' ''playback.lastPlayedAt'' False None,
     cond ''playback.daysSinceLastPlay'' ''playback.daysSinceLastPlay'' False None,
     cond ''playback.maximumProgressPercent'' ''playback.maximumProgressPercent'' False None,
     cond ''playback.averageProgressPercent'' ''playback.averageProgressPercent'' False None,
     cond ''playback.totalPlaybackSeconds'' ''playback.totalPlaybackSeconds'' False None,
     cond ''playback.watchedByNoUsers'' ''playback.watchedByNoUsers'' False None,
     cond ''playback.watchedByAllUsers'' ''playback.watchedByAllUsers'' False None,
     cond ''playback.traktWatched'' ''playback.traktWatched'' False None,
     cond ''technical.resolutionClass'' ''technical.resolutionOrdinal'' True (Some [''sd'', ''480p'', ''576p'', ''720p'', ''1080p'', ''1440p'', ''2160p'', ''4320p'']),
     cond ''technical.width'' ''technical.width'' True None,
     cond ''technical.height'' ''technical.height'' True None,
     cond ''technical.videoCodec'' ''technical.videoCodec'' True None,
     cond ''technical.videoBitDepth'' ''technical.videoBitDepth'' True None,
     cond ''technical.chromaSubsampling'' ''technical.chromaSubsampling'' True None,
     cond ''technical.hdrFormat'' ''technical.hdrFormat'' True None,
     cond ''technical.isHdr'' ''technical.isHdr'' True None,
     cond ''technical.audioCodec'' ''technical.audioCodec'' True None,
     cond ''technical.audioChannels'' ''technical.audioChannels'' True None,
     cond ''technical.bitrateKbps'' ''technical.bitrateKbps'' True None,
     cond ''technical.frameRate'' ''technical.frameRate'' True None,
     cond ''technical.container'' ''technical.container'' False None,
     cond ''technical.durationSec'' ''technical.durationSec'' True None,
     cond ''technical.techSource'' ''technical.techSource'' False (Some [''probe'', ''filename'', ''unknown'']),
     cond ''technical.probeFailed'' ''technical.probeFailed'' False None,
     cond ''storage.fileSizeBytes'' ''storage.fileSizeBytes'' False None,
     cond ''storage.fileModifiedAt'' ''storage.fileModifiedAt'' False None,
     cond ''storage.fileAgeDays'' ''storage.fileAgeDays'' False None,
     cond ''storage.addedAt'' ''storage.addedAt'' False None,
     cond ''storage.addedAgeDays'' ''storage.addedAgeDays'' False None,
     cond ''storage.totalTitleSizeBytes'' ''storage.totalTitleSizeBytes'' False None,
     cond ''storage.libraryFreePercent'' ''storage.libraryFreePercent'' False None,
     cond ''storage.isDuplicate'' ''storage.isDuplicate'' False None,
     cond ''storage.betterReplacementExists'' ''storage.betterReplacementExists'' False None,
     cond ''storage.torrentActive'' ''storage.torrentActive'' False None,
     cond ''storage.torrentSeeding'' ''storage.torrentSeeding'' False None,
     cond ''storage.torrentRatio'' ''storage.torrentRatio'' False None,
     cond ''safety.libraryId'' ''safety.libraryId'' False None,
     cond ''safety.libraryKind'' ''safety.libraryKind'' False (Some [''tv'', ''anime'', ''movie'', ''music'', ''audiobook'', ''general'']),
     cond ''safety.pathPrefix'' ''safety.path'' False None,
     cond ''safety.isLocked'' ''safety.isLocked'' False None,
     cond ''safety.isProtected'' ''safety.isProtected'' False None,
     cond ''safety.hasActiveJob'' ''safety.hasActiveJob'' False None,
     cond ''safety.activePlayback'' ''safety.activePlayback'' False None,
     cond ''safety.ambiguousIdentity'' ''safety.ambiguousIdentity'' False None,
     cond ''safety.pendingDuplicateResolution'' ''safety.pendingDuplicateResolution'' False None]"

definition getCondition :: "string \<Rightarrow> condition_def option" where
  "getCondition i = find (\<lambda>c. cc_id c = i) CLEANUP_CONDITIONS"

fun usesMeasured :: "policy_node \<Rightarrow> bool" where
  "usesMeasured (Condition f _ _ _) \<longleftrightarrow> (case getCondition f of None \<Rightarrow> False | Some c \<Rightarrow> cc_requiresMeasuredData c)"
| "usesMeasured (All_of cs) \<longleftrightarrow> list_ex usesMeasured cs"
| "usesMeasured (Any_of cs) \<longleftrightarrow> list_ex usesMeasured cs"


section \<open>Evaluation\<close>

datatype fact = FVal jsval | FDate time

type_synonym facts = "(string \<times> (string \<times> fact) list) list"

definition absent :: fact where "absent = FVal JUndef"

text \<open>The path of a catalogue entry is a group and a key.\<close>

definition fact_at :: "facts \<Rightarrow> string \<Rightarrow> fact" where
  "fact_at facts path =
     (case split_on (CHR ''.'') path of
        [g, k] \<Rightarrow> (case map_of facts g of
                    None \<Rightarrow> absent
                  | Some values \<Rightarrow> (case map_of values k of None \<Rightarrow> absent | Some v \<Rightarrow> v))
      | _ \<Rightarrow> absent)"

fun is_missing :: "fact \<Rightarrow> bool" where
  "is_missing (FVal v) \<longleftrightarrow> nullish v"
| "is_missing (FDate _) \<longleftrightarrow> False"

record policy_host =
  ph_num_str :: "rat \<Rightarrow> string"
  ph_date_str :: "time \<Rightarrow> string"
  ph_regex :: regex_test
  ph_json :: "jsval \<Rightarrow> string"
  ph_sha256 :: "string \<Rightarrow> string"

text \<open>\<^verbatim>\<open>applyOperator\<close> on a date, which is identical to no literal and counts as its time.\<close>

fun apply_fact_operator :: "policy_host \<Rightarrow> string \<Rightarrow> fact \<Rightarrow> jsval \<Rightarrow> bool" where
  "apply_fact_operator h op (FVal a) v = applyOperator (ph_num_str h) (ph_regex h) (JStr op) a v"
| "apply_fact_operator h op (FDate t) v =
     (let num = js_number (ph_num_str h) v; ms = Fin (of_int t) in
      if op = ''eq'' then False
      else if op = ''neq'' then True
      else if op = ''gt'' then jn_less num ms
      else if op = ''gte'' then jn_le num ms
      else if op = ''lt'' then jn_less ms num
      else if op = ''lte'' then jn_le ms num
      else if op = ''contains'' then includes_str (ph_date_str h t) (js_string (ph_num_str h) v)
      else if op = ''matches'' then ph_regex h (js_string (ph_num_str h) v) (ph_date_str h t) = Some True
      else False)"

datatype evaluation_outcome = Matched | Not_matched | Unmeasured

record condition_trace =
  tr_field :: string
  tr_result :: "bool option"

definition ORDINAL_OPERATORS :: "string list" where
  "ORDINAL_OPERATORS = [''gt'', ''gte'', ''lt'', ''lte'']"

fun index_of :: "'a list \<Rightarrow> 'a \<Rightarrow> nat option" where
  "index_of [] x = None"
| "index_of (y # ys) x = (if x = y then Some 0 else map_option Suc (index_of ys x))"

definition coerceOrdinalValue :: "string list option \<Rightarrow> string \<Rightarrow> jsval \<Rightarrow> jsval option" where
  "coerceOrdinalValue enumValues operator value =
     (case enumValues of
        None \<Rightarrow> Some value
      | Some labels \<Rightarrow>
          if operator \<notin> set ORDINAL_OPERATORS then Some value
          else (case value of
                  JNum _ \<Rightarrow> Some value
                | JStr s \<Rightarrow> map_option (\<lambda>i. JNum (of_nat i)) (index_of labels s)
                | _ \<Rightarrow> None))"

definition isMeasured :: "facts \<Rightarrow> bool" where
  "isMeasured facts \<longleftrightarrow> fact_at facts ''technical.techSource'' = FVal (JStr ''probe'')"

definition evaluateLeaf :: "policy_host \<Rightarrow> string \<Rightarrow> string \<Rightarrow> jsval \<Rightarrow> bool \<Rightarrow> facts \<Rightarrow> condition_trace" where
  "evaluateLeaf h field operator value allowInferred facts =
     (let trace = (\<lambda>r. \<lparr> tr_field = field, tr_result = r \<rparr>) in
      case getCondition field of
        None \<Rightarrow> trace None
      | Some def \<Rightarrow>
          (let actual = fact_at facts (cc_factPath def) in
           if cc_requiresMeasuredData def \<and> \<not> allowInferred \<and> \<not> isMeasured facts then trace None
           else if is_missing actual then trace None
           else (case coerceOrdinalValue (cc_enumValues def) operator value of
                   None \<Rightarrow> trace None
                 | Some v \<Rightarrow> trace (Some (apply_fact_operator h operator actual v)))))"

fun outcome_of :: "bool option \<Rightarrow> evaluation_outcome" where
  "outcome_of None = Unmeasured"
| "outcome_of (Some b) = (if b then Matched else Not_matched)"

fun walk :: "policy_host \<Rightarrow> facts \<Rightarrow> policy_node \<Rightarrow> evaluation_outcome \<times> condition_trace list" where
  "walk h facts (Condition field operator value allowInferred) =
     (let t = evaluateLeaf h field operator value allowInferred facts in (outcome_of (tr_result t), [t]))"
| "walk h facts (All_of children) =
     (let rs = map (walk h facts) children; results = map fst rs in
      (if Not_matched \<in> set results then Not_matched
       else if Unmeasured \<in> set results then Unmeasured
       else Matched, concat (map snd rs)))"
| "walk h facts (Any_of children) =
     (let rs = map (walk h facts) children; results = map fst rs in
      (if Matched \<in> set results then Matched
       else if Unmeasured \<in> set results then Unmeasured
       else Not_matched, concat (map snd rs)))"

record evaluation_result =
  er_outcome :: evaluation_outcome
  er_unmeasuredConditions :: "string list"

definition evaluatePolicy :: "policy_host \<Rightarrow> policy_node \<Rightarrow> facts \<Rightarrow> evaluation_result" where
  "evaluatePolicy h conditions facts =
     (let (outcome, traces) = walk h facts conditions
      in \<lparr> er_outcome = outcome, er_unmeasuredConditions = map tr_field (filter (\<lambda>t. tr_result t = None) traces) \<rparr>)"


section \<open>Mandatory exclusions\<close>

datatype exclusion_reason =
  X_protected | X_legal_hold | X_locked | X_outside_roots | X_system_path | X_library_root | X_active_playback
| X_incomplete_download | X_in_flight_operation | X_active_job | X_pending_duplicate_resolution | X_actively_seeding
| X_within_grace_period | X_ambiguous_identity | X_unmeasured_technical | X_stale_playback_data | X_unmeasured_playback
| X_unmeasured_metadata | X_unmeasured_data | X_substantial_progress | X_last_surviving_copy | X_replacement_required
| X_file_missing

fun EXCLUSION_STATUS :: "exclusion_reason \<Rightarrow> string" where
  "EXCLUSION_STATUS X_protected = ''excluded_protected''"
| "EXCLUSION_STATUS X_legal_hold = ''excluded_protected''"
| "EXCLUSION_STATUS X_locked = ''excluded_locked''"
| "EXCLUSION_STATUS X_actively_seeding = ''excluded_seeding''"
| "EXCLUSION_STATUS X_outside_roots = ''excluded_protected''"
| "EXCLUSION_STATUS X_system_path = ''excluded_protected''"
| "EXCLUSION_STATUS X_library_root = ''excluded_protected''"
| "EXCLUSION_STATUS X_active_playback = ''excluded_active''"
| "EXCLUSION_STATUS X_incomplete_download = ''excluded_active''"
| "EXCLUSION_STATUS X_in_flight_operation = ''excluded_active''"
| "EXCLUSION_STATUS X_active_job = ''excluded_active''"
| "EXCLUSION_STATUS X_pending_duplicate_resolution = ''excluded_active''"
| "EXCLUSION_STATUS X_within_grace_period = ''excluded_recent''"
| "EXCLUSION_STATUS X_ambiguous_identity = ''excluded_ambiguous''"
| "EXCLUSION_STATUS X_unmeasured_technical = ''excluded_unmeasured''"
| "EXCLUSION_STATUS X_stale_playback_data = ''excluded_unmeasured''"
| "EXCLUSION_STATUS X_unmeasured_playback = ''excluded_unmeasured''"
| "EXCLUSION_STATUS X_unmeasured_metadata = ''excluded_unmeasured''"
| "EXCLUSION_STATUS X_unmeasured_data = ''excluded_unmeasured''"
| "EXCLUSION_STATUS X_substantial_progress = ''excluded_active''"
| "EXCLUSION_STATUS X_last_surviving_copy = ''excluded_protected''"
| "EXCLUSION_STATUS X_replacement_required = ''excluded_protected''"
| "EXCLUSION_STATUS X_file_missing = ''skipped_changed''"

record exclusion_facts =
  ef_isProtected :: bool
  ef_hasLegalHold :: bool
  ef_isLocked :: bool
  ef_withinHardRoots :: bool
  ef_isSystemPath :: bool
  ef_isLibraryRoot :: bool
  ef_fileExists :: bool
  ef_activelySeeding :: bool
  ef_activePlayback :: bool
  ef_incompleteDownload :: bool
  ef_inFlightOperation :: bool
  ef_hasActiveJob :: bool
  ef_pendingDuplicateResolution :: bool
  ef_addedAt :: "time option"
  ef_ambiguousIdentity :: bool
  ef_technicalMeasured :: bool
  ef_policyUsesMeasuredConditions :: bool
  ef_playbackTrustworthy :: bool
  ef_policyUsesPlaybackConditions :: bool
  ef_playbackComputedAt :: "time option"
  ef_maximumProgressPercent :: "rat option"
  ef_isLastSurvivingCopy :: bool
  ef_hasVerifiedReplacement :: bool

definition STRICTEST_EXCLUSIONS :: policy_exclusions where
  "STRICTEST_EXCLUSIONS = \<lparr> pe_allowSeeding = None, pe_addedWithinDays = None, pe_ambiguousIdentity = Some True,
     pe_requireMeasuredTechnical = Some True, pe_maxPlaybackAggregateAgeDays = None, pe_excludeIfProgressAbovePercent = None \<rparr>"

text \<open>A day in milliseconds, times a number of days that may be a fraction.\<close>

definition days_ms :: "rat \<Rightarrow> rat" where
  "days_ms d = d * 86400000"

definition within_grace :: "time \<Rightarrow> policy_exclusions \<Rightarrow> time option \<Rightarrow> bool" where
  "within_grace now ex addedAt \<longleftrightarrow>
     (let graceDays = (case pe_addedWithinDays ex of None \<Rightarrow> 0 | Some d \<Rightarrow> d) in
      graceDays > 0 \<and> (case addedAt of None \<Rightarrow> True | Some a \<Rightarrow> of_int (now - a) < days_ms graceDays))"

definition stale_playback :: "time \<Rightarrow> policy_exclusions \<Rightarrow> exclusion_facts \<Rightarrow> bool" where
  "stale_playback now ex facts \<longleftrightarrow>
     ef_policyUsesPlaybackConditions facts \<and>
     (\<not> ef_playbackTrustworthy facts \<or>
      (case pe_maxPlaybackAggregateAgeDays ex of
         None \<Rightarrow> False
       | Some d \<Rightarrow> (case ef_playbackComputedAt facts of None \<Rightarrow> True | Some c \<Rightarrow> of_int (now - c) > days_ms d)))"

definition substantial_progress :: "policy_exclusions \<Rightarrow> exclusion_facts \<Rightarrow> bool" where
  "substantial_progress ex facts \<longleftrightarrow>
     (case (pe_excludeIfProgressAbovePercent ex, ef_maximumProgressPercent facts) of
        (Some limit, Some p) \<Rightarrow> p \<ge> limit
      | _ \<Rightarrow> False)"

definition exclusion_reasons :: "time \<Rightarrow> policy_exclusions \<Rightarrow> bool \<Rightarrow> exclusion_facts \<Rightarrow> exclusion_reason list" where
  "exclusion_reasons now ex replacementRequired facts =
     map snd (filter fst
       [(ef_hasLegalHold facts, X_legal_hold),
        (ef_isProtected facts, X_protected),
        (ef_isLocked facts, X_locked),
        (\<not> ef_withinHardRoots facts, X_outside_roots),
        (ef_isSystemPath facts, X_system_path),
        (ef_isLibraryRoot facts, X_library_root),
        (\<not> ef_fileExists facts, X_file_missing),
        (ef_activePlayback facts, X_active_playback),
        (ef_incompleteDownload facts, X_incomplete_download),
        (ef_inFlightOperation facts, X_in_flight_operation),
        (ef_hasActiveJob facts, X_active_job),
        (ef_pendingDuplicateResolution facts, X_pending_duplicate_resolution),
        (ef_activelySeeding facts \<and> pe_allowSeeding ex \<noteq> Some True, X_actively_seeding),
        (within_grace now ex (ef_addedAt facts), X_within_grace_period),
        (pe_ambiguousIdentity ex \<noteq> Some False \<and> ef_ambiguousIdentity facts, X_ambiguous_identity),
        (ef_policyUsesMeasuredConditions facts \<and> pe_requireMeasuredTechnical ex \<noteq> Some False \<and> \<not> ef_technicalMeasured facts,
           X_unmeasured_technical),
        (stale_playback now ex facts, X_stale_playback_data),
        (substantial_progress ex facts, X_substantial_progress),
        (ef_isLastSurvivingCopy facts, X_last_surviving_copy),
        (replacementRequired \<and> \<not> ef_hasVerifiedReplacement facts, X_replacement_required)])"

record exclusion_verdict =
  xv_excluded :: bool
  xv_reason :: "exclusion_reason option"
  xv_status :: "string option"
  xv_allReasons :: "exclusion_reason list"

definition evaluateExclusions :: "time \<Rightarrow> exclusion_facts \<Rightarrow> policy_exclusions option \<Rightarrow> bool \<Rightarrow> exclusion_verdict" where
  "evaluateExclusions now facts exclusions replacementRequired =
     (let ex = (case exclusions of None \<Rightarrow> STRICTEST_EXCLUSIONS | Some e \<Rightarrow> e);
          reasons = exclusion_reasons now ex replacementRequired facts
      in case reasons of
           [] \<Rightarrow> \<lparr> xv_excluded = False, xv_reason = None, xv_status = None, xv_allReasons = [] \<rparr>
         | reason # _ \<Rightarrow> \<lparr> xv_excluded = True, xv_reason = Some reason, xv_status = Some (EXCLUSION_STATUS reason),
                            xv_allReasons = reasons \<rparr>)"

definition unmeasuredReasonFor :: "string list \<Rightarrow> exclusion_reason" where
  "unmeasuredReasonFor ids =
     (case remdups (map (\<lambda>f. hd (split_on (CHR ''.'') f)) ids) of
        [g] \<Rightarrow> if g = ''technical'' then X_unmeasured_technical
               else if g = ''playback'' then X_unmeasured_playback
               else if g = ''metadata'' then X_unmeasured_metadata
               else X_unmeasured_data
      | _ \<Rightarrow> X_unmeasured_data)"


section \<open>Measurements\<close>

record playback_facts =
  pf_startedPlayCount :: int
  pf_completedPlayCount :: int
  pf_uniqueViewerCount :: int
  pf_lastPlayedAt :: "time option"
  pf_maximumProgressPercent :: int
  pf_averageProgressPercent :: rat
  pf_totalPlaybackSeconds :: rat
  pf_sourceRowCount :: int
  pf_measuredProgressRowCount :: int
  pf_completionThresholdPercent :: rat

record history_row =
  hr_userName :: "string option"
  hr_startedAt :: time
  hr_stoppedAt :: "time option"
  hr_watchedSeconds :: "rat option"
  hr_percentComplete :: "rat option"

definition percent_of :: "history_row \<Rightarrow> rat" where
  "percent_of r = (case hr_percentComplete r of None \<Rightarrow> -1 | Some p \<Rightarrow> p)"

definition session_key :: "history_row \<Rightarrow> string option \<times> time" where
  "session_key r = (hr_userName r, hr_startedAt r)"

text \<open>A \<^verbatim>\<open>Map\<close> keeps the place of a key whose value is replaced.\<close>

fun map_set :: "'k \<Rightarrow> 'v \<Rightarrow> ('k \<times> 'v) list \<Rightarrow> ('k \<times> 'v) list" where
  "map_set k v [] = [(k, v)]"
| "map_set k v ((k', v') # m) = (if k = k' then (k, v) # m else (k', v') # map_set k v m)"

definition dedupe_step :: "history_row \<Rightarrow> ((string option \<times> time) \<times> history_row) list \<Rightarrow> ((string option \<times> time) \<times> history_row) list" where
  "dedupe_step r seen =
     (case map_of seen (session_key r) of
        None \<Rightarrow> map_set (session_key r) r seen
      | Some prev \<Rightarrow> if percent_of r > percent_of prev then map_set (session_key r) r seen else seen)"

definition dedupe :: "history_row list \<Rightarrow> history_row list" where
  "dedupe rows = map snd (fold dedupe_step rows [])"

definition played_at :: "history_row \<Rightarrow> time" where
  "played_at r = (case hr_stoppedAt r of None \<Rightarrow> hr_startedAt r | Some t \<Rightarrow> t)"

definition aggregatePlays :: "history_row list \<Rightarrow> rat \<Rightarrow> playback_facts" where
  "aggregatePlays rows threshold =
     (let deduped = dedupe rows;
          pcts = List.map_filter hr_percentComplete deduped;
          maxProgress = foldl (\<lambda>m p. if p > m then p else m) 0 pcts;
          viewers = remdups (map to_lower (filter (\<lambda>u. u \<noteq> []) (List.map_filter hr_userName deduped)))
      in \<lparr> pf_startedPlayCount = int (length deduped),
           pf_completedPlayCount = int (length (filter (\<lambda>p. p \<ge> threshold) pcts)),
           pf_uniqueViewerCount = int (length viewers),
           pf_lastPlayedAt = foldl (\<lambda>l t. case l of None \<Rightarrow> Some t | Some u \<Rightarrow> if t > u then Some t else l) None (map played_at deduped),
           pf_maximumProgressPercent = math_round maxProgress,
           pf_averageProgressPercent =
             (if pcts = [] then 0 else of_int (math_round (sum_list pcts / of_nat (length pcts) * 100)) / 100),
           pf_totalPlaybackSeconds = sum_list (filter (\<lambda>x. x > 0) (List.map_filter hr_watchedSeconds deduped)),
           pf_sourceRowCount = int (length deduped),
           pf_measuredProgressRowCount = int (length pcts),
           pf_completionThresholdPercent = threshold \<rparr>)"

definition isNeverWatched :: "playback_facts \<Rightarrow> bool" where
  "isNeverWatched f \<longleftrightarrow> pf_completedPlayCount f = 0 \<and> of_int (pf_maximumProgressPercent f) < pf_completionThresholdPercent f"

text \<open>Without a limit on the age, as every caller asks.\<close>

definition isTrustworthy :: "playback_facts \<Rightarrow> bool \<Rightarrow> bool" where
  "isTrustworthy f zeroIsMeaningful \<longleftrightarrow>
     \<not> (pf_sourceRowCount f = 0 \<and> \<not> zeroIsMeaningful) \<and> \<not> (pf_sourceRowCount f > 0 \<and> pf_measuredProgressRowCount f = 0)"

definition RESOLUTION_CLASSES :: "string list" where
  "RESOLUTION_CLASSES = [''sd'', ''480p'', ''576p'', ''720p'', ''1080p'', ''1440p'', ''2160p'', ''4320p'']"

definition classifyResolution :: "int option \<Rightarrow> int option \<Rightarrow> string" where
  "classifyResolution width height =
     (let w = (case width of None \<Rightarrow> 0 | Some n \<Rightarrow> n); h = (case height of None \<Rightarrow> 0 | Some n \<Rightarrow> n) in
      if w \<le> 0 \<and> h \<le> 0 then ''unknown''
      else if h \<ge> 3500 \<or> w \<ge> 6500 then ''4320p''
      else if h \<ge> 1700 \<or> w \<ge> 3200 then ''2160p''
      else if h \<ge> 1300 \<or> w \<ge> 2400 then ''1440p''
      else if h \<ge> 850 \<or> w \<ge> 1800 then ''1080p''
      else if h \<ge> 620 \<or> w \<ge> 1200 then ''720p''
      else if h \<ge> 520 \<or> w \<ge> 900 then ''576p''
      else if h \<ge> 380 \<or> w \<ge> 700 then ''480p''
      else ''sd'')"

definition resolutionOrdinal :: "string \<Rightarrow> nat option" where
  "resolutionOrdinal cls = (if cls = ''unknown'' then None else index_of RESOLUTION_CLASSES cls)"


section \<open>Facts of a file\<close>

record raw_file =
  mf_id :: string
  mf_path :: string
  mf_size :: int
  mf_width :: "int option"
  mf_height :: "int option"
  mf_videoCodec :: "string option"
  mf_audioCodec :: "string option"
  mf_audioChannels :: "int option"
  mf_bitrateKbps :: "int option"
  mf_frameRate :: "rat option"
  mf_container :: "string option"
  mf_durationSec :: "rat option"
  mf_videoBitDepth :: "int option"
  mf_chromaSubsampling :: "string option"
  mf_hdrFormat :: "string option"
  mf_hdr :: "string option"
  mf_techSource :: "string option"
  mf_probedAt :: "time option"
  mf_probeError :: "string option"
  mf_modifiedAt :: "time option"

record raw_metadata =
  md_genres :: jsval
  md_tags :: jsval
  md_certification :: "string option"
  md_language :: "string option"
  md_runtimeMinutes :: "rat option"
  md_rating :: "rat option"
  md_releaseDate :: "time option"

record raw_item =
  mi_id :: string
  mi_libraryId :: string
  mi_mediaType :: "string option"
  mi_year :: "int option"
  mi_matchStatus :: "string option"
  mi_confidence :: "rat option"
  mi_locked :: bool
  mi_createdAt :: "time option"
  mi_duplicateGroupId :: "string option"
  mi_externalIds :: "(string \<times> string) list"
  mi_metadata :: "raw_metadata option"
  mi_libraryKind :: "string option"
  mi_libraryPath :: "string option"

record raw_context =
  rc_playback :: "playback_facts option"
  rc_playbackComputedAt :: "time option"
  rc_onWatchlist :: bool
  rc_inCollection :: bool
  rc_activePlayback :: bool
  rc_seedingItemIds :: "string list"
  rc_hasActiveJob :: bool
  rc_incompleteDownload :: bool
  rc_inFlightOperation :: bool
  rc_pendingDuplicateResolution :: bool
  rc_isLastSurvivingCopy :: bool
  rc_hasVerifiedReplacement :: bool
  rc_betterReplacementExists :: bool
  rc_isProtected :: bool
  rc_hasLegalHold :: bool
  rc_protectionIds :: "string list"
  rc_withinHardRoots :: bool
  rc_isSystemPath :: bool
  rc_isLibraryRoot :: bool
  rc_fileExists :: bool

definition daysBetween :: "time option \<Rightarrow> time \<Rightarrow> int option" where
  "daysBetween from to = map_option (\<lambda>f. (to - f) div 86400000) from"

definition earliest :: "time option \<Rightarrow> time option \<Rightarrow> time option" where
  "earliest a b = (case a of None \<Rightarrow> b | Some x \<Rightarrow> (case b of None \<Rightarrow> a | Some y \<Rightarrow> if x \<le> y then a else b))"

definition isProbeMeasured :: "raw_file \<Rightarrow> bool" where
  "isProbeMeasured f \<longleftrightarrow> mf_techSource f = Some ''probe'' \<and> mf_probedAt f \<noteq> None"

definition isAmbiguous :: "raw_item \<Rightarrow> bool" where
  "isAmbiguous item \<longleftrightarrow>
     (if mi_matchStatus item = Some ''manual'' then False
      else if mi_matchStatus item = Some ''unmatched'' then True
      else if mi_externalIds item \<noteq> [] then False
      else (case mi_confidence item of None \<Rightarrow> 0 | Some c \<Rightarrow> c) < 8 / 10)"

definition str_fact :: "string option \<Rightarrow> fact" where
  "str_fact v = (case v of None \<Rightarrow> absent | Some s \<Rightarrow> FVal (JStr s))"

definition num_fact :: "rat option \<Rightarrow> fact" where
  "num_fact v = (case v of None \<Rightarrow> absent | Some q \<Rightarrow> FVal (JNum q))"

definition int_fact :: "int option \<Rightarrow> fact" where
  "int_fact v = num_fact (map_option of_int v)"

definition date_fact :: "time option \<Rightarrow> fact" where
  "date_fact v = (case v of None \<Rightarrow> absent | Some t \<Rightarrow> FDate t)"

definition bool_fact :: "bool \<Rightarrow> fact" where
  "bool_fact b = FVal (JBool b)"

definition asArray :: "policy_host \<Rightarrow> jsval \<Rightarrow> fact" where
  "asArray h v = (case v of JArr vs \<Rightarrow> FVal (JArr (map (\<lambda>x. JStr (js_string (ph_num_str h) x)) vs)) | _ \<Rightarrow> absent)"

definition metadata_facts :: "policy_host \<Rightarrow> raw_item \<Rightarrow> raw_context \<Rightarrow> (string \<times> fact) list" where
  "metadata_facts h item ctx =
     (let md = (\<lambda>get. case mi_metadata item of None \<Rightarrow> absent | Some m \<Rightarrow> get m) in
      [(''mediaKind'', str_fact (mi_mediaType item)), (''releaseYear'', int_fact (mi_year item)),
       (''releaseDate'', md (\<lambda>m. date_fact (md_releaseDate m))), (''genres'', md (\<lambda>m. asArray h (md_genres m))),
       (''tags'', md (\<lambda>m. asArray h (md_tags m))), (''certification'', md (\<lambda>m. str_fact (md_certification m))),
       (''language'', md (\<lambda>m. str_fact (md_language m))), (''runtimeMinutes'', md (\<lambda>m. num_fact (md_runtimeMinutes m))),
       (''rating'', md (\<lambda>m. num_fact (md_rating m))), (''matchStatus'', str_fact (mi_matchStatus item)),
       (''hasExternalId'', bool_fact (mi_externalIds item \<noteq> [])), (''metadataComplete'', bool_fact (mi_metadata item \<noteq> None)),
       (''inCollection'', bool_fact (rc_inCollection ctx)), (''onWatchlist'', bool_fact (rc_onWatchlist ctx))])"

definition playback_group :: "time \<Rightarrow> raw_context \<Rightarrow> (string \<times> fact) list" where
  "playback_group now ctx =
     (case rc_playback ctx of
        None \<Rightarrow> []
      | Some p \<Rightarrow>
          [(''neverWatched'', bool_fact (isNeverWatched p)), (''completedPlayCount'', int_fact (Some (pf_completedPlayCount p))),
           (''startedPlayCount'', int_fact (Some (pf_startedPlayCount p))), (''uniqueViewerCount'', int_fact (Some (pf_uniqueViewerCount p))),
           (''lastPlayedAt'', date_fact (pf_lastPlayedAt p)), (''daysSinceLastPlay'', int_fact (daysBetween (pf_lastPlayedAt p) now)),
           (''maximumProgressPercent'', int_fact (Some (pf_maximumProgressPercent p))),
           (''averageProgressPercent'', num_fact (Some (pf_averageProgressPercent p))),
           (''totalPlaybackSeconds'', num_fact (Some (pf_totalPlaybackSeconds p))),
           (''watchedByNoUsers'', bool_fact (pf_uniqueViewerCount p = 0))])"

definition technical_facts :: "raw_file \<Rightarrow> (string \<times> fact) list" where
  "technical_facts file =
     (let measured = isProbeMeasured file;
          cls = (if measured then classifyResolution (mf_width file) (mf_height file) else ''unknown'') in
      [(''techSource'', FVal (JStr (if measured then ''probe'' else if mf_techSource file = Some ''filename'' then ''filename'' else ''unknown''))),
       (''resolutionOrdinal'', if measured then num_fact (map_option of_nat (resolutionOrdinal cls)) else absent),
       (''resolutionClass'', if measured then FVal (JStr cls) else absent),
       (''width'', int_fact (mf_width file)), (''height'', int_fact (mf_height file)), (''videoCodec'', str_fact (mf_videoCodec file)),
       (''videoBitDepth'', int_fact (mf_videoBitDepth file)), (''chromaSubsampling'', str_fact (mf_chromaSubsampling file)),
       (''hdrFormat'', str_fact (mf_hdrFormat file)),
       (''isHdr'', if measured then bool_fact ((case or_else (mf_hdrFormat file) (mf_hdr file) of None \<Rightarrow> [] | Some s \<Rightarrow> s) \<noteq> []) else absent),
       (''audioCodec'', str_fact (mf_audioCodec file)), (''audioChannels'', int_fact (mf_audioChannels file)),
       (''bitrateKbps'', int_fact (mf_bitrateKbps file)), (''frameRate'', num_fact (mf_frameRate file)),
       (''container'', str_fact (mf_container file)), (''durationSec'', num_fact (mf_durationSec file)),
       (''probeFailed'', bool_fact (mf_probeError file \<noteq> None))])"

text \<open>Nobody supplies the size of the title, the free space or the state of the torrent yet.\<close>

definition storage_facts :: "time \<Rightarrow> raw_file \<Rightarrow> raw_item \<Rightarrow> raw_context \<Rightarrow> (string \<times> fact) list" where
  "storage_facts now file item ctx =
     (let added = earliest (mi_createdAt item) (mf_modifiedAt file) in
      [(''fileSizeBytes'', int_fact (Some (mf_size file))), (''fileModifiedAt'', date_fact (mf_modifiedAt file)),
       (''fileAgeDays'', int_fact (daysBetween (mf_modifiedAt file) now)), (''addedAt'', date_fact added),
       (''addedAgeDays'', int_fact (daysBetween added now)), (''totalTitleSizeBytes'', absent), (''libraryFreePercent'', absent),
       (''isDuplicate'', bool_fact (mi_duplicateGroupId item \<noteq> None)),
       (''betterReplacementExists'', bool_fact (rc_betterReplacementExists ctx)),
       (''torrentActive'', absent), (''torrentSeeding'', absent), (''torrentRatio'', absent)])"

definition safety_facts :: "raw_file \<Rightarrow> raw_item \<Rightarrow> raw_context \<Rightarrow> (string \<times> fact) list" where
  "safety_facts file item ctx =
     [(''libraryId'', FVal (JStr (mi_libraryId item))), (''libraryKind'', str_fact (mi_libraryKind item)), (''path'', FVal (JStr (mf_path file))),
      (''isLocked'', bool_fact (mi_locked item)), (''isProtected'', bool_fact (rc_isProtected ctx)),
      (''hasActiveJob'', bool_fact (rc_hasActiveJob ctx)), (''activePlayback'', bool_fact (rc_activePlayback ctx)),
      (''activelySeeding'', bool_fact (mi_id item \<in> set (rc_seedingItemIds ctx))), (''ambiguousIdentity'', bool_fact (isAmbiguous item)),
      (''pendingDuplicateResolution'', bool_fact (rc_pendingDuplicateResolution ctx))]"

definition assembleEvaluationFacts :: "policy_host \<Rightarrow> time \<Rightarrow> raw_file \<Rightarrow> raw_item \<Rightarrow> raw_context \<Rightarrow> facts" where
  "assembleEvaluationFacts h now file item ctx =
     [(''metadata'', metadata_facts h item ctx), (''playback'', playback_group now ctx), (''technical'', technical_facts file),
      (''storage'', storage_facts now file item ctx), (''safety'', safety_facts file item ctx)]"

definition assembleExclusionFacts :: "raw_file \<Rightarrow> raw_item \<Rightarrow> raw_context \<Rightarrow> bool \<Rightarrow> bool \<Rightarrow> exclusion_facts" where
  "assembleExclusionFacts file item ctx measured playback = \<lparr>
     ef_isProtected = rc_isProtected ctx, ef_hasLegalHold = rc_hasLegalHold ctx, ef_isLocked = mi_locked item,
     ef_withinHardRoots = rc_withinHardRoots ctx, ef_isSystemPath = rc_isSystemPath ctx, ef_isLibraryRoot = rc_isLibraryRoot ctx,
     ef_fileExists = rc_fileExists ctx, ef_activelySeeding = (mi_id item \<in> set (rc_seedingItemIds ctx)),
     ef_activePlayback = rc_activePlayback ctx, ef_incompleteDownload = rc_incompleteDownload ctx,
     ef_inFlightOperation = rc_inFlightOperation ctx, ef_hasActiveJob = rc_hasActiveJob ctx,
     ef_pendingDuplicateResolution = rc_pendingDuplicateResolution ctx, ef_addedAt = mi_createdAt item,
     ef_ambiguousIdentity = isAmbiguous item, ef_technicalMeasured = isProbeMeasured file,
     ef_policyUsesMeasuredConditions = measured,
     ef_playbackTrustworthy = (case rc_playback ctx of None \<Rightarrow> False | Some p \<Rightarrow> isTrustworthy p True),
     ef_policyUsesPlaybackConditions = playback, ef_playbackComputedAt = rc_playbackComputedAt ctx,
     ef_maximumProgressPercent = map_option (\<lambda>p. of_int (pf_maximumProgressPercent p)) (rc_playback ctx),
     ef_isLastSurvivingCopy = rc_isLastSurvivingCopy ctx, ef_hasVerifiedReplacement = rc_hasVerifiedReplacement ctx \<rparr>"


section \<open>Fingerprints\<close>

record fingerprint_input =
  fi_mediaFileId :: string
  fi_path :: string
  fi_fileSizeBytes :: int
  fi_modifiedAtMs :: "time option"
  fi_identityKeys :: "string list"
  fi_policyVersionId :: string
  fi_facts :: "(string \<times> fact) list"
  fi_factKeys :: "string list"
  fi_isProtected :: bool
  fi_protectionIds :: "string list"
  fi_replacementFileId :: "string option"

definition flattenFacts :: "facts \<Rightarrow> (string \<times> fact) list" where
  "flattenFacts facts = concat (map (\<lambda>(g, values). map (\<lambda>(k, v). (g @ ''.'' @ k, v)) values) facts)"

definition sort_strings :: "string list \<Rightarrow> string list" where
  "sort_strings = js_sort (key_cmp (\<lambda>s. map of_char s :: nat list))"

text \<open>The sign for a fact that is not there, in UTF-8.\<close>

definition EMPTY_SIGN :: string where "EMPTY_SIGN = [CHR 0xE2, CHR 0x88, CHR 0x85]"

fun stringify :: "policy_host \<Rightarrow> fact \<Rightarrow> string" where
  "stringify h (FDate t) = to_iso t"
| "stringify h (FVal v) =
     (case v of
        JUndef \<Rightarrow> EMPTY_SIGN | JNull \<Rightarrow> ''null''
      | JArr vs \<Rightarrow> ph_json h v | JObj ps \<Rightarrow> ph_json h v
      | _ \<Rightarrow> js_string (ph_num_str h) v)"

definition render :: "policy_host \<Rightarrow> fingerprint_input \<Rightarrow> string" where
  "render h i =
     join_with [CHR 0x0A]
       ([''file:'' @ fi_mediaFileId i, ''path:'' @ fi_path i, ''size:'' @ int_digits (fi_fileSizeBytes i),
         ''mtime:'' @ (case fi_modifiedAtMs i of None \<Rightarrow> ''null'' | Some t \<Rightarrow> int_digits t),
         ''identity:'' @ join_with '','' (sort_strings (fi_identityKeys i)), ''policyVersion:'' @ fi_policyVersionId i,
         ''protected:'' @ (if fi_isProtected i then ''1'' else ''0''),
         ''protections:'' @ join_with '','' (sort_strings (fi_protectionIds i)),
         ''replacement:'' @ (case fi_replacementFileId i of None \<Rightarrow> ''none'' | Some r \<Rightarrow> r)]
        @ map (\<lambda>k. ''fact:'' @ k @ ''='' @ stringify h (case map_of (fi_facts i) k of None \<Rightarrow> absent | Some v \<Rightarrow> v))
            (sort_strings (fi_factKeys i)))"

definition candidateFingerprint :: "policy_host \<Rightarrow> fingerprint_input \<Rightarrow> string" where
  "candidateFingerprint h i = ph_sha256 h (render h i)"

text \<open>The fingerprint of a file in a context, as discovery takes it and the executor takes it again.\<close>

definition fingerprint_of :: "policy_host \<Rightarrow> time \<Rightarrow> policy_node \<Rightarrow> string \<Rightarrow> raw_file \<Rightarrow> raw_item \<Rightarrow> raw_context \<Rightarrow> string" where
  "fingerprint_of h now conditions versionId file item ctx = candidateFingerprint h \<lparr>
     fi_mediaFileId = mf_id file, fi_path = mf_path file, fi_fileSizeBytes = mf_size file, fi_modifiedAtMs = mf_modifiedAt file,
     fi_identityKeys = map (\<lambda>(p, e). p @ '':'' @ e) (mi_externalIds item), fi_policyVersionId = versionId,
     fi_facts = flattenFacts (assembleEvaluationFacts h now file item ctx), fi_factKeys = collectFieldIds conditions,
     fi_isProtected = rc_isProtected ctx, fi_protectionIds = rc_protectionIds ctx, fi_replacementFileId = None \<rparr>"


section \<open>Pushdown\<close>

datatype where_fragment =
  W_mediaType string | W_libraryId string | W_year string rat | W_created_before time | W_created_after time

text \<open>A date from a number of milliseconds: the fraction is cut off.\<close>

definition date_of :: "rat \<Rightarrow> time" where
  "date_of q = (if q < 0 then \<lceil>q\<rceil> else \<lfloor>q\<rfloor>)"

definition fragmentFor :: "string \<Rightarrow> string \<Rightarrow> jsval \<Rightarrow> time \<Rightarrow> where_fragment option" where
  "fragmentFor field operator value now =
     (if field = ''metadata.mediaKind'' then
        (case value of JStr s \<Rightarrow> if operator = ''eq'' then Some (W_mediaType s) else None | _ \<Rightarrow> None)
      else if field = ''safety.libraryId'' then
        (case value of JStr s \<Rightarrow> if operator = ''eq'' then Some (W_libraryId s) else None | _ \<Rightarrow> None)
      else if field = ''metadata.releaseYear'' then
        (case value of
           JNum q \<Rightarrow> if operator = ''eq'' \<or> operator \<in> set ORDINAL_OPERATORS then Some (W_year operator q) else None
         | _ \<Rightarrow> None)
      else if field = ''storage.addedAgeDays'' then
        (case value of
           JNum q \<Rightarrow>
             (let cutoff = (\<lambda>days. date_of (of_int now - days_ms days)) in
              if operator = ''gt'' \<or> operator = ''gte'' then Some (W_created_before (cutoff (max 0 (q - 1))))
              else if operator = ''lt'' \<or> operator = ''lte'' then Some (W_created_after (cutoff (q + 1)))
              else None)
         | _ \<Rightarrow> None)
      else None)"

fun collect :: "time \<Rightarrow> policy_node \<Rightarrow> where_fragment list" where
  "collect now (Condition f op v _) = (case fragmentFor f op v now of None \<Rightarrow> [] | Some w \<Rightarrow> [w])"
| "collect now (All_of cs) = concat (map (collect now) cs)"
| "collect now (Any_of cs) = []"

definition boundsLibrary :: "policy_node option \<Rightarrow> bool" where
  "boundsLibrary conditions =
     (case conditions of None \<Rightarrow> False
      | Some c \<Rightarrow> list_ex (\<lambda>w. case w of W_libraryId _ \<Rightarrow> True | _ \<Rightarrow> False) (collect 0 c))"

text \<open>What the database makes of a fragment: a column without a value satisfies none.\<close>

definition row_satisfies :: "raw_item \<Rightarrow> where_fragment \<Rightarrow> bool" where
  "row_satisfies item w =
     (case w of
        W_mediaType s \<Rightarrow> mi_mediaType item = Some s
      | W_libraryId s \<Rightarrow> mi_libraryId item = s
      | W_year op q \<Rightarrow>
          (case mi_year item of
             None \<Rightarrow> False
           | Some y \<Rightarrow> if op = ''eq'' then of_int y = q else if op = ''gt'' then of_int y > q
                       else if op = ''gte'' then of_int y \<ge> q else if op = ''lt'' then of_int y < q else of_int y \<le> q)
      | W_created_before t \<Rightarrow> (case mi_createdAt item of None \<Rightarrow> False | Some c \<Rightarrow> c < t)
      | W_created_after t \<Rightarrow> (case mi_createdAt item of None \<Rightarrow> False | Some c \<Rightarrow> c > t))"

definition pushdown_loads :: "time \<Rightarrow> policy_node \<Rightarrow> raw_item \<Rightarrow> bool" where
  "pushdown_loads now conditions item \<longleftrightarrow> list_all (row_satisfies item) (collect now conditions)"


section \<open>What is missing does not decide\<close>

text \<open>
  The plain reading of a policy: a condition is true or false, all and any are conjunction and
  disjunction. \<open>m\<close> says what a condition that could not be measured would have been.
\<close>

fun reading :: "policy_host \<Rightarrow> facts \<Rightarrow> (policy_node \<Rightarrow> bool) \<Rightarrow> policy_node \<Rightarrow> bool" where
  "reading h facts m (Condition f op v i) \<longleftrightarrow>
     (case tr_result (evaluateLeaf h f op v i facts) of None \<Rightarrow> m (Condition f op v i) | Some b \<Rightarrow> b)"
| "reading h facts m (All_of cs) \<longleftrightarrow> (\<forall>c\<in>set cs. reading h facts m c)"
| "reading h facts m (Any_of cs) \<longleftrightarrow> (\<exists>c\<in>set cs. reading h facts m c)"

lemma reading_mono: "(\<And>c. m c \<longrightarrow> m' c) \<Longrightarrow> reading h facts m n \<Longrightarrow> reading h facts m' n"
  by (induction n) (auto split: option.splits)

lemma outcome_of_simps:
  "outcome_of r = Matched \<longleftrightarrow> r = Some True" "outcome_of r = Not_matched \<longleftrightarrow> r = Some False"
  "outcome_of r = Unmeasured \<longleftrightarrow> r = None"
  by (cases r; simp)+

lemma in_results: "x \<in> set (map fst (map (walk h facts) cs)) \<longleftrightarrow> (\<exists>c\<in>set cs. fst (walk h facts c) = x)"
  by auto

lemma walk_group:
  "fst (walk h facts (All_of cs)) = Matched \<longleftrightarrow> (\<forall>c\<in>set cs. fst (walk h facts c) = Matched)"
  "fst (walk h facts (All_of cs)) = Not_matched \<longleftrightarrow> (\<exists>c\<in>set cs. fst (walk h facts c) = Not_matched)"
  "fst (walk h facts (Any_of cs)) = Matched \<longleftrightarrow> (\<exists>c\<in>set cs. fst (walk h facts c) = Matched)"
  "fst (walk h facts (Any_of cs)) = Not_matched \<longleftrightarrow> (\<forall>c\<in>set cs. fst (walk h facts c) = Not_matched)"
proof -
  have m: "x = Matched \<longleftrightarrow> x \<noteq> Not_matched \<and> x \<noteq> Unmeasured" and n: "x = Not_matched \<longleftrightarrow> x \<noteq> Matched \<and> x \<noteq> Unmeasured" for x
    by (cases x; simp)+
  show "fst (walk h facts (All_of cs)) = Matched \<longleftrightarrow> (\<forall>c\<in>set cs. fst (walk h facts c) = Matched)"
    unfolding walk.simps Let_def fst_conv in_results m [of "fst (walk h facts _)"] by simp blast
  show "fst (walk h facts (Any_of cs)) = Not_matched \<longleftrightarrow> (\<forall>c\<in>set cs. fst (walk h facts c) = Not_matched)"
    unfolding walk.simps Let_def fst_conv in_results n [of "fst (walk h facts _)"] by simp blast
qed (unfold walk.simps Let_def fst_conv in_results, simp_all)

lemma walk_extremes:
  "(fst (walk h facts n) = Matched \<longleftrightarrow> reading h facts (\<lambda>_. False) n) \<and>
   (fst (walk h facts n) = Not_matched \<longleftrightarrow> \<not> reading h facts (\<lambda>_. True) n)"
proof (induction n)
  case (Condition f op v i)
  then show ?case by (cases "tr_result (evaluateLeaf h f op v i facts)") (auto simp: Let_def)
next
  case (All_of cs)
  then show ?case unfolding walk_group reading.simps by blast
next
  case (Any_of cs)
  then show ?case unfolding walk_group reading.simps by blast
qed

lemma er_outcome_walk [simp]: "er_outcome (evaluatePolicy h n facts) = fst (walk h facts n)"
  by (simp add: evaluatePolicy_def split: prod.split)

text \<open>
  Missing facts never decide. A policy matches a file exactly when it holds whatever the facts
  that could not be measured would have been, and is dismissed exactly when it fails whatever they
  would have been; in all other cases it is reported as unmeasured.
\<close>

theorem evaluatePolicy_decides:
  "(er_outcome (evaluatePolicy h n facts) = Matched \<longleftrightarrow> (\<forall>m. reading h facts m n)) \<and>
   (er_outcome (evaluatePolicy h n facts) = Not_matched \<longleftrightarrow> (\<forall>m. \<not> reading h facts m n)) \<and>
   (er_outcome (evaluatePolicy h n facts) = Unmeasured \<longleftrightarrow> (\<exists>m. reading h facts m n) \<and> (\<exists>m. \<not> reading h facts m n))"
proof -
  have "reading h facts (\<lambda>_. False) n \<longleftrightarrow> (\<forall>m. reading h facts m n)" using reading_mono [of "\<lambda>_. False"] by blast
  moreover have "(\<not> reading h facts (\<lambda>_. True) n) \<longleftrightarrow> (\<forall>m. \<not> reading h facts m n)" using reading_mono [of _ "\<lambda>_. True"] by blast
  moreover have "x = Unmeasured \<longleftrightarrow> x \<noteq> Matched \<and> x \<noteq> Not_matched" for x by (cases x) auto
  ultimately show ?thesis unfolding er_outcome_walk using walk_extremes [of h facts n] by blast
qed


section \<open>The database filter\<close>

lemma fact_at_added:
  "fact_at (assembleEvaluationFacts h now file item ctx) ''storage.addedAgeDays'' =
     int_fact (daysBetween (earliest (mi_createdAt item) (mf_modifiedAt file)) now)"
  by (simp add: fact_at_def assembleEvaluationFacts_def storage_facts_def Let_def)

lemma fact_at_columns:
  "fact_at (assembleEvaluationFacts h now file item ctx) ''metadata.mediaKind'' = str_fact (mi_mediaType item)"
  "fact_at (assembleEvaluationFacts h now file item ctx) ''metadata.releaseYear'' = int_fact (mi_year item)"
  "fact_at (assembleEvaluationFacts h now file item ctx) ''safety.libraryId'' = FVal (JStr (mi_libraryId item))"
  by (simp_all add: fact_at_def assembleEvaluationFacts_def metadata_facts_def safety_facts_def Let_def)

lemma catalogue:
  "getCondition ''metadata.mediaKind'' = Some (cond ''metadata.mediaKind'' ''metadata.mediaKind'' False
     (Some [''movie'', ''tv'', ''anime'', ''music_video'', ''documentary'', ''other_video'']))"
  "getCondition ''metadata.releaseYear'' = Some (cond ''metadata.releaseYear'' ''metadata.releaseYear'' False None)"
  "getCondition ''storage.addedAgeDays'' = Some (cond ''storage.addedAgeDays'' ''storage.addedAgeDays'' False None)"
  "getCondition ''safety.libraryId'' = Some (cond ''safety.libraryId'' ''safety.libraryId'' False None)"
  by code_simp+

lemma leaf_True:
  assumes "tr_result (evaluateLeaf h f op v i facts) = Some True" "getCondition f = Some (cond f p False e)"
  shows "\<not> is_missing (fact_at facts p) \<and> (\<exists>v'. coerceOrdinalValue e op v = Some v' \<and> apply_fact_operator h op (fact_at facts p) v')"
  using assms by (auto simp: evaluateLeaf_def Let_def cond_def split: if_splits option.splits)


lemma age_after:
  assumes "q \<le> of_int ((now' - c) div 86400000)" "c < now" "now' < now + 86400000"
  shows "c < date_of (of_int now - days_ms (max 0 (q - 1)))"
proof (cases "q \<le> 1")
  case True
  then show ?thesis using assms(2) by (simp add: days_ms_def date_of_def)
next
  case False
  let ?x = "of_int now - days_ms (q - 1) :: rat"
  have "(now' - c) div 86400000 * 86400000 \<le> now' - c" using div_mult_mod_eq [of "now' - c" 86400000] by simp
  then have "of_int ((now' - c) div 86400000) * 86400000 \<le> (of_int (now' - c) :: rat)"
    by (metis of_int_le_iff of_int_mult of_int_numeral)
  moreover have "q * 86400000 \<le> of_int ((now' - c) div 86400000) * 86400000" using assms(1) by simp
  moreover have "(of_int (now' - c) :: rat) \<le> of_int (now + 86400000 - 1 - c)" using assms(3) by (subst of_int_le_iff) simp
  ultimately have "of_int c + 1 \<le> ?x" by (simp add: days_ms_def algebra_simps)
  then have "c + 1 \<le> \<lfloor>?x\<rfloor>" by (simp add: le_floor_iff)
  moreover have "\<lfloor>?x\<rfloor> \<le> date_of ?x" by (simp add: date_of_def floor_le_ceiling)
  ultimately show ?thesis using False by (simp add: max_def)
qed

lemma age_before:
  assumes "of_int ((now' - c) div 86400000) \<le> q" "0 < c" "now \<le> now'"
  shows "date_of (of_int now - days_ms (q + 1)) < c"
proof -
  let ?x = "of_int now - days_ms (q + 1) :: rat"
  have "now' - c < ((now' - c) div 86400000 + 1) * 86400000" using div_mult_mod_eq [of "now' - c" 86400000] pos_mod_bound [of 86400000 "now' - c"]
    by (simp add: algebra_simps)
  then have "(of_int (now' - c) :: rat) < of_int (((now' - c) div 86400000 + 1) * 86400000)" by (subst of_int_less_iff)
  moreover have "(of_int ((now' - c) div 86400000) + 1) * 86400000 \<le> (q + 1) * 86400000" using assms(1) by simp
  moreover have "(of_int (now - c) :: rat) \<le> of_int (now' - c)" using assms(3) by (subst of_int_le_iff) simp
  ultimately have x: "?x < of_int c" by (simp add: days_ms_def algebra_simps)
  show ?thesis
  proof (cases "?x < 0")
    case True
    then have "date_of ?x \<le> 0" by (simp add: date_of_def ceiling_le_iff)
    then show ?thesis using assms(2) by linarith
  next
    case False
    then show ?thesis using x by (simp add: date_of_def floor_less_iff)
  qed
qed

lemma operators:
  "applyOperator ns rt (JStr ''eq'') a v = strict_eq a v"
  "applyOperator ns rt (JStr ''gt'') a v = jn_less (js_number ns v) (js_number ns a)"
  "applyOperator ns rt (JStr ''gte'') a v = jn_le (js_number ns v) (js_number ns a)"
  "applyOperator ns rt (JStr ''lt'') a v = jn_less (js_number ns a) (js_number ns v)"
  "applyOperator ns rt (JStr ''lte'') a v = jn_le (js_number ns a) (js_number ns v)"
  by (simp_all add: applyOperator_def Let_def)

lemma leaf_loads:
  assumes "tr_result (evaluateLeaf h f op v i (assembleEvaluationFacts h now' file item ctx)) = Some True" "fragmentFor f op v now = Some w"
    and "mi_createdAt item = Some c" "0 < c" "c < now" "case mf_modifiedAt file of None \<Rightarrow> True | Some t \<Rightarrow> c \<le> t"
    and "now \<le> now'" "now' < now + 86400000"
  shows "row_satisfies item w"
proof -
  let ?facts = "assembleEvaluationFacts h now' file item ctx"
  have f: "f = ''metadata.mediaKind'' \<or> f = ''safety.libraryId'' \<or> f = ''metadata.releaseYear'' \<or> f = ''storage.addedAgeDays''"
    using assms(2) by (auto simp: fragmentFor_def split: if_splits)
  then have "\<exists>e. getCondition f = Some (cond f f False e)" by (elim disjE) (hypsubst, rule exI, rule catalogue)+
  then obtain e where getc: "getCondition f = Some (cond f f False e)" by blast
  note leaf = leaf_True [OF assms(1) this]
  consider "f = ''metadata.mediaKind''" | "f = ''safety.libraryId''" | "f = ''metadata.releaseYear''" | "f = ''storage.addedAgeDays''"
    using f by blast
  then show ?thesis
  proof cases
    case 1
    then obtain s where "v = JStr s" "op = ''eq''" "w = W_mediaType s" using assms(2)
      by (auto simp: fragmentFor_def split: jsval.splits if_splits)
    then show ?thesis using leaf 1
      by (auto simp: fact_at_columns str_fact_def absent_def coerceOrdinalValue_def ORDINAL_OPERATORS_def operators row_satisfies_def
          split: option.splits)
  next
    case 2
    then obtain s where "v = JStr s" "op = ''eq''" "w = W_libraryId s" using assms(2)
      by (auto simp: fragmentFor_def split: jsval.splits if_splits)
    then show ?thesis using leaf 2
      by (auto simp: fact_at_columns coerceOrdinalValue_def ORDINAL_OPERATORS_def operators row_satisfies_def split: option.splits)
  next
    case 3
    then have e: "e = None" using getc catalogue(2) by (auto simp: cond_def)
    from 3 obtain q where w: "v = JNum q" "op = ''eq'' \<or> op \<in> set ORDINAL_OPERATORS" "w = W_year op q" using assms(2)
      by (auto simp: fragmentFor_def split: jsval.splits if_splits)
    obtain y where y: "mi_year item = Some y" using leaf 3
      by (auto simp: fact_at_columns int_fact_def num_fact_def absent_def split: option.splits)
    show ?thesis using leaf w unfolding 3 e fact_at_columns
      by (auto simp: y int_fact_def num_fact_def coerceOrdinalValue_def ORDINAL_OPERATORS_def operators row_satisfies_def jn_le_def)
  next
    case 4
    then have e: "e = None" using getc catalogue(3) by (auto simp: cond_def)
    let ?age = "(now' - c) div 86400000"
    have age: "fact_at ?facts f = FVal (JNum (of_int ?age))" using assms(3,6)
      unfolding 4 fact_at_added by (auto simp: earliest_def daysBetween_def int_fact_def num_fact_def split: option.splits)
    from 4 obtain q where w: "v = JNum q" "op \<in> {''gt'', ''gte''} \<and> w = W_created_before (date_of (of_int now - days_ms (max 0 (q - 1)))) \<or>
        op \<in> {''lt'', ''lte''} \<and> w = W_created_after (date_of (of_int now - days_ms (q + 1)))" using assms(2)
      by (auto simp: fragmentFor_def Let_def split: jsval.splits if_splits)
    have op: "apply_fact_operator h op (FVal (JNum (of_int ?age))) (JNum q)" using leaf unfolding age e w(1) by (simp add: coerceOrdinalValue_def)
    from w(2) show ?thesis
    proof (elim disjE conjE)
      assume "op \<in> {''gt'', ''gte''}" "w = W_created_before (date_of (of_int now - days_ms (max 0 (q - 1))))"
      moreover from this(1) op have "q \<le> of_int ?age" by (auto simp: operators jn_le_def)
      ultimately show ?thesis using age_after [OF _ assms(5,8)] assms(3) by (simp add: row_satisfies_def)
    next
      assume "op \<in> {''lt'', ''lte''}" "w = W_created_after (date_of (of_int now - days_ms (q + 1)))"
      moreover from this(1) op have "of_int ?age \<le> q" by (auto simp: operators jn_le_def)
      ultimately show ?thesis using age_before [OF _ assms(4,7)] assms(3) by (simp add: row_satisfies_def)
    qed
  qed
qed

text \<open>
  Loading less loses no match. When the row of an item is no older than its file, was created
  before the run, and the run takes less than a day, every file that the policy matches belongs to an
  item which the filter derived from the policy loads.
\<close>

theorem pushdown_keeps_matches:
  assumes "er_outcome (evaluatePolicy h n (assembleEvaluationFacts h now' file item ctx)) = Matched"
    and "mi_createdAt item = Some c" "0 < c" "c < now" "case mf_modifiedAt file of None \<Rightarrow> True | Some t \<Rightarrow> c \<le> t"
    and "now \<le> now'" "now' < now + 86400000"
  shows "pushdown_loads now n item"
  using assms(1) unfolding pushdown_loads_def er_outcome_walk
proof (induction n)
  case (Condition f op v i)
  then have "tr_result (evaluateLeaf h f op v i (assembleEvaluationFacts h now' file item ctx)) = Some True"
    by (simp add: Let_def outcome_of_simps)
  then show ?case using leaf_loads [OF _ _ assms(2-7)] by (auto split: option.split)
next
  case (All_of cs)
  then show ?case unfolding walk_group by (auto simp: list_all_iff)
qed simp



section \<open>Examples\<close>

definition small_policy_host :: policy_host where
  "small_policy_host = \<lparr> ph_num_str = (\<lambda>q. int_digits \<lfloor>q\<rfloor>), ph_date_str = to_iso, ph_regex = (\<lambda>_ _. None),
     ph_json = (\<lambda>v. case v of JArr vs \<Rightarrow> join_with '','' (map (js_string (\<lambda>_. [])) vs) | _ \<Rightarrow> []), ph_sha256 = (\<lambda>s. s) \<rparr>"

definition film_file :: "time \<Rightarrow> raw_file" where
  "film_file m = \<lparr> mf_id = ''f'', mf_path = ''/lib/a.mkv'', mf_size = 10, mf_width = None, mf_height = None, mf_videoCodec = None,
     mf_audioCodec = None, mf_audioChannels = None, mf_bitrateKbps = None, mf_frameRate = None, mf_container = None, mf_durationSec = None,
     mf_videoBitDepth = None, mf_chromaSubsampling = None, mf_hdrFormat = None, mf_hdr = None, mf_techSource = None, mf_probedAt = None,
     mf_probeError = None, mf_modifiedAt = Some m \<rparr>"

definition film_item :: "string \<Rightarrow> time \<Rightarrow> raw_item" where
  "film_item genre c = \<lparr> mi_id = ''i'', mi_libraryId = ''l'', mi_mediaType = Some ''movie'', mi_year = Some 1999, mi_matchStatus = Some ''manual'',
     mi_confidence = None, mi_locked = False, mi_createdAt = Some c, mi_duplicateGroupId = None, mi_externalIds = [],
     mi_metadata = Some \<lparr> md_genres = JArr [JStr genre], md_tags = JUndef, md_certification = None, md_language = None,
       md_runtimeMinutes = None, md_rating = None, md_releaseDate = None \<rparr>, mi_libraryKind = None, mi_libraryPath = None \<rparr>"

definition calm_context :: raw_context where
  "calm_context = \<lparr> rc_playback = None, rc_playbackComputedAt = None, rc_onWatchlist = False, rc_inCollection = False, rc_activePlayback = False,
     rc_seedingItemIds = [], rc_hasActiveJob = False, rc_incompleteDownload = False, rc_inFlightOperation = False,
     rc_pendingDuplicateResolution = False, rc_isLastSurvivingCopy = False, rc_hasVerifiedReplacement = False, rc_betterReplacementExists = False,
     rc_isProtected = False, rc_hasLegalHold = False, rc_protectionIds = [], rc_withinHardRoots = True, rc_isSystemPath = False,
     rc_isLibraryRoot = False, rc_fileExists = True \<rparr>"

definition old_films :: policy_node where
  "old_films = All_of [Condition ''metadata.mediaKind'' ''eq'' (JStr ''movie'') False, Condition ''storage.addedAgeDays'' ''gt'' (JNum 365) False]"

theorem pushdown_keeps_matches_witness:
  "pushdown_loads (400 * 86400000 + 5) old_films (film_item ''drama'' 5)"
proof -
  have "er_outcome (evaluatePolicy small_policy_host old_films
      (assembleEvaluationFacts small_policy_host (400 * 86400000 + 6) (film_file 7) (film_item ''drama'' 5) calm_context)) = Matched"
    by code_simp
  then show ?thesis
    by (rule pushdown_keeps_matches [where c = 5]) (simp_all add: film_item_def film_file_def)
qed

text \<open>
  An item whose row is younger than its file: the policy matches, and the filter does not load it.
\<close>

lemma old_file_not_loaded:
  "let item = film_item ''drama'' (400 * 86400000); now = 441 * 86400000 in
   er_outcome (evaluatePolicy small_policy_host old_films (assembleEvaluationFacts small_policy_host now (film_file 5) item calm_context)) = Matched \<and>
   \<not> pushdown_loads now old_films item"
  by code_simp

text \<open>The age of a file is part of its fingerprint, which therefore changes every day by itself.\<close>

lemma fingerprint_ages:
  "fingerprint_of small_policy_host (400 * 86400000) old_films ''v'' (film_file 5) (film_item ''drama'' 5) calm_context \<noteq>
   fingerprint_of small_policy_host (401 * 86400000) old_films ''v'' (film_file 5) (film_item ''drama'' 5) calm_context"
  by code_simp

text \<open>A fact that is stored under another name than its condition is not part of the fingerprint.\<close>

lemma genre_not_pinned:
  "fingerprint_of small_policy_host t (Condition ''metadata.genre'' ''contains'' (JStr ''drama'') False) ''v'' (film_file 5) (film_item g c) ctx =
   fingerprint_of small_policy_host t (Condition ''metadata.genre'' ''contains'' (JStr ''drama'') False) ''v'' (film_file 5) (film_item g' c) ctx"
  by (simp add: fingerprint_of_def candidateFingerprint_def render_def flattenFacts_def assembleEvaluationFacts_def metadata_facts_def
      playback_group_def technical_facts_def storage_facts_def safety_facts_def film_item_def sort_strings_def isAmbiguous_def Let_def
      split: option.split)

text \<open>The two clauses of never watched differ, since the largest progress is rounded.\<close>

lemma almost_complete_is_watched:
  "let facts = aggregatePlays [\<lparr> hr_userName = None, hr_startedAt = 0, hr_stoppedAt = None, hr_watchedSeconds = None, hr_percentComplete = Some (896 / 10) \<rparr>] 90
   in pf_completedPlayCount facts = 0 \<and> \<not> isNeverWatched facts"
  by code_simp

end
