(* ===== verification/Lifecycles.thy ===== *)
theory Lifecycles
  imports Js_Prelude
begin

text \<open>
  The server-enforced lifecycles: the state machines of the workflow builder
  (\<^verbatim>\<open>workflows/domain/workflow-status.ts\<close>) and of the jobs center
  (\<^verbatim>\<open>jobs/platform/job-status.ts\<close>). A machine is its transition table; the runs of a
  machine are the sequences of moves its gate accepts.

  The locale \<open>lifecycle\<close> states what such a table promises, that a finished state has no
  way out and that every other state has a way closer to a finished one, and proves that
  finished states are absorbing and always reachable. It is interpreted on the four tables.
\<close>

section \<open>State machines\<close>

definition sm_isTerminal :: "('s \<Rightarrow> 's list) \<Rightarrow> 's \<Rightarrow> bool" where
  "sm_isTerminal moves s = (moves s = [])"

definition sm_canTransition :: "('s \<Rightarrow> 's list) \<Rightarrow> 's \<Rightarrow> 's \<Rightarrow> bool" where
  "sm_canTransition moves from to = (from = to \<or> to \<in> set (moves from))"

datatype 's transition_error = Invalid_transition string 's 's "string option"

definition sm_assertTransition ::
  "string \<Rightarrow> ('s \<Rightarrow> 's list) \<Rightarrow> 's \<Rightarrow> 's \<Rightarrow> string option \<Rightarrow> 's transition_error + unit" where
  "sm_assertTransition kind moves from to i =
     (if from \<noteq> to \<and> to \<notin> set (moves from) then Inl (Invalid_transition kind from to i) else Inr ())"

text \<open>The states a record passes through while every move goes through the gate.\<close>

inductive sm_run :: "('s \<Rightarrow> 's list) \<Rightarrow> 's \<Rightarrow> 's \<Rightarrow> bool" for moves where
  sm_refl: "sm_run moves s s"
| sm_move: "sm_run moves s t \<Longrightarrow> sm_assertTransition kind moves t u i = Inr () \<Longrightarrow> sm_run moves s u"

inductive_cases sm_runE: "sm_run moves s t"

lemma sm_assert_iff: "sm_assertTransition k moves a b i = Inr () \<longleftrightarrow> sm_canTransition moves a b"
  by (simp add: sm_assertTransition_def sm_canTransition_def)

lemma sm_run_trans: "sm_run moves t u \<Longrightarrow> sm_run moves s t \<Longrightarrow> sm_run moves s u"
  by (induction rule: sm_run.induct) (auto intro: sm_run.intros)

lemma sm_run_step: "u \<in> set (moves s) \<Longrightarrow> sm_run moves u v \<Longrightarrow> sm_run moves s v"
proof -
  assume u: "u \<in> set (moves s)" and run: "sm_run moves u v"
  have "sm_run moves s u"
    by (rule sm_move [OF sm_refl, where kind = "[]" and i = None])
      (simp add: sm_assertTransition_def u)
  then show "sm_run moves s v" using run sm_run_trans by metis
qed

locale lifecycle =
  fixes moves :: "'s \<Rightarrow> 's list" and finished :: "'s \<Rightarrow> bool" and dist :: "'s \<Rightarrow> nat"
  assumes finished_stuck: "finished s \<Longrightarrow> moves s = []"
    and closer: "\<not> finished s \<Longrightarrow> \<exists>t\<in>set (moves s). dist t < dist s"
begin

lemma terminal_iff: "sm_isTerminal moves s = finished s"
  using finished_stuck [of s] closer [of s] by (cases "finished s") (auto simp: sm_isTerminal_def)

lemma finished_absorbing: "sm_run moves s t \<Longrightarrow> finished s \<Longrightarrow> t = s"
proof (induction rule: sm_run.induct)
  case (sm_move s t kind u i)
  then have "t = s" "moves t = []" using finished_stuck by auto
  with sm_move show ?case by (simp add: sm_assertTransition_def split: if_splits)
qed simp

lemma reaches_finished: "\<exists>t. sm_run moves s t \<and> finished t"
proof (induction "dist s" arbitrary: s rule: less_induct)
  case less
  show ?case
  proof (cases "finished s")
    case True
    then show ?thesis by (blast intro: sm_refl)
  next
    case False
    then obtain t where "t \<in> set (moves s)" "dist t < dist s" using closer by blast
    with less show ?thesis by (blast intro: sm_run_step)
  qed
qed

text \<open>A finished record stays as it is and an unfinished one can still finish.\<close>

lemma fate:
  "(finished s \<longleftrightarrow> (\<forall>t. sm_run moves s t \<longrightarrow> t = s)) \<and> (\<exists>t. sm_run moves s t \<and> finished t)"
proof
  show "finished s \<longleftrightarrow> (\<forall>t. sm_run moves s t \<longrightarrow> t = s)"
    using finished_absorbing [of s] reaches_finished [of s] by blast
qed (rule reaches_finished)

end


section \<open>The workflow lifecycle\<close>

datatype workflow_status = WS_draft | WS_validation_failed | WS_ready | WS_published | WS_disabled
  | WS_archived

fun workflow_transitions :: "workflow_status \<Rightarrow> workflow_status list" where
  "workflow_transitions WS_draft = [WS_validation_failed, WS_ready, WS_archived]"
| "workflow_transitions WS_validation_failed = [WS_draft, WS_ready, WS_archived]"
| "workflow_transitions WS_ready = [WS_published, WS_draft, WS_validation_failed, WS_archived]"
| "workflow_transitions WS_published = [WS_disabled, WS_draft, WS_archived]"
| "workflow_transitions WS_disabled = [WS_published, WS_draft, WS_archived]"
| "workflow_transitions WS_archived = []"

interpretation workflow_sm: lifecycle workflow_transitions "\<lambda>s. s = WS_archived"
  "\<lambda>s. if s = WS_archived then 0 else 1"
proof
  fix s
  show "s \<noteq> WS_archived \<Longrightarrow> \<exists>t\<in>set (workflow_transitions s).
      (if t = WS_archived then 0 else 1) < (if s = WS_archived then 0 else 1 :: nat)"
    by (cases s) auto
qed simp


section \<open>The execution lifecycle\<close>

datatype execution_status =
  ES_scheduled | ES_queued | ES_running | ES_waiting | ES_waiting_for_event
| ES_waiting_for_approval | ES_paused | ES_retrying | ES_completed | ES_completed_with_warnings
| ES_failed | ES_cancelling | ES_cancelled | ES_expired

fun execution_transitions :: "execution_status \<Rightarrow> execution_status list" where
  "execution_transitions ES_scheduled = [ES_queued, ES_cancelled, ES_expired]"
| "execution_transitions ES_queued = [ES_running, ES_cancelled]"
| "execution_transitions ES_running =
     [ES_waiting, ES_waiting_for_event, ES_waiting_for_approval, ES_paused, ES_retrying,
      ES_completed, ES_completed_with_warnings, ES_failed, ES_cancelling]"
| "execution_transitions ES_waiting = [ES_running, ES_cancelling, ES_failed, ES_expired]"
| "execution_transitions ES_waiting_for_event = [ES_running, ES_cancelling, ES_failed, ES_expired]"
| "execution_transitions ES_waiting_for_approval = [ES_running, ES_cancelling, ES_failed, ES_expired]"
| "execution_transitions ES_paused = [ES_running, ES_cancelling]"
| "execution_transitions ES_retrying = [ES_queued, ES_running]"
| "execution_transitions ES_cancelling = [ES_cancelled]"
| "execution_transitions ES_completed = []"
| "execution_transitions ES_completed_with_warnings = []"
| "execution_transitions ES_failed = []"
| "execution_transitions ES_cancelled = []"
| "execution_transitions ES_expired = []"

definition EXECUTION_ACTIVE :: "execution_status \<Rightarrow> bool" where
  "EXECUTION_ACTIVE s = (\<not> sm_isTerminal execution_transitions s)"

definition execution_finished :: "execution_status \<Rightarrow> bool" where
  "execution_finished s \<longleftrightarrow>
     s \<in> {ES_completed, ES_completed_with_warnings, ES_failed, ES_cancelled, ES_expired}"

fun execution_dist :: "execution_status \<Rightarrow> nat" where
  "execution_dist ES_paused = 2"
| "execution_dist ES_retrying = 2"
| "execution_dist s = (if execution_finished s then 0 else 1)"

interpretation execution_sm: lifecycle execution_transitions execution_finished execution_dist
proof
  fix s
  show "execution_finished s \<Longrightarrow> execution_transitions s = []"
    by (cases s) (auto simp: execution_finished_def)
  show "\<not> execution_finished s \<Longrightarrow> \<exists>t\<in>set (execution_transitions s). execution_dist t < execution_dist s"
    by (cases s) (auto simp: execution_finished_def)
qed


section \<open>The node lifecycle\<close>

datatype node_status =
  NS_pending | NS_blocked | NS_queued | NS_running | NS_waiting | NS_succeeded
| NS_succeeded_with_warnings | NS_failed | NS_skipped | NS_retrying | NS_cancelled | NS_expired

fun node_transitions :: "node_status \<Rightarrow> node_status list" where
  "node_transitions NS_pending = [NS_blocked, NS_queued, NS_skipped, NS_cancelled]"
| "node_transitions NS_blocked = [NS_queued, NS_skipped, NS_cancelled]"
| "node_transitions NS_queued = [NS_running, NS_cancelled, NS_skipped]"
| "node_transitions NS_running =
     [NS_waiting, NS_succeeded, NS_succeeded_with_warnings, NS_failed, NS_retrying, NS_cancelled]"
| "node_transitions NS_waiting = [NS_running, NS_failed, NS_cancelled, NS_expired]"
| "node_transitions NS_retrying = [NS_queued, NS_running]"
| "node_transitions NS_succeeded = []"
| "node_transitions NS_succeeded_with_warnings = []"
| "node_transitions NS_failed = []"
| "node_transitions NS_skipped = []"
| "node_transitions NS_cancelled = []"
| "node_transitions NS_expired = []"

definition node_finished :: "node_status \<Rightarrow> bool" where
  "node_finished s \<longleftrightarrow>
     s \<in> {NS_succeeded, NS_succeeded_with_warnings, NS_failed, NS_skipped, NS_cancelled, NS_expired}"

fun node_dist :: "node_status \<Rightarrow> nat" where
  "node_dist NS_retrying = 2"
| "node_dist s = (if node_finished s then 0 else 1)"

interpretation node_sm: lifecycle node_transitions node_finished node_dist
proof
  fix s
  show "node_finished s \<Longrightarrow> node_transitions s = []"
    by (cases s) (auto simp: node_finished_def)
  show "\<not> node_finished s \<Longrightarrow> \<exists>t\<in>set (node_transitions s). node_dist t < node_dist s"
    by (cases s) (auto simp: node_finished_def)
qed


section \<open>The job lifecycle\<close>

datatype job_status =
  JS_scheduled | JS_queued | JS_waiting | JS_blocked | JS_running | JS_pausing | JS_paused
| JS_retrying | JS_completed | JS_completed_with_warnings | JS_failed | JS_cancelling
| JS_cancelled | JS_skipped | JS_expired

definition JOB_STATUSES :: "job_status list" where
  "JOB_STATUSES =
     [JS_scheduled, JS_queued, JS_waiting, JS_blocked, JS_running, JS_pausing, JS_paused,
      JS_retrying, JS_completed, JS_completed_with_warnings, JS_failed, JS_cancelling,
      JS_cancelled, JS_skipped, JS_expired]"

definition TERMINAL_STATUSES :: "job_status list" where
  "TERMINAL_STATUSES = [JS_completed, JS_completed_with_warnings, JS_cancelled, JS_skipped, JS_expired]"

definition ACTIVE_STATUSES :: "job_status list" where
  "ACTIVE_STATUSES =
     [JS_scheduled, JS_queued, JS_waiting, JS_blocked, JS_running, JS_pausing, JS_paused,
      JS_retrying, JS_cancelling]"

definition RUNNING_STATUSES :: "job_status list" where
  "RUNNING_STATUSES = [JS_running, JS_pausing, JS_cancelling]"

fun JOB_TRANSITIONS :: "job_status \<Rightarrow> job_status list" where
  "JOB_TRANSITIONS JS_scheduled = [JS_queued, JS_cancelled, JS_expired]"
| "JOB_TRANSITIONS JS_queued = [JS_running, JS_waiting, JS_blocked, JS_cancelled, JS_skipped]"
| "JOB_TRANSITIONS JS_waiting = [JS_queued, JS_blocked, JS_cancelled, JS_expired]"
| "JOB_TRANSITIONS JS_blocked = [JS_queued, JS_cancelled, JS_expired]"
| "JOB_TRANSITIONS JS_running =
     [JS_completed, JS_completed_with_warnings, JS_failed, JS_cancelling, JS_pausing]"
| "JOB_TRANSITIONS JS_pausing = [JS_paused, JS_running, JS_failed, JS_cancelling]"
| "JOB_TRANSITIONS JS_paused = [JS_queued, JS_running, JS_cancelled]"
| "JOB_TRANSITIONS JS_retrying = [JS_queued]"
| "JOB_TRANSITIONS JS_failed = [JS_retrying]"
| "JOB_TRANSITIONS JS_cancelling = [JS_cancelled]"
| "JOB_TRANSITIONS JS_completed = []"
| "JOB_TRANSITIONS JS_completed_with_warnings = []"
| "JOB_TRANSITIONS JS_cancelled = []"
| "JOB_TRANSITIONS JS_skipped = []"
| "JOB_TRANSITIONS JS_expired = []"

definition canTransition :: "job_status \<Rightarrow> job_status \<Rightarrow> bool" where
  "canTransition from to = (if from = to then True else to \<in> set (JOB_TRANSITIONS from))"

definition assertTransition ::
  "job_status \<Rightarrow> job_status \<Rightarrow> string option \<Rightarrow> job_status transition_error + unit" where
  "assertTransition from to jobId =
     (if \<not> canTransition from to then Inl (Invalid_transition ''job status'' from to jobId) else Inr ())"

definition isTerminal :: "job_status \<Rightarrow> bool" where
  "isTerminal s = (s \<in> set TERMINAL_STATUSES)"

definition isActive :: "job_status \<Rightarrow> bool" where
  "isActive s = (s \<in> set ACTIVE_STATUSES)"

lemma assertTransition_sm:
  "assertTransition a b i = sm_assertTransition ''job status'' JOB_TRANSITIONS a b i"
  by (simp add: assertTransition_def canTransition_def sm_assertTransition_def)

fun job_dist :: "job_status \<Rightarrow> nat" where
  "job_dist JS_failed = 3"
| "job_dist JS_retrying = 2"
| "job_dist JS_pausing = 2"
| "job_dist s = (if isTerminal s then 0 else 1)"

interpretation job_sm: lifecycle JOB_TRANSITIONS isTerminal job_dist
proof
  fix s
  show "isTerminal s \<Longrightarrow> JOB_TRANSITIONS s = []"
    by (cases s) (auto simp: isTerminal_def TERMINAL_STATUSES_def)
  show "\<not> isTerminal s \<Longrightarrow> \<exists>t\<in>set (JOB_TRANSITIONS s). job_dist t < job_dist s"
    by (cases s) (auto simp: isTerminal_def TERMINAL_STATUSES_def)
qed

text \<open>
  Finished work stays finished, and nothing is stuck. A workflow, an execution, a node run
  or a job whose every move passes its gate never leaves a terminal state; from every other
  state a terminal one can still be reached.
\<close>

theorem lifecycles_finish:
  "(ws = WS_archived \<longleftrightarrow> {t. sm_run workflow_transitions ws t} = {ws}) \<and>
   (\<exists>t. sm_run workflow_transitions ws t \<and> t = WS_archived) \<and>
   (execution_finished es \<longleftrightarrow> {t. sm_run execution_transitions es t} = {es}) \<and>
   (\<exists>t. sm_run execution_transitions es t \<and> execution_finished t) \<and>
   (node_finished ns \<longleftrightarrow> {t. sm_run node_transitions ns t} = {ns}) \<and>
   (\<exists>t. sm_run node_transitions ns t \<and> node_finished t) \<and>
   (isTerminal js \<longleftrightarrow> {t. sm_run JOB_TRANSITIONS js t} = {js}) \<and>
   (\<exists>t. sm_run JOB_TRANSITIONS js t \<and> isTerminal t)"
  using workflow_sm.fate [of ws] execution_sm.fate [of es] node_sm.fate [of ns] job_sm.fate [of js]
  by (simp add: set_eq_iff) (metis sm_run.simps)

text \<open>
  The three sets partition the job statuses, and cancelling can only end in cancelled; a pause
  that is under way may still fail or be resumed.
\<close>

lemma job_status_partition:
  "isTerminal s \<or> isActive s \<or> s = JS_failed" "\<not> (isTerminal s \<and> isActive s)"
  "\<not> isTerminal JS_failed" "\<not> isActive JS_failed" "set RUNNING_STATUSES \<subseteq> set ACTIVE_STATUSES"
  by (cases s; simp add: isTerminal_def isActive_def TERMINAL_STATUSES_def ACTIVE_STATUSES_def
      RUNNING_STATUSES_def)+

lemma cancelling_ends_cancelled:
  "sm_run JOB_TRANSITIONS JS_cancelling t \<Longrightarrow> t = JS_cancelling \<or> t = JS_cancelled"
  "sm_run execution_transitions ES_cancelling t' \<Longrightarrow> t' = ES_cancelling \<or> t' = ES_cancelled"
proof -
  have "sm_run JOB_TRANSITIONS s t \<Longrightarrow> s = JS_cancelling \<Longrightarrow> t = JS_cancelling \<or> t = JS_cancelled" for s
    by (induction rule: sm_run.induct) (auto simp: sm_assertTransition_def split: if_splits)
  then show "sm_run JOB_TRANSITIONS JS_cancelling t \<Longrightarrow> t = JS_cancelling \<or> t = JS_cancelled" by blast
  have "sm_run execution_transitions s t' \<Longrightarrow> s = ES_cancelling \<Longrightarrow> t' = ES_cancelling \<or> t' = ES_cancelled" for s
    by (induction rule: sm_run.induct) (auto simp: sm_assertTransition_def split: if_splits)
  then show "sm_run execution_transitions ES_cancelling t' \<Longrightarrow> t' = ES_cancelling \<or> t' = ES_cancelled" by blast
qed

lemma EXECUTION_ACTIVE_iff: "EXECUTION_ACTIVE s \<longleftrightarrow> \<not> execution_finished s"
  by (simp add: EXECUTION_ACTIVE_def execution_sm.terminal_iff)

end
