(* ===== verification/Wf_Service.thy ===== *)
theory Wf_Service
  imports Wf_Simulator Lifecycles
begin

text \<open>
  Drafts, versions and publishing: \<^verbatim>\<open>workflows/workflow.service.ts\<close>. The two tables are
  lists of rows; the ids of new rows (uuids in the code) are arguments. Columns that only record
  who and when, and the audit log, are left out. \<open>we_checksum\<close> (SHA-256 over canonical
  JSON) and \<open>we_bytes\<close> (the size of the graph as JSON) are parameters.

  The lemmas show the versioning invariants that the class states: one mutable draft, published
  versions validated and never changed, versions numbered without repetition.
\<close>

section \<open>Rows\<close>

datatype version_status = VS_draft | VS_ready | VS_validation_failed | VS_published

record version_row =
  vs_id :: string
  vs_workflowId :: string
  vs_versionNumber :: nat
  vs_status :: version_status
  vs_graph :: workflow_graph
  vs_checksum :: string
  vs_triggers :: "string list option"
  vs_requiredPermissions :: "string list"
  vs_changeNotes :: "string option"

record workflow_row =
  wf_id :: string
  wf_name :: string
  wf_description :: "string option"
  wf_workspaceKey :: "string option"
  wf_tags :: "string list"
  wf_status :: workflow_status
  wf_enabled :: bool
  wf_currentDraftVersionId :: "string option"
  wf_publishedVersionId :: "string option"

record workflow_db =
  wd_workflows :: "workflow_row list"
  wd_versions :: "version_row list"
  wd_executions :: "(string \<times> execution_status) list"

record workflow_env =
  we_registry :: node_registry
  we_num_str :: "rat \<Rightarrow> string"
  we_checksum :: "workflow_graph \<Rightarrow> string"
  we_bytes :: "workflow_graph \<Rightarrow> nat"

datatype workflow_error =
  WE_http http_error
| WE_unprocessable validation_result
| WE_transition "workflow_status transition_error"

definition MAX_GRAPH_BYTES :: nat where "MAX_GRAPH_BYTES = 512 * 1024"

definition EMPTY_GRAPH :: workflow_graph where
  "EMPTY_GRAPH = \<lparr> wg_schemaVersion = 1, wg_nodes = [], wg_edges = [] \<rparr>"

definition find_workflow :: "workflow_db \<Rightarrow> string \<Rightarrow> workflow_row option" where
  "find_workflow db i = find (\<lambda>w. wf_id w = i) (wd_workflows db)"

definition find_version :: "workflow_db \<Rightarrow> string \<Rightarrow> version_row option" where
  "find_version db i = find (\<lambda>v. vs_id v = i) (wd_versions db)"

definition update_workflow_row :: "string \<Rightarrow> (workflow_row \<Rightarrow> workflow_row) \<Rightarrow> workflow_db \<Rightarrow> workflow_db" where
  "update_workflow_row i f db =
     db \<lparr> wd_workflows := map (\<lambda>w. if wf_id w = i then f w else w) (wd_workflows db) \<rparr>"

definition update_version_row :: "string \<Rightarrow> (version_row \<Rightarrow> version_row) \<Rightarrow> workflow_db \<Rightarrow> workflow_db" where
  "update_version_row i f db =
     db \<lparr> wd_versions := map (\<lambda>v. if vs_id v = i then f v else v) (wd_versions db) \<rparr>"


section \<open>Operations\<close>

definition mustExist :: "workflow_db \<Rightarrow> string \<Rightarrow> workflow_error + workflow_row" where
  "mustExist db i =
     (case find_workflow db i of
        None \<Rightarrow> Inl (WE_http (Not_found ''Workflow not found''))
      | Some w \<Rightarrow> if wf_status w = WS_archived then Inl (WE_http (Forbidden ''Workflow is archived''))
                  else Inr w)"

definition assertGraphSize :: "workflow_env \<Rightarrow> workflow_graph \<Rightarrow> workflow_error + unit" where
  "assertGraphSize env g =
     res_check (we_bytes env g \<le> MAX_GRAPH_BYTES) (WE_http (Bad_request ''Graph exceeds the 524288-byte limit''))"

definition validate_for :: "workflow_env \<Rightarrow> string set \<Rightarrow> string option \<Rightarrow> workflow_graph \<Rightarrow> validation_result" where
  "validate_for env granted self g =
     validateWorkflowGraph (we_num_str env) g (we_registry env)
       \<lparr> vo_grantedPermissions = Some granted, vo_enabledModules = None, vo_selfWorkflowId = self \<rparr>"

definition collectRequiredPermissions :: "workflow_env \<Rightarrow> workflow_graph \<Rightarrow> string list" where
  "collectRequiredPermissions env g =
     set_list (concat (map (\<lambda>n. case we_registry env (wn_type n) of
                                  None \<Rightarrow> []
                                | Some d \<Rightarrow> (case nd_requiredPermission d of
                                               None \<Rightarrow> [] | Some p \<Rightarrow> if p = [] then [] else [p]))
                           (wg_nodes g)))"

definition summarizeTriggers :: "workflow_env \<Rightarrow> workflow_graph \<Rightarrow> string list" where
  "summarizeTriggers env g = map wn_type (triggers_of (we_registry env) (wg_nodes g))"

definition create_workflow ::
  "workflow_env \<Rightarrow> string \<Rightarrow> string \<Rightarrow> string \<times> string option \<times> string option \<times> string list option \<Rightarrow>
   workflow_db \<Rightarrow> workflow_db" where
  "create_workflow env newWf newVer = (\<lambda>(name, description, workspaceKey, tags) db.
     db \<lparr> wd_workflows := wd_workflows db @
            [\<lparr> wf_id = newWf, wf_name = name, wf_description = description,
               wf_workspaceKey = workspaceKey, wf_tags = (case tags of None \<Rightarrow> [] | Some ts \<Rightarrow> ts),
               wf_status = WS_draft, wf_enabled = False,
               wf_currentDraftVersionId = Some newVer, wf_publishedVersionId = None \<rparr>],
          wd_versions := wd_versions db @
            [\<lparr> vs_id = newVer, vs_workflowId = newWf, vs_versionNumber = 1, vs_status = VS_draft,
               vs_graph = EMPTY_GRAPH, vs_checksum = we_checksum env EMPTY_GRAPH, vs_triggers = None,
               vs_requiredPermissions = [], vs_changeNotes = None \<rparr>] \<rparr>)"

text \<open>A field of the update is absent (\<open>None\<close>) or given, and a given column may be null.\<close>

record update_workflow_dto =
  ud_name :: "string option"
  ud_description :: "string option option"
  ud_workspaceKey :: "string option option"
  ud_tags :: "string list option"

definition updateMeta ::
  "string \<Rightarrow> update_workflow_dto \<Rightarrow> workflow_db \<Rightarrow> workflow_error + workflow_db" where
  "updateMeta i dto db =
     res_bind (mustExist db i) (\<lambda>_.
       Inr (update_workflow_row i (\<lambda>w. w \<lparr>
         wf_name := (case ud_name dto of None \<Rightarrow> wf_name w | Some x \<Rightarrow> x),
         wf_description := (case ud_description dto of None \<Rightarrow> wf_description w | Some x \<Rightarrow> x),
         wf_workspaceKey := (case ud_workspaceKey dto of None \<Rightarrow> wf_workspaceKey w | Some x \<Rightarrow> x),
         wf_tags := (case ud_tags dto of None \<Rightarrow> wf_tags w | Some x \<Rightarrow> x) \<rparr>) db))"

definition max_version :: "workflow_db \<Rightarrow> string \<Rightarrow> nat" where
  "max_version db i = fold max (map vs_versionNumber (filter (\<lambda>v. vs_workflowId v = i) (wd_versions db))) 0"

definition open_draft :: "workflow_db \<Rightarrow> workflow_row \<Rightarrow> version_row option" where
  "open_draft db w =
     (case wf_currentDraftVersionId w of
        None \<Rightarrow> None
      | Some d \<Rightarrow> (case find_version db d of
                     None \<Rightarrow> None
                   | Some v \<Rightarrow> if vs_status v \<noteq> VS_published then Some v else None))"

definition fork_draft :: "workflow_env \<Rightarrow> workflow_db \<Rightarrow> workflow_row \<Rightarrow> string \<Rightarrow> version_row" where
  "fork_draft env db w newVer =
     (let base = (case wf_publishedVersionId w of None \<Rightarrow> None | Some p \<Rightarrow> find_version db p)
      in \<lparr> vs_id = newVer, vs_workflowId = wf_id w, vs_versionNumber = max_version db (wf_id w) + 1,
           vs_status = VS_draft,
           vs_graph = (case base of None \<Rightarrow> EMPTY_GRAPH | Some v \<Rightarrow> vs_graph v),
           vs_checksum = (case base of None \<Rightarrow> we_checksum env EMPTY_GRAPH | Some v \<Rightarrow> vs_checksum v),
           vs_triggers = None, vs_requiredPermissions = [], vs_changeNotes = None \<rparr>)"

definition ensureDraftVersion ::
  "workflow_env \<Rightarrow> string \<Rightarrow> workflow_row \<Rightarrow> workflow_db \<Rightarrow> version_row \<times> workflow_db" where
  "ensureDraftVersion env newVer w db =
     (case open_draft db w of
        Some v \<Rightarrow> (v, db)
      | None \<Rightarrow>
          (let d = fork_draft env db w newVer
           in (d, update_workflow_row (wf_id w) (\<lambda>x. x \<lparr> wf_currentDraftVersionId := Some newVer \<rparr>)
                    (db \<lparr> wd_versions := wd_versions db @ [d] \<rparr>))))"

definition saveDraft ::
  "workflow_env \<Rightarrow> string \<Rightarrow> string \<Rightarrow> workflow_graph \<Rightarrow> string option \<Rightarrow> string set \<Rightarrow> workflow_db \<Rightarrow>
   workflow_error + workflow_db" where
  "saveDraft env newVer i g changeNotes granted db =
     res_bind (mustExist db i) (\<lambda>w.
     res_bind (assertGraphSize env g) (\<lambda>_.
       (let valid = vr_valid (validate_for env granted (Some i) g);
            (d, db1) = ensureDraftVersion env newVer w db;
            db2 = update_version_row (vs_id d) (\<lambda>v. v \<lparr>
                    vs_graph := g, vs_checksum := we_checksum env g,
                    vs_status := (if valid then VS_ready else VS_validation_failed),
                    vs_triggers := Some (summarizeTriggers env g),
                    vs_requiredPermissions := collectRequiredPermissions env g,
                    vs_changeNotes := (case changeNotes of None \<Rightarrow> vs_changeNotes d | Some c \<Rightarrow> Some c) \<rparr>) db1
        in Inr (update_workflow_row i (\<lambda>x. x \<lparr> wf_status := (if valid then WS_ready else WS_validation_failed) \<rparr>) db2))))"

definition publish ::
  "workflow_env \<Rightarrow> string \<Rightarrow> string option \<Rightarrow> string set \<Rightarrow> workflow_db \<Rightarrow> workflow_error + workflow_db" where
  "publish env i changeNotes granted db =
     res_bind (mustExist db i) (\<lambda>w.
       (case wf_currentDraftVersionId w of
          None \<Rightarrow> Inl (WE_http (Bad_request ''No draft changes to publish''))
        | Some di \<Rightarrow>
            (case find_version db di of
               None \<Rightarrow> Inl (WE_http (Bad_request ''Draft version missing''))
             | Some d \<Rightarrow>
                 (let validation = validate_for env granted (Some i) (vs_graph d)
                  in if \<not> vr_valid validation then Inl (WE_unprocessable validation)
                     else Inr (update_workflow_row i (\<lambda>x. x \<lparr>
                                 wf_status := WS_published, wf_publishedVersionId := Some (vs_id d),
                                 wf_currentDraftVersionId := None, wf_enabled := True \<rparr>)
                               (update_version_row (vs_id d) (\<lambda>v. v \<lparr>
                                 vs_status := VS_published,
                                 vs_changeNotes := (case changeNotes of None \<Rightarrow> vs_changeNotes d | Some c \<Rightarrow> Some c),
                                 vs_requiredPermissions := collectRequiredPermissions env (vs_graph d) \<rparr>) db))))))"

definition gate :: "workflow_status \<Rightarrow> workflow_status \<Rightarrow> workflow_error + unit" where
  "gate a b = map_sum WE_transition id (sm_assertTransition ''workflow'' workflow_transitions a b None)"

definition setEnabled :: "string \<Rightarrow> bool \<Rightarrow> workflow_db \<Rightarrow> workflow_error + workflow_db" where
  "setEnabled i enabled db =
     res_bind (mustExist db i) (\<lambda>w.
       if enabled \<and> wf_publishedVersionId w = None
         then Inl (WE_http (Bad_request ''Publish the workflow before enabling it''))
       else if wf_enabled w = enabled then Inr db
       else (let nxt = (if enabled then WS_published else WS_disabled)
             in res_bind (gate (wf_status w) nxt) (\<lambda>_.
                  Inr (update_workflow_row i (\<lambda>x. x \<lparr> wf_enabled := enabled, wf_status := nxt \<rparr>) db))))"

definition archive :: "string \<Rightarrow> workflow_db \<Rightarrow> workflow_error + workflow_db" where
  "archive i db =
     res_bind (mustExist db i) (\<lambda>w.
     res_bind (gate (wf_status w) WS_archived) (\<lambda>_.
       Inr (update_workflow_row i (\<lambda>x. x \<lparr> wf_status := WS_archived, wf_enabled := False \<rparr>) db)))"

definition active_for_removal :: "execution_status list" where
  "active_for_removal = [ES_queued, ES_scheduled, ES_running, ES_retrying, ES_waiting,
     ES_waiting_for_event, ES_waiting_for_approval, ES_paused, ES_cancelling]"

definition remove_workflow :: "string \<Rightarrow> workflow_db \<Rightarrow> workflow_error + workflow_db" where
  "remove_workflow i db =
     res_bind (mustExist db i) (\<lambda>_.
     res_bind (res_check (\<not> list_ex (\<lambda>(w, s). w = i \<and> s \<in> set active_for_removal) (wd_executions db))
                 (WE_http (Bad_request ''Cannot delete a workflow with active execution(s)''))) (\<lambda>_.
       Inr (db \<lparr> wd_workflows := filter (\<lambda>w. wf_id w \<noteq> i) (wd_workflows db),
                 wd_versions := filter (\<lambda>v. vs_workflowId v \<noteq> i) (wd_versions db),
                 wd_executions := filter (\<lambda>(w, s). w \<noteq> i) (wd_executions db) \<rparr>)))"

definition simulate ::
  "workflow_env \<Rightarrow> sim_env \<Rightarrow> string \<Rightarrow> workflow_graph option \<Rightarrow> (string \<times> jsval) list \<Rightarrow> string set \<Rightarrow>
   workflow_db \<Rightarrow> workflow_error + (validation_result \<times> (string + simulation_result))" where
  "simulate env senv i override vars granted db =
     res_bind (mustExist db i) (\<lambda>w.
     res_bind
       (case override of
          Some g \<Rightarrow> res_bind (assertGraphSize env g) (\<lambda>_. Inr g)
        | None \<Rightarrow>
            (case or_else (wf_currentDraftVersionId w) (wf_publishedVersionId w) of
               None \<Rightarrow> Inl (WE_http (Bad_request ''Workflow has no graph to simulate''))
             | Some vi \<Rightarrow>
                 (case find_version db vi of
                    None \<Rightarrow> Inl (WE_http (Bad_request ''Workflow graph not found''))
                  | Some v \<Rightarrow> Inr (vs_graph v))))
       (\<lambda>g. Inr (validate_for env granted (Some i) g, simulateWorkflow senv g vars)))"


section \<open>Requests and what they keep\<close>

datatype workflow_request =
  Req_create string string "string \<times> string option \<times> string option \<times> string list option"
| Req_meta string update_workflow_dto
| Req_save string string workflow_graph "string option" "string set"
| Req_publish string "string option" "string set"
| Req_enable string bool
| Req_archive string
| Req_remove string

fun handle_request :: "workflow_env \<Rightarrow> workflow_request \<Rightarrow> workflow_db \<Rightarrow> workflow_error + workflow_db" where
  "handle_request env (Req_create newWf newVer dto) db = Inr (create_workflow env newWf newVer dto db)"
| "handle_request env (Req_meta i dto) db = updateMeta i dto db"
| "handle_request env (Req_save newVer i g c granted) db = saveDraft env newVer i g c granted db"
| "handle_request env (Req_publish i c granted) db = publish env i c granted db"
| "handle_request env (Req_enable i b) db = setEnabled i b db"
| "handle_request env (Req_archive i) db = archive i db"
| "handle_request env (Req_remove i) db = remove_workflow i db"

text \<open>New ids are fresh.\<close>

fun fresh_ids :: "workflow_request \<Rightarrow> workflow_db \<Rightarrow> bool" where
  "fresh_ids (Req_create newWf newVer dto) db \<longleftrightarrow>
     newWf \<notin> wf_id ` set (wd_workflows db) \<and> newVer \<notin> vs_id ` set (wd_versions db)"
| "fresh_ids (Req_save newVer i g c granted) db \<longleftrightarrow> newVer \<notin> vs_id ` set (wd_versions db)"
| "fresh_ids _ db \<longleftrightarrow> True"

text \<open>A refused request changes nothing; requests arrive in any order.\<close>

inductive workflow_run :: "workflow_env \<Rightarrow> workflow_db \<Rightarrow> workflow_request list \<Rightarrow> workflow_db \<Rightarrow> bool"
  for env where
  run_none: "workflow_run env db [] db"
| run_accepted: "fresh_ids r db \<Longrightarrow> handle_request env r db = Inr db1 \<Longrightarrow> workflow_run env db1 rs db2 \<Longrightarrow>
     workflow_run env db (r # rs) db2"
| run_refused: "handle_request env r db = Inl e \<Longrightarrow> workflow_run env db rs db2 \<Longrightarrow>
     workflow_run env db (r # rs) db2"

type_synonym pointers = "string \<times> string option \<times> string option"

definition pointers_of :: "workflow_db \<Rightarrow> pointers list" where
  "pointers_of db = map (\<lambda>w. (wf_id w, wf_publishedVersionId w, wf_currentDraftVersionId w)) (wd_workflows db)"

definition pointer_ok :: "version_row list \<Rightarrow> pointers \<Rightarrow> bool" where
  "pointer_ok vs = (\<lambda>(i, pub, draft).
     (\<forall>x. pub = Some x \<longrightarrow> (\<exists>v\<in>set vs. vs_id v = x \<and> vs_workflowId v = i \<and> vs_status v = VS_published)) \<and>
     (\<forall>x. draft = Some x \<longrightarrow> (\<exists>v\<in>set vs. vs_id v = x \<and> vs_workflowId v = i \<and> vs_status v \<noteq> VS_published)))"

definition version_ok :: "workflow_env \<Rightarrow> pointers list \<Rightarrow> version_row \<Rightarrow> bool" where
  "version_ok env ps v \<longleftrightarrow>
     (if vs_status v = VS_published
      then \<exists>granted. publishable (we_num_str env) (vs_graph v) (we_registry env)
             \<lparr> vo_grantedPermissions = Some granted, vo_enabledModules = None,
               vo_selfWorkflowId = Some (vs_workflowId v) \<rparr>
      else \<exists>pub. (vs_workflowId v, pub, Some (vs_id v)) \<in> set ps) \<and>
     vs_workflowId v \<in> fst ` set ps"

definition versions_inv :: "workflow_env \<Rightarrow> pointers list \<Rightarrow> version_row list \<Rightarrow> bool" where
  "versions_inv env ps vs \<longleftrightarrow>
     distinct (map fst ps) \<and> distinct (map vs_id vs) \<and>
     distinct (map (\<lambda>v. (vs_workflowId v, vs_versionNumber v)) vs) \<and>
     (\<forall>p\<in>set ps. pointer_ok vs p) \<and> (\<forall>v\<in>set vs. version_ok env ps v)"

definition workflow_inv :: "workflow_env \<Rightarrow> workflow_db \<Rightarrow> bool" where
  "workflow_inv env db \<longleftrightarrow> versions_inv env (pointers_of db) (wd_versions db)"

lemma mustExist_Inr:
  "mustExist db i = Inr w \<Longrightarrow> w \<in> set (wd_workflows db) \<and> wf_id w = i"
  by (auto simp: mustExist_def find_workflow_def find_Some_iff split: option.splits if_splits)

lemma versions_update_workflow [simp]: "wd_versions (update_workflow_row i f db) = wd_versions db"
  by (simp add: update_workflow_row_def)

lemma pointers_same:
  assumes "\<And>w. wf_id (f w) = wf_id w \<and> wf_publishedVersionId (f w) = wf_publishedVersionId w \<and>
      wf_currentDraftVersionId (f w) = wf_currentDraftVersionId w"
  shows "pointers_of (update_workflow_row i f db) = pointers_of db"
  using assms by (simp add: update_workflow_row_def pointers_of_def)

lemma pointers_update_version [simp]:
  "pointers_of (update_version_row i f db) = pointers_of db"
  "wd_versions (update_version_row i f db) = map (\<lambda>v. if vs_id v = i then f v else v) (wd_versions db)"
  by (simp_all add: update_version_row_def pointers_of_def)

text \<open>Only the version with id \<open>d\<close> changes, and it keeps its place.\<close>

lemma versions_inv_update:
  assumes inv: "versions_inv env ps vs"
    and keys: "\<And>v. vs_id (f v) = vs_id v \<and> vs_workflowId (f v) = vs_workflowId v \<and> vs_versionNumber (f v) = vs_versionNumber v"
    and ids: "map fst ps' = map fst ps"
    and ptr: "\<And>p. p \<in> set ps' \<Longrightarrow> pointer_ok (map (\<lambda>v. if vs_id v = d then f v else v) vs) p"
    and ver: "\<And>v. v \<in> set vs \<Longrightarrow> version_ok env ps' (if vs_id v = d then f v else v)"
  shows "versions_inv env ps' (map (\<lambda>v. if vs_id v = d then f v else v) vs)"
proof -
  let ?u = "\<lambda>v. if vs_id v = d then f v else v"
  have "map vs_id (map ?u vs) = map vs_id vs" using keys by simp
  moreover have "map (\<lambda>v. (vs_workflowId v, vs_versionNumber v)) (map ?u vs) =
      map (\<lambda>v. (vs_workflowId v, vs_versionNumber v)) vs" using keys by simp
  ultimately show ?thesis using inv ids ptr ver unfolding versions_inv_def by (metis (no_types, lifting) imageE list.set_map)
qed

lemma pointer_of_row:
  "w \<in> set (wd_workflows db) \<Longrightarrow>
   (wf_id w, wf_publishedVersionId w, wf_currentDraftVersionId w) \<in> set (pointers_of db)"
  by (auto simp: pointers_of_def)

lemma pointer_unique:
  "distinct (map fst ps) \<Longrightarrow> (i, a, b) \<in> set ps \<Longrightarrow> (i, c, d) \<in> set ps \<Longrightarrow> a = c \<and> b = d"
  by (auto dest: eq_key_imp_eq_value)

lemma version_unique:
  "distinct (map vs_id vs) \<Longrightarrow> u \<in> set vs \<Longrightarrow> v \<in> set vs \<Longrightarrow> vs_id u = vs_id v \<Longrightarrow> u = v"
  by (auto simp: distinct_map dest: inj_onD)

lemma find_version_Some:
  "find_version db x = Some v \<Longrightarrow> v \<in> set (wd_versions db) \<and> vs_id v = x"
  by (auto simp: find_version_def find_Some_iff)

lemma find_version_exists:
  "v \<in> set (wd_versions db) \<Longrightarrow> vs_id v = x \<Longrightarrow> find_version db x \<noteq> None"
  by (auto simp: find_version_def find_None_iff)

lemma max_version_bound:
  "v \<in> set (wd_versions db) \<Longrightarrow> vs_workflowId v = i \<Longrightarrow> vs_versionNumber v \<le> max_version db i"
proof -
  have "x \<in> set xs \<Longrightarrow> x \<le> fold max xs m" for x :: nat and xs m
  proof (induction xs arbitrary: m)
    case (Cons y ys)
    have mono: "k \<le> fold max zs k" for k :: nat and zs
      by (induction zs arbitrary: k) (auto intro: order_trans [OF max.cobounded2])
    show ?case using Cons mono [of "max y m" ys] by auto
  qed simp
  then show "v \<in> set (wd_versions db) \<Longrightarrow> vs_workflowId v = i \<Longrightarrow> vs_versionNumber v \<le> max_version db i"
    by (auto simp: max_version_def)
qed

lemma open_draft_pointer:
  assumes "versions_inv env (pointers_of db) (wd_versions db)" and "w \<in> set (wd_workflows db)"
  shows "open_draft db w = None \<longleftrightarrow> wf_currentDraftVersionId w = None"
    and "open_draft db w = Some d \<Longrightarrow> d \<in> set (wd_versions db) \<and> vs_status d \<noteq> VS_published \<and>
           vs_workflowId d = wf_id w \<and> wf_currentDraftVersionId w = Some (vs_id d)"
proof -
  have ptr: "pointer_ok (wd_versions db) (wf_id w, wf_publishedVersionId w, wf_currentDraftVersionId w)"
    using assms pointer_of_row [OF assms(2)] by (auto simp: versions_inv_def)
  have dist: "distinct (map vs_id (wd_versions db))" using assms(1) by (simp add: versions_inv_def)
  have found: "\<exists>v. find_version db x = Some v \<and> v \<in> set (wd_versions db) \<and> vs_id v = x \<and>
      vs_status v \<noteq> VS_published \<and> vs_workflowId v = wf_id w"
    if draft: "wf_currentDraftVersionId w = Some x" for x
  proof -
    obtain v where v: "v \<in> set (wd_versions db)" "vs_id v = x" "vs_workflowId v = wf_id w" "vs_status v \<noteq> VS_published"
      using ptr draft by (auto simp: pointer_ok_def)
    then obtain u where u: "find_version db x = Some u" using find_version_exists by blast
    then have "u = v" using v version_unique [OF dist] find_version_Some [OF u] by blast
    with u v show ?thesis by blast
  qed
  show "open_draft db w = None \<longleftrightarrow> wf_currentDraftVersionId w = None"
    using found by (fastforce simp: open_draft_def split: option.splits)
  show "open_draft db w = Some d \<Longrightarrow> d \<in> set (wd_versions db) \<and> vs_status d \<noteq> VS_published \<and>
      vs_workflowId d = wf_id w \<and> wf_currentDraftVersionId w = Some (vs_id d)"
    using found by (fastforce simp: open_draft_def split: option.splits if_splits)
qed

lemma pointer_ok_mono: "pointer_ok vs p \<Longrightarrow> set vs \<subseteq> set vs' \<Longrightarrow> pointer_ok vs' p"
  by (fastforce simp: pointer_ok_def split: prod.splits)

lemma version_ok_append: "version_ok env ps v \<Longrightarrow> version_ok env (ps @ [p]) v"
  by (auto simp: version_ok_def)

lemma create_inv:
  assumes "workflow_inv env db" and "fresh_ids (Req_create newWf newVer dto) db"
  shows "workflow_inv env (create_workflow env newWf newVer dto db)"
proof -
  obtain name description ws tags where dto: "dto = (name, description, ws, tags)" by (cases dto)
  let ?db = "create_workflow env newWf newVer dto db"
  obtain v where vs: "wd_versions ?db = wd_versions db @ [v]"
    and v: "vs_id v = newVer" "vs_workflowId v = newWf" "vs_status v = VS_draft"
    by (simp add: create_workflow_def dto)
  have ps: "pointers_of ?db = pointers_of db @ [(newWf, None, Some newVer)]"
    by (simp add: create_workflow_def dto pointers_of_def)
  have new: "newWf \<notin> fst ` set (pointers_of db)" using assms(2) by (auto simp: pointers_of_def image_image)
  have old: "versions_inv env (pointers_of db) (wd_versions db)" using assms(1) by (simp add: workflow_inv_def)
  have "newWf \<notin> vs_workflowId ` set (wd_versions db)"
    using old new by (auto simp: versions_inv_def version_ok_def)
  then have "distinct (map (\<lambda>v. (vs_workflowId v, vs_versionNumber v)) (wd_versions db @ [v]))"
    using old v(2) by (auto simp: versions_inv_def)
  moreover have "\<forall>p\<in>set (pointers_of db @ [(newWf, None, Some newVer)]). pointer_ok (wd_versions db @ [v]) p"
    using old v pointer_ok_mono [of "wd_versions db" _ "wd_versions db @ [v]"]
    by (auto simp: versions_inv_def pointer_ok_def)
  moreover have "\<forall>u\<in>set (wd_versions db @ [v]). version_ok env (pointers_of db @ [(newWf, None, Some newVer)]) u"
  proof
    fix u assume "u \<in> set (wd_versions db @ [v])"
    then consider "u \<in> set (wd_versions db)" | "u = v" by auto
    then show "version_ok env (pointers_of db @ [(newWf, None, Some newVer)]) u"
    proof cases
      case 1
      then show ?thesis using old by (intro version_ok_append) (simp add: versions_inv_def)
    next
      case 2
      then show ?thesis using v by (auto simp: version_ok_def intro!: exI [of _ None])
    qed
  qed
  moreover have "distinct (map fst (pointers_of db @ [(newWf, None, Some newVer)]))"
    "distinct (map vs_id (wd_versions db @ [v]))"
    using old new assms(2) v(1) by (auto simp: versions_inv_def)
  ultimately show ?thesis unfolding workflow_inv_def versions_inv_def ps vs by blast
qed

lemma pointers_set_draft:
  assumes "distinct (map wf_id (wd_workflows db))" and "w \<in> set (wd_workflows db)"
  shows "set (pointers_of (update_workflow_row (wf_id w) f db)) =
           set (pointers_of db) - {(wf_id w, wf_publishedVersionId w, wf_currentDraftVersionId w)} \<union>
           {(wf_id (f w), wf_publishedVersionId (f w), wf_currentDraftVersionId (f w))}"
    and "(\<And>x. wf_id (f x) = wf_id x) \<Longrightarrow>
         map fst (pointers_of (update_workflow_row i f db)) = map fst (pointers_of db)"
proof -
  let ?ptr = "\<lambda>x. (wf_id x, wf_publishedVersionId x, wf_currentDraftVersionId x)"
  have inj: "inj_on wf_id (set (wd_workflows db))" using assms(1) by (simp add: distinct_map)
  then have ptr: "inj_on ?ptr (set (wd_workflows db))" by (auto simp: inj_on_def)
  have only: "x = w" if "x \<in> set (wd_workflows db)" "wf_id x = wf_id w" for x
    using that assms(2) inj by (auto dest: inj_onD)
  have rows: "(\<lambda>x. if wf_id x = wf_id w then f x else x) ` set (wd_workflows db) = insert (f w) (set (wd_workflows db) - {w})"
  proof (intro equalityI subsetI)
    fix y assume "y \<in> (\<lambda>x. if wf_id x = wf_id w then f x else x) ` set (wd_workflows db)"
    then obtain x where x: "x \<in> set (wd_workflows db)" "y = (if wf_id x = wf_id w then f x else x)" by blast
    then show "y \<in> insert (f w) (set (wd_workflows db) - {w})" using only [OF x(1)] by (auto split: if_splits)
  next
    fix y assume "y \<in> insert (f w) (set (wd_workflows db) - {w})"
    then show "y \<in> (\<lambda>x. if wf_id x = wf_id w then f x else x) ` set (wd_workflows db)"
      using only assms(2) by (cases "y \<in> set (wd_workflows db) - {w}") (auto intro: rev_image_eqI)
  qed
  have "set (wd_workflows (update_workflow_row (wf_id w) f db)) = insert (f w) (set (wd_workflows db) - {w})"
    unfolding rows [symmetric] by (simp add: update_workflow_row_def del: if_image_distrib)
  moreover have "set (pointers_of x) = ?ptr ` set (wd_workflows x)" for x :: workflow_db
    by (simp add: pointers_of_def)
  ultimately have "set (pointers_of (update_workflow_row (wf_id w) f db)) =
      insert (?ptr (f w)) (?ptr ` (set (wd_workflows db) - {w}))" by simp
  moreover have "?ptr ` (set (wd_workflows db) - {w}) = ?ptr ` set (wd_workflows db) - {?ptr w}"
    using inj_on_image_set_diff [OF ptr, of "set (wd_workflows db)" "{w}"] assms(2) by simp
  ultimately show "set (pointers_of (update_workflow_row (wf_id w) f db)) =
      set (pointers_of db) - {?ptr w} \<union> {?ptr (f w)}"
    by (simp add: pointers_of_def)
qed (simp add: update_workflow_row_def pointers_of_def)

lemma ids_distinct: "workflow_inv env db \<Longrightarrow> distinct (map wf_id (wd_workflows db))"
  by (simp add: workflow_inv_def versions_inv_def pointers_of_def comp_def)

text \<open>After \<^verbatim>\<open>ensureDraftVersion\<close> the workflow has an unpublished draft; nothing else moved.\<close>

lemma ensureDraftVersion_spec:
  assumes inv: "workflow_inv env db" and w: "w \<in> set (wd_workflows db)"
    and fresh: "newVer \<notin> vs_id ` set (wd_versions db)"
    and res: "ensureDraftVersion env newVer w db = (d, db1)"
  shows "workflow_inv env db1" and "d \<in> set (wd_versions db1)" and "vs_status d \<noteq> VS_published"
    and "set (wd_versions db) \<subseteq> set (wd_versions db1)" and "vs_workflowId d = wf_id w"
    and "(wf_id w, wf_publishedVersionId w, Some (vs_id d)) \<in> set (pointers_of db1)"
proof -
  have old: "versions_inv env (pointers_of db) (wd_versions db)" using inv by (simp add: workflow_inv_def)
  note draft = open_draft_pointer [OF old w]
  have "workflow_inv env db1 \<and> d \<in> set (wd_versions db1) \<and> vs_status d \<noteq> VS_published \<and>
      set (wd_versions db) \<subseteq> set (wd_versions db1) \<and> vs_workflowId d = wf_id w \<and>
      (wf_id w, wf_publishedVersionId w, Some (vs_id d)) \<in> set (pointers_of db1)"
  proof (cases "open_draft db w")
    case (Some v)
    then show ?thesis using res draft(2) [OF Some] inv pointer_of_row [OF w]
      by (simp add: ensureDraftVersion_def)
  next
    case None
    let ?f = "\<lambda>x. x \<lparr> wf_currentDraftVersionId := Some newVer \<rparr>"
    have d: "d = fork_draft env db w newVer"
      and db1: "db1 = update_workflow_row (wf_id w) ?f (db \<lparr> wd_versions := wd_versions db @ [d] \<rparr>)"
      using res None by (auto simp: ensureDraftVersion_def Let_def)
    have row: "vs_id d = newVer" "vs_workflowId d = wf_id w" "vs_status d = VS_draft"
        "vs_versionNumber d = max_version db (wf_id w) + 1"
      by (simp_all add: d fork_draft_def Let_def)
    have none: "wf_currentDraftVersionId w = None" using draft(1) None by simp
    have ps: "set (pointers_of db1) = set (pointers_of db) - {(wf_id w, wf_publishedVersionId w, None)} \<union>
        {(wf_id w, wf_publishedVersionId w, Some newVer)}"
      using pointers_set_draft(1) [of "db \<lparr> wd_versions := wd_versions db @ [d] \<rparr>" w ?f] w ids_distinct [OF inv] none
      unfolding db1 by (simp add: pointers_of_def)
    have fsts: "map fst (pointers_of db1) = map fst (pointers_of db)"
      unfolding db1 by (simp add: pointers_of_def update_workflow_row_def)
    have vs: "wd_versions db1 = wd_versions db @ [d]" unfolding db1 by simp
    have "(vs_workflowId d, vs_versionNumber d) \<notin> (\<lambda>v. (vs_workflowId v, vs_versionNumber v)) ` set (wd_versions db)"
      using max_version_bound [of _ db "wf_id w"] row(2,4) by force
    then have "distinct (map (\<lambda>v. (vs_workflowId v, vs_versionNumber v)) (wd_versions db1))"
      using old by (simp add: vs versions_inv_def)
    moreover have "\<forall>p\<in>set (pointers_of db1). pointer_ok (wd_versions db1) p"
    proof
      fix p assume "p \<in> set (pointers_of db1)"
      then consider "p \<in> set (pointers_of db)" | "p = (wf_id w, wf_publishedVersionId w, Some newVer)"
        unfolding ps by blast
      then show "pointer_ok (wd_versions db1) p"
      proof cases
        case 1
        then have "pointer_ok (wd_versions db) p" using old by (simp add: versions_inv_def)
        then show ?thesis by (rule pointer_ok_mono) (simp add: vs subset_iff)
      next
        case 2
        have "pointer_ok (wd_versions db) (wf_id w, wf_publishedVersionId w, None)"
          using old pointer_of_row [OF w] none by (auto simp: versions_inv_def)
        then show ?thesis using 2 row by (auto simp: pointer_ok_def vs)
      qed
    qed
    moreover have "version_ok env (pointers_of db1) u" if u: "u \<in> set (wd_versions db1)" for u
    proof (cases "u = d")
      case True
      then show ?thesis using row ps by (auto simp: version_ok_def image_iff intro!: bexI)
    next
      case False
      then have "version_ok env (pointers_of db) u" using u old by (simp add: vs versions_inv_def)
      moreover have "fst ` set (pointers_of db1) = fst ` set (pointers_of db)"
        using fsts by (metis list.set_map)
      ultimately show ?thesis by (auto simp: version_ok_def ps split: if_splits)
    qed
    ultimately have "workflow_inv env db1"
      using old fsts fresh row(1) by (auto simp: workflow_inv_def versions_inv_def vs)
    then show ?thesis using row ps by (simp add: vs subset_iff)
  qed
  then show "workflow_inv env db1" "d \<in> set (wd_versions db1)" "vs_status d \<noteq> VS_published"
    "set (wd_versions db) \<subseteq> set (wd_versions db1)" "vs_workflowId d = wf_id w"
    "(wf_id w, wf_publishedVersionId w, Some (vs_id d)) \<in> set (pointers_of db1)" by blast+
qed

text \<open>Rewriting the draft keeps the invariant and every published version.\<close>

lemma rewrite_draft_inv:
  assumes inv: "versions_inv env ps vs" and d: "d \<in> set vs" "vs_status d \<noteq> VS_published"
    and keys: "\<And>v. vs_id (f v) = vs_id v \<and> vs_workflowId (f v) = vs_workflowId v \<and>
        vs_versionNumber (f v) = vs_versionNumber v \<and> vs_status (f v) \<noteq> VS_published"
  shows "versions_inv env ps (map (\<lambda>v. if vs_id v = vs_id d then f v else v) vs)"
proof (rule versions_inv_update [OF inv])
  have dist: "distinct (map vs_id vs)" using inv by (simp add: versions_inv_def)
  fix p assume p: "p \<in> set ps"
  obtain i pub draft where [simp]: "p = (i, pub, draft)" by (cases p)
  have ok: "pointer_ok vs (i, pub, draft)" using inv p by (simp add: versions_inv_def)
  let ?u = "\<lambda>v. if vs_id v = vs_id d then f v else v"
  have "\<exists>v\<in>set (map ?u vs). vs_id v = x \<and> vs_workflowId v = i \<and> vs_status v = VS_published" if x: "pub = Some x" for x
  proof -
    obtain v where v: "v \<in> set vs" "vs_id v = x" "vs_workflowId v = i" "vs_status v = VS_published"
      using ok x by (auto simp: pointer_ok_def)
    then have "vs_id v \<noteq> vs_id d" using version_unique [OF dist v(1) d(1)] d(2) by auto
    then show ?thesis using v by (intro bexI [of _ "?u v"]) auto
  qed
  moreover have "\<exists>v\<in>set (map ?u vs). vs_id v = x \<and> vs_workflowId v = i \<and> vs_status v \<noteq> VS_published"
    if x: "draft = Some x" for x
  proof -
    obtain v where v: "v \<in> set vs" "vs_id v = x" "vs_workflowId v = i" "vs_status v \<noteq> VS_published"
      using ok x by (auto simp: pointer_ok_def)
    then show ?thesis using keys by (intro bexI [of _ "?u v"]) auto
  qed
  ultimately show "pointer_ok (map ?u vs) p" by (simp add: pointer_ok_def)
next
  fix v assume v: "v \<in> set vs"
  then have ok: "version_ok env ps v" using inv by (simp add: versions_inv_def)
  have dist: "distinct (map vs_id vs)" using inv by (simp add: versions_inv_def)
  show "version_ok env ps (if vs_id v = vs_id d then f v else v)"
  proof (cases "vs_id v = vs_id d")
    case True
    then have "v = d" using version_unique [OF dist v d(1)] by simp
    then show ?thesis using ok keys d(2) by (simp add: version_ok_def)
  qed (use ok in simp)
qed (use keys in auto)

lemma frozen_update:
  assumes "distinct (map vs_id vs)" and "d \<in> set vs" "vs_status d \<noteq> VS_published"
    and "v \<in> set vs" "vs_status v = VS_published"
  shows "v \<in> set (map (\<lambda>v. if vs_id v = vs_id d then f v else v) vs)"
proof -
  have "vs_id v \<noteq> vs_id d" using version_unique [OF assms(1,4,2)] assms(3,5) by auto
  then show ?thesis using assms(4) by (auto simp: image_iff intro!: bexI [of _ v])
qed

lemma saveDraft_keeps:
  assumes inv: "workflow_inv env db" and fresh: "newVer \<notin> vs_id ` set (wd_versions db)"
    and res: "saveDraft env newVer i g c granted db = Inr db'"
  shows "workflow_inv env db' \<and> {v \<in> set (wd_versions db). vs_status v = VS_published} \<subseteq> set (wd_versions db')"
proof -
  obtain w where w: "mustExist db i = Inr w" using res by (auto simp: saveDraft_def res_bind_Inr_iff)
  obtain d db1 where e: "ensureDraftVersion env newVer w db = (d, db1)" by fastforce
  have row: "w \<in> set (wd_workflows db)" using mustExist_Inr [OF w] by simp
  note spec = ensureDraftVersion_spec [OF inv row fresh e]
  define f where "f = (\<lambda>v :: version_row. v \<lparr> vs_graph := g, vs_checksum := we_checksum env g,
      vs_status := (if vr_valid (validate_for env granted (Some i) g) then VS_ready else VS_validation_failed),
      vs_triggers := Some (summarizeTriggers env g),
      vs_requiredPermissions := collectRequiredPermissions env g,
      vs_changeNotes := (case c of None \<Rightarrow> vs_changeNotes d | Some x \<Rightarrow> Some x) \<rparr>)"
  have db': "\<exists>h. db' = update_workflow_row i (\<lambda>x. x \<lparr> wf_status := h \<rparr>) (update_version_row (vs_id d) f db1)"
    using res w e by (auto simp: saveDraft_def res_bind_Inr_iff Let_def f_def)
  then have vs: "wd_versions db' = map (\<lambda>v. if vs_id v = vs_id d then f v else v) (wd_versions db1)"
    and ps: "pointers_of db' = pointers_of db1"
    by (auto simp: pointers_same)
  have old: "versions_inv env (pointers_of db1) (wd_versions db1)" using spec(1) by (simp add: workflow_inv_def)
  have "versions_inv env (pointers_of db1) (map (\<lambda>v. if vs_id v = vs_id d then f v else v) (wd_versions db1))"
    using old spec(2,3) by (rule rewrite_draft_inv) (simp add: f_def)
  moreover have "{v \<in> set (wd_versions db). vs_status v = VS_published} \<subseteq>
      set (map (\<lambda>v. if vs_id v = vs_id d then f v else v) (wd_versions db1))"
    using frozen_update [OF _ spec(2,3)] spec(4) old unfolding versions_inv_def by blast
  ultimately show ?thesis unfolding workflow_inv_def vs ps by simp
qed

lemma publish_keeps:
  assumes inv: "workflow_inv env db" and res: "publish env i c granted db = Inr db'"
  shows "workflow_inv env db' \<and> {v \<in> set (wd_versions db). vs_status v = VS_published} \<subseteq> set (wd_versions db')"
proof -
  obtain w where w: "mustExist db i = Inr w" using res by (auto simp: publish_def res_bind_Inr_iff)
  note res' = res [unfolded publish_def w res_bind_simps Let_def]
  obtain di where di: "wf_currentDraftVersionId w = Some di"
    using res' by (cases "wf_currentDraftVersionId w") simp_all
  obtain d where d: "find_version db di = Some d" using res' di by (cases "find_version db di") simp_all
  have valid: "vr_valid (validate_for env granted (Some i) (vs_graph d))"
    using res' di d by (simp split: if_splits)
  define f where "f = (\<lambda>v :: version_row. v \<lparr> vs_status := VS_published,
      vs_changeNotes := (case c of None \<Rightarrow> vs_changeNotes d | Some x \<Rightarrow> Some x),
      vs_requiredPermissions := collectRequiredPermissions env (vs_graph d) \<rparr>)"
  define h where "h = (\<lambda>x :: workflow_row. x \<lparr> wf_status := WS_published, wf_publishedVersionId := Some (vs_id d),
      wf_currentDraftVersionId := None, wf_enabled := True \<rparr>)"
  have db': "db' = update_workflow_row i h (update_version_row (vs_id d) f db)"
    using res' di d valid by (simp add: f_def h_def)
  have row: "w \<in> set (wd_workflows db)" and wid: "wf_id w = i" using mustExist_Inr [OF w] by simp_all
  have old: "versions_inv env (pointers_of db) (wd_versions db)" using inv by (simp add: workflow_inv_def)
  have dist: "distinct (map vs_id (wd_versions db))" and ids: "distinct (map fst (pointers_of db))"
    using old by (simp_all add: versions_inv_def)
  have dv: "d \<in> set (wd_versions db)" "vs_id d = di" using find_version_Some [OF d] by simp_all
  have ptr: "(i, wf_publishedVersionId w, Some (vs_id d)) \<in> set (pointers_of db)"
    using pointer_of_row [OF row] di dv(2) wid by simp
  then have "pointer_ok (wd_versions db) (i, wf_publishedVersionId w, Some (vs_id d))"
    using old unfolding versions_inv_def by blast
  then obtain u where "u \<in> set (wd_versions db)" "vs_id u = vs_id d" "vs_workflowId u = i" "vs_status u \<noteq> VS_published"
    by (auto simp: pointer_ok_def)
  then have draft: "vs_workflowId d = i" "vs_status d \<noteq> VS_published"
    using version_unique [OF dist _ dv(1)] by blast+
  have vs: "wd_versions db' = map (\<lambda>v. if vs_id v = vs_id d then f v else v) (wd_versions db)" by (simp add: db')
  have ps: "set (pointers_of db') =
      set (pointers_of db) - {(i, wf_publishedVersionId w, Some (vs_id d))} \<union> {(i, Some (vs_id d), None)}"
    using pointers_set_draft(1) [of "update_version_row (vs_id d) f db" w h] ids_distinct [OF inv] row di dv(2)
    by (simp add: db' wid h_def update_version_row_def) (simp add: pointers_of_def)
  have fsts: "map fst (pointers_of db') = map fst (pointers_of db)"
    by (simp add: db' update_workflow_row_def update_version_row_def pointers_of_def h_def)
  have not_i: "j \<noteq> i" if "(j, a, b) \<in> set (pointers_of db)" "(j, a, b) \<noteq> (i, wf_publishedVersionId w, Some (vs_id d))" for j a b
    using that ptr pointer_unique [OF ids ptr] by blast
  have "versions_inv env (pointers_of db') (wd_versions db')" unfolding vs
  proof (rule versions_inv_update [OF old _ fsts])
    fix p assume p: "p \<in> set (pointers_of db')"
    obtain j a b where jab: "p = (j, a, b)" by (cases p)
    consider (w) "p = (i, Some (vs_id d), None)" | (other) j a b where
        "p = (j, a, b)" "(j, a, b) \<in> set (pointers_of db)" "j \<noteq> i"
    proof (cases "p = (i, Some (vs_id d), None)")
      case False
      then have "(j, a, b) \<in> set (pointers_of db)" "(j, a, b) \<noteq> (i, wf_publishedVersionId w, Some (vs_id d))"
        using p unfolding ps jab by blast+
      then show ?thesis using that(2) [OF jab] not_i [of j a b] by blast
    qed (use that in blast)
    then show "pointer_ok (map (\<lambda>v. if vs_id v = vs_id d then f v else v) (wd_versions db)) p"
    proof cases
      case w
      have "f d \<in> set (map (\<lambda>v. if vs_id v = vs_id d then f v else v) (wd_versions db))"
        using dv(1) by (auto simp: image_iff intro!: bexI [of _ d])
      moreover have "vs_id (f d) = vs_id d \<and> vs_workflowId (f d) = i \<and> vs_status (f d) = VS_published"
        using draft(1) by (simp add: f_def)
      ultimately show ?thesis unfolding w pointer_ok_def by blast
    next
      case other
      have keep: "v \<in> set (map (\<lambda>v. if vs_id v = vs_id d then f v else v) (wd_versions db))"
        if "v \<in> set (wd_versions db)" "vs_workflowId v = j" for v
      proof -
        have "vs_id v \<noteq> vs_id d" using version_unique [OF dist that(1) dv(1)] that(2) draft(1) other(3) by auto
        then show ?thesis using that(1) by (auto simp: image_iff intro!: bexI [of _ v])
      qed
      have "pointer_ok (wd_versions db) (j, a, b)" using old other(2) by (simp add: versions_inv_def)
      then show ?thesis using keep other(1) by (fastforce simp: pointer_ok_def)
    qed
  next
    fix v assume v: "v \<in> set (wd_versions db)"
    then have ok: "version_ok env (pointers_of db) v" using old by (simp add: versions_inv_def)
    have known: "fst ` set (pointers_of db') = fst ` set (pointers_of db)" using fsts by (metis list.set_map)
    show "version_ok env (pointers_of db') (if vs_id v = vs_id d then f v else v)"
    proof (cases "vs_id v = vs_id d")
      case True
      then have "v = d" using version_unique [OF dist v dv(1)] by simp
      moreover have "publishable (we_num_str env) (vs_graph d) (we_registry env)
          \<lparr> vo_grantedPermissions = Some granted, vo_enabledModules = None, vo_selfWorkflowId = Some (vs_workflowId d) \<rparr>"
        using valid draft(1) by (simp add: validate_for_def validate_publishable)
      ultimately show ?thesis using ok known True by (auto simp: version_ok_def f_def)
    next
      case False
      show ?thesis
      proof (cases "vs_status v = VS_published")
        case True
        then show ?thesis using ok known False by (simp add: version_ok_def)
      next
        case unpublished: False
        then obtain pub where "(vs_workflowId v, pub, Some (vs_id v)) \<in> set (pointers_of db)"
          using ok by (auto simp: version_ok_def)
        then have "(vs_workflowId v, pub, Some (vs_id v)) \<in> set (pointers_of db')" using False by (auto simp: ps)
        then show ?thesis using ok known False unpublished by (auto simp: version_ok_def)
      qed
    qed
  qed (simp add: f_def)
  moreover have "{v \<in> set (wd_versions db). vs_status v = VS_published} \<subseteq> set (wd_versions db')"
    unfolding vs using frozen_update [OF dist dv(1) draft(2)] by blast
  ultimately show ?thesis by (simp add: workflow_inv_def)
qed

lemma remove_keeps:
  assumes inv: "workflow_inv env db" and res: "remove_workflow i db = Inr db'"
  shows "workflow_inv env db' \<and> {v \<in> set (wd_versions db). vs_workflowId v \<noteq> i} \<subseteq> set (wd_versions db')"
proof -
  have ws: "wd_workflows db' = filter (\<lambda>w. wf_id w \<noteq> i) (wd_workflows db)"
    and vs: "wd_versions db' = filter (\<lambda>v. vs_workflowId v \<noteq> i) (wd_versions db)"
    using res by (auto simp: remove_workflow_def res_bind_Inr_iff)
  have ps: "pointers_of db' = filter (\<lambda>p. fst p \<noteq> i) (pointers_of db)"
    by (simp add: pointers_of_def ws filter_map comp_def)
  have old: "versions_inv env (pointers_of db) (wd_versions db)" using inv by (simp add: workflow_inv_def)
  have "pointer_ok (wd_versions db') p" if "p \<in> set (pointers_of db')" for p
  proof -
    obtain j a b where p: "p = (j, a, b)" by (cases p)
    then have "pointer_ok (wd_versions db) (j, a, b)" "j \<noteq> i" using that old by (auto simp: ps versions_inv_def)
    then show ?thesis by (fastforce simp: p pointer_ok_def vs)
  qed
  moreover have "version_ok env (pointers_of db') v" if "v \<in> set (wd_versions db')" for v
  proof -
    have "version_ok env (pointers_of db) v" "vs_workflowId v \<noteq> i" using that old by (auto simp: vs versions_inv_def)
    then show ?thesis by (auto simp: version_ok_def ps image_iff split: if_splits) blast
  qed
  ultimately have "workflow_inv env db'"
    using old by (simp add: workflow_inv_def versions_inv_def ps vs distinct_map_filter)
  then show ?thesis by (auto simp: vs)
qed

lemma pointers_only_keeps:
  assumes "workflow_inv env db" and "pointers_of db' = pointers_of db" and "wd_versions db' = wd_versions db"
  shows "workflow_inv env db' \<and> set (wd_versions db) \<subseteq> set (wd_versions db')"
  using assms by (simp add: workflow_inv_def)

lemma request_keeps:
  assumes inv: "workflow_inv env db" and fresh: "fresh_ids r db" and res: "handle_request env r db = Inr db'"
  shows "workflow_inv env db' \<and>
    {v \<in> set (wd_versions db). vs_status v = VS_published \<and> r \<noteq> Req_remove (vs_workflowId v)} \<subseteq> set (wd_versions db')"
proof (cases r)
  case (Req_create newWf newVer dto)
  then show ?thesis using create_inv [OF inv, of newWf newVer dto] fresh res
    by (auto simp: create_workflow_def split: prod.splits)
next
  case (Req_meta i dto)
  then have "\<exists>f. db' = update_workflow_row i f db \<and> (\<forall>w. wf_id (f w) = wf_id w \<and>
      wf_publishedVersionId (f w) = wf_publishedVersionId w \<and> wf_currentDraftVersionId (f w) = wf_currentDraftVersionId w)"
    using res by (auto simp: updateMeta_def res_bind_Inr_iff)
  then show ?thesis using pointers_only_keeps [OF inv, of db'] pointers_same by auto
next
  case (Req_save newVer i g c granted)
  then show ?thesis using saveDraft_keeps [OF inv, of newVer i g c granted db'] fresh res by auto
next
  case (Req_publish i c granted)
  then show ?thesis using publish_keeps [OF inv, of i c granted db'] res by auto
next
  case (Req_enable i b)
  then have "db' = db \<or> (\<exists>s. db' = update_workflow_row i (\<lambda>x. x \<lparr> wf_enabled := b, wf_status := s \<rparr>) db)"
    using res by (auto simp: setEnabled_def res_bind_Inr_iff Let_def split: if_splits)
  then show ?thesis using pointers_only_keeps [OF inv, of db'] inv pointers_same by auto
next
  case (Req_archive i)
  then have "db' = update_workflow_row i (\<lambda>x. x \<lparr> wf_status := WS_archived, wf_enabled := False \<rparr>) db"
    using res by (auto simp: archive_def res_bind_Inr_iff)
  then show ?thesis using pointers_only_keeps [OF inv, of db'] pointers_same by auto
next
  case (Req_remove i)
  then show ?thesis using remove_keeps [OF inv, of i db'] res by auto
qed

text \<open>
  C18. Published versions are validated and immutable. However drafts are saved, published,
  enabled, archived and removed, a version that is published stays exactly as it is until its
  workflow is deleted; every published graph passed the gate; a workflow has at most one
  unpublished version, its draft; and version numbers never repeat. Running executions can thus
  rely on the version they are pinned to.
\<close>

theorem published_versions_frozen:
  assumes "workflow_run env db rs db'" and "workflow_inv env db"
  shows "workflow_inv env db' \<and>
    {v \<in> set (wd_versions db). vs_status v = VS_published \<and> Req_remove (vs_workflowId v) \<notin> set rs}
      \<subseteq> set (wd_versions db')"
  using assms
proof (induction rule: workflow_run.induct)
  case (run_accepted r db db1 rs db2)
  note step = request_keeps [OF run_accepted.prems run_accepted.hyps(1,2)]
  then show ?case using run_accepted.IH by auto
qed auto

definition demo_workflow_env :: workflow_env where
  "demo_workflow_env = \<lparr> we_registry = demo_registry, we_num_str = (\<lambda>_. ''1''),
     we_checksum = (\<lambda>_. ''sum''), we_bytes = (\<lambda>_. 100) \<rparr>"

definition empty_db :: workflow_db where
  "empty_db = \<lparr> wd_workflows = [], wd_versions = [], wd_executions = [] \<rparr>"

theorem published_versions_frozen_witness:
  "\<exists>db'. workflow_run demo_workflow_env empty_db
     [Req_create ''w'' ''v1'' (''demo'', None, None, None), Req_save ''v2'' ''w'' EMPTY_GRAPH None {}] db' \<and>
     workflow_inv demo_workflow_env db'"
proof -
  let ?c = "Req_create ''w'' ''v1'' (''demo'', None, None, None)" and ?s = "Req_save ''v2'' ''w'' EMPTY_GRAPH None {}"
  define db1 where "db1 = create_workflow demo_workflow_env ''w'' ''v1'' (''demo'', None, None, None) empty_db"
  have one: "handle_request demo_workflow_env ?c empty_db = Inr db1" "fresh_ids ?c empty_db"
    by (simp_all add: db1_def empty_db_def)
  have "\<exists>db2. handle_request demo_workflow_env ?s db1 = Inr db2"
    by (simp add: db1_def create_workflow_def empty_db_def saveDraft_def mustExist_def find_workflow_def
        assertGraphSize_def res_check_def demo_workflow_env_def MAX_GRAPH_BYTES_def Let_def split_beta)
  then obtain db2 where two: "handle_request demo_workflow_env ?s db1 = Inr db2" by blast
  have "fresh_ids ?s db1" by (simp add: db1_def create_workflow_def empty_db_def)
  from run_accepted [OF one(2,1) run_accepted [OF this two run_none]]
  have run: "workflow_run demo_workflow_env empty_db [?c, ?s] db2" .
  have "workflow_inv demo_workflow_env empty_db"
    by (simp add: workflow_inv_def versions_inv_def pointers_of_def empty_db_def)
  from published_versions_frozen [OF run this] run show ?thesis by blast
qed

text \<open>
  Saving a draft of an enabled workflow moves its status to ready or validation failed, from
  where the state machine has no way to disabled: until it is published again, the workflow
  cannot be switched off.
\<close>

lemma edited_workflow_stays_enabled:
  assumes "find_workflow db i = Some w" and "wf_enabled w" and "wf_status w \<in> {WS_ready, WS_validation_failed}"
  shows "\<exists>e. setEnabled i False db = Inl (WE_transition e)"
  using assms by (auto simp: setEnabled_def mustExist_def gate_def sm_assertTransition_def)

end
