(* ===== verification/Wf_Execution.thy ===== *)
theory Wf_Execution
  imports Wf_Service
begin

text \<open>
  One run of the durable executor: \<^verbatim>\<open>runExecution\<close>, \<^verbatim>\<open>processNode\<close> and
  \<^verbatim>\<open>dispatchAction\<close> of \<^verbatim>\<open>workflows/workflow-execution.service.ts\<close>, with the
  permissions of \<^verbatim>\<open>domain/action-metadata.ts\<close>.

  Every change of a node's state is written through to the database, so the state of a run is
  one map \<open>rn_states\<close>, which a restarted process reads back. Actions of the automation
  engine are calls of a host: with the rendered parameters, the context and the time limit they
  answer with an error or success and change the world of the host. The mirror of a run in the
  jobs center, logging, audit and events are left out. A JavaScript exception that leaves the
  run is \<open>Run_threw\<close>. An input whose own \<^verbatim>\<open>vars\<close> is not an object makes
  a variable node throw.

  The lemmas show that a run ends within its iteration bound, that no node is dispatched twice
  and only with the permission of the run's identity, and what a completed run has done.
\<close>

section \<open>Permissions of actions\<close>

definition ACTION_PERMISSION :: "string \<rightharpoonup> string" where
  "ACTION_PERMISSION = map_of
     [(''move'', ''torrents.move''), (''pause'', ''torrents.pause''), (''stop'', ''torrents.stop''),
      (''delete'', ''torrents.delete''), (''delete_with_data'', ''torrents.delete_data''),
      (''rename_for_media'', ''media_manager.rename''), (''media_scan_library'', ''media_manager.scan''),
      (''media_match'', ''media_manager.match''),
      (''media_fetch_metadata'', ''media_manager.edit_metadata''),
      (''media_fetch_artwork'', ''media_manager.manage_artwork''),
      (''media_generate_nfo'', ''media_manager.generate_nfo''), (''media_rename'', ''media_manager.rename''),
      (''media_move'', ''media_manager.move_files''),
      (''media_server_refresh'', ''media_manager.manage_integrations''),
      (''media_run_duplicate_scan'', ''media_manager.scan''),
      (''media_ignore_duplicate_group'', ''media_manager.delete''),
      (''media_duplicate_report'', ''media_manager.view''),
      (''subtitle_scan_missing'', ''subtitle_intelligence.search''),
      (''subtitle_download'', ''subtitle_intelligence.download''),
      (''refresh_rss_show_status'', ''rss.manage''), (''disable_rss_rule'', ''rss.manage''),
      (''convert_rule_to_backfill'', ''rss.manage'')]"

record identity_grant =
  ig_superAdmin :: bool
  ig_permissions :: "string set"

definition permitted :: "identity_grant option \<Rightarrow> string \<Rightarrow> bool" where
  "permitted grant actionId =
     (case (grant, ACTION_PERMISSION actionId) of
        (Some g, Some required) \<Rightarrow> ig_superAdmin g \<or> required \<in> ig_permissions g
      | _ \<Rightarrow> True)"


section \<open>One node\<close>

record 'w exec_host =
  xh_action :: "string \<Rightarrow> (string \<times> jsval) list \<Rightarrow> jsval \<Rightarrow> rat \<Rightarrow> 'w \<Rightarrow> (string + unit) \<times> 'w"
  xh_cancelling :: "'w \<Rightarrow> bool"

record exec_env =
  xe_sim :: sim_env
  xe_grant :: "identity_grant option"

record 'w run_state =
  rn_states :: run_states
  rn_context :: "(string \<times> jsval) list"
  rn_world :: 'w

record node_outcome =
  no_status :: node_run_status
  no_firedPorts :: "string list"
  no_handled :: bool

definition succeeded :: "string list \<Rightarrow> node_outcome" where
  "succeeded ports = \<lparr> no_status = NR_succeeded, no_firedPorts = ports, no_handled = False \<rparr>"

definition action_failed :: "bool \<Rightarrow> node_outcome" where
  "action_failed hasFailureEdge =
     \<lparr> no_status = NR_failed, no_firedPorts = (if hasFailureEdge then [''failure''] else []),
       no_handled = hasFailureEdge \<rparr>"

text \<open>The attempts of an action; a fractional maximum allows its integral part.\<close>

definition max_attempts :: "workflow_node \<Rightarrow> nat" where
  "max_attempts node = nat \<lfloor>max 1 (case wn_maxAttempts node of None \<Rightarrow> 1 | Some m \<Rightarrow> m)\<rfloor>"

fun try_action ::
  "'w exec_host \<Rightarrow> string \<Rightarrow> (string \<times> jsval) list \<Rightarrow> jsval \<Rightarrow> rat \<Rightarrow> nat \<Rightarrow> 'w \<Rightarrow> bool \<times> 'w" where
  "try_action h a params ctx ms 0 w = (False, w)"
| "try_action h a params ctx ms (Suc n) w =
     (case xh_action h a params ctx ms w of
        (Inr _, w') \<Rightarrow> (True, w')
      | (Inl _, w') \<Rightarrow> try_action h a params ctx ms n w')"

definition dispatchAction ::
  "exec_env \<Rightarrow> 'w exec_host \<Rightarrow> workflow_node \<Rightarrow> string option \<Rightarrow> bool \<Rightarrow> (string \<times> jsval) list \<Rightarrow> 'w \<Rightarrow>
   node_outcome \<times> 'w" where
  "dispatchAction env h node actionId hasFailureEdge context w =
     (case actionId of
        None \<Rightarrow> (action_failed False, w)
      | Some a \<Rightarrow>
          if a = [] then (action_failed False, w)
          else if \<not> permitted (xe_grant env) a then (action_failed hasFailureEdge, w)
          else
            (let params = renderConfig (se_num_str (xe_sim env))
                            (case wn_config node of None \<Rightarrow> [] | Some c \<Rightarrow> c) (JObj context);
                 ms = (case wn_timeoutSeconds node of None \<Rightarrow> 0 | Some s \<Rightarrow> s) * 1000;
                 (ok, w') = try_action h a params (JObj context) ms (max_attempts node) w
             in (if ok then succeeded [''out''] else action_failed hasFailureEdge, w')))"

text \<open>A port that is not a string names no edge.\<close>

definition string_ports :: "jsval \<Rightarrow> string list" where
  "string_ports p = (case p of JStr s \<Rightarrow> [s] | _ \<Rightarrow> [])"

definition set_variable :: "string \<Rightarrow> jsval \<Rightarrow> (string \<times> jsval) list \<Rightarrow> string + (string \<times> jsval) list" where
  "set_variable key v context =
     (case get_prop context ''vars'' of
        JObj vars \<Rightarrow> Inr (context @ [(''vars'', JObj (AList.update key v vars))])
      | _ \<Rightarrow> Inl type_error)"

definition processNode ::
  "exec_env \<Rightarrow> 'w exec_host \<Rightarrow> workflow_node \<Rightarrow> bool \<Rightarrow> 'w run_state \<Rightarrow>
   string + (node_outcome \<times> 'w run_state)" where
  "processNode env h node hasFailureEdge rn =
     (let senv = xe_sim env; d = se_registry senv (wn_type node); context = rn_context rn;
          outs = (case d of None \<Rightarrow> [''out''] | Some x \<Rightarrow> np_outputs (nd_ports x))
      in case map_option nd_category d of
           Some NC_trigger \<Rightarrow> Inr (succeeded [''out''], rn)
         | Some NC_condition \<Rightarrow>
             (case readCondition node of
                None \<Rightarrow> Inr (succeeded [''true''], rn)
              | Some (fld, op, v) \<Rightarrow>
                  map_sum id (\<lambda>b. (succeeded [if b then ''true'' else ''false''], rn))
                    (condition_holds senv fld op v (JObj context)))
         | Some NC_branch \<Rightarrow>
             map_sum id (\<lambda>p. (succeeded (string_ports p), rn)) (chooseBranch senv node (JObj context) outs)
         | Some NC_variable \<Rightarrow>
             (let key = js_string (se_num_str senv) (coalesce (config_value node ''key'') (JStr []))
              in if key = [] then Inr (succeeded [''out''], rn)
                 else map_sum id (\<lambda>c. (succeeded [''out''], rn \<lparr> rn_context := c \<rparr>))
                        (set_variable key (renderValue (se_num_str senv) (config_value node ''value'') (JObj context))
                           context))
         | Some NC_end \<Rightarrow> Inr (succeeded [], rn)
         | Some NC_action \<Rightarrow>
             (case dispatchAction env h node (case d of None \<Rightarrow> None | Some x \<Rightarrow> nd_actionId x)
                     hasFailureEdge context (rn_world rn) of
                (oc, w) \<Rightarrow> Inr (oc, rn \<lparr> rn_world := w \<rparr>))
         | _ \<Rightarrow> Inr (succeeded (if outs = [] then [''out''] else outs), rn))"


section \<open>The run loop\<close>

datatype 'w run_end =
  Run_cancelled
| Run_finished bool
| Run_parked workflow_node
| Run_threw string
| Run_exhausted

definition PAUSING :: "node_category list" where
  "PAUSING = [NC_delay, NC_wait, NC_approval, NC_subworkflow]"

definition pauses :: "node_registry \<Rightarrow> workflow_node \<Rightarrow> bool" where
  "pauses registry node \<longleftrightarrow>
     (case registry (wn_type node) of None \<Rightarrow> False | Some d \<Rightarrow> nd_category d \<in> set PAUSING)"

definition set_node :: "string \<Rightarrow> node_run_status \<Rightarrow> string list \<Rightarrow> 'w run_state \<Rightarrow> 'w run_state" where
  "set_node v s ports rn =
     rn \<lparr> rn_states := (rn_states rn)(v \<mapsto> \<lparr> nr_status = s, nr_firedPorts = ports \<rparr>) \<rparr>"

definition failureBranchNodes :: "workflow_graph \<Rightarrow> string set" where
  "failureBranchNodes g =
     we_sourceNodeId ` set (filter (\<lambda>e. (case we_sourcePort e of None \<Rightarrow> ''out'' | Some p \<Rightarrow> p) = ''failure'') (wg_edges g))"

text \<open>Dead nodes are pruned; the second test of the code never applies to a planned dead node.\<close>

definition prune_dead :: "string list \<Rightarrow> 'w run_state \<Rightarrow> 'w run_state" where
  "prune_dead dead rn =
     fold (\<lambda>v rn. if status_of (rn_states rn) v = NR_skipped then rn else set_node v NR_skipped [] rn) dead rn"

text \<open>
  The loop over the ready nodes of one wave: \<open>None\<close> when the run goes on to the next wave.
  A ready id always names a node of the graph.
\<close>

fun run_ready ::
  "exec_env \<Rightarrow> 'w exec_host \<Rightarrow> workflow_graph \<Rightarrow> string list \<Rightarrow> 'w run_state \<Rightarrow>
   'w run_end option \<times> 'w run_state" where
  "run_ready env h g [] rn = (None, rn)"
| "run_ready env h g (v # vs) rn =
     (case sim_node_by_id g v of
        None \<Rightarrow> (Some (Run_threw type_error), rn)
      | Some node \<Rightarrow>
          if pauses (se_registry (xe_sim env)) node then (Some (Run_parked node), set_node v NR_waiting [] rn)
          else (case processNode env h node (v \<in> failureBranchNodes g) rn of
                  Inl x \<Rightarrow> (Some (Run_threw x), rn)
                | Inr (oc, rn1) \<Rightarrow>
                    (let rn2 = set_node v (no_status oc) (no_firedPorts oc) rn1
                     in if no_status oc = NR_failed \<and> \<not> no_handled oc then (Some (Run_finished True), rn2)
                        else run_ready env h g vs rn2)))"

fun run_loop ::
  "exec_env \<Rightarrow> 'w exec_host \<Rightarrow> workflow_graph \<Rightarrow> nat \<Rightarrow> 'w run_state \<Rightarrow> 'w run_end \<times> 'w run_state" where
  "run_loop env h g 0 rn = (Run_exhausted, rn)"
| "run_loop env h g (Suc n) rn =
     (if xh_cancelling h (rn_world rn) then (Run_cancelled, rn)
      else
        (let view = planExecution g (rn_states rn) (lookup_of (se_registry (xe_sim env)));
             rn1 = prune_dead (pv_dead view) rn
         in if pv_ready view = []
            then (if pv_quiescent view \<or> pv_dead view = [] then (Run_finished False, rn1)
                  else run_loop env h g n rn1)
            else (case run_ready env h g (pv_ready view) rn1 of
                    (Some e, rn2) \<Rightarrow> (e, rn2)
                  | (None, rn2) \<Rightarrow> run_loop env h g n rn2)))"

definition maxIterations :: "workflow_graph \<Rightarrow> nat" where
  "maxIterations g = length (wg_nodes g) * 3 + 5"


section \<open>A run ends within its bound\<close>

lemma set_node_states: "rn_states (set_node v s ports rn) = (rn_states rn)(v \<mapsto> \<lparr> nr_status = s, nr_firedPorts = ports \<rparr>)"
  by (simp add: set_node_def)

lemma set_node_simps [simp]:
  "rn_world (set_node v s ports rn) = rn_world rn"
  "status_of (rn_states (set_node v s ports rn)) u = (if u = v then s else status_of (rn_states rn) u)"
  by (simp_all add: set_node_def status_of_def)

lemma prune_dead_simps [simp]:
  "rn_world (prune_dead ds rn) = rn_world rn"
  "status_of (rn_states (prune_dead ds rn)) v = (if v \<in> set ds then NR_skipped else status_of (rn_states rn) v)"
  unfolding prune_dead_def by (induction ds arbitrary: rn) auto

lemma edgeState_set_skipped:
  "edgeState (rn_states (set_node v NR_skipped [] rn)) e =
     (if we_sourceNodeId e = v then Edge_dead else edgeState (rn_states rn) e)"
  by (simp add: edgeState_def set_node_def)

lemma prune_live:
  "edgeState (rn_states (prune_dead ds rn)) e = Edge_live \<Longrightarrow> edgeState (rn_states rn) e = Edge_live"
proof (induction ds arbitrary: rn)
  case (Cons d ds)
  let ?rn1 = "if status_of (rn_states rn) d = NR_skipped then rn else set_node d NR_skipped [] rn"
  have "prune_dead (d # ds) rn = prune_dead ds ?rn1" by (simp add: prune_dead_def)
  then have "edgeState (rn_states ?rn1) e = Edge_live" using Cons by simp
  then show ?case by (simp add: edgeState_set_skipped split: if_splits)
qed (simp add: prune_dead_def)

lemma dispatchAction_outcome: "no_status (fst (dispatchAction env h node a fe ctx w)) \<in> {NR_succeeded, NR_failed}"
  by (auto simp: dispatchAction_def action_failed_def succeeded_def Let_def split: option.splits prod.splits)

lemma processNode_outcome:
  assumes "processNode env h node fe rn = Inr (oc, rn1)"
  shows "no_status oc \<in> {NR_succeeded, NR_failed}" and "rn_states rn1 = rn_states rn"
proof -
  have "no_status oc \<in> {NR_succeeded, NR_failed} \<and> rn_states rn1 = rn_states rn"
  proof (cases "map_option nd_category (se_registry (xe_sim env) (wn_type node)) = Some NC_action")
    case True
    then show ?thesis using assms dispatchAction_outcome [of env h node]
      by (auto simp: processNode_def Let_def split: prod.splits) (metis fst_conv insertE singletonD)+
  next
    case False
    then show ?thesis using assms
      by (auto simp: processNode_def Let_def succeeded_def map_sum_def
          split: option.splits node_category.splits sum.splits if_splits prod.splits)
  qed
  then show "no_status oc \<in> {NR_succeeded, NR_failed}" "rn_states rn1 = rn_states rn" by blast+
qed

lemma run_ready_end: "fst (run_ready env h g vs rn) \<noteq> Some Run_exhausted"
  by (induction env h g vs rn rule: run_ready.induct)
    (auto simp: Let_def split: option.splits sum.splits prod.splits)

lemma run_ready_not_ok: "fst (run_ready env h g vs rn) \<noteq> Some (Run_finished False)"
  by (induction env h g vs rn rule: run_ready.induct)
    (auto simp: Let_def split: option.splits sum.splits prod.splits)

lemma run_ready_states:
  assumes "run_ready env h g vs rn = (r, rn')"
  shows "v \<notin> set vs \<Longrightarrow> status_of (rn_states rn') v = status_of (rn_states rn) v"
    and "r = None \<Longrightarrow> v \<in> set vs \<Longrightarrow> status_of (rn_states rn') v \<in> {NR_succeeded, NR_failed}"
proof -
  have "(v \<notin> set vs \<longrightarrow> status_of (rn_states rn') v = status_of (rn_states rn) v) \<and>
      (r = None \<longrightarrow> v \<in> set vs \<longrightarrow> status_of (rn_states rn') v \<in> {NR_succeeded, NR_failed})"
    using assms
  proof (induction vs arbitrary: rn)
    case (Cons u us)
    show ?case
    proof (cases "sim_node_by_id g u")
      case None
      then show ?thesis using Cons.prems by auto
    next
      case (Some node)
      show ?thesis
      proof (cases "pauses (se_registry (xe_sim env)) node")
        case True
        then show ?thesis using Cons.prems Some by auto
      next
        case False
        show ?thesis
        proof (cases "processNode env h node (u \<in> failureBranchNodes g) rn")
          case (Inl x)
          then show ?thesis using Cons.prems Some False by auto
        next
          case (Inr p)
          obtain oc rn1 where p: "p = (oc, rn1)" by (cases p)
          note out = processNode_outcome [OF Inr [unfolded p]]
          let ?rn2 = "set_node u (no_status oc) (no_firedPorts oc) rn1"
          have here: "status_of (rn_states ?rn2) w = (if w = u then no_status oc else status_of (rn_states rn) w)" for w
            using out(2) by simp
          show ?thesis
          proof (cases "no_status oc = NR_failed \<and> \<not> no_handled oc")
            case True
            then have "r = Some (Run_finished True)" "rn' = ?rn2"
              using Cons.prems Some False Inr p by (simp_all add: Let_def)
            then show ?thesis using out(2) by simp
          next
            case go_on: False
            then have rest: "run_ready env h g us ?rn2 = (r, rn')"
              using Cons.prems Some False Inr p by (simp add: Let_def split: if_splits)
            show ?thesis
            proof (cases "v \<in> set us")
              case True
              then show ?thesis using Cons.IH [OF rest] by simp
            next
              case notin: False
              then have "status_of (rn_states rn') v = status_of (rn_states ?rn2) v" using Cons.IH [OF rest] by simp
              then show ?thesis using notin out by auto
            qed
          qed
        qed
      qed
    qed
  qed simp
  then show "v \<notin> set vs \<Longrightarrow> status_of (rn_states rn') v = status_of (rn_states rn) v"
    "r = None \<Longrightarrow> v \<in> set vs \<Longrightarrow> status_of (rn_states rn') v \<in> {NR_succeeded, NR_failed}" by blast+
qed

definition pending_ids :: "workflow_graph \<Rightarrow> run_states \<Rightarrow> string set" where
  "pending_ids g st = {v \<in> wn_id ` set (wg_nodes g). status_of st v = NR_pending}"

lemma finite_pending [simp]: "finite (pending_ids g st)"
  by (simp add: pending_ids_def)

lemma planned_pending:
  "set (pv_ready (planExecution g st lookup)) \<union> set (pv_dead (planExecution g st lookup)) \<subseteq> pending_ids g st"
  by (auto simp: planExecution_simps plan_ready_iff plan_dead_iff pending_ids_def)

lemma ready_dead_disjoint:
  assumes "distinct (map wn_id (wg_nodes g))"
  shows "set (pv_ready (planExecution g st lookup)) \<inter> set (pv_dead (planExecution g st lookup)) = {}"
proof (rule ccontr)
  assume "\<not> ?thesis"
  then obtain m n where mn: "m \<in> set (wg_nodes g)" "n \<in> set (wg_nodes g)" "wn_id m = wn_id n"
      "plan_node (wg_edges g) st lookup m = Plan_ready" "plan_node (wg_edges g) st lookup n = Plan_dead"
    unfolding planExecution_simps by blast
  then have "m = n" using assms by (meson distinct_map inj_onD)
  then show False using mn by simp
qed

lemma run_loop_step:
  "run_loop env h g (Suc n) rn =
     (if xh_cancelling h (rn_world rn) then (Run_cancelled, rn)
      else if pv_ready (planExecution g (rn_states rn) (lookup_of (se_registry (xe_sim env)))) = []
      then (if pv_quiescent (planExecution g (rn_states rn) (lookup_of (se_registry (xe_sim env)))) \<or>
               pv_dead (planExecution g (rn_states rn) (lookup_of (se_registry (xe_sim env)))) = []
            then (Run_finished False,
                  prune_dead (pv_dead (planExecution g (rn_states rn) (lookup_of (se_registry (xe_sim env))))) rn)
            else run_loop env h g n
                  (prune_dead (pv_dead (planExecution g (rn_states rn) (lookup_of (se_registry (xe_sim env))))) rn))
      else (case run_ready env h g (pv_ready (planExecution g (rn_states rn) (lookup_of (se_registry (xe_sim env)))))
                   (prune_dead (pv_dead (planExecution g (rn_states rn) (lookup_of (se_registry (xe_sim env))))) rn) of
              (Some e, rn2) \<Rightarrow> (e, rn2)
            | (None, rn2) \<Rightarrow> run_loop env h g n rn2))"
  unfolding run_loop.simps Let_def by (rule refl)

lemma run_loop_not_exhausted:
  "card (pending_ids g (rn_states rn)) < n \<Longrightarrow> fst (run_loop env h g n rn) \<noteq> Run_exhausted"
proof (induction n arbitrary: rn)
  case (Suc n)
  define view where "view = planExecution g (rn_states rn) (lookup_of (se_registry (xe_sim env)))"
  define rn1 where "rn1 = prune_dead (pv_dead view) rn"
  note step = run_loop_step [of env h g n rn, folded view_def, folded rn1_def]
  have planned: "set (pv_ready view) \<union> set (pv_dead view) \<subseteq> pending_ids g (rn_states rn)"
    unfolding view_def by (rule planned_pending)
  have shrink: "fst (run_loop env h g n rn') \<noteq> Run_exhausted"
    if "pending_ids g (rn_states rn') \<subset> pending_ids g (rn_states rn)" for rn'
  proof (rule Suc.IH)
    show "card (pending_ids g (rn_states rn')) < n" using psubset_card_mono [OF _ that] Suc.prems by simp
  qed
  show ?case
  proof (cases "xh_cancelling h (rn_world rn)")
    case False
    show ?thesis
    proof (cases "pv_ready view = []")
      case True
      show ?thesis
      proof (cases "pv_quiescent view \<or> pv_dead view = []")
        case cont: False
        then obtain v where v: "v \<in> set (pv_dead view)" by (cases "pv_dead view") auto
        have "v \<in> pending_ids g (rn_states rn)" "v \<notin> pending_ids g (rn_states rn1)"
          using v planned by (auto simp: pending_ids_def rn1_def)
        moreover have "pending_ids g (rn_states rn1) \<subseteq> pending_ids g (rn_states rn)"
          by (auto simp: pending_ids_def rn1_def split: if_splits)
        ultimately have "pending_ids g (rn_states rn1) \<subset> pending_ids g (rn_states rn)" by blast
        then show ?thesis using shrink True cont False unfolding step by simp
      next
        case stop: True
        show ?thesis using True False stop unfolding step by simp
      qed
    next
      case ready: False
      obtain r rn2 where rr: "run_ready env h g (pv_ready view) rn1 = (r, rn2)" by fastforce
      show ?thesis
      proof (cases r)
        case None
        obtain v where v: "v \<in> set (pv_ready view)" using ready by (cases "pv_ready view") auto
        have "v \<in> pending_ids g (rn_states rn)" "v \<notin> pending_ids g (rn_states rn2)"
          using v planned run_ready_states(2) [OF rr None v] by (auto simp: pending_ids_def)
        moreover have "pending_ids g (rn_states rn2) \<subseteq> pending_ids g (rn_states rn)"
        proof
          fix u assume u: "u \<in> pending_ids g (rn_states rn2)"
          then have "u \<notin> set (pv_ready view)"
            using run_ready_states(2) [OF rr None, of u] by (auto simp: pending_ids_def)
          then show "u \<in> pending_ids g (rn_states rn)"
            using u run_ready_states(1) [OF rr, of u] by (auto simp: pending_ids_def rn1_def split: if_splits)
        qed
        ultimately have "pending_ids g (rn_states rn2) \<subset> pending_ids g (rn_states rn)" by blast
        then show ?thesis using shrink rr None ready False unfolding step by simp
      next
        case (Some e)
        have "e \<noteq> Run_exhausted" using rr Some run_ready_end [of env h g "pv_ready view" rn1] by auto
        then show ?thesis using rr Some ready False unfolding step by simp
      qed
    qed
  next
    case True
    then show ?thesis unfolding step by simp
  qed
qed simp

lemma pending_card: "card (pending_ids g st) \<le> length (wg_nodes g)"
proof -
  have "card (pending_ids g st) \<le> card (wn_id ` set (wg_nodes g))"
    by (intro card_mono) (auto simp: pending_ids_def)
  also have "\<dots> \<le> card (set (wg_nodes g))" by (rule card_image_le) simp
  also have "\<dots> \<le> length (wg_nodes g)" by (rule card_length)
  finally show ?thesis .
qed

text \<open>
  C20. The iteration bound is never what ends a run. A run of the executor, from whatever state
  it is resumed in and however the actions answer, is cancelled, parks at a waiting node, throws
  or finishes before its rounds (three per node and five more) are used up: each round settles a
  pending node.
\<close>

theorem run_loop_bounded: "fst (run_loop env h g (maxIterations g) rn) \<noteq> Run_exhausted"
proof (rule run_loop_not_exhausted)
  show "card (pending_ids g (rn_states rn)) < maxIterations g"
    using pending_card [of g "rn_states rn"] by (simp add: maxIterations_def)
qed


section \<open>What a run may do to the world\<close>

text \<open>
  What holds along a run. \<open>I\<close> is kept while the run goes on and \<open>J\<close> holds
  of how it ends; a node that is processed is pending when the ids of the graph are distinct.
\<close>

definition turn_of :: "workflow_graph \<Rightarrow> string \<Rightarrow> workflow_node \<Rightarrow> 'w run_state \<Rightarrow> bool" where
  "turn_of g v node rn \<longleftrightarrow>
     sim_node_by_id g v = Some node \<and>
     (distinct (map wn_id (wg_nodes g)) \<longrightarrow> status_of (rn_states rn) v = NR_pending)"

locale run_invariant =
  fixes env :: exec_env and h :: "'w exec_host" and g :: workflow_graph
    and I :: "'w run_state \<Rightarrow> bool" and J :: "'w run_end \<Rightarrow> 'w run_state \<Rightarrow> bool"
  assumes skip: "I rn \<Longrightarrow> I (set_node v NR_skipped [] rn)"
    and settle: "\<lbrakk>I rn; turn_of g v node rn;
        processNode env h node (v \<in> failureBranchNodes g) rn = Inr (oc, rn1);
        no_status oc = NR_failed \<Longrightarrow> no_handled oc\<rbrakk>
      \<Longrightarrow> I (set_node v (no_status oc) (no_firedPorts oc) rn1)"
    and stop: "I rn \<Longrightarrow> e = Run_cancelled \<or> e = Run_exhausted \<or> e = Run_finished False \<or> (\<exists>x. e = Run_threw x)
      \<Longrightarrow> J e rn"
    and park: "I rn \<Longrightarrow> turn_of g v node rn \<Longrightarrow> pauses (se_registry (xe_sim env)) node
      \<Longrightarrow> J (Run_parked node) (set_node v NR_waiting [] rn)"
    and fail: "\<lbrakk>I rn; turn_of g v node rn;
        processNode env h node (v \<in> failureBranchNodes g) rn = Inr (oc, rn1);
        no_status oc = NR_failed; \<not> no_handled oc\<rbrakk>
      \<Longrightarrow> J (Run_finished True) (set_node v (no_status oc) (no_firedPorts oc) rn1)"
begin

lemma prune_keeps: "I rn \<Longrightarrow> I (prune_dead ds rn)"
  unfolding prune_dead_def by (induction ds arbitrary: rn) (auto intro: skip)

lemma ready_keeps:
  assumes "I rn" and "distinct (map wn_id (wg_nodes g)) \<Longrightarrow>
      distinct vs \<and> (\<forall>v\<in>set vs. status_of (rn_states rn) v = NR_pending)"
    and "run_ready env h g vs rn = (r, rn')"
  shows "case r of None \<Rightarrow> I rn' | Some e \<Rightarrow> J e rn'"
  using assms
proof (induction vs arbitrary: rn)
  case (Cons v vs)
  show ?case
  proof (cases "sim_node_by_id g v")
    case None
    then show ?thesis using Cons.prems stop by auto
  next
    case (Some node)
    have turn: "turn_of g v node rn" using Some Cons.prems(2) by (auto simp: turn_of_def)
    show ?thesis
    proof (cases "pauses (se_registry (xe_sim env)) node")
      case True
      then show ?thesis using Cons.prems Some park [OF Cons.prems(1) turn] by auto
    next
      case running: False
      show ?thesis
      proof (cases "processNode env h node (v \<in> failureBranchNodes g) rn")
        case (Inl x)
        then show ?thesis using Cons.prems Some running stop by auto
      next
        case (Inr p)
        obtain oc rn1 where p: "p = (oc, rn1)" by (cases p)
        note proc = Inr [unfolded p]
        let ?rn2 = "set_node v (no_status oc) (no_firedPorts oc) rn1"
        show ?thesis
        proof (cases "no_status oc = NR_failed \<and> \<not> no_handled oc")
          case True
          then have "r = Some (Run_finished True)" "rn' = ?rn2"
            using Cons.prems Some running proc by (simp_all add: Let_def)
          then show ?thesis using fail [OF Cons.prems(1) turn proc] True by simp
        next
          case False
          then have rest: "run_ready env h g vs ?rn2 = (r, rn')"
            using Cons.prems(3) Some running proc by (simp add: Let_def split: if_splits)
          have "I ?rn2" using settle [OF Cons.prems(1) turn proc] False by blast
          moreover have "distinct vs \<and> (\<forall>u\<in>set vs. status_of (rn_states ?rn2) u = NR_pending)"
            if "distinct (map wn_id (wg_nodes g))"
            using Cons.prems(2) [OF that] processNode_outcome(2) [OF proc] by auto
          ultimately show ?thesis using Cons.IH rest by blast
        qed
      qed
    qed
  qed
qed simp

lemma ready_distinct:
  "distinct (map wn_id (wg_nodes g)) \<Longrightarrow> distinct (pv_ready (planExecution g st lookup))"
  by (simp add: planExecution_def Let_def distinct_map_filter)

lemma loop_keeps: "I rn \<Longrightarrow> J (fst (run_loop env h g n rn)) (snd (run_loop env h g n rn))"
proof (induction n arbitrary: rn)
  case 0
  then show ?case using stop by simp
next
  case (Suc n)
  define view where "view = planExecution g (rn_states rn) (lookup_of (se_registry (xe_sim env)))"
  define rn1 where "rn1 = prune_dead (pv_dead view) rn"
  note step = run_loop_step [of env h g n rn, folded view_def, folded rn1_def]
  have here: "I rn1" unfolding rn1_def using Suc.prems by (rule prune_keeps)
  obtain r rn2 where rr: "run_ready env h g (pv_ready view) rn1 = (r, rn2)" by fastforce
  have "distinct (pv_ready view) \<and> (\<forall>v\<in>set (pv_ready view). status_of (rn_states rn1) v = NR_pending)"
    if ids: "distinct (map wn_id (wg_nodes g))"
  proof (intro conjI ballI)
    show "distinct (pv_ready view)" unfolding view_def using ids by (rule ready_distinct)
  next
    fix v assume v: "v \<in> set (pv_ready view)"
    then have "v \<notin> set (pv_dead view)" unfolding view_def using ready_dead_disjoint [OF ids] by blast
    moreover have "v \<in> pending_ids g (rn_states rn)" using v planned_pending unfolding view_def by blast
    ultimately show "status_of (rn_states rn1) v = NR_pending" by (simp add: rn1_def pending_ids_def)
  qed
  from ready_keeps [OF here this rr] have after: "case r of None \<Rightarrow> I rn2 | Some e \<Rightarrow> J e rn2" by blast
  show ?case
  proof (cases "xh_cancelling h (rn_world rn)")
    case True
    then show ?thesis using Suc.prems stop unfolding step by simp
  next
    case False
    then show ?thesis using Suc.IH after here rr stop unfolding step by (auto split: option.splits)
  qed
qed

end

text \<open>
  A permitted step of the world: one call of an action that a node type of the registry offers and
  that, when the run has an identity, this identity may perform: it is a super administrator, the
  action needs no permission, or the identity holds the one it needs. A run without an identity
  (one started by an event, by the system or by a parent run) is not restricted.
\<close>

definition offered :: "node_registry \<Rightarrow> string \<Rightarrow> bool" where
  "offered registry a \<longleftrightarrow>
     (\<exists>ty d. registry ty = Some d \<and> nd_category d = NC_action \<and> nd_actionId d = Some a)"

definition permitted_step :: "exec_env \<Rightarrow> 'w exec_host \<Rightarrow> 'w \<Rightarrow> 'w \<Rightarrow> bool" where
  "permitted_step env h w w' \<longleftrightarrow>
     (\<exists>a params ctx ms. offered (se_registry (xe_sim env)) a \<and>
        (\<forall>g. xe_grant env = Some g \<longrightarrow>
           ig_superAdmin g \<or> ACTION_PERMISSION a = None \<or>
           (\<exists>required\<in>ig_permissions g. ACTION_PERMISSION a = Some required)) \<and>
        w' = snd (xh_action h a params ctx ms w))"

lemma permitted_iff:
  "permitted grant a \<longleftrightarrow>
     (\<forall>g. grant = Some g \<longrightarrow> ig_superAdmin g \<or> ACTION_PERMISSION a = None \<or>
        (\<exists>required\<in>ig_permissions g. ACTION_PERMISSION a = Some required))"
  by (auto simp: permitted_def split: option.splits)

definition attempts_left :: "workflow_graph \<Rightarrow> run_states \<Rightarrow> nat" where
  "attempts_left g st = sum_list (map max_attempts (filter (\<lambda>n. status_of st (wn_id n) = NR_pending) (wg_nodes g)))"

lemma try_action_steps:
  assumes "offered (se_registry (xe_sim env)) a" "permitted (xe_grant env) a"
  shows "\<exists>k \<le> n. (permitted_step env h ^^ k) w (snd (try_action h a params ctx ms n w))"
proof (induction n arbitrary: w)
  case 0
  then show ?case by auto
next
  case (Suc n)
  obtain r w' where call: "xh_action h a params ctx ms w = (r, w')" by fastforce
  have one: "permitted_step env h w w'" unfolding permitted_step_def using assms call
    unfolding permitted_iff by (metis snd_conv)
  show ?case
  proof (cases r)
    case (Inr u)
    then have "(permitted_step env h ^^ 1) w (snd (try_action h a params ctx ms (Suc n) w))" using call one by auto
    then show ?thesis by (intro exI [of _ 1]) simp
  next
    case (Inl x)
    obtain k where k: "k \<le> n" "(permitted_step env h ^^ k) w' (snd (try_action h a params ctx ms n w'))"
      using Suc.IH by blast
    have "(permitted_step env h ^^ Suc k) w (snd (try_action h a params ctx ms n w'))"
      using relpowp_Suc_I2 [of "permitted_step env h", OF one k(2)] .
    then show ?thesis using Inl call k(1) by (intro exI [of _ "Suc k"]) simp
  qed
qed

lemma dispatchAction_steps:
  assumes "a = None \<or> offered (se_registry (xe_sim env)) (the a)"
  shows "\<exists>k \<le> max_attempts node. (permitted_step env h ^^ k) w (snd (dispatchAction env h node a fe ctx w))"
proof (cases "a = None \<or> the a = [] \<or> \<not> permitted (xe_grant env) (the a)")
  case True
  then have "snd (dispatchAction env h node a fe ctx w) = w"
    by (cases a) (auto simp: dispatchAction_def)
  then show ?thesis by (intro exI [of _ 0]) simp
next
  case False
  then obtain x where x: "a = Some x" "x \<noteq> []" "permitted (xe_grant env) x" by auto
  then have off: "offered (se_registry (xe_sim env)) x" using assms by simp
  show ?thesis using try_action_steps [OF off x(3)] x
    by (simp add: dispatchAction_def Let_def case_prod_beta)
qed

lemma processNode_steps:
  assumes "processNode env h node fe rn = Inr (oc, rn1)"
  shows "\<exists>k \<le> max_attempts node. (permitted_step env h ^^ k) (rn_world rn) (rn_world rn1)"
proof (cases "map_option nd_category (se_registry (xe_sim env) (wn_type node)) = Some NC_action")
  case True
  then obtain d where d: "se_registry (xe_sim env) (wn_type node) = Some d" "nd_category d = NC_action" by auto
  then have "rn_world rn1 = snd (dispatchAction env h node (nd_actionId d) fe (rn_context rn) (rn_world rn))"
    using assms by (auto simp: processNode_def Let_def split: prod.splits)
  moreover have "nd_actionId d = None \<or> offered (se_registry (xe_sim env)) (the (nd_actionId d))"
    using d by (cases "nd_actionId d") (auto simp: offered_def)
  ultimately show ?thesis using dispatchAction_steps by metis
next
  case False
  then have "rn_world rn1 = rn_world rn" using assms
    by (auto simp: processNode_def Let_def map_sum_def
        split: option.splits node_category.splits sum.splits if_splits prod.splits)
  then show ?thesis by (intro exI [of _ 0]) simp
qed

lemma processNode_handled:
  assumes "processNode env h node fe rn = Inr (oc, rn1)"
  shows "no_handled oc \<Longrightarrow> fe"
proof -
  have "no_handled (fst (dispatchAction env h node a fe ctx w)) \<longrightarrow> fe" for a ctx w
    by (auto simp: dispatchAction_def action_failed_def succeeded_def Let_def split: option.splits prod.splits)
  then have act: "no_handled oc' \<longrightarrow> fe" if "dispatchAction env h node a fe ctx w = (oc', w')" for a ctx w oc' w'
    using that by (metis fst_conv)
  show "no_handled oc \<Longrightarrow> fe" using assms
    by (auto simp: processNode_def Let_def succeeded_def map_sum_def dest: act
        split: option.splits node_category.splits sum.splits if_splits prod.splits)
qed

lemma sum_filter_split:
  assumes "distinct (map f xs)" "x \<in> set xs" "P x" "\<And>y. y \<in> set xs \<Longrightarrow> Q y \<Longrightarrow> P y \<and> f y \<noteq> f x"
  shows "c x + sum_list (map c (filter Q xs)) \<le> (sum_list (map c (filter P xs)) :: nat)"
  using assms
proof (induction xs)
  case (Cons z zs)
  have le: "sum_list (map c (filter Q ys)) \<le> sum_list (map c (filter P ys))" if "set ys \<subseteq> set (z # zs)" for ys
    using that by (induction ys) (use Cons.prems(4) in auto)
  show ?case
  proof (cases "x = z")
    case True
    then have "\<not> Q z" using Cons.prems(4) [of z] by auto
    then show ?thesis using True Cons.prems(3) le [of zs] by auto
  next
    case False
    then have "c x + sum_list (map c (filter Q zs)) \<le> sum_list (map c (filter P zs))"
      using Cons by auto
    then show ?thesis using Cons.prems(4) [of z] by auto
  qed
qed simp

lemma sim_node_by_idD: "sim_node_by_id g v = Some n \<Longrightarrow> n \<in> set (wg_nodes g) \<and> wn_id n = v"
  by (auto simp: sim_node_by_id_def find_Some_iff) (metis nth_mem length_rev set_rev)

lemma attempts_left_settle:
  assumes "distinct (map wn_id (wg_nodes g))" "sim_node_by_id g v = Some node"
    "status_of st v = NR_pending" "s \<noteq> NR_pending" "\<And>u. status_of st' u = (if u = v then s else status_of st u)"
  shows "max_attempts node + attempts_left g st' \<le> attempts_left g st"
  unfolding attempts_left_def
  by (rule sum_filter_split [where f = wn_id]) (use assms sim_node_by_idD [OF assms(2)] in \<open>auto split: if_splits\<close>)

lemma attempts_left_mono:
  assumes "\<And>u. status_of st' u = NR_pending \<Longrightarrow> status_of st u = NR_pending"
  shows "attempts_left g st' \<le> attempts_left g st"
proof -
  have "sum_list (map max_attempts (filter (\<lambda>n. status_of st' (wn_id n) = NR_pending) ns)) \<le>
      sum_list (map max_attempts (filter (\<lambda>n. status_of st (wn_id n) = NR_pending) ns))" for ns
    by (induction ns) (use assms in auto)
  then show ?thesis unfolding attempts_left_def .
qed

definition called_within ::
  "exec_env \<Rightarrow> 'w exec_host \<Rightarrow> workflow_graph \<Rightarrow> 'w run_state \<Rightarrow> 'w run_state \<Rightarrow> bool" where
  "called_within env h g rn0 rn \<longleftrightarrow>
     (distinct (map wn_id (wg_nodes g)) \<longrightarrow>
      (\<exists>k. (permitted_step env h ^^ k) (rn_world rn0) (rn_world rn) \<and>
           k + attempts_left g (rn_states rn) \<le> attempts_left g (rn_states rn0)))"

lemma called_within_skip:
  assumes "called_within env h g rn0 rn" "s \<noteq> NR_pending"
  shows "called_within env h g rn0 (set_node v s [] rn)"
proof -
  have "attempts_left g (rn_states (set_node v s [] rn)) \<le> attempts_left g (rn_states rn)"
    by (rule attempts_left_mono) (use assms(2) in \<open>simp split: if_splits\<close>)
  then show ?thesis using assms(1) unfolding called_within_def set_node_simps(1) by (meson add_left_mono order_trans)
qed

lemma called_within_settle:
  assumes "called_within env h g rn0 rn" "turn_of g v node rn"
    "processNode env h node (v \<in> failureBranchNodes g) rn = Inr (oc, rn1)"
  shows "called_within env h g rn0 (set_node v (no_status oc) (no_firedPorts oc) rn1)"
  unfolding called_within_def
proof
  assume ids: "distinct (map wn_id (wg_nodes g))"
  let ?rn2 = "set_node v (no_status oc) (no_firedPorts oc) rn1"
  obtain k where k: "(permitted_step env h ^^ k) (rn_world rn0) (rn_world rn)"
      "k + attempts_left g (rn_states rn) \<le> attempts_left g (rn_states rn0)"
    using assms(1) ids by (auto simp: called_within_def)
  obtain j where j: "j \<le> max_attempts node" "(permitted_step env h ^^ j) (rn_world rn) (rn_world rn1)"
    using processNode_steps [OF assms(3)] by blast
  have "max_attempts node + attempts_left g (rn_states ?rn2) \<le> attempts_left g (rn_states rn)"
    by (rule attempts_left_settle [where s = "no_status oc" and v = v])
      (use ids assms(2) processNode_outcome [OF assms(3)] in \<open>auto simp: turn_of_def\<close>)
  then have "k + j + attempts_left g (rn_states ?rn2) \<le> attempts_left g (rn_states rn0)"
    using j(1) k(2) by linarith
  moreover have "(permitted_step env h ^^ (k + j)) (rn_world rn0) (rn_world ?rn2)"
    using k(1) j(2) by (auto simp: relpowp_add)
  ultimately show "\<exists>k. (permitted_step env h ^^ k) (rn_world rn0) (rn_world ?rn2) \<and>
      k + attempts_left g (rn_states ?rn2) \<le> attempts_left g (rn_states rn0)" by blast
qed

interpretation calls: run_invariant env h g "called_within env h g rn0" "\<lambda>_. called_within env h g rn0"
  for env h g rn0
proof unfold_locales
  show "called_within env h g rn0 (set_node v (no_status oc) (no_firedPorts oc) rn1)"
    if "called_within env h g rn0 rn" "turn_of g v node rn"
      "processNode env h node (v \<in> failureBranchNodes g) rn = Inr (oc, rn1)" for rn v node oc rn1
    using that by (rule called_within_settle)
  then show "called_within env h g rn0 (set_node v (no_status oc) (no_firedPorts oc) rn1)"
    if "called_within env h g rn0 rn" "turn_of g v node rn"
      "processNode env h node (v \<in> failureBranchNodes g) rn = Inr (oc, rn1)" for rn v node oc rn1
    using that by blast
qed (simp_all add: called_within_skip)

text \<open>
  C19. A run calls only what it may, and each action at most as often as its retry policy says.
  The world after a run is reached from the world before it by calls of actions that some node
  type offers and, when the run has an identity, that this identity may perform, as a super
  administrator or because it holds the permission the action needs, if any; there are at most as
  many calls as the pending nodes have attempts together, so that no node is dispatched twice. Ids
  are distinct on every graph that passed validation. Nothing is claimed of the permissions of a
  run without an identity: the code lets it call any action, although the documentation says that
  such a run fails closed.
\<close>

theorem run_calls_permitted:
  assumes "distinct (map wn_id (wg_nodes g))" and "run_loop env h g n rn = (e, rn')"
  shows "\<exists>k \<le> attempts_left g (rn_states rn). (permitted_step env h ^^ k) (rn_world rn) (rn_world rn')"
proof -
  have "called_within env h g rn rn" unfolding called_within_def by (intro impI exI [of _ 0]) simp
  from calls.loop_keeps [OF this, of n] have "called_within env h g rn rn'" using assms(2) by simp
  then show ?thesis using assms(1) unfolding called_within_def by (meson add_leD1)
qed

text \<open>
  The example run: a trigger and an action that pauses a torrent, with a host that records the
  actions it performs.
\<close>

definition demo_host :: "string list exec_host" where
  "demo_host = \<lparr> xh_action = (\<lambda>a params ctx ms w. (Inr (), w @ [a])), xh_cancelling = (\<lambda>w. False) \<rparr>"

definition demo_exec_env :: exec_env where
  "demo_exec_env = \<lparr> xe_sim = demo_sim_env \<lparr> se_registry := demo_registry
       (''action'' \<mapsto> (demo_node_definition ''action'' NC_action 1) \<lparr> nd_actionId := Some ''pause'' \<rparr>) \<rparr>,
     xe_grant = Some \<lparr> ig_superAdmin = False, ig_permissions = {''torrents.pause''} \<rparr> \<rparr>"

definition demo_start :: "string list run_state" where
  "demo_start = \<lparr> rn_states = Map.empty, rn_context = [], rn_world = [] \<rparr>"

definition demo_end :: "string list run_state" where
  "demo_end = snd (run_loop demo_exec_env demo_host demo_wf (maxIterations demo_wf) demo_start)"

lemma demo_run_loop:
  "run_loop demo_exec_env demo_host demo_wf (maxIterations demo_wf) demo_start = (Run_finished False, demo_end)
   \<and> rn_world demo_end = [''pause''] \<and> status_of (rn_states demo_end) ''a'' = NR_succeeded"
  unfolding demo_end_def maxIterations_def
  by (simp add: demo_start_def demo_exec_env_def demo_sim_env_def demo_host_def demo_registry_def
      demo_node_definition_def demo_wf_simps lookup_of_def prune_dead_def pauses_def PAUSING_def
      sim_node_by_id_def processNode_def succeeded_def set_node_def dispatchAction_def permitted_def
      ACTION_PERMISSION_def max_attempts_def failureBranchNodes_def renderConfig_def Let_def numeral_eq_Suc)

text \<open>The same run without an identity pauses the torrent too; with one that holds nothing it does not.\<close>

lemma identityless_run_calls:
  "rn_world (snd (run_loop (demo_exec_env \<lparr> xe_grant := None \<rparr>) demo_host demo_wf (maxIterations demo_wf) demo_start)) = [''pause'']"
  "rn_world (snd (run_loop (demo_exec_env \<lparr> xe_grant := Some \<lparr> ig_superAdmin = False, ig_permissions = {} \<rparr> \<rparr>)
     demo_host demo_wf (maxIterations demo_wf) demo_start)) = []"
  unfolding maxIterations_def
  by (simp_all add: demo_start_def demo_exec_env_def demo_sim_env_def demo_host_def demo_registry_def
      demo_node_definition_def demo_wf_simps lookup_of_def prune_dead_def pauses_def PAUSING_def
      sim_node_by_id_def processNode_def succeeded_def action_failed_def set_node_def dispatchAction_def permitted_def
      ACTION_PERMISSION_def max_attempts_def failureBranchNodes_def renderConfig_def Let_def numeral_eq_Suc)

theorem run_calls_permitted_witness:
  "(\<exists>k \<le> attempts_left demo_wf (rn_states demo_start).
      (permitted_step demo_exec_env demo_host ^^ k) (rn_world demo_start) (rn_world demo_end)) \<and>
   rn_world demo_end = [''pause'']"
proof -
  have ids: "distinct (map wn_id (wg_nodes demo_wf))" by (simp add: demo_wf_def)
  from run_calls_permitted [OF ids conjunct1 [OF demo_run_loop]] demo_run_loop show ?thesis by blast
qed


section \<open>A completed run\<close>

text \<open>
  Along a run nothing becomes active without parking it, and a node that fails while the run goes
  on has a failure branch.
\<close>

definition progress_from :: "workflow_graph \<Rightarrow> 'w run_state \<Rightarrow> 'w run_state \<Rightarrow> bool" where
  "progress_from g rn0 rn \<longleftrightarrow>
     (\<forall>v. (status_of (rn_states rn) v \<in> {NR_running, NR_waiting} \<longrightarrow>
             status_of (rn_states rn0) v \<in> {NR_running, NR_waiting}) \<and>
          (status_of (rn_states rn) v = NR_failed \<longrightarrow>
             status_of (rn_states rn0) v = NR_failed \<or> v \<in> failureBranchNodes g))"

interpretation progress: run_invariant env h g "progress_from g rn0"
  "\<lambda>e rn. e = Run_finished False \<longrightarrow> progress_from g rn0 rn"
  for env h g rn0
proof unfold_locales
  fix rn v node oc rn1
  assume "progress_from g rn0 rn" and "no_status oc = NR_failed \<Longrightarrow> no_handled oc"
    and proc: "processNode env h node (v \<in> failureBranchNodes g) rn = Inr (oc, rn1)"
  then show "progress_from g rn0 (set_node v (no_status oc) (no_firedPorts oc) rn1)"
    using processNode_outcome [OF proc] processNode_handled [OF proc]
    unfolding progress_from_def set_node_simps by (auto split: if_splits)
qed (auto simp: progress_from_def)

lemma finished_from:
  "run_loop env h g n rn = (Run_finished False, rn') \<Longrightarrow>
   \<exists>rn0. pv_ready (planExecution g (rn_states rn0) (lookup_of (se_registry (xe_sim env)))) = [] \<and>
         rn' = prune_dead (pv_dead (planExecution g (rn_states rn0) (lookup_of (se_registry (xe_sim env))))) rn0"
proof (induction n arbitrary: rn)
  case (Suc n)
  define view where "view = planExecution g (rn_states rn) (lookup_of (se_registry (xe_sim env)))"
  define rn1 where "rn1 = prune_dead (pv_dead view) rn"
  note step = run_loop_step [of env h g n rn, folded view_def, folded rn1_def]
  obtain r rn2 where rr: "run_ready env h g (pv_ready view) rn1 = (r, rn2)" by fastforce
  have no: "r \<noteq> Some (Run_finished False)"
    using run_ready_not_ok [of env h g "pv_ready view" rn1] rr by simp
  show ?case
  proof (cases "pv_ready view = [] \<and> (pv_quiescent view \<or> pv_dead view = [])")
    case True
    then have "rn' = rn1" using Suc.prems unfolding step by (auto split: if_splits)
    then show ?thesis using True unfolding rn1_def view_def by blast
  next
    case False
    then have "\<exists>rn3. run_loop env h g n rn3 = (Run_finished False, rn')"
      using Suc.prems rr no unfolding step by (auto split: if_splits option.splits)
    then show ?thesis using Suc.IH by blast
  qed
qed simp

lemma prune_keeps_idle:
  assumes "pv_ready (planExecution g (rn_states rn) lookup) = []"
    and "ds = pv_dead (planExecution g (rn_states rn) lookup)"
    and "e \<in> set (wg_edges g)" and "n \<in> set (wg_nodes g)" and "wn_id n = we_targetNodeId e"
    and "\<not> pl_isJoin lookup (wn_type n)" and "edgeState (rn_states (prune_dead ds rn)) e = Edge_live"
  shows "status_of (rn_states (prune_dead ds rn)) (wn_id n) \<noteq> NR_pending"
proof
  assume "status_of (rn_states (prune_dead ds rn)) (wn_id n) = NR_pending"
  then have pend: "status_of (rn_states rn) (wn_id n) = NR_pending" by (simp split: if_splits)
  have "edgeState (rn_states rn) e = Edge_live" using assms(7) by (rule prune_live)
  moreover have into: "e \<in> set (edges_into (wg_edges g) (wn_id n))" using assms(3,5) by (simp add: edges_into_def)
  ultimately have "plan_node (wg_edges g) (rn_states rn) lookup n = Plan_ready"
    unfolding plan_ready_iff using assms(6) pend by (auto dest: length_pos_if_in_set)
  then have "wn_id n \<in> set (pv_ready (planExecution g (rn_states rn) lookup))"
    using assms(4) unfolding planExecution_simps by blast
  then show False using assms(1) by simp
qed

text \<open>
  What a completed run has done. When a run that started with nothing under way reports
  completion, nothing is under way, every edge that fired has led to its target being settled (a
  join apart, which waits for all of its edges), and every node that failed on the way has a
  failure branch: an unhandled failure is never reported as completion.
\<close>

theorem completed_run:
  assumes "run_loop env h g n rn = (Run_finished False, rn')"
    and "\<forall>v. status_of (rn_states rn) v \<notin> {NR_running, NR_waiting}"
    and "m \<in> set (wg_nodes g)"
  shows "status_of (rn_states rn') (wn_id m) \<notin> {NR_running, NR_waiting} \<and>
    (status_of (rn_states rn') (wn_id m) = NR_failed \<longrightarrow>
       status_of (rn_states rn) (wn_id m) = NR_failed \<or> wn_id m \<in> failureBranchNodes g) \<and>
    (\<forall>e\<in>set (wg_edges g). edgeState (rn_states rn') e = Edge_live \<and> we_targetNodeId e = wn_id m \<and>
        \<not> pl_isJoin (lookup_of (se_registry (xe_sim env))) (wn_type m) \<longrightarrow>
       status_of (rn_states rn') (wn_id m) \<in> {NR_succeeded, NR_failed, NR_skipped})"
proof -
  have "progress_from g rn rn" by (simp add: progress_from_def)
  from progress.loop_keeps [OF this, of env h n] have prog: "progress_from g rn rn'" using assms(1) by simp
  have idle: "status_of (rn_states rn') v \<notin> {NR_running, NR_waiting}" for v
    using prog assms(2) unfolding progress_from_def by blast
  obtain rn0 where rn0: "pv_ready (planExecution g (rn_states rn0) (lookup_of (se_registry (xe_sim env)))) = []"
      "rn' = prune_dead (pv_dead (planExecution g (rn_states rn0) (lookup_of (se_registry (xe_sim env))))) rn0"
    using finished_from [OF assms(1)] by blast
  have "status_of (rn_states rn') (wn_id m) \<in> {NR_succeeded, NR_failed, NR_skipped}"
    if "e \<in> set (wg_edges g)" "edgeState (rn_states rn') e = Edge_live" "we_targetNodeId e = wn_id m"
      "\<not> pl_isJoin (lookup_of (se_registry (xe_sim env))) (wn_type m)" for e
  proof -
    have "status_of (rn_states rn') (wn_id m) \<noteq> NR_pending"
      using prune_keeps_idle [OF rn0(1) refl that(1) assms(3) that(3) [symmetric] that(4)] that(2) rn0(2) by simp
    then show ?thesis using idle [of "wn_id m"] by (cases "status_of (rn_states rn') (wn_id m)") auto
  qed
  moreover have "status_of (rn_states rn') (wn_id m) = NR_failed \<longrightarrow>
       status_of (rn_states rn) (wn_id m) = NR_failed \<or> wn_id m \<in> failureBranchNodes g"
    using prog unfolding progress_from_def by blast
  ultimately show ?thesis using idle by blast
qed

theorem completed_run_witness:
  "run_loop demo_exec_env demo_host demo_wf (maxIterations demo_wf) demo_start = (Run_finished False, demo_end) \<and>
   status_of (rn_states demo_end) ''a'' \<notin> {NR_running, NR_waiting}"
proof -
  have idle: "\<forall>v. status_of (rn_states demo_start) v \<notin> {NR_running, NR_waiting}"
    by (simp add: demo_start_def status_of_def)
  have m: "wg_nodes demo_wf ! 1 \<in> set (wg_nodes demo_wf)" by (simp add: demo_wf_def)
  have id: "wn_id (wg_nodes demo_wf ! 1) = ''a''" by (simp add: demo_wf_def)
  note run = conjunct1 [OF demo_run_loop]
  show ?thesis using completed_run [OF run idle m] run unfolding id by blast
qed

end
