(* ===== verification/Wf_Rows.thy ===== *)
theory Wf_Rows
  imports Wf_Execution
begin

text \<open>
  Durable executions: the rows around a run in \<^verbatim>\<open>workflows/workflow-execution.service.ts\<close>
  (start, cancel, waits, approvals, sub-workflows, recovery), the timer
  \<^verbatim>\<open>workflow-resume.service.ts\<close> and the event bridge \<^verbatim>\<open>workflow-event.bridge.ts\<close>.

  The state is the tables, the calls of \<^verbatim>\<open>runExecution\<close> that have not begun and the runs
  in memory; everything that can happen is an \<open>event\<close>, and events interleave in any order.
  A handler up to the point where it calls \<^verbatim>\<open>runExecution\<close>, the beginning of a run and one
  round of its loop are single events, so a restart falls between rounds. A run whose row has
  been deleted ends at its next round. The order in which the database returns rows that no
  \<^verbatim>\<open>orderBy\<close> sorts is that of the table for lists and the parameter \<open>dv_first\<close> for
  the waiting node of an execution. Columns that only record who and when are left out.

  The theory has the definitions; what they guarantee is in \<open>Wf_Durable\<close>.
\<close>

section \<open>Rows and state\<close>

record execution_row =
  ex_id :: string
  ex_workflowId :: string
  ex_workflowVersionId :: string
  ex_status :: execution_status
  ex_inputContext :: "(string \<times> jsval) list"
  ex_vars :: jsval
  ex_reason :: "string option"
  ex_identityUserId :: "string option"
  ex_depth :: int
  ex_resumeAt :: "time option"
  ex_expiresAt :: "time option"
  ex_createdAt :: time
  ex_nodes :: run_states

datatype approval_status = AP_pending | AP_approved | AP_rejected | AP_expired

record approval_row =
  ap_id :: string
  ap_executionId :: string
  ap_status :: approval_status
  ap_requiredPermission :: "string option"
  ap_destructive :: bool
  ap_expiresAt :: "time option"
  ap_respondedById :: "string option"
  ap_comment :: "string option"

record live_run =
  lr_execution :: string
  lr_graph :: workflow_graph
  lr_grant :: "identity_grant option"
  lr_states :: run_states
  lr_context :: "(string \<times> jsval) list"
  lr_left :: nat

record 'w durable =
  du_db :: workflow_db
  du_executions :: "execution_row list"
  du_approvals :: "approval_row list"
  du_calls :: "string list"
  du_runs :: "live_run list"
  du_world :: 'w

text \<open>A user is the list of its roles, each with its name and permission keys.\<close>

record 'w durable_env =
  dv_workflow :: workflow_env
  dv_sim :: sim_env
  dv_action :: "string \<Rightarrow> (string \<times> jsval) list \<Rightarrow> jsval \<Rightarrow> rat \<Rightarrow> 'w \<Rightarrow> (string + unit) \<times> 'w"
  dv_users :: "string \<rightharpoonup> (string \<times> string list) list"
  dv_first :: "run_states \<Rightarrow> string option"

definition WAITING_STATUSES :: "execution_status list" where
  "WAITING_STATUSES = [ES_waiting, ES_waiting_for_event, ES_waiting_for_approval, ES_paused]"

definition MAX_SUBWORKFLOW_DEPTH :: int where "MAX_SUBWORKFLOW_DEPTH = 5"

definition find_execution :: "'w durable \<Rightarrow> string \<Rightarrow> execution_row option" where
  "find_execution du i = find (\<lambda>x. ex_id x = i) (du_executions du)"

definition update_execution :: "string \<Rightarrow> (execution_row \<Rightarrow> execution_row) \<Rightarrow> 'w durable \<Rightarrow> 'w durable" where
  "update_execution i f du =
     du \<lparr> du_executions := map (\<lambda>x. if ex_id x = i then f x else x) (du_executions du) \<rparr>"

text \<open>A call of \<^verbatim>\<open>runExecution\<close> that is not awaited, or whose caller has nothing left to do.\<close>

definition call_run :: "string \<Rightarrow> 'w durable \<Rightarrow> 'w durable" where
  "call_run i du = du \<lparr> du_calls := du_calls du @ [i] \<rparr>"


section \<open>Finishing and resuming\<close>

definition set_succeeded :: "string \<Rightarrow> string \<Rightarrow> run_states \<Rightarrow> run_states" where
  "set_succeeded v port st =
     (case st v of None \<Rightarrow> st
      | Some s \<Rightarrow> st(v \<mapsto> \<lparr> nr_status = NR_succeeded, nr_firedPorts = [port] \<rparr>))"

text \<open>On an execution that does not exist the update throws, and nothing has changed.\<close>

definition resumeNode :: "string \<Rightarrow> string \<Rightarrow> string \<Rightarrow> 'w durable \<Rightarrow> 'w durable" where
  "resumeNode i v port du =
     (case find_execution du i of
        None \<Rightarrow> du
      | Some _ \<Rightarrow>
          call_run i (update_execution i (\<lambda>x. x \<lparr>
            ex_nodes := set_succeeded v port (ex_nodes x), ex_status := ES_running,
            ex_resumeAt := None, ex_expiresAt := None \<rparr>) du))"

definition resume :: "'w durable_env \<Rightarrow> string \<Rightarrow> string \<Rightarrow> 'w durable \<Rightarrow> 'w durable" where
  "resume env i port du =
     (case find_execution du i of
        None \<Rightarrow> du
      | Some x \<Rightarrow>
          if ex_status x \<notin> set WAITING_STATUSES then du
          else (case dv_first env (ex_nodes x) of
                  None \<Rightarrow> du
                | Some v \<Rightarrow> resumeNode i v port du))"

text \<open>
  The parent of a sub-workflow's execution, read from its input; an id that is not a string is
  refused by the database when the parent is looked up.
\<close>

definition parent_of :: "execution_row \<Rightarrow> (string \<times> string) option" where
  "parent_of x =
     (case (get_prop (ex_inputContext x) ''__parentExecutionId'', get_prop (ex_inputContext x) ''__parentNodeId'') of
        (JStr p, JStr v) \<Rightarrow> if p \<noteq> [] \<and> v \<noteq> [] then Some (p, v) else None
      | _ \<Rightarrow> None)"

definition finalize :: "string \<Rightarrow> execution_status \<Rightarrow> string option \<Rightarrow> 'w durable \<Rightarrow> 'w durable" where
  "finalize i status reason du =
     (case find_execution du i of
        None \<Rightarrow> du
      | Some x \<Rightarrow>
          (let du1 = update_execution i (\<lambda>x. x \<lparr> ex_status := status,
                       ex_reason := (case reason of None \<Rightarrow> ex_reason x | Some r \<Rightarrow> Some r) \<rparr>) du
           in case parent_of x of
                None \<Rightarrow> du1
              | Some (p, v) \<Rightarrow>
                  resumeNode p v
                    (if status = ES_completed \<or> status = ES_completed_with_warnings then ''out'' else ''failure'') du1))"

text \<open>\<^verbatim>\<open>Object.keys(vars).length === 0\<close>, with the falsy values.\<close>

fun has_keys :: "jsval \<Rightarrow> bool" where
  "has_keys (JObj ps) = (ps \<noteq> [])"
| "has_keys (JArr vs) = (vs \<noteq> [])"
| "has_keys (JStr s) = (s \<noteq> [])"
| "has_keys _ = False"

definition saveVars :: "string \<Rightarrow> jsval \<Rightarrow> 'w durable \<Rightarrow> 'w durable" where
  "saveVars i vars du = (if has_keys vars then update_execution i (\<lambda>x. x \<lparr> ex_vars := vars \<rparr>) du else du)"


section \<open>Starting\<close>

record start_input =
  si_context :: "(string \<times> jsval) list"
  si_identityUserId :: "string option"

definition start ::
  "string \<Rightarrow> start_input \<Rightarrow> string \<Rightarrow> time \<Rightarrow> 'w durable \<Rightarrow> http_error + 'w durable" where
  "start workflowId input newId now du =
     (case find_workflow (du_db du) workflowId of
        None \<Rightarrow> Inl (Not_found ''Workflow not found'')
      | Some w \<Rightarrow>
          (case wf_publishedVersionId w of
             None \<Rightarrow> Inl (Bad_request ''Workflow has no published version to run'')
           | Some ver \<Rightarrow>
               if ver = [] then Inl (Bad_request ''Workflow has no published version to run'')
               else Inr (call_run newId (du \<lparr> du_executions := du_executions du @
                 [\<lparr> ex_id = newId, ex_workflowId = workflowId, ex_workflowVersionId = ver,
                    ex_status = ES_queued, ex_inputContext = si_context input, ex_vars = JUndef,
                    ex_reason = None, ex_identityUserId = si_identityUserId input, ex_depth = 0,
                    ex_resumeAt = None, ex_expiresAt = None, ex_createdAt = now,
                    ex_nodes = Map.empty \<rparr>] \<rparr>))))"

definition cancel :: "string \<Rightarrow> 'w durable \<Rightarrow> http_error + execution_status \<times> 'w durable" where
  "cancel i du =
     (case find_execution du i of
        None \<Rightarrow> Inl (Not_found ''Execution not found'')
      | Some x \<Rightarrow>
          if \<not> EXECUTION_ACTIVE (ex_status x) then Inl (Bad_request ''Execution cannot be cancelled'')
          else if ex_status x \<in> set WAITING_STATUSES then Inr (ES_cancelled, finalize i ES_cancelled None du)
          else Inr (ES_cancelling, update_execution i (\<lambda>x. x \<lparr> ex_status := ES_cancelling \<rparr>) du))"

definition loadIdentityGrant :: "'w durable_env \<Rightarrow> string option \<Rightarrow> identity_grant option" where
  "loadIdentityGrant env userId =
     (case userId of
        None \<Rightarrow> None
      | Some u \<Rightarrow>
          if u = [] then None
          else (case dv_users env u of
                  None \<Rightarrow> Some \<lparr> ig_superAdmin = False, ig_permissions = {} \<rparr>
                | Some roles \<Rightarrow> Some \<lparr> ig_superAdmin = (''SUPER_ADMIN'' \<in> fst ` set roles),
                                     ig_permissions = (\<Union>r\<in>set roles. set (snd r)) \<rparr>))"

text \<open>The beginning of \<^verbatim>\<open>runExecution\<close>, up to its loop.\<close>

definition run_context :: "execution_row \<Rightarrow> (string \<times> jsval) list" where
  "run_context x =
     [(''trigger'', JObj (ex_inputContext x)), (''vars'', coalesce (ex_vars x) (JObj []))] @ ex_inputContext x"

definition begin_run :: "'w durable_env \<Rightarrow> string \<Rightarrow> 'w durable \<Rightarrow> 'w durable" where
  "begin_run env i du =
     (case find_execution du i of
        None \<Rightarrow> du
      | Some x \<Rightarrow>
          if \<not> EXECUTION_ACTIVE (ex_status x) then du
          else (case find_version (du_db du) (ex_workflowVersionId x) of
                  None \<Rightarrow> finalize i ES_failed (Some ''missing_version'') du
                | Some ver \<Rightarrow>
                    (update_execution i (\<lambda>x. x \<lparr> ex_status := ES_running \<rparr>) du)
                      \<lparr> du_runs := du_runs du @
                          [\<lparr> lr_execution = i, lr_graph = vs_graph ver,
                             lr_grant = loadIdentityGrant env (ex_identityUserId x),
                             lr_states = ex_nodes x, lr_context = run_context x,
                             lr_left = maxIterations (vs_graph ver) \<rparr>] \<rparr>))"


section \<open>Waiting\<close>

text \<open>\<^verbatim>\<open>new Date(q)\<close>: whole milliseconds within the range of dates, otherwise invalid.\<close>

definition date_of :: "rat \<Rightarrow> time option" where
  "date_of q =
     (let t = (if q < 0 then \<lceil>q\<rceil> else \<lfloor>q\<rfloor>) in if \<bar>t\<bar> \<le> 8640000000000000 then Some t else None)"

definition setWaiting ::
  "string \<Rightarrow> execution_status \<Rightarrow> time option \<Rightarrow> time option \<Rightarrow> 'w durable \<Rightarrow> 'w durable" where
  "setWaiting i status resumeAt expiresAt du =
     update_execution i (\<lambda>x. x \<lparr> ex_status := status, ex_resumeAt := resumeAt, ex_expiresAt := expiresAt \<rparr>) du"

text \<open>Object spread of a value: arrays and strings contribute their indices.\<close>

fun spread :: "jsval \<Rightarrow> (string \<times> jsval) list" where
  "spread (JObj ps) = ps"
| "spread (JArr vs) = map (\<lambda>(k, v). (nat_digits k, v)) (enumerate 0 vs)"
| "spread (JStr s) = map (\<lambda>(k, c). (nat_digits k, JStr [c])) (enumerate 0 s)"
| "spread _ = []"

text \<open>
  The end of the wait of a node: \<open>None\<close> when it has none, \<open>Some None\<close> when it is no date,
  which the database refuses when it is written.
\<close>

definition wait_expiry :: "workflow_node \<Rightarrow> time \<Rightarrow> time option option" where
  "wait_expiry node now =
     (let timeoutS = (case wn_timeoutSeconds node of None \<Rightarrow> 0 | Some s \<Rightarrow> s)
      in if timeoutS > 0 then Some (date_of (of_int now + timeoutS * 1000)) else None)"

definition armDelay :: "'w durable_env \<Rightarrow> string \<Rightarrow> workflow_node \<Rightarrow> time \<Rightarrow> 'w durable \<Rightarrow> 'w durable" where
  "armDelay env i node now du =
     (case js_number (se_num_str (dv_sim env)) (coalesce (config_value node ''duration'') (JNum 0)) of
        Fin d \<Rightarrow> (case date_of (of_int now + d * 1000) of
                    None \<Rightarrow> du
                  | Some t \<Rightarrow> setWaiting i ES_waiting (Some t) None du)
      | _ \<Rightarrow> du)"

definition armApproval ::
  "'w durable_env \<Rightarrow> string \<Rightarrow> workflow_node \<Rightarrow> time option \<Rightarrow> string \<Rightarrow> 'w durable \<Rightarrow> 'w durable" where
  "armApproval env i node expiresAt newId du =
     (let row = \<lparr> ap_id = newId, ap_executionId = i, ap_status = AP_pending,
                  ap_requiredPermission = (case config_value node ''requiredPermission'' of JStr p \<Rightarrow> Some p | _ \<Rightarrow> None),
                  ap_destructive = (case se_registry (dv_sim env) (wn_type node) of
                                      None \<Rightarrow> False | Some d \<Rightarrow> nd_destructive d),
                  ap_expiresAt = expiresAt, ap_respondedById = None, ap_comment = None \<rparr>
      in case config_value node ''requiredPermission'' of
           JStr _ \<Rightarrow> setWaiting i ES_waiting_for_approval None expiresAt (du \<lparr> du_approvals := du_approvals du @ [row] \<rparr>)
         | v \<Rightarrow> if nullish v
                then setWaiting i ES_waiting_for_approval None expiresAt (du \<lparr> du_approvals := du_approvals du @ [row] \<rparr>)
                else du)"

definition armSubworkflow ::
  "'w durable_env \<Rightarrow> string \<Rightarrow> workflow_node \<Rightarrow> (string \<times> jsval) list \<Rightarrow> time option option \<Rightarrow> string \<Rightarrow> time \<Rightarrow>
   'w durable \<Rightarrow> 'w durable" where
  "armSubworkflow env i node context expiry newId now du =
     (let child = js_string (se_num_str (dv_sim env)) (coalesce (config_value node ''workflowId'') (JStr []));
          depth = (case find_execution du i of None \<Rightarrow> 0 | Some x \<Rightarrow> ex_depth x) + 1
      in if child = [] \<or> depth > MAX_SUBWORKFLOW_DEPTH
           then resumeNode i (wn_id node) ''failure'' (setWaiting i ES_waiting None None du)
         else (case expiry of
                 Some None \<Rightarrow> du
               | _ \<Rightarrow>
                   (let du1 = setWaiting i ES_waiting None (Option.bind expiry id) du
                    in case start child
                              \<lparr> si_context = spread (get_prop context ''trigger'') @
                                  [(''__parentExecutionId'', JStr i), (''__parentNodeId'', JStr (wn_id node))],
                                si_identityUserId = None \<rparr> newId now du1 of
                         Inl _ \<Rightarrow> resumeNode i (wn_id node) ''failure'' du1
                       | Inr du2 \<Rightarrow> du2)))"

text \<open>
  Where a value cannot be written the call throws: the node is stored as waiting, the status of
  the execution is left as it was.
\<close>

definition armWait ::
  "'w durable_env \<Rightarrow> string \<Rightarrow> workflow_node \<Rightarrow> (string \<times> jsval) list \<Rightarrow> string \<Rightarrow> time \<Rightarrow> 'w durable \<Rightarrow> 'w durable" where
  "armWait env i node context newId now du =
     (let expiry = wait_expiry node now
      in case map_option nd_category (se_registry (dv_sim env) (wn_type node)) of
           Some NC_delay \<Rightarrow> armDelay env i node now du
         | Some NC_wait \<Rightarrow>
             (case expiry of Some None \<Rightarrow> du
              | _ \<Rightarrow> setWaiting i ES_waiting_for_event None (Option.bind expiry id) du)
         | Some NC_approval \<Rightarrow>
             (case expiry of Some None \<Rightarrow> du
              | _ \<Rightarrow> armApproval env i node (Option.bind expiry id) newId du)
         | _ \<Rightarrow> armSubworkflow env i node context expiry newId now du)"


section \<open>Rounds of a run\<close>

text \<open>
  What a round changed in memory has been written to the rows of the nodes. A round is one
  iteration of the run loop; \<open>Run_exhausted\<close> after a single iteration means that the loop
  goes on.
\<close>

definition changed_nodes :: "run_states \<Rightarrow> run_states \<Rightarrow> run_states" where
  "changed_nodes st st' = (\<lambda>v. if st' v = st v then None else st' v)"

definition round_host :: "'w durable_env \<Rightarrow> execution_row \<Rightarrow> 'w exec_host" where
  "round_host env x = \<lparr> xh_action = dv_action env, xh_cancelling = (\<lambda>_. ex_status x = ES_cancelling) \<rparr>"

definition round_env :: "'w durable_env \<Rightarrow> live_run \<Rightarrow> exec_env" where
  "round_env env r = \<lparr> xe_sim = dv_sim env, xe_grant = lr_grant r \<rparr>"

definition drop_nth :: "nat \<Rightarrow> 'a list \<Rightarrow> 'a list" where
  "drop_nth k xs = take k xs @ drop (Suc k) xs"

definition end_run ::
  "'w durable_env \<Rightarrow> string \<Rightarrow> 'w run_end \<Rightarrow> (string \<times> jsval) list \<Rightarrow> string \<Rightarrow> time \<Rightarrow> 'w durable \<Rightarrow> 'w durable" where
  "end_run env i e context newId now du =
     (case e of
        Run_cancelled \<Rightarrow> finalize i ES_cancelled None du
      | Run_finished failed \<Rightarrow>
          finalize i (if failed then ES_failed else ES_completed) None (saveVars i (get_prop context ''vars'') du)
      | Run_parked node \<Rightarrow> armWait env i node context newId now (saveVars i (get_prop context ''vars'') du)
      | Run_threw _ \<Rightarrow> du
      | Run_exhausted \<Rightarrow> finalize i ES_completed None (saveVars i (get_prop context ''vars'') du))"

definition run_round :: "'w durable_env \<Rightarrow> nat \<Rightarrow> string \<Rightarrow> time \<Rightarrow> 'w durable \<Rightarrow> 'w durable" where
  "run_round env k newId now du =
     (if k \<ge> length (du_runs du) then du
      else
        (let r = du_runs du ! k; i = lr_execution r; gone = du \<lparr> du_runs := drop_nth k (du_runs du) \<rparr>
         in case find_execution du i of
              None \<Rightarrow> gone
            | Some x \<Rightarrow>
                if lr_left r = 0 then end_run env i Run_exhausted (lr_context r) newId now gone
                else
                  (let (e, rn) = run_loop (round_env env r) (round_host env x) (lr_graph r) 1
                                   \<lparr> rn_states = lr_states r, rn_context = lr_context r, rn_world = du_world du \<rparr>;
                       written = (\<lambda>d. update_execution i (\<lambda>x. x \<lparr> ex_nodes := ex_nodes x ++
                                          changed_nodes (lr_states r) (rn_states rn) \<rparr>) (d \<lparr> du_world := rn_world rn \<rparr>))
                   in if e = Run_exhausted
                      then written (du \<lparr> du_runs := (du_runs du)[k := r \<lparr>
                             lr_states := rn_states rn, lr_context := rn_context rn, lr_left := lr_left r - 1 \<rparr>] \<rparr>)
                      else end_run env i e (rn_context rn) newId now (written gone))))"


section \<open>Approvals, timer, events and restart\<close>

record responder =
  rs_id :: string
  rs_permissions :: "string list"

definition respondToApproval ::
  "'w durable_env \<Rightarrow> string \<Rightarrow> bool \<Rightarrow> responder \<Rightarrow> string option \<Rightarrow> 'w durable \<Rightarrow> http_error + 'w durable" where
  "respondToApproval env approvalId approve user comment du =
     (case find (\<lambda>a. ap_id a = approvalId) (du_approvals du) of
        None \<Rightarrow> Inl (Not_found ''Approval not found'')
      | Some a \<Rightarrow>
          if ap_status a \<noteq> AP_pending then Inl (Bad_request ''Approval already decided'')
          else if (case ap_requiredPermission a of
                     None \<Rightarrow> False | Some p \<Rightarrow> p \<noteq> [] \<and> p \<notin> set (rs_permissions user))
            then Inl (Bad_request ''You lack the permission required to decide this approval'')
          else Inr (resume env (ap_executionId a) (if approve then ''approved'' else ''rejected'')
                 (du \<lparr> du_approvals := map (\<lambda>b. if ap_id b = approvalId
                         then b \<lparr> ap_status := (if approve then AP_approved else AP_rejected),
                                  ap_respondedById := Some (rs_id user), ap_comment := comment \<rparr>
                         else b) (du_approvals du) \<rparr>)))"

definition expire_approvals :: "string \<Rightarrow> 'w durable \<Rightarrow> 'w durable" where
  "expire_approvals i du =
     du \<lparr> du_approvals := map (\<lambda>a. if ap_executionId a = i \<and> ap_status a = AP_pending
                                   then a \<lparr> ap_status := AP_expired \<rparr> else a) (du_approvals du) \<rparr>"

definition due :: "time \<Rightarrow> time option \<Rightarrow> bool" where
  "due now t = (case t of None \<Rightarrow> False | Some u \<Rightarrow> u \<le> now)"

definition time_out :: "'w durable_env \<Rightarrow> execution_row \<Rightarrow> 'w durable \<Rightarrow> 'w durable" where
  "time_out env x du =
     resume env (ex_id x) ''timeout''
       (if ex_status x = ES_waiting_for_approval then expire_approvals (ex_id x) du else du)"

definition tick :: "'w durable_env \<Rightarrow> time \<Rightarrow> 'w durable \<Rightarrow> 'w durable" where
  "tick env now du =
     (let delayed = take 50 (filter (\<lambda>x. ex_status x = ES_waiting \<and> due now (ex_resumeAt x)) (du_executions du));
          du1 = fold (\<lambda>x. resume env (ex_id x) ''out'') delayed du;
          expired = take 50 (filter (\<lambda>x. ex_status x \<in> {ES_waiting_for_event, ES_waiting_for_approval} \<and>
                                         due now (ex_expiresAt x)) (du_executions du1))
      in fold (time_out env) expired du1)"

definition retain_ms :: "execution_status \<Rightarrow> int option" where
  "retain_ms s =
     (if s \<in> {ES_completed, ES_completed_with_warnings, ES_cancelled, ES_expired} then Some (7 * 86400000)
      else if s = ES_failed then Some (30 * 86400000) else None)"

definition keep_executions :: "(execution_row \<Rightarrow> bool) \<Rightarrow> 'w durable \<Rightarrow> 'w durable" where
  "keep_executions P du =
     (let gone = ex_id ` set (filter (\<lambda>x. \<not> P x) (du_executions du))
      in du \<lparr> du_executions := filter P (du_executions du),
              du_approvals := filter (\<lambda>a. ap_executionId a \<notin> gone) (du_approvals du) \<rparr>)"

definition retention :: "time \<Rightarrow> 'w durable \<Rightarrow> 'w durable" where
  "retention now du =
     keep_executions (\<lambda>x. case retain_ms (ex_status x) of
                            None \<Rightarrow> True | Some ms \<Rightarrow> ex_createdAt x \<ge> now - ms) du"

definition awaits :: "'w durable_env \<Rightarrow> 'w durable \<Rightarrow> string \<Rightarrow> execution_row \<Rightarrow> bool" where
  "awaits env du eventKey x =
     (case dv_first env (ex_nodes x) of
        None \<Rightarrow> False
      | Some v \<Rightarrow>
          (case find_version (du_db du) (ex_workflowVersionId x) of
             None \<Rightarrow> False
           | Some ver \<Rightarrow>
               (case find (\<lambda>n. wn_id n = v) (wg_nodes (vs_graph ver)) of
                  None \<Rightarrow> False
                | Some n \<Rightarrow> config_value n ''eventType'' = JStr eventKey)))"

definition onDomainEvent :: "'w durable_env \<Rightarrow> string \<Rightarrow> 'w durable \<Rightarrow> 'w durable" where
  "onDomainEvent env eventKey du =
     fold (\<lambda>x du'. case find_execution du' (ex_id x) of
                      None \<Rightarrow> du'
                    | Some y \<Rightarrow> if awaits env du' eventKey y
                                then resume env (ex_id x) ''completed'' du' else du')
       (take 200 (filter (\<lambda>x. ex_status x = ES_waiting_for_event) (du_executions du))) du"

definition interrupt_nodes :: "run_states \<Rightarrow> run_states" where
  "interrupt_nodes st =
     (\<lambda>v. map_option (\<lambda>s. if nr_status s = NR_running then s \<lparr> nr_status := NR_failed \<rparr> else s) (st v))"

definition onModuleInit :: "'w durable \<Rightarrow> 'w durable" where
  "onModuleInit du =
     fold (\<lambda>x du'. call_run (ex_id x)
                      (update_execution (ex_id x) (\<lambda>y. y \<lparr> ex_nodes := interrupt_nodes (ex_nodes y) \<rparr>) du'))
       (take 100 (filter (\<lambda>x. ex_status x \<in> {ES_queued, ES_running, ES_retrying}) (du_executions du))) du"

text \<open>A restart loses what is in memory.\<close>

definition restart :: "'w durable \<Rightarrow> 'w durable" where
  "restart du = onModuleInit (du \<lparr> du_calls := [], du_runs := [] \<rparr>)"

text \<open>Requests of the workflow service see the executions, and a removed workflow takes them along.\<close>

definition workflow_tables :: "'w durable \<Rightarrow> workflow_db" where
  "workflow_tables du =
     (du_db du) \<lparr> wd_executions := map (\<lambda>x. (ex_workflowId x, ex_status x)) (du_executions du) \<rparr>"

definition removed_workflow :: "workflow_request \<Rightarrow> string option" where
  "removed_workflow r = (case r of Req_remove i \<Rightarrow> Some i | _ \<Rightarrow> None)"

definition workflow_request_on :: "'w durable_env \<Rightarrow> workflow_request \<Rightarrow> 'w durable \<Rightarrow> 'w durable" where
  "workflow_request_on env r du =
     (case handle_request (dv_workflow env) r (workflow_tables du) of
        Inl _ \<Rightarrow> du
      | Inr db \<Rightarrow>
          keep_executions (\<lambda>x. removed_workflow r \<noteq> Some (ex_workflowId x)) (du \<lparr> du_db := db \<rparr>))"

datatype event =
  Ev_start string start_input string time
| Ev_begin nat
| Ev_round nat string time
| Ev_cancel string
| Ev_respond string bool responder "string option"
| Ev_tick time
| Ev_domain string
| Ev_retention time
| Ev_restart
| Ev_request workflow_request

definition begin_call :: "'w durable_env \<Rightarrow> nat \<Rightarrow> 'w durable \<Rightarrow> 'w durable" where
  "begin_call env k du =
     (if k \<ge> length (du_calls du) then du
      else begin_run env (du_calls du ! k) (du \<lparr> du_calls := drop_nth k (du_calls du) \<rparr>))"

text \<open>A refused request answers with its error and changes nothing.\<close>

definition settle_error :: "'w durable \<Rightarrow> 'e + 'w durable \<Rightarrow> 'w durable" where
  "settle_error du r = (case r of Inl _ \<Rightarrow> du | Inr du' \<Rightarrow> du')"

fun step :: "'w durable_env \<Rightarrow> event \<Rightarrow> 'w durable \<Rightarrow> 'w durable" where
  "step env (Ev_start w input newId now) du = settle_error du (start w input newId now du)"
| "step env (Ev_begin k) du = begin_call env k du"
| "step env (Ev_round k newId now) du = run_round env k newId now du"
| "step env (Ev_cancel i) du = settle_error du (map_sum id snd (cancel i du))"
| "step env (Ev_respond a approve user comment) du = settle_error du (respondToApproval env a approve user comment du)"
| "step env (Ev_tick now) du = tick env now du"
| "step env (Ev_domain key) du = onDomainEvent env key du"
| "step env (Ev_retention now) du = retention now du"
| "step env Ev_restart du = restart du"
| "step env (Ev_request r) du = workflow_request_on env r du"

end
