(* ===== verification/Wf_Durable.thy ===== *)
theory Wf_Durable
  imports Wf_Rows
begin

text \<open>
  What durable executions guarantee, over the events of \<open>Wf_Rows\<close> in any order: an
  execution stays on the published version it was started on, approvals are decided once and by
  a permitted user, a restart resumes a run where it stopped, and a finished execution stays
  finished. The locale \<open>history_invariant\<close> carries an invariant along a history of events
  that bring unused ids.
\<close>

section \<open>What an execution is pinned to\<close>

text \<open>
  The identity of a row is what is set when it is created and never again; the identity of a run
  is its execution and its graph.
\<close>

type_synonym row_key = "string \<times> string \<times> string \<times> (string \<times> jsval) list \<times> string option"

definition row_key :: "execution_row \<Rightarrow> row_key" where
  "row_key x = (ex_id x, ex_workflowId x, ex_workflowVersionId x, ex_inputContext x, ex_identityUserId x)"

definition keys_of :: "'w durable \<Rightarrow> row_key list" where
  "keys_of du = map row_key (du_executions du)"

definition runs_of :: "'w durable \<Rightarrow> (string \<times> workflow_graph) list" where
  "runs_of du = map (\<lambda>r. (lr_execution r, lr_graph r)) (du_runs du)"

named_theorems durable_frame \<open>operations that keep the identities of rows and runs\<close>

lemma update_execution_frame [durable_frame]:
  assumes "\<And>x. row_key (f x) = row_key x"
  shows "keys_of (update_execution i f du) = keys_of du" "du_db (update_execution i f du) = du_db du"
    "runs_of (update_execution i f du) = runs_of du" "du_calls (update_execution i f du) = du_calls du"
    "du_approvals (update_execution i f du) = du_approvals du" "du_runs (update_execution i f du) = du_runs du"
    "du_world (update_execution i f du) = du_world du"
  using assms by (simp_all add: update_execution_def keys_of_def runs_of_def)

lemma row_key_update [simp]:
  "row_key (x \<lparr> ex_status := s \<rparr>) = row_key x" "row_key (x \<lparr> ex_vars := vars \<rparr>) = row_key x"
  "row_key (x \<lparr> ex_reason := rs \<rparr>) = row_key x" "row_key (x \<lparr> ex_resumeAt := ra \<rparr>) = row_key x"
  "row_key (x \<lparr> ex_expiresAt := ea \<rparr>) = row_key x" "row_key (x \<lparr> ex_nodes := ns \<rparr>) = row_key x"
  by (simp_all add: row_key_def)

lemma call_run_frame [durable_frame]:
  "keys_of (call_run i du) = keys_of du" "du_db (call_run i du) = du_db du" "runs_of (call_run i du) = runs_of du"
  "du_approvals (call_run i du) = du_approvals du" "du_executions (call_run i du) = du_executions du"
  by (simp_all add: call_run_def keys_of_def runs_of_def)

lemma resumeNode_frame [durable_frame]:
  "keys_of (resumeNode i v port du) = keys_of du" "du_db (resumeNode i v port du) = du_db du"
  "runs_of (resumeNode i v port du) = runs_of du" "du_approvals (resumeNode i v port du) = du_approvals du"
  by (simp_all add: resumeNode_def durable_frame split: option.split)

lemma resume_frame [durable_frame]:
  "keys_of (resume env i port du) = keys_of du" "du_db (resume env i port du) = du_db du"
  "runs_of (resume env i port du) = runs_of du" "du_approvals (resume env i port du) = du_approvals du"
  by (simp_all add: resume_def durable_frame split: option.split)

lemma finalize_frame [durable_frame]:
  "keys_of (finalize i st rs du) = keys_of du" "du_db (finalize i st rs du) = du_db du"
  "runs_of (finalize i st rs du) = runs_of du" "du_approvals (finalize i st rs du) = du_approvals du"
  by (simp_all add: finalize_def durable_frame Let_def split: option.split prod.split)

lemma saveVars_frame [durable_frame]:
  "keys_of (saveVars i vars du) = keys_of du" "du_db (saveVars i vars du) = du_db du"
  "runs_of (saveVars i vars du) = runs_of du" "du_approvals (saveVars i vars du) = du_approvals du"
  by (simp_all add: saveVars_def durable_frame)

lemma setWaiting_frame [durable_frame]:
  "keys_of (setWaiting i s ra ea du) = keys_of du" "du_db (setWaiting i s ra ea du) = du_db du"
  "runs_of (setWaiting i s ra ea du) = runs_of du" "du_approvals (setWaiting i s ra ea du) = du_approvals du"
  by (simp_all add: setWaiting_def durable_frame)

lemma armDelay_frame [durable_frame]:
  "keys_of (armDelay env i node now du) = keys_of du" "du_db (armDelay env i node now du) = du_db du"
  "runs_of (armDelay env i node now du) = runs_of du" "du_approvals (armDelay env i node now du) = du_approvals du"
  by (simp_all add: armDelay_def durable_frame split: jsnum.split option.split)

lemma approvals_frame [durable_frame]:
  "keys_of (du \<lparr> du_approvals := as \<rparr>) = keys_of du" "runs_of (du \<lparr> du_approvals := as \<rparr>) = runs_of du"
  "keys_of (du \<lparr> du_world := w \<rparr>) = keys_of du" "runs_of (du \<lparr> du_world := w \<rparr>) = runs_of du"
  "keys_of (du \<lparr> du_calls := cs \<rparr>) = keys_of du" "runs_of (du \<lparr> du_calls := cs \<rparr>) = runs_of du"
  "keys_of (du \<lparr> du_runs := rs \<rparr>) = keys_of du" "keys_of (du \<lparr> du_db := db \<rparr>) = keys_of du"
  "runs_of (du \<lparr> du_db := db \<rparr>) = runs_of du"
  by (simp_all add: keys_of_def runs_of_def)

lemma armApproval_frame [durable_frame]:
  "keys_of (armApproval env i node ea newId du) = keys_of du" "du_db (armApproval env i node ea newId du) = du_db du"
  "runs_of (armApproval env i node ea newId du) = runs_of du"
  by (simp_all add: armApproval_def Let_def durable_frame split: jsval.split)

lemma expire_frame [durable_frame]:
  "keys_of (expire_approvals i du) = keys_of du" "du_db (expire_approvals i du) = du_db du"
  "runs_of (expire_approvals i du) = runs_of du"
  by (simp_all add: expire_approvals_def durable_frame)

lemma fold_frame:
  assumes "\<And>x du. P (f x du) = P du"
  shows "P (fold f xs du) = P du"
  by (induction xs arbitrary: du) (simp_all add: assms)

lemma time_out_frame [durable_frame]:
  "keys_of (time_out env x du) = keys_of du" "du_db (time_out env x du) = du_db du"
  "runs_of (time_out env x du) = runs_of du"
  by (simp_all add: time_out_def durable_frame)

lemma tick_frame [durable_frame]:
  "keys_of (tick env now du) = keys_of du" "du_db (tick env now du) = du_db du" "runs_of (tick env now du) = runs_of du"
  by (simp_all add: tick_def Let_def fold_frame [where P = keys_of] fold_frame [where P = du_db]
      fold_frame [where P = runs_of] durable_frame)

lemma onDomainEvent_frame [durable_frame]:
  "keys_of (onDomainEvent env key du) = keys_of du" "du_db (onDomainEvent env key du) = du_db du"
  "runs_of (onDomainEvent env key du) = runs_of du"
  unfolding onDomainEvent_def
  by (intro fold_frame [where P = keys_of] fold_frame [where P = du_db] fold_frame [where P = runs_of];
      simp add: durable_frame split: option.split)+

lemma onModuleInit_frame [durable_frame]:
  "keys_of (onModuleInit du) = keys_of du" "du_db (onModuleInit du) = du_db du" "runs_of (onModuleInit du) = runs_of du"
  unfolding onModuleInit_def
  by (intro fold_frame [where P = keys_of] fold_frame [where P = du_db] fold_frame [where P = runs_of];
      simp add: durable_frame)+

lemma cancel_frame:
  "cancel i du = Inr (s, du') \<Longrightarrow> keys_of du' = keys_of du \<and> du_db du' = du_db du \<and> runs_of du' = runs_of du \<and>
     du_approvals du' = du_approvals du"
  by (auto simp: cancel_def durable_frame split: option.splits if_splits)

lemma respond_frame:
  "respondToApproval env a b u c du = Inr du' \<Longrightarrow> keys_of du' = keys_of du \<and> du_db du' = du_db du \<and> runs_of du' = runs_of du"
  by (auto simp: respondToApproval_def durable_frame split: option.splits if_splits)


text \<open>A step adds at most one execution, of the version its workflow has published.\<close>

definition grows :: "string \<Rightarrow> 'w durable \<Rightarrow> 'w durable \<Rightarrow> bool" where
  "grows newId du du' \<longleftrightarrow>
     du_db du' = du_db du \<and> runs_of du' = runs_of du \<and>
     (keys_of du' = keys_of du \<or>
      (\<exists>w row ver c u. find_workflow (du_db du) w = Some row \<and> wf_publishedVersionId row = Some ver \<and>
         keys_of du' = keys_of du @ [(newId, w, ver, c, u)]))"

lemma grows_same:
  "du_db du' = du_db du \<Longrightarrow> runs_of du' = runs_of du \<Longrightarrow> keys_of du' = keys_of du \<Longrightarrow> grows newId du du'"
  by (simp add: grows_def)

lemma grows_after:
  "grows newId du1 du2 \<Longrightarrow> du_db du1 = du_db du \<Longrightarrow> runs_of du1 = runs_of du \<Longrightarrow> keys_of du1 = keys_of du \<Longrightarrow>
   grows newId du du2"
  by (auto simp: grows_def)

lemma grows_keys:
  assumes "grows newId du du'"
  shows "set (keys_of du') \<subseteq> set (keys_of du) \<union> {k. fst k = newId}" "du_db du' = du_db du" "runs_of du' = runs_of du"
  using assms unfolding grows_def by (elim conjE disjE exE; simp)+

lemma start_grows: "start w input newId now du = Inr du' \<Longrightarrow> grows newId du du'"
  by (auto simp: start_def grows_def call_run_def keys_of_def runs_of_def row_key_def split: option.splits if_splits)

lemma armSubworkflow_grows: "grows newId du (armSubworkflow env i node context ea newId now du)"
proof -
  have fin: "grows newId du (case start child input newId now (setWaiting i ES_waiting None t du) of
      Inl _ \<Rightarrow> resumeNode i (wn_id node) ''failure'' (setWaiting i ES_waiting None t du) | Inr du2 \<Rightarrow> du2)"
    for child input t
  proof (cases "start child input newId now (setWaiting i ES_waiting None t du)")
    case (Inl e)
    then show ?thesis by (simp add: grows_same durable_frame)
  next
    case (Inr du2)
    then show ?thesis using grows_after [OF start_grows [OF Inr], of du] by (simp add: durable_frame)
  qed
  show ?thesis
  proof (cases ea)
    case None
    then show ?thesis using fin by (simp add: armSubworkflow_def Let_def grows_same durable_frame)
  next
    case (Some t)
    then show ?thesis using fin by (cases t) (simp_all add: armSubworkflow_def Let_def grows_same durable_frame)
  qed
qed

lemma armWait_grows: "grows newId du (armWait env i node context newId now du)"
  unfolding armWait_def Let_def
  by (auto simp: armSubworkflow_grows grows_same durable_frame split: option.split node_category.split)

lemma end_run_grows: "grows newId du (end_run env i e context newId now du)"
proof (cases e)
  case (Run_parked node)
  then show ?thesis using grows_after [OF armWait_grows, of "saveVars i (get_prop context ''vars'') du" du]
    by (simp add: end_run_def durable_frame)
qed (simp_all add: end_run_def grows_same durable_frame)

definition key_ok :: "workflow_db \<Rightarrow> row_key \<Rightarrow> bool" where
  "key_ok db = (\<lambda>(i, w, ver, c, u).
     \<exists>v\<in>set (wd_versions db). vs_id v = ver \<and> vs_workflowId v = w \<and> vs_status v = VS_published)"

definition run_ok_for :: "workflow_db \<Rightarrow> row_key list \<Rightarrow> string \<times> workflow_graph \<Rightarrow> bool" where
  "run_ok_for db ks = (\<lambda>(i, g). \<forall>(j, w, ver, c, u)\<in>set ks. j = i \<longrightarrow>
     (\<exists>v\<in>set (wd_versions db). vs_id v = ver \<and> vs_graph v = g))"

definition durable_inv :: "'w durable_env \<Rightarrow> 'w durable \<Rightarrow> bool" where
  "durable_inv env du \<longleftrightarrow>
     workflow_inv (dv_workflow env) (du_db du) \<and> distinct (map fst (keys_of du)) \<and>
     (\<forall>k\<in>set (keys_of du). key_ok (du_db du) k) \<and> (\<forall>p\<in>set (runs_of du). run_ok_for (du_db du) (keys_of du) p)"

text \<open>The ids that are taken, and those an event brings along.\<close>

definition known_ids :: "'w durable \<Rightarrow> string set" where
  "known_ids du = fst ` set (keys_of du) \<union> fst ` set (runs_of du)"

fun new_ids :: "event \<Rightarrow> string set" where
  "new_ids (Ev_start w input newId now) = {newId}"
| "new_ids (Ev_round k newId now) = {newId}"
| "new_ids _ = {}"

lemma published_key_ok:
  assumes "workflow_inv wenv db" "find_workflow db w = Some row" "wf_publishedVersionId row = Some ver"
  shows "key_ok db (i, w, ver, c, u)"
proof -
  have row: "row \<in> set (wd_workflows db)" "wf_id row = w"
    using assms(2) by (auto simp: find_workflow_def find_Some_iff)
  then have "(w, Some ver, wf_currentDraftVersionId row) \<in> set (pointers_of db)"
    using assms(3) by (auto simp: pointers_of_def image_iff intro!: bexI [of _ row])
  then show ?thesis using assms(1) by (fastforce simp: workflow_inv_def versions_inv_def pointer_ok_def key_ok_def)
qed

lemma grows_inv:
  assumes "durable_inv env du" "grows newId du du'" "newId \<notin> fst ` set (keys_of du) \<union> fst ` set (runs_of du)"
  shows "durable_inv env du'"
proof (cases "keys_of du' = keys_of du")
  case True
  then show ?thesis using assms(1,2) by (simp add: durable_inv_def grows_def)
next
  case False
  then obtain w row ver c u where new: "find_workflow (du_db du) w = Some row" "wf_publishedVersionId row = Some ver"
      "keys_of du' = keys_of du @ [(newId, w, ver, c, u)]" and same: "du_db du' = du_db du" "runs_of du' = runs_of du"
    using assms(2) by (auto simp: grows_def)
  have "workflow_inv (dv_workflow env) (du_db du)" using assms(1) by (simp add: durable_inv_def)
  from published_key_ok [OF this new(1,2)] have "key_ok (du_db du) (newId, w, ver, c, u)" .
  moreover have "run_ok_for (du_db du) (keys_of du') p" if "p \<in> set (runs_of du)" for p
  proof -
    have "run_ok_for (du_db du) (keys_of du) p" "fst p \<noteq> newId"
      using assms(1,3) that by (auto simp: durable_inv_def)
    then show ?thesis by (auto simp: run_ok_for_def new(3) split: prod.splits)
  qed
  ultimately show ?thesis using assms(1,3) by (auto simp: durable_inv_def new(3) same)
qed

lemma fewer_runs_inv:
  "durable_inv env du \<Longrightarrow> du_db du' = du_db du \<Longrightarrow> keys_of du' = keys_of du \<Longrightarrow>
   set (runs_of du') \<subseteq> set (runs_of du) \<Longrightarrow> durable_inv env du'"
  by (auto simp: durable_inv_def)


lemma run_graph_published:
  assumes inv: "durable_inv env du" and "r \<in> set (du_runs du)" "y \<in> set (du_executions du)" "ex_id y = lr_execution r"
  shows "\<exists>v\<in>set (wd_versions (du_db du)). vs_id v = ex_workflowVersionId y \<and> vs_status v = VS_published \<and>
    lr_graph r = vs_graph v"
proof -
  have mem: "row_key y \<in> set (keys_of du)" "(lr_execution r, lr_graph r) \<in> set (runs_of du)"
    using assms(2,3) by (auto simp: keys_of_def runs_of_def)
  have "key_ok (du_db du) (row_key y)" using inv mem(1) by (simp add: durable_inv_def)
  then obtain v where v: "v \<in> set (wd_versions (du_db du))" "vs_id v = ex_workflowVersionId y" "vs_status v = VS_published"
    by (auto simp: key_ok_def row_key_def)
  have "run_ok_for (du_db du) (keys_of du) (lr_execution r, lr_graph r)" using inv mem(2) by (simp add: durable_inv_def)
  then obtain u where u: "u \<in> set (wd_versions (du_db du))" "vs_id u = ex_workflowVersionId y" "vs_graph u = lr_graph r"
    using mem(1) assms(4) unfolding run_ok_for_def row_key_def by fastforce
  have "inj_on vs_id (set (wd_versions (du_db du)))"
    using inv by (simp add: durable_inv_def workflow_inv_def versions_inv_def distinct_map)
  then have "u = v" using u v by (metis inj_onD)
  then show ?thesis using u v by auto
qed

lemma set_drop_nth: "set (drop_nth k xs) \<subseteq> set xs"
  by (auto simp: drop_nth_def dest: in_set_takeD in_set_dropD)

lemma runs_of_updates:
  "set (runs_of (du \<lparr> du_runs := drop_nth k (du_runs du) \<rparr>)) \<subseteq> set (runs_of du)"
  "k < length (du_runs du) \<Longrightarrow> lr_execution r = lr_execution (du_runs du ! k) \<Longrightarrow> lr_graph r = lr_graph (du_runs du ! k) \<Longrightarrow>
   runs_of (du \<lparr> du_runs := (du_runs du)[k := r] \<rparr>) = runs_of du"
  using set_drop_nth [of k "du_runs du"] by (auto simp: runs_of_def map_update list_update_same_conv)

text \<open>
  The outcomes of a round: the run is dropped, it ends without a round, it ends after a round, or
  it goes on.
\<close>

definition write_nodes :: "string \<Rightarrow> run_states \<Rightarrow> 'w \<Rightarrow> 'w durable \<Rightarrow> 'w durable" where
  "write_nodes i m w du = update_execution i (\<lambda>y. y \<lparr> ex_nodes := ex_nodes y ++ m \<rparr>) (du \<lparr> du_world := w \<rparr>)"

lemma run_round_cases:
  fixes du :: "'w durable"
  assumes "k < length (du_runs du)" and r: "r = du_runs du ! k" and gone: "gone = du \<lparr> du_runs := drop_nth k (du_runs du) \<rparr>"
    and "P gone" and "\<And>e c. P (end_run env (lr_execution r) e c newId now gone)"
    and "\<And>e c m w. P (end_run env (lr_execution r) e c newId now (write_nodes (lr_execution r) m w gone))"
    and "\<And>st c l m w. P (write_nodes (lr_execution r) m w
           (du \<lparr> du_runs := (du_runs du)[k := r \<lparr> lr_states := st, lr_context := c, lr_left := l \<rparr>] \<rparr>))"
  shows "P (run_round env k newId now du)"
proof (cases "find_execution du (lr_execution r)")
  case None
  then show ?thesis using assms by (simp add: run_round_def Let_def)
next
  case (Some x)
  show ?thesis
  proof (cases "lr_left r = 0")
    case True
    then show ?thesis using assms Some by (simp add: run_round_def Let_def)
  next
    case False
    obtain e rn where loop: "run_loop (round_env env r) (round_host env x) (lr_graph r) 1
        \<lparr> rn_states = lr_states r, rn_context = lr_context r, rn_world = du_world du \<rparr> = (e, rn)" by fastforce
    let ?w = "write_nodes (lr_execution r) (changed_nodes (lr_states r) (rn_states rn)) (rn_world rn)"
    have "run_round env k newId now du =
        (if e = Run_exhausted then ?w (du \<lparr> du_runs := (du_runs du)[k := r \<lparr>
             lr_states := rn_states rn, lr_context := rn_context rn, lr_left := lr_left r - 1 \<rparr>] \<rparr>)
         else end_run env (lr_execution r) e (rn_context rn) newId now (?w gone))"
      using assms(1) Some False loop by (simp add: run_round_def Let_def r [symmetric] gone write_nodes_def)
    then show ?thesis using assms(6,7) by simp
  qed
qed

lemma write_nodes_frame [durable_frame]:
  "keys_of (write_nodes i m w du) = keys_of du" "du_db (write_nodes i m w du) = du_db du"
  "runs_of (write_nodes i m w du) = runs_of du" "du_approvals (write_nodes i m w du) = du_approvals du"
  by (simp_all add: write_nodes_def durable_frame)

lemma round_grows:
  "\<exists>du1. du_db du1 = du_db du \<and> keys_of du1 = keys_of du \<and> set (runs_of du1) \<subseteq> set (runs_of du) \<and>
     grows newId du1 (run_round env k newId now du)"
proof (cases "k < length (du_runs du)")
  case False
  then show ?thesis by (intro exI [of _ du]) (simp add: run_round_def grows_same)
next
  case True
  define gone where "gone = du \<lparr> du_runs := drop_nth k (du_runs du) \<rparr>"
  have gone: "du_db gone = du_db du" "keys_of gone = keys_of du" "set (runs_of gone) \<subseteq> set (runs_of du)"
    using runs_of_updates(1) by (auto simp: gone_def durable_frame)
  show ?thesis
  proof (rule run_round_cases [OF True refl gone_def])
    show "\<exists>du1. du_db du1 = du_db du \<and> keys_of du1 = keys_of du \<and> set (runs_of du1) \<subseteq> set (runs_of du) \<and> grows newId du1 gone"
      using gone by (intro exI [of _ gone]) (simp add: grows_same)
  next
    fix e c
    show "\<exists>du1. du_db du1 = du_db du \<and> keys_of du1 = keys_of du \<and> set (runs_of du1) \<subseteq> set (runs_of du) \<and>
        grows newId du1 (end_run env (lr_execution (du_runs du ! k)) e c newId now gone)"
      using gone by (intro exI [of _ gone]) (simp add: end_run_grows)
  next
    fix e c m w
    show "\<exists>du1. du_db du1 = du_db du \<and> keys_of du1 = keys_of du \<and> set (runs_of du1) \<subseteq> set (runs_of du) \<and>
        grows newId du1 (end_run env (lr_execution (du_runs du ! k)) e c newId now
          (write_nodes (lr_execution (du_runs du ! k)) m w gone))"
      using gone by (intro exI [of _ "write_nodes (lr_execution (du_runs du ! k)) m w gone"])
        (simp add: end_run_grows durable_frame)
  next
    fix st c l m w
    show "\<exists>du1. du_db du1 = du_db du \<and> keys_of du1 = keys_of du \<and> set (runs_of du1) \<subseteq> set (runs_of du) \<and>
        grows newId du1 (write_nodes (lr_execution (du_runs du ! k)) m w (du \<lparr> du_runs := (du_runs du)[k :=
          (du_runs du ! k) \<lparr> lr_states := st, lr_context := c, lr_left := l \<rparr>] \<rparr>))"
      using True by (intro exI [of _ du]) (simp add: grows_same durable_frame runs_of_updates(2))
  qed
qed

lemma begin_run_cases:
  "begin_run env i du = du \<or> begin_run env i du = finalize i ES_failed (Some ''missing_version'') du \<or>
   (\<exists>x ver. find_execution du i = Some x \<and> find_version (du_db du) (ex_workflowVersionId x) = Some ver \<and>
      du_db (begin_run env i du) = du_db du \<and> keys_of (begin_run env i du) = keys_of du \<and>
      runs_of (begin_run env i du) = runs_of du @ [(i, vs_graph ver)])"
proof -
  have "runs_of (d \<lparr> du_runs := du_runs du @ [r] \<rparr>) = runs_of du @ [(lr_execution r, lr_graph r)]" for d :: "'a durable" and r
    by (simp add: runs_of_def)
  then show ?thesis by (auto simp: begin_run_def durable_frame split: option.splits)
qed

lemma find_executionD: "find_execution du i = Some x \<Longrightarrow> x \<in> set (du_executions du) \<and> ex_id x = i"
  by (auto simp: find_execution_def find_Some_iff)

lemma begin_run_inv:
  assumes "durable_inv env du"
  shows "durable_inv env (begin_run env i du)"
proof -
  consider "begin_run env i du = du" | "begin_run env i du = finalize i ES_failed (Some ''missing_version'') du"
    | x ver where "find_execution du i = Some x" "find_version (du_db du) (ex_workflowVersionId x) = Some ver"
        "du_db (begin_run env i du) = du_db du" "keys_of (begin_run env i du) = keys_of du"
        "runs_of (begin_run env i du) = runs_of du @ [(i, vs_graph ver)]"
    using begin_run_cases [of env i du] by blast
  then show ?thesis
  proof cases
    case (3 x ver)
    have x: "row_key x \<in> set (keys_of du)" "fst (row_key x) = i"
      using find_executionD [OF 3(1)] by (auto simp: keys_of_def row_key_def)
    have ver: "ver \<in> set (wd_versions (du_db du))" "vs_id ver = ex_workflowVersionId x"
      using 3(2) by (auto simp: find_version_def find_Some_iff)
    have "k = row_key x" if "k \<in> set (keys_of du)" "fst k = i" for k
      using that x assms by (metis durable_inv_def eq_key_imp_eq_value prod.collapse)
    then have "run_ok_for (du_db du) (keys_of du) (i, vs_graph ver)"
      using ver by (fastforce simp: run_ok_for_def row_key_def)
    then show ?thesis using assms 3 by (simp add: durable_inv_def)
  qed (use assms in \<open>simp_all add: durable_inv_def durable_frame\<close>)
qed


text \<open>What becomes of a key along a history: it is never rewritten, nor is the version it names.\<close>

definition follows :: "'w durable \<Rightarrow> 'w durable \<Rightarrow> bool" where
  "follows du0 du \<longleftrightarrow>
     (\<forall>k0\<in>set (keys_of du0). \<forall>k\<in>set (keys_of du). fst k = fst k0 \<longrightarrow>
        k = k0 \<and> (\<forall>v\<in>set (wd_versions (du_db du0)). vs_id v = fst (snd (snd k0)) \<longrightarrow> v \<in> set (wd_versions (du_db du))))"

lemma follows_rows:
  assumes "follows du du'" "x \<in> set (du_executions du)" "y \<in> set (du_executions du')" "ex_id y = ex_id x"
  shows "ex_workflowVersionId y = ex_workflowVersionId x \<and> ex_inputContext y = ex_inputContext x \<and>
    ex_identityUserId y = ex_identityUserId x \<and>
    (\<forall>v\<in>set (wd_versions (du_db du)). vs_id v = ex_workflowVersionId x \<longrightarrow> v \<in> set (wd_versions (du_db du')))"
proof -
  have "row_key x \<in> set (keys_of du)" "row_key y \<in> set (keys_of du')"
    using assms(2,3) by (auto simp: keys_of_def)
  moreover have "fst (row_key y) = fst (row_key x)" using assms(4) by (simp add: row_key_def)
  ultimately have "row_key y = row_key x"
      "\<forall>v\<in>set (wd_versions (du_db du)). vs_id v = fst (snd (snd (row_key x))) \<longrightarrow> v \<in> set (wd_versions (du_db du'))"
    using assms(1) unfolding follows_def by blast+
  then show ?thesis by (simp add: row_key_def)
qed

definition fresh_event :: "string set \<Rightarrow> event \<Rightarrow> 'w durable \<Rightarrow> bool" where
  "fresh_event used e du \<longleftrightarrow>
     new_ids e \<inter> used = {} \<and> (case e of Ev_request r \<Rightarrow> fresh_ids r (du_db du) | _ \<Rightarrow> True)"

definition pinned_since :: "'w durable_env \<Rightarrow> 'w durable \<Rightarrow> string set \<Rightarrow> 'w durable \<Rightarrow> bool" where
  "pinned_since env du0 used du \<longleftrightarrow>
     durable_inv env du0 \<and> durable_inv env du \<and> follows du0 du \<and>
     fst ` set (keys_of du0) \<union> known_ids du \<subseteq> used"

lemma pinned_grows:
  assumes inv: "pinned_since env du0 used du"
    and du1: "du_db du1 = du_db du" "keys_of du1 = keys_of du" "set (runs_of du1) \<subseteq> set (runs_of du)"
    and grow: "grows newId du1 du'" and fresh: "newId \<notin> used"
  shows "pinned_since env du0 (insert newId used) du'"
proof -
  have used: "fst ` set (keys_of du) \<subseteq> used" "fst ` set (runs_of du) \<subseteq> used" "fst ` set (keys_of du0) \<subseteq> used"
    using inv by (auto simp: pinned_since_def known_ids_def)
  have inv1: "durable_inv env du1"
    using inv du1 fewer_runs_inv [of env du du1] by (simp add: pinned_since_def)
  have new: "newId \<notin> fst ` set (keys_of du1) \<union> fst ` set (runs_of du1)"
  proof -
    have "fst ` set (runs_of du1) \<subseteq> used" using image_mono [OF du1(3), of fst] used(2) by (rule order_trans)
    then show ?thesis using used(1) fresh du1(2) by auto
  qed
  have "durable_inv env du'" using inv1 grow new by (rule grows_inv)
  moreover have keys: "set (keys_of du') \<subseteq> set (keys_of du) \<union> {k. fst k = newId}" "du_db du' = du_db du"
    "set (runs_of du') \<subseteq> set (runs_of du)"
    using grows_keys [OF grow] du1 by simp_all
  moreover have "follows du0 du'"
    unfolding follows_def
  proof (intro ballI impI)
    fix k0 k assume k0: "k0 \<in> set (keys_of du0)" and k: "k \<in> set (keys_of du')" "fst k = fst k0"
    then have "fst k \<noteq> newId" using used(3) fresh by auto
    then have "k \<in> set (keys_of du)" using k keys(1) by blast
    then show "k = k0 \<and> (\<forall>v\<in>set (wd_versions (du_db du0)). vs_id v = fst (snd (snd k0)) \<longrightarrow> v \<in> set (wd_versions (du_db du')))"
      using inv k0 k(2) keys(2) by (auto simp: pinned_since_def follows_def)
  qed
  moreover have "fst ` set (keys_of du') \<subseteq> insert newId used" using keys(1) used(1) by auto
  moreover have "fst ` set (runs_of du') \<subseteq> used" using image_mono [OF keys(3), of fst] used(2) by simp
  ultimately show ?thesis using inv used(3) by (simp add: pinned_since_def known_ids_def subset_insertI2)
qed

lemma pinned_frame:
  assumes "pinned_since env du0 used du" "du_db du' = du_db du" "keys_of du' = keys_of du"
    "set (runs_of du') \<subseteq> set (runs_of du)"
  shows "pinned_since env du0 used du'"
proof -
  have "fst ` set (runs_of du) \<subseteq> used" using assms(1) by (simp add: pinned_since_def known_ids_def)
  with image_mono [OF assms(4), of fst] have "fst ` set (runs_of du') \<subseteq> used" by (rule order_trans)
  moreover have "durable_inv env du'" using assms fewer_runs_inv [of env du du'] by (simp add: pinned_since_def)
  ultimately show ?thesis using assms by (simp add: pinned_since_def follows_def known_ids_def)
qed

lemma keep_executions_frame:
  "set (keys_of (keep_executions P du)) = row_key ` {x \<in> set (du_executions du). P x}"
  "du_db (keep_executions P du) = du_db du" "runs_of (keep_executions P du) = runs_of du"
  "du_calls (keep_executions P du) = du_calls du"
  "distinct (map fst (keys_of du)) \<Longrightarrow> distinct (map fst (keys_of (keep_executions P du)))"
  by (auto simp: keep_executions_def keys_of_def runs_of_def Let_def distinct_map_filter)

lemma pinned_keep:
  assumes inv: "pinned_since env du0 used du"
    and db: "workflow_inv (dv_workflow env) db"
    and stay: "\<And>v x. v \<in> set (wd_versions (du_db du)) \<Longrightarrow> vs_status v = VS_published \<Longrightarrow> x \<in> set (du_executions du) \<Longrightarrow>
      P x \<Longrightarrow> vs_workflowId v = ex_workflowId x \<Longrightarrow> v \<in> set (wd_versions db)"
  shows "pinned_since env du0 used (keep_executions P (du \<lparr> du_db := db \<rparr>))"
proof -
  let ?du' = "keep_executions P (du \<lparr> du_db := db \<rparr>)"
  have keys: "set (keys_of ?du') = row_key ` {x \<in> set (du_executions du). P x}" "du_db ?du' = db"
    "runs_of ?du' = runs_of du" "du_calls ?du' = du_calls du"
    by (simp_all add: keep_executions_frame durable_frame)
  have sub: "set (keys_of ?du') \<subseteq> set (keys_of du)" using keys(1) by (auto simp: keys_of_def)
  have vers: "\<exists>v\<in>set (wd_versions (du_db du)). vs_id v = ex_workflowVersionId x \<and> vs_workflowId v = ex_workflowId x \<and>
      vs_status v = VS_published \<and> v \<in> set (wd_versions db)"
    if "x \<in> set (du_executions du)" "P x" for x
  proof -
    have "key_ok (du_db du) (row_key x)" using inv that(1) by (auto simp: pinned_since_def durable_inv_def keys_of_def)
    then show ?thesis using stay that by (fastforce simp: key_ok_def row_key_def)
  qed
  have uniq: "v = w" if "v \<in> set (wd_versions (du_db du))" "w \<in> set (wd_versions (du_db du))" "vs_id v = vs_id w" for v w
    using inv that
    by (auto simp: pinned_since_def durable_inv_def workflow_inv_def versions_inv_def distinct_map dest: inj_onD)
  have same: "v \<in> set (wd_versions db)"
    if "x \<in> set (du_executions du)" "P x" "v \<in> set (wd_versions (du_db du))" "vs_id v = ex_workflowVersionId x" for v x
    using vers [OF that(1,2)] uniq that(3,4) by metis
  have "durable_inv env ?du'"
    unfolding durable_inv_def
  proof (intro conjI ballI)
    show "workflow_inv (dv_workflow env) (du_db ?du')" using db keys by simp
    show "distinct (map fst (keys_of ?du'))"
      using inv by (simp add: pinned_since_def durable_inv_def keep_executions_frame durable_frame)
    show "key_ok (du_db ?du') k" if "k \<in> set (keys_of ?du')" for k
      using that vers by (fastforce simp: keys key_ok_def row_key_def)
    show "run_ok_for (du_db ?du') (keys_of ?du') p" if p: "p \<in> set (runs_of ?du')" for p
    proof -
      have "run_ok_for (du_db du) (keys_of du) p" using inv p by (auto simp: pinned_since_def durable_inv_def keys)
      then have "\<exists>v\<in>set (wd_versions (du_db du)). vs_id v = ex_workflowVersionId x \<and> vs_graph v = snd p"
        if "x \<in> set (du_executions du)" "ex_id x = fst p" for x
        using that by (fastforce simp: run_ok_for_def keys_of_def row_key_def)
      then show ?thesis using same by (fastforce simp: run_ok_for_def keys row_key_def)
    qed
  qed
  moreover have "follows du0 ?du'"
    unfolding follows_def
  proof (intro ballI impI)
    fix k0 k assume k0: "k0 \<in> set (keys_of du0)" and k: "k \<in> set (keys_of ?du')" "fst k = fst k0"
    then have old: "k = k0" "\<forall>v\<in>set (wd_versions (du_db du0)). vs_id v = fst (snd (snd k0)) \<longrightarrow> v \<in> set (wd_versions (du_db du))"
      using inv sub by (auto simp: pinned_since_def follows_def)
    obtain x where "x \<in> set (du_executions du)" "P x" "k = row_key x" using k(1) keys(1) by auto
    then show "k = k0 \<and> (\<forall>v\<in>set (wd_versions (du_db du0)). vs_id v = fst (snd (snd k0)) \<longrightarrow> v \<in> set (wd_versions (du_db ?du')))"
      using old same keys(2) by (auto simp: row_key_def)
  qed
  moreover have "fst ` set (keys_of ?du') \<subseteq> fst ` set (keys_of du)" using sub by (rule image_mono)
  ultimately show ?thesis using inv keys(3,4) unfolding pinned_since_def known_ids_def by (simp add: subset_iff)
qed


lemma pinned_begin_run:
  assumes "pinned_since env du0 used du"
  shows "pinned_since env du0 used (begin_run env i du)"
proof -
  have inv: "durable_inv env (begin_run env i du)"
    using assms by (intro begin_run_inv) (simp add: pinned_since_def)
  have runs: "runs_of (begin_run env i du) = runs_of du \<or>
      i \<in> fst ` set (keys_of du) \<and> (\<exists>g. runs_of (begin_run env i du) = runs_of du @ [(i, g)])"
    using begin_run_cases [of env i du] find_executionD [of du i]
    by (auto simp: durable_frame keys_of_def row_key_def image_image intro: rev_image_eqI)
  have same: "du_db (begin_run env i du) = du_db du" "keys_of (begin_run env i du) = keys_of du"
    using begin_run_cases [of env i du] by (auto simp: durable_frame)
  have used: "fst ` set (keys_of du) \<subseteq> used" "fst ` set (runs_of du) \<subseteq> used"
    using assms by (simp_all add: pinned_since_def known_ids_def)
  have "fst ` set (runs_of (begin_run env i du)) \<subseteq> insert i (fst ` set (runs_of du))" using runs by force
  then have "fst ` set (runs_of (begin_run env i du)) \<subseteq> used"
  proof (cases "runs_of (begin_run env i du) = runs_of du")
    case False
    then have "i \<in> used" using runs used(1) by blast
    then show ?thesis using \<open>fst ` set (runs_of (begin_run env i du)) \<subseteq> insert i (fst ` set (runs_of du))\<close> used(2) by blast
  qed (use used in simp)
  then show ?thesis using assms inv same unfolding pinned_since_def follows_def known_ids_def by simp
qed

lemma pinned_begin:
  assumes "pinned_since env du0 used du"
  shows "pinned_since env du0 used (begin_call env k du)"
proof -
  have "pinned_since env du0 used (du \<lparr> du_calls := drop_nth k (du_calls du) \<rparr>)"
    by (rule pinned_frame [OF assms]) (simp_all add: durable_frame)
  then show ?thesis using assms by (simp add: begin_call_def pinned_begin_run)
qed

lemma pinned_request:
  assumes inv: "pinned_since env du0 used du" and fresh: "fresh_ids r (du_db du)"
  shows "pinned_since env du0 used (workflow_request_on env r du)"
proof (cases "handle_request (dv_workflow env) r (workflow_tables du)")
  case (Inr db)
  have same: "wd_versions (workflow_tables du) = wd_versions (du_db du)" "wd_workflows (workflow_tables du) = wd_workflows (du_db du)"
    by (simp_all add: workflow_tables_def)
  then have "pointers_of (workflow_tables du) = pointers_of (du_db du)" by (simp add: pointers_of_def)
  then have winv: "workflow_inv (dv_workflow env) (workflow_tables du)"
    using inv same by (simp add: pinned_since_def durable_inv_def workflow_inv_def)
  have "fresh_ids r (workflow_tables du)" using fresh same by (cases r) auto
  from request_keeps [OF winv this Inr] have kept: "workflow_inv (dv_workflow env) db"
      "{v \<in> set (wd_versions (du_db du)). vs_status v = VS_published \<and> r \<noteq> Req_remove (vs_workflowId v)} \<subseteq> set (wd_versions db)"
    by (simp_all add: same)
  have "pinned_since env du0 used
      (keep_executions (\<lambda>x. removed_workflow r \<noteq> Some (ex_workflowId x)) (du \<lparr> du_db := db \<rparr>))"
  proof (rule pinned_keep [OF inv kept(1)])
    fix v x
    assume "v \<in> set (wd_versions (du_db du))" "vs_status v = VS_published" "removed_workflow r \<noteq> Some (ex_workflowId x)"
      "vs_workflowId v = ex_workflowId x"
    moreover from this have "r \<noteq> Req_remove (vs_workflowId v)" by (auto simp: removed_workflow_def)
    ultimately show "v \<in> set (wd_versions db)" using kept(2) by blast
  qed
  then show ?thesis using Inr by (simp add: workflow_request_on_def)
qed (use inv in \<open>simp add: workflow_request_on_def\<close>)

lemma pinned_retention:
  assumes "pinned_since env du0 used du"
  shows "pinned_since env du0 used (retention now du)"
proof -
  have "workflow_inv (dv_workflow env) (du_db du)" using assms by (simp add: pinned_since_def durable_inv_def)
  from pinned_keep [OF assms this] show ?thesis by (simp add: retention_def)
qed

text \<open>
  Invariants of histories: \<open>I used du\<close> is kept by every event of a class \<open>E\<close> that brings
  unused ids.
\<close>

fun fresh_history :: "'w durable_env \<Rightarrow> string set \<Rightarrow> event list \<Rightarrow> 'w durable \<Rightarrow> bool" where
  "fresh_history env used [] du \<longleftrightarrow> True"
| "fresh_history env used (e # es) du \<longleftrightarrow>
     fresh_event used e du \<and> fresh_history env (used \<union> new_ids e) es (step env e du)"

locale history_invariant =
  fixes env :: "'w durable_env" and I :: "string set \<Rightarrow> 'w durable \<Rightarrow> bool" and E :: "event \<Rightarrow> bool"
  assumes keeps: "I used du \<Longrightarrow> E e \<Longrightarrow> fresh_event used e du \<Longrightarrow> I (used \<union> new_ids e) (step env e du)"
begin

lemma history_keeps:
  "I used du \<Longrightarrow> fresh_history env used es du \<Longrightarrow> list_all E es \<Longrightarrow> \<exists>used'. I used' (fold (step env) es du)"
proof (induction es arbitrary: used du)
  case (Cons e es)
  then have "I (used \<union> new_ids e) (step env e du)" by (intro keeps) auto
  then show ?case using Cons by auto
qed auto

end

interpretation pinned: history_invariant env "pinned_since env du0" "\<lambda>_. True"
  for env du0
proof
  fix used du e
  assume inv: "pinned_since env du0 used du" and fresh: "fresh_event used e du"
  show "pinned_since env du0 (used \<union> new_ids e) (step env e du)"
  proof (cases e)
    case (Ev_start w input newId now)
    have "pinned_since env du0 (insert newId used) (settle_error du (start w input newId now du))"
    proof (cases "start w input newId now du")
      case (Inl x)
      then show ?thesis using inv by (auto simp: settle_error_def pinned_since_def)
    next
      case (Inr du')
      then show ?thesis using pinned_grows [OF inv refl refl subset_refl start_grows [OF Inr]] fresh Ev_start
        by (simp add: settle_error_def fresh_event_def)
    qed
    then show ?thesis using Ev_start by simp
  next
    case (Ev_round k newId now)
    obtain du1 where du1: "du_db du1 = du_db du" "keys_of du1 = keys_of du" "set (runs_of du1) \<subseteq> set (runs_of du)"
        "grows newId du1 (run_round env k newId now du)" using round_grows by blast
    then show ?thesis using pinned_grows [OF inv du1] fresh Ev_round by (simp add: fresh_event_def)
  next
    case (Ev_cancel i)
    have "pinned_since env du0 used (settle_error du (map_sum id snd (cancel i du)))"
    proof (cases "cancel i du")
      case (Inr p)
      then show ?thesis using pinned_frame [OF inv] cancel_frame [of i du "fst p" "snd p"] by (simp add: settle_error_def)
    qed (use inv in \<open>simp add: settle_error_def\<close>)
    then show ?thesis using Ev_cancel by simp
  next
    case (Ev_respond a b u c)
    have "pinned_since env du0 used (settle_error du (respondToApproval env a b u c du))"
    proof (cases "respondToApproval env a b u c du")
      case (Inr du')
      then show ?thesis using pinned_frame [OF inv] respond_frame [OF Inr] by (simp add: settle_error_def)
    qed (use inv in \<open>simp add: settle_error_def\<close>)
    then show ?thesis using Ev_respond by simp
  next
    case (Ev_request r)
    then show ?thesis using pinned_request [OF inv] fresh by (simp add: fresh_event_def)
  next
    case Ev_restart
    have "pinned_since env du0 used (restart du)"
      by (rule pinned_frame [OF inv]) (simp_all add: restart_def durable_frame, simp add: runs_of_def)
    then show ?thesis using Ev_restart by simp
  qed (use inv in \<open>simp_all add: pinned_begin pinned_retention pinned_frame [OF inv] durable_frame\<close>)
qed


text \<open>
  C21. An execution stays on the version it was started on. However starts, rounds of runs,
  cancellations, approvals, timers, events, restarts and edits of the workflows interleave, an
  execution keeps its version, input and identity, that version is never changed while the
  execution exists, and every run in memory executes the published graph of that version.
\<close>

theorem executions_pinned:
  assumes "durable_inv env du" and "fresh_history env (known_ids du) es du" and "du' = fold (step env) es du"
  shows "durable_inv env du' \<and>
    (\<forall>x\<in>set (du_executions du). \<forall>y\<in>set (du_executions du'). ex_id y = ex_id x \<longrightarrow>
       ex_workflowVersionId y = ex_workflowVersionId x \<and> ex_inputContext y = ex_inputContext x \<and>
       ex_identityUserId y = ex_identityUserId x \<and>
       (\<forall>v\<in>set (wd_versions (du_db du)). vs_id v = ex_workflowVersionId x \<longrightarrow> v \<in> set (wd_versions (du_db du')))) \<and>
    (\<forall>r\<in>set (du_runs du'). \<forall>y\<in>set (du_executions du'). ex_id y = lr_execution r \<longrightarrow>
       (\<exists>v\<in>set (wd_versions (du_db du')). vs_id v = ex_workflowVersionId y \<and> vs_status v = VS_published \<and>
          lr_graph r = vs_graph v))"
proof -
  have "follows du du"
    using assms(1) unfolding follows_def durable_inv_def by (metis eq_key_imp_eq_value prod.collapse)
  then have "pinned_since env du (known_ids du) du" using assms(1) by (auto simp: pinned_since_def known_ids_def)
  from pinned.history_keeps [OF this assms(2)] assms(3) obtain used' where "pinned_since env du used' du'"
    by (auto simp: list_all_iff)
  then have inv: "durable_inv env du'" and fol: "follows du du'" by (auto simp: pinned_since_def)
  have "\<exists>v\<in>set (wd_versions (du_db du')). vs_id v = ex_workflowVersionId y \<and> vs_status v = VS_published \<and> lr_graph r = vs_graph v"
    if "r \<in> set (du_runs du')" "y \<in> set (du_executions du')" "ex_id y = lr_execution r" for r y
    using inv that by (rule run_graph_published)
  then show ?thesis using inv follows_rows [OF fol] by blast
qed


section \<open>Finished executions\<close>

text \<open>
  Nothing is about to continue execution \<open>i\<close>: it has no run and no call, and no other
  execution reports to it as its parent. \<open>x\<close> is its row, while it exists.
\<close>

definition quiet :: "string \<Rightarrow> execution_row \<Rightarrow> 'w durable \<Rightarrow> bool" where
  "quiet i x du \<longleftrightarrow>
     (\<forall>y\<in>set (du_executions du). (ex_id y = i \<longrightarrow> y = x) \<and> map_option fst (parent_of y) \<noteq> Some i) \<and>
     i \<notin> set (du_calls du) \<and> i \<notin> lr_execution ` set (du_runs du)"

lemma quiet_update:
  assumes "quiet i x du" "j \<noteq> i" "\<And>y. row_key (f y) = row_key y"
  shows "quiet i x (update_execution j f du)"
proof -
  have "parent_of (f y) = parent_of y" "ex_id (f y) = ex_id y" for y
    using assms(3) [of y] by (simp_all add: row_key_def parent_of_def)
  then show ?thesis using assms(1,2) by (auto simp: quiet_def update_execution_def)
qed

lemma quiet_call: "quiet i x du \<Longrightarrow> j \<noteq> i \<Longrightarrow> quiet i x (call_run j du)"
  by (auto simp: quiet_def call_run_def)

lemma quiet_resumeNode: "quiet i x du \<Longrightarrow> j \<noteq> i \<Longrightarrow> quiet i x (resumeNode j v port du)"
  by (auto simp: resumeNode_def intro!: quiet_call quiet_update split: option.split)

lemma quiet_resume:
  assumes "quiet i x du" "ex_status x \<notin> set WAITING_STATUSES"
  shows "quiet i x (resume env j port du)"
proof (cases "j = i")
  case True
  then have "resume env j port du = du"
    using assms find_executionD [of du i] by (auto simp: resume_def quiet_def split: option.split)
  then show ?thesis using assms by simp
next
  case False
  then show ?thesis using assms(1) quiet_resumeNode [OF assms(1) False]
    by (auto simp: resume_def split: option.split)
qed

lemma quiet_finalize:
  assumes "quiet i x du" "j \<noteq> i"
  shows "quiet i x (finalize j s rs du)"
proof (cases "find_execution du j")
  case None
  then show ?thesis using assms by (simp add: finalize_def)
next
  case (Some y)
  have "map_option fst (parent_of y) \<noteq> Some i" using find_executionD [OF Some] assms(1) by (auto simp: quiet_def)
  then show ?thesis using Some assms
    by (auto simp: finalize_def Let_def intro!: quiet_resumeNode quiet_update split: option.split)
qed

lemma quiet_saveVars: "quiet i x du \<Longrightarrow> j \<noteq> i \<Longrightarrow> quiet i x (saveVars j vars du)"
  by (simp add: saveVars_def quiet_update)

lemma quiet_setWaiting: "quiet i x du \<Longrightarrow> j \<noteq> i \<Longrightarrow> quiet i x (setWaiting j s ra ea du)"
  by (simp add: setWaiting_def quiet_update)

lemma quiet_approvals: "quiet i x (du \<lparr> du_approvals := as \<rparr>) \<longleftrightarrow> quiet i x du"
  by (simp add: quiet_def)

lemma quiet_start:
  assumes "quiet i x du" "newId \<noteq> i" "start w input newId now du = Inr du'"
    and "get_prop (si_context input) ''__parentExecutionId'' \<noteq> JStr i"
  shows "quiet i x du'"
proof -
  obtain ver where du': "du' = call_run newId (du \<lparr> du_executions := du_executions du @
      [\<lparr> ex_id = newId, ex_workflowId = w, ex_workflowVersionId = ver, ex_status = ES_queued,
         ex_inputContext = si_context input, ex_vars = JUndef, ex_reason = None,
         ex_identityUserId = si_identityUserId input, ex_depth = 0, ex_resumeAt = None, ex_expiresAt = None,
         ex_createdAt = now, ex_nodes = Map.empty \<rparr>] \<rparr>)"
    using assms(3) by (auto simp: start_def split: option.splits if_splits)
  have "map_option fst (parent_of y) \<noteq> Some i" if "ex_inputContext y = si_context input" for y :: execution_row
    using that assms(4) by (auto simp: parent_of_def split: jsval.split)
  then show ?thesis using assms(1,2) by (simp add: du' quiet_def call_run_def)
qed

lemmas quiet_ops = quiet_update quiet_call quiet_resumeNode quiet_finalize quiet_saveVars quiet_setWaiting quiet_approvals

lemma get_prop_last: "get_prop (ps @ [(k, v), (k', v')]) k = v" if "k' \<noteq> k"
  using that by (simp add: get_prop_def)

lemma quiet_armSubworkflow:
  assumes "quiet i x du" "j \<noteq> i" "newId \<noteq> i"
  shows "quiet i x (armSubworkflow env j node context ea newId now du)"
proof -
  have fin: "quiet i x (case start child \<lparr> si_context = ps @ [(''__parentExecutionId'', JStr j), (''__parentNodeId'', v)],
        si_identityUserId = None \<rparr> newId now (setWaiting j ES_waiting None t du) of
      Inl _ \<Rightarrow> resumeNode j (wn_id node) ''failure'' (setWaiting j ES_waiting None t du) | Inr du2 \<Rightarrow> du2)"
    for child ps v t
  proof (cases "start child \<lparr> si_context = ps @ [(''__parentExecutionId'', JStr j), (''__parentNodeId'', v)],
        si_identityUserId = None \<rparr> newId now (setWaiting j ES_waiting None t du)")
    case (Inl e)
    then show ?thesis using assms by (simp add: quiet_ops)
  next
    case (Inr du2)
    then show ?thesis using quiet_start [OF quiet_setWaiting [OF assms(1,2)] assms(3) Inr] assms(2)
      by (simp add: get_prop_last)
  qed
  show ?thesis
  proof (cases ea)
    case None
    then show ?thesis using fin assms by (simp add: armSubworkflow_def Let_def quiet_ops)
  next
    case (Some t)
    then show ?thesis using fin assms by (cases t) (simp_all add: armSubworkflow_def Let_def quiet_ops)
  qed
qed

lemma quiet_armWait:
  assumes "quiet i x du" "j \<noteq> i" "newId \<noteq> i"
  shows "quiet i x (armWait env j node context newId now du)"
proof -
  have "quiet i x (armDelay env j node now du)" "quiet i x (armApproval env j node ea newId du)" for ea
    using assms by (auto simp: armDelay_def armApproval_def Let_def quiet_ops split: jsnum.split option.split jsval.split)
  then show ?thesis using assms quiet_armSubworkflow [OF assms]
    by (auto simp: armWait_def Let_def quiet_ops split: option.split node_category.split)
qed

lemma quiet_end_run:
  assumes "quiet i x du" "j \<noteq> i" "newId \<noteq> i"
  shows "quiet i x (end_run env j e context newId now du)"
  using assms by (cases e) (simp_all add: end_run_def quiet_ops quiet_armWait)


lemma quiet_runs:
  assumes "quiet i x du" "set (du_executions du') = set (du_executions du)" "set (du_calls du') \<subseteq> set (du_calls du)"
    "lr_execution ` set (du_runs du') \<subseteq> lr_execution ` set (du_runs du)"
  shows "quiet i x du'"
  using assms unfolding quiet_def by blast

lemma quiet_round:
  assumes "quiet i x du" "newId \<noteq> i"
  shows "quiet i x (run_round env k newId now du)"
proof (cases "k < length (du_runs du)")
  case True
  define r where "r = du_runs du ! k"
  have other: "lr_execution r \<noteq> i" using assms(1) True by (auto simp: quiet_def r_def)
  define gone where "gone = du \<lparr> du_runs := drop_nth k (du_runs du) \<rparr>"
  have gone: "quiet i x gone"
    by (rule quiet_runs [OF assms(1)]) (use set_drop_nth [of k "du_runs du"] in \<open>auto simp: gone_def\<close>)
  have cont: "quiet i x (du \<lparr> du_runs := (du_runs du)[k := r'] \<rparr>)" if "lr_execution r' = lr_execution r" for r'
    by (rule quiet_runs [OF assms(1)]) (use that True set_update_subset_insert [of "du_runs du" k r'] in \<open>auto simp: r_def\<close>)
  have written: "quiet i x (write_nodes (lr_execution r) m w d)" if "quiet i x d" for d :: "'a durable" and m w
    unfolding write_nodes_def by (rule quiet_update) (use that other in \<open>simp_all add: quiet_def\<close>)
  show ?thesis
    by (rule run_round_cases [OF True r_def gone_def])
      (simp_all add: gone written cont quiet_end_run other assms(2))
qed (use assms in \<open>simp add: run_round_def\<close>)


lemma finished_status:
  "\<not> EXECUTION_ACTIVE s \<Longrightarrow> s \<notin> set WAITING_STATUSES \<and> s \<notin> {ES_queued, ES_running, ES_retrying}"
  by (cases s) (auto simp: EXECUTION_ACTIVE_def sm_isTerminal_def WAITING_STATUSES_def)

lemma quiet_fold:
  assumes "\<And>y du. y \<in> set ys \<Longrightarrow> quiet i x du \<Longrightarrow> quiet i x (f y du)"
  shows "quiet i x du \<Longrightarrow> quiet i x (fold f ys du)"
  using assms by (induction ys arbitrary: du) auto

lemma quiet_keep: "quiet i x du \<Longrightarrow> quiet i x (keep_executions P (du \<lparr> du_db := db \<rparr>))"
  by (auto simp: quiet_def keep_executions_def Let_def)

lemma quiet_begin:
  assumes "quiet i x du"
  shows "quiet i x (begin_call env k du)"
proof (cases "k < length (du_calls du)")
  case True
  define j where "j = du_calls du ! k"
  define du1 where "du1 = du \<lparr> du_calls := drop_nth k (du_calls du) \<rparr>"
  have j: "j \<noteq> i" using assms True by (auto simp: quiet_def j_def)
  have "quiet i x du1"
    by (rule quiet_runs [OF assms]) (use set_drop_nth [of k "du_calls du"] in \<open>auto simp: du1_def\<close>)
  then have "quiet i x (begin_run env j du1)"
    using j quiet_update [of i x du1 j "\<lambda>x. x \<lparr> ex_status := ES_running \<rparr>"]
    by (auto simp: begin_run_def quiet_finalize split: option.split) (auto simp: quiet_def durable_frame)
  then show ?thesis using True by (simp add: begin_call_def j_def du1_def)
qed (use assms in \<open>simp add: begin_call_def\<close>)

lemma quiet_timer:
  assumes "quiet i x du" "\<not> EXECUTION_ACTIVE (ex_status x)"
  shows "quiet i x (tick env now du)" "quiet i x (onDomainEvent env key du)"
proof -
  note idle = conjunct1 [OF finished_status [OF assms(2)]]
  have "quiet i x (time_out env y d)" if "quiet i x d" for y d
    unfolding time_out_def by (rule quiet_resume) (use that idle in \<open>simp_all add: expire_approvals_def quiet_approvals\<close>)
  then show "quiet i x (tick env now du)"
    unfolding tick_def Let_def using assms(1) idle by (intro quiet_fold quiet_resume)
  show "quiet i x (onDomainEvent env key du)"
    unfolding onDomainEvent_def using assms(1) idle by (intro quiet_fold) (auto simp: quiet_resume split: option.split)
qed

lemma quiet_restart:
  assumes "quiet i x du" "\<not> EXECUTION_ACTIVE (ex_status x)"
  shows "quiet i x (restart du)"
proof -
  let ?du1 = "du \<lparr> du_calls := [], du_runs := [] \<rparr>"
  have "quiet i x ?du1" using assms(1) by (simp add: quiet_def)
  moreover have "ex_id y \<noteq> i"
    if "y \<in> set (take 100 (filter (\<lambda>x. ex_status x \<in> {ES_queued, ES_running, ES_retrying}) (du_executions ?du1)))" for y
    using in_set_takeD [OF that] assms finished_status by (auto simp: quiet_def)
  ultimately show ?thesis unfolding restart_def onModuleInit_def
    by (intro quiet_fold) (auto intro!: quiet_call quiet_update)
qed

text \<open>\<open>spares i\<close>: an event that does not start an execution naming \<open>i\<close> as its parent.\<close>

fun spares :: "string \<Rightarrow> event \<Rightarrow> bool" where
  "spares i (Ev_start w input newId now) \<longleftrightarrow> get_prop (si_context input) ''__parentExecutionId'' \<noteq> JStr i"
| "spares i _ \<longleftrightarrow> True"

lemma quiet_respond:
  assumes "quiet i x du" "\<not> EXECUTION_ACTIVE (ex_status x)" "respondToApproval env a b u c du = Inr du'"
  shows "quiet i x du'"
proof -
  obtain j port as where "du' = resume env j port (du \<lparr> du_approvals := as \<rparr>)"
    using assms(3) by (auto simp: respondToApproval_def split: option.splits if_splits)
  then show ?thesis using assms(1) finished_status [OF assms(2)] by (simp add: quiet_resume quiet_approvals)
qed

lemma quiet_cancel:
  assumes "quiet i x du" "\<not> EXECUTION_ACTIVE (ex_status x)" "cancel j du = Inr (s, du')"
  shows "quiet i x du'"
proof -
  have "j \<noteq> i" using assms find_executionD [of du j] by (auto simp: cancel_def quiet_def split: option.splits if_splits)
  then show ?thesis using assms(1,3) by (auto simp: cancel_def quiet_ops split: option.splits if_splits)
qed

interpretation finished: history_invariant env
  "\<lambda>used du. quiet i x du \<and> \<not> EXECUTION_ACTIVE (ex_status x) \<and> i \<in> used" "spares i"
  for env :: "'a durable_env" and i x
proof
  fix used e and du :: "'a durable"
  assume asm: "quiet i x du \<and> \<not> EXECUTION_ACTIVE (ex_status x) \<and> i \<in> used" and "spares i e" and "fresh_event used e du"
  then have new: "i \<notin> new_ids e" by (auto simp: fresh_event_def)
  have q: "quiet i x du" "\<not> EXECUTION_ACTIVE (ex_status x)" using asm by auto
  have "quiet i x (step env e du)"
  proof (cases e)
    case (Ev_start w input newId now)
    then show ?thesis using q \<open>spares i e\<close> new quiet_start [OF q(1) not_sym]
      by (auto simp: settle_error_def split: sum.split)
  next
    case (Ev_round k newId now)
    then show ?thesis using quiet_round [OF q(1)] new by simp
  next
    case (Ev_cancel j)
    then show ?thesis using q quiet_cancel [OF q, of j]
      by (auto simp: settle_error_def map_sum_def split: sum.split)
  next
    case (Ev_respond a b u c)
    then show ?thesis using q quiet_respond [OF q, of env a b u c] by (auto simp: settle_error_def split: sum.split)
  next
    case (Ev_request r)
    then show ?thesis using q by (auto simp: workflow_request_on_def quiet_keep split: sum.split)
  next
    case (Ev_retention now)
    then show ?thesis using q quiet_keep [of i x du _ "du_db du"] by (simp add: retention_def)
  qed (use q in \<open>simp_all add: quiet_begin quiet_timer quiet_restart\<close>)
  then show "quiet i x (step env e du) \<and> \<not> EXECUTION_ACTIVE (ex_status x) \<and> i \<in> used \<union> new_ids e" using asm by simp
qed

text \<open>
  C23. A finished execution stays finished. Once an execution has ended, has no run left in
  memory and no other execution names it as its parent, its row is the same until it is deleted,
  whatever cancellations, approvals, timers, events and restarts follow, as long as nobody starts
  an execution that claims it as its parent.
\<close>

theorem finished_execution_final:
  assumes "quiet (ex_id x) x du" and "\<not> EXECUTION_ACTIVE (ex_status x)" and "ex_id x \<in> used"
    and "fresh_history env used es du" and "list_all (spares (ex_id x)) es"
    and "y \<in> set (du_executions (fold (step env) es du))" and "ex_id y = ex_id x"
  shows "y = x"
proof -
  have "quiet (ex_id x) x du \<and> \<not> EXECUTION_ACTIVE (ex_status x) \<and> ex_id x \<in> used" using assms(1-3) by simp
  from finished.history_keeps [OF this assms(4,5)] have "quiet (ex_id x) x (fold (step env) es du)" by blast
  then show ?thesis using assms(6,7) by (simp add: quiet_def)
qed



section \<open>Approvals\<close>

text \<open>
  The approvals after an operation: those from before, with at most one new request under a new
  id.
\<close>

definition asks :: "string \<Rightarrow> 'w durable \<Rightarrow> 'w durable \<Rightarrow> bool" where
  "asks newId du du' \<longleftrightarrow>
     du_approvals du' = du_approvals du \<or>
     (\<exists>a. ap_id a = newId \<and> ap_status a = AP_pending \<and> du_approvals du' = du_approvals du @ [a])"

lemma asks_same: "du_approvals du' = du_approvals du \<Longrightarrow> asks newId du du'"
  by (simp add: asks_def)

lemma start_approvals: "start w input newId now du = Inr du' \<Longrightarrow> du_approvals du' = du_approvals du"
  by (auto simp: start_def call_run_def split: option.splits if_splits)

lemma armSubworkflow_approvals: "du_approvals (armSubworkflow env i node context ea newId now du) = du_approvals du"
proof -
  have fin: "du_approvals (case start child input newId now (setWaiting i ES_waiting None t du) of
      Inl _ \<Rightarrow> resumeNode i (wn_id node) ''failure'' (setWaiting i ES_waiting None t du) | Inr du2 \<Rightarrow> du2) = du_approvals du"
    for child input t
    by (auto simp: durable_frame dest: start_approvals split: sum.split)
  show ?thesis
  proof (cases ea)
    case None
    then show ?thesis using fin by (simp add: armSubworkflow_def Let_def durable_frame)
  next
    case (Some t)
    then show ?thesis using fin by (cases t) (simp_all add: armSubworkflow_def Let_def durable_frame)
  qed
qed

lemma armApproval_asks: "asks newId du (armApproval env i node ea newId du)"
  by (auto simp: armApproval_def Let_def asks_def durable_frame split: jsval.split)

lemma end_run_asks: "asks newId du (end_run env i e context newId now du)"
proof (cases e)
  case (Run_parked node)
  have arm: "asks newId du1 (armWait env i node context newId now du1)" for du1
    by (auto simp: armWait_def Let_def armApproval_asks asks_same armSubworkflow_approvals durable_frame
        split: option.split node_category.split)
  show ?thesis using arm [of "saveVars i (get_prop context ''vars'') du"] Run_parked
    by (simp add: end_run_def asks_def durable_frame)
qed (simp_all add: end_run_def asks_same durable_frame)

lemma round_asks: "asks newId du (run_round env k newId now du)"
proof (cases "k < length (du_runs du)")
  case True
  have "asks newId du (end_run env i e c newId now d)" if "du_approvals d = du_approvals du" for i e c d
    using end_run_asks [of newId d env i e c now] that by (simp add: asks_def)
  then show ?thesis
    by (intro run_round_cases [OF True refl refl, where P = "asks newId du"]) (simp_all add: asks_same durable_frame)
qed (simp add: run_round_def asks_same)

lemma fold_approvals:
  assumes "\<And>x du. du_approvals (f x du) = du_approvals du"
  shows "du_approvals (fold f xs du) = du_approvals du"
  using fold_frame [where P = du_approvals, OF assms] .

text \<open>One approval under a step: unchanged, decided by an allowed responder, or expired.\<close>

inductive approval_step :: "event \<Rightarrow> approval_row \<Rightarrow> approval_row \<Rightarrow> bool" for e where
  same: "approval_step e a a"
| decided: "e = Ev_respond (ap_id a) approve user comment \<Longrightarrow> ap_status a = AP_pending \<Longrightarrow>
    ap_requiredPermission a = None \<or> ap_requiredPermission a = Some [] \<or>
      the (ap_requiredPermission a) \<in> set (rs_permissions user) \<Longrightarrow>
    approval_step e a (a \<lparr> ap_status := (if approve then AP_approved else AP_rejected),
                           ap_respondedById := Some (rs_id user), ap_comment := comment \<rparr>)"
| expired: "e = Ev_tick now \<Longrightarrow> ap_status a = AP_pending \<Longrightarrow> approval_step e a (a \<lparr> ap_status := AP_expired \<rparr>)"

lemma time_out_approvals:
  "b \<in> set (du_approvals (time_out env x du)) \<Longrightarrow>
   \<exists>a\<in>set (du_approvals du). b = a \<or> ap_status a = AP_pending \<and> b = a \<lparr> ap_status := AP_expired \<rparr>"
  by (auto simp: time_out_def durable_frame expire_approvals_def split: if_splits)

lemma tick_approvals:
  assumes "b \<in> set (du_approvals (tick env now du))"
  shows "\<exists>a\<in>set (du_approvals du). b = a \<or> ap_status a = AP_pending \<and> b = a \<lparr> ap_status := AP_expired \<rparr>"
proof -
  have "\<exists>a\<in>set (du_approvals d). b = a \<or> ap_status a = AP_pending \<and> b = a \<lparr> ap_status := AP_expired \<rparr>"
    if "b \<in> set (du_approvals (fold (time_out env) xs d))" for b xs d
    using that
  proof (induction xs arbitrary: d)
    case (Cons x xs)
    then obtain c where "c \<in> set (du_approvals (time_out env x d))"
        "b = c \<or> ap_status c = AP_pending \<and> b = c \<lparr> ap_status := AP_expired \<rparr>" by auto
    then show ?case using time_out_approvals [of c env x d] by auto
  qed auto
  note folded = this
  define du1 where "du1 = fold (\<lambda>x. resume env (ex_id x) ''out'')
    (take 50 (filter (\<lambda>x. ex_status x = ES_waiting \<and> due now (ex_resumeAt x)) (du_executions du))) du"
  have "du_approvals du1 = du_approvals du"
    unfolding du1_def by (rule fold_approvals) (simp add: durable_frame)
  then show ?thesis using folded [of b _ du1] assms unfolding tick_def Let_def du1_def [symmetric] by simp
qed

lemma respond_approvals:
  assumes "respondToApproval env i approve user comment du = Inr du'" "distinct (map ap_id (du_approvals du))"
    "b \<in> set (du_approvals du')"
  shows "\<exists>a\<in>set (du_approvals du). approval_step (Ev_respond i approve user comment) a b"
proof -
  obtain a0 where a0: "find (\<lambda>a. ap_id a = i) (du_approvals du) = Some a0" "ap_status a0 = AP_pending"
      "\<not> (case ap_requiredPermission a0 of None \<Rightarrow> False | Some p \<Rightarrow> p \<noteq> [] \<and> p \<notin> set (rs_permissions user))"
    using assms(1) by (auto simp: respondToApproval_def split: option.splits if_splits)
  have appr: "du_approvals du' = map (\<lambda>b. if ap_id b = i
      then b \<lparr> ap_status := (if approve then AP_approved else AP_rejected),
               ap_respondedById := Some (rs_id user), ap_comment := comment \<rparr> else b) (du_approvals du)"
    using assms(1) by (auto simp: respondToApproval_def durable_frame split: option.splits if_splits)
  have a0_in: "a0 \<in> set (du_approvals du)" "ap_id a0 = i" using a0(1) by (auto simp: find_Some_iff)
  obtain c where c: "c \<in> set (du_approvals du)" "b = (if ap_id c = i
      then c \<lparr> ap_status := (if approve then AP_approved else AP_rejected),
               ap_respondedById := Some (rs_id user), ap_comment := comment \<rparr> else c)"
    using assms(3) appr by auto
  show ?thesis
  proof (cases "ap_id c = i")
    case False
    then show ?thesis using c approval_step.same by auto
  next
    case True
    then have "c = a0" using assms(2) c(1) a0_in by (auto simp: distinct_map dest: inj_onD)
    then show ?thesis using c True a0 approval_step.decided [of "Ev_respond i approve user comment" a0 approve user comment]
      by (intro bexI [of _ c]) (auto split: option.splits)
  qed
qed

text \<open>
  C22. Approvals are decided once, and only by someone entitled to. In every step an approval
  stays as it is, or it was pending and is decided by a responder who holds the permission its
  gate requires, or it was pending and expires in a timer tick; new approvals are pending.
\<close>

theorem approval_decided_once:
  assumes "distinct (map ap_id (du_approvals du))" and "b \<in> set (du_approvals (step env e du))"
  shows "(\<exists>a\<in>set (du_approvals du). approval_step e a b) \<or> ap_id b \<in> new_ids e \<and> ap_status b = AP_pending"
proof -
  have keep: ?thesis if "du_approvals (step env e du) = du_approvals du" using assms(2) that approval_step.same by auto
  have sub: ?thesis if "set (du_approvals (step env e du)) \<subseteq> set (du_approvals du)"
    using assms(2) that approval_step.same by blast
  show ?thesis
  proof (cases e)
    case (Ev_start w input newId now)
    then show ?thesis by (intro keep) (auto simp: settle_error_def dest: start_approvals split: sum.split)
  next
    case (Ev_begin k)
    show ?thesis by (rule keep) (auto simp: Ev_begin begin_call_def begin_run_def durable_frame split: option.split)
  next
    case (Ev_round k newId now)
    show ?thesis
    proof (cases "b \<in> set (du_approvals du)")
      case True
      then show ?thesis using approval_step.same by blast
    next
      case False
      then show ?thesis using round_asks [of newId du env k now] assms(2) Ev_round by (auto simp: asks_def)
    qed
  next
    case (Ev_cancel i)
    have "du_approvals (settle_error du (map_sum id snd (cancel i du))) = du_approvals du"
      using cancel_frame [of i du] by (cases "cancel i du") (auto simp: settle_error_def)
    then show ?thesis using Ev_cancel by (intro keep) simp
  next
    case (Ev_respond i approve user comment)
    show ?thesis
    proof (cases "respondToApproval env i approve user comment du")
      case (Inl x)
      then show ?thesis using Ev_respond by (intro keep) (simp add: settle_error_def)
    next
      case (Inr du')
      then show ?thesis using respond_approvals [OF Inr assms(1)] assms(2) Ev_respond by (simp add: settle_error_def)
    qed
  next
    case (Ev_tick now)
    then show ?thesis using tick_approvals [of b env now du] assms(2) approval_step.same approval_step.expired
      by (metis step.simps(6))
  next
    case (Ev_domain key)
    have "du_approvals (onDomainEvent env key du) = du_approvals du"
      unfolding onDomainEvent_def by (rule fold_approvals) (simp add: durable_frame split: option.split)
    then show ?thesis using Ev_domain by (intro keep) simp
  next
    case Ev_restart
    have "du_approvals (onModuleInit d) = du_approvals d" for d :: "'a durable"
      unfolding onModuleInit_def by (rule fold_approvals) (simp add: durable_frame)
    then show ?thesis using Ev_restart by (intro keep) (simp add: restart_def)
  next
    case (Ev_retention now)
    then show ?thesis by (intro sub) (auto simp: retention_def keep_executions_def Let_def)
  next
    case (Ev_request r)
    then show ?thesis by (intro sub) (auto simp: workflow_request_on_def keep_executions_def Let_def split: sum.split)
  qed
qed



section \<open>Restart\<close>

lemma find_update:
  assumes "\<And>x. ex_id (f x) = ex_id x"
  shows "find_execution (update_execution j f du) i =
    (if i = j then map_option f (find_execution du i) else find_execution du i)"
proof -
  have "find (\<lambda>x. ex_id x = i) (map (\<lambda>x. if ex_id x = j then f x else x) xs) =
      (if i = j then map_option f (find (\<lambda>x. ex_id x = i) xs) else find (\<lambda>x. ex_id x = i) xs)" for xs
    by (induction xs) (auto simp: assms)
  then show ?thesis by (simp add: find_execution_def update_execution_def)
qed

lemma find_call [simp]: "find_execution (call_run j du) i = find_execution du i"
  by (simp add: find_execution_def call_run_def)

text \<open>A run is in step with its row when its states in memory are the stored ones.\<close>

definition in_step :: "'w durable \<Rightarrow> live_run \<Rightarrow> bool" where
  "in_step du r \<longleftrightarrow> map_option ex_nodes (find_execution du (lr_execution r)) = Some (lr_states r)"

lemma changed_nodes_add: "dom st \<subseteq> dom st' \<Longrightarrow> st ++ changed_nodes st st' = st'"
proof (rule ext)
  fix v assume "dom st \<subseteq> dom st'"
  then have "st' v = None \<Longrightarrow> st v = None" by (auto simp: dom_def)
  then show "(st ++ changed_nodes st st') v = st' v"
    by (cases "st' v = st v") (auto simp: changed_nodes_def map_add_def split: option.split)
qed

lemma run_ready_dom: "run_ready env h g vs rn = (r, rn') \<Longrightarrow> dom (rn_states rn) \<subseteq> dom (rn_states rn')"
proof (induction env h g vs rn rule: run_ready.induct)
  case (2 env h g v vs rn)
  show ?case
  proof (cases "sim_node_by_id g v")
    case (Some node)
    show ?thesis
    proof (cases "pauses (se_registry (xe_sim env)) node")
      case False
      show ?thesis
      proof (cases "processNode env h node (v \<in> failureBranchNodes g) rn")
        case (Inr p)
        obtain oc rn1 where p: "p = (oc, rn1)" by (cases p)
        have same: "rn_states rn1 = rn_states rn" using processNode_outcome(2) Inr p by blast
        let ?rn2 = "set_node v (no_status oc) (no_firedPorts oc) rn1"
        have dom2: "dom (rn_states rn) \<subseteq> dom (rn_states ?rn2)" by (auto simp: set_node_def same)
        show ?thesis
        proof (cases "no_status oc = NR_failed \<and> \<not> no_handled oc")
          case True
          then show ?thesis using 2 Some False Inr p dom2 by (simp add: Let_def)
        next
          case go_on: False
          then have "run_ready env h g vs ?rn2 = (r, rn')"
            using "2.prems" Some False Inr p by (simp add: Let_def split: if_splits)
          then show ?thesis using "2.IH" [OF Some False Inr p [symmetric] refl go_on] dom2 by (meson order_trans)
        qed
      qed (use 2 Some False in auto)
    qed (use 2 Some in \<open>auto simp: set_node_def\<close>)
  qed (use 2 in auto)
qed simp

lemma prune_dead_dom: "dom (rn_states rn) \<subseteq> dom (rn_states (prune_dead ds rn))"
proof (induction ds arbitrary: rn)
  case (Cons d ds)
  let ?rn1 = "if status_of (rn_states rn) d = NR_skipped then rn else set_node d NR_skipped [] rn"
  have "dom (rn_states rn) \<subseteq> dom (rn_states ?rn1)" by (auto simp: set_node_def)
  also have "\<dots> \<subseteq> dom (rn_states (prune_dead ds ?rn1))" by (rule Cons.IH)
  finally show ?case by (simp add: prune_dead_def)
qed (simp add: prune_dead_def)

lemma run_loop_once_dom: "run_loop env h g 1 rn = (e, rn') \<Longrightarrow> dom (rn_states rn) \<subseteq> dom (rn_states rn')"
proof -
  assume run: "run_loop env h g 1 rn = (e, rn')"
  define view where "view = planExecution g (rn_states rn) (lookup_of (se_registry (xe_sim env)))"
  define rn1 where "rn1 = prune_dead (pv_dead view) rn"
  note step = run_loop_step [of env h g 0 rn, folded view_def, folded rn1_def]
  have dom1: "dom (rn_states rn) \<subseteq> dom (rn_states rn1)" unfolding rn1_def by (rule prune_dead_dom)
  obtain r rn2 where rr: "run_ready env h g (pv_ready view) rn1 = (r, rn2)" by fastforce
  have "rn' = rn \<or> rn' = rn1 \<or> rn' = rn2"
    using run unfolding One_nat_def step by (auto simp: rr split: if_splits option.splits)
  then show ?thesis using dom1 run_ready_dom [OF rr] by blast
qed


text \<open>Every round writes what it does: a run that begins in step stays in step.\<close>

lemma begin_in_step:
  assumes "find_execution du i = Some x" "EXECUTION_ACTIVE (ex_status x)"
    "find_version (du_db du) (ex_workflowVersionId x) = Some ver"
  shows "\<exists>r. du_runs (begin_run env i du) = du_runs du @ [r] \<and> lr_execution r = i \<and> lr_graph r = vs_graph ver \<and>
    lr_states r = ex_nodes x \<and> lr_grant r = loadIdentityGrant env (ex_identityUserId x) \<and> lr_context r = run_context x \<and>
    in_step (begin_run env i du) r"
proof -
  have "find_execution (d \<lparr> du_runs := rs \<rparr>) j = find_execution d j" for d :: "'a durable" and rs j
    by (simp add: find_execution_def)
  then show ?thesis using assms
    by (simp add: begin_run_def in_step_def durable_frame find_update)
qed

lemma round_in_step:
  assumes "k < length (du_runs du)" "in_step du (du_runs du ! k)" "lr_left (du_runs du ! k) \<noteq> 0"
    and "length (du_runs (run_round env k newId now du)) = length (du_runs du)"
  shows "in_step (run_round env k newId now du) (du_runs (run_round env k newId now du) ! k)"
proof -
  define r where "r = du_runs du ! k"
  obtain x where x: "find_execution du (lr_execution r) = Some x" "ex_nodes x = lr_states r"
    using assms(2) by (auto simp: in_step_def r_def)
  obtain e rn where loop: "run_loop (round_env env r) (round_host env x) (lr_graph r) 1
      \<lparr> rn_states = lr_states r, rn_context = lr_context r, rn_world = du_world du \<rparr> = (e, rn)" by fastforce
  define w where "w = write_nodes (lr_execution r) (changed_nodes (lr_states r) (rn_states rn)) (rn_world rn)"
  define r' where "r' = r \<lparr> lr_states := rn_states rn, lr_context := rn_context rn, lr_left := lr_left r - 1 \<rparr>"
  have round: "run_round env k newId now du =
      (if e = Run_exhausted then w (du \<lparr> du_runs := (du_runs du)[k := r'] \<rparr>)
       else end_run env (lr_execution r) e (rn_context rn) newId now (w (du \<lparr> du_runs := drop_nth k (du_runs du) \<rparr>)))"
    using assms(1,3) x(1) loop
    by (simp add: run_round_def Let_def r_def [symmetric] w_def r'_def write_nodes_def)
  have "e = Run_exhausted"
  proof (rule ccontr)
    assume "e \<noteq> Run_exhausted"
    then have "runs_of (run_round env k newId now du) = runs_of (du \<lparr> du_runs := drop_nth k (du_runs du) \<rparr>)"
      using round by (simp add: grows_keys(3) [OF end_run_grows] w_def durable_frame)
    then have "length (du_runs (run_round env k newId now du)) = length (drop_nth k (du_runs du))"
      by (simp add: runs_of_def) (metis length_map)
    then show False using assms(1,4) by (simp add: drop_nth_def)
  qed
  then have du': "run_round env k newId now du = w (du \<lparr> du_runs := (du_runs du)[k := r'] \<rparr>)" using round by simp
  have runs: "du_runs (w d) = du_runs d" for d by (simp add: w_def write_nodes_def durable_frame)
  have "find_execution (w (du \<lparr> du_runs := (du_runs du)[k := r'] \<rparr>)) (lr_execution r) =
      Some (x \<lparr> ex_nodes := ex_nodes x ++ changed_nodes (lr_states r) (rn_states rn) \<rparr>)"
    using x(1) by (simp add: w_def write_nodes_def find_update) (simp add: find_execution_def)
  moreover have "ex_nodes x ++ changed_nodes (lr_states r) (rn_states rn) = rn_states rn"
    using changed_nodes_add run_loop_once_dom [OF loop] x(2) by simp
  ultimately show ?thesis using assms(1) by (simp add: du' runs in_step_def r'_def)
qed

lemma onModuleInit_calls:
  "set (du_calls (onModuleInit du)) = set (du_calls du) \<union>
     ex_id ` set (take 100 (filter (\<lambda>x. ex_status x \<in> {ES_queued, ES_running, ES_retrying}) (du_executions du)))"
proof -
  have "set (du_calls (fold (\<lambda>x d. call_run (ex_id x) (update_execution (ex_id x) g d)) ys d)) =
      set (du_calls d) \<union> ex_id ` set ys" for ys g and d :: "'a durable"
    by (induction ys arbitrary: d) (auto simp: call_run_def update_execution_def)
  then show ?thesis unfolding onModuleInit_def by blast
qed

lemma restart_keeps_row:
  assumes "find_execution du i = Some x" "interrupt_nodes (ex_nodes x) = ex_nodes x"
    "ex_status x \<in> {ES_queued, ES_running, ES_retrying}" "length (du_executions du) \<le> 100"
  shows "find_execution (restart du) i = Some x \<and> i \<in> set (du_calls (restart du)) \<and> du_db (restart du) = du_db du"
proof -
  define f where "f = (\<lambda>(y :: execution_row) d :: 'a durable. call_run (ex_id y)
    (update_execution (ex_id y) (\<lambda>z. z \<lparr> ex_nodes := interrupt_nodes (ex_nodes z) \<rparr>) d))"
  define du1 where "du1 = du \<lparr> du_calls := [], du_runs := [] \<rparr>"
  have upd: "x \<lparr> ex_nodes := interrupt_nodes (ex_nodes x) \<rparr> = x" using assms(2) by (cases x) simp
  have one: "find_execution (f y d) i = Some x" if "find_execution d i = Some x" for y d
    using that upd by (auto simp: f_def find_update)
  have keep: "find_execution d i = Some x \<Longrightarrow> find_execution (fold f ys d) i = Some x" for ys d
    by (induction ys arbitrary: d) (simp_all add: one)
  have calls: "set (du_calls (fold f ys d)) = set (du_calls d) \<union> ex_id ` set ys" for ys d
    by (induction ys arbitrary: d) (auto simp: f_def call_run_def update_execution_def)
  have eq: "restart du = fold f (take 100 (filter (\<lambda>x. ex_status x \<in> {ES_queued, ES_running, ES_retrying}) (du_executions du1))) du1"
    by (simp add: restart_def onModuleInit_def f_def du1_def)
  have "length (filter (\<lambda>x. ex_status x \<in> {ES_queued, ES_running, ES_retrying}) (du_executions du1)) \<le> 100"
    using order_trans [OF length_filter_le assms(4)] by (simp add: du1_def)
  then have eq': "restart du = fold f (filter (\<lambda>x. ex_status x \<in> {ES_queued, ES_running, ES_retrying}) (du_executions du1)) du1"
    using eq by simp
  have "find_execution du1 i = Some x" using assms(1) by (simp add: du1_def find_execution_def)
  moreover have "x \<in> set (du_executions du1)" "ex_id x = i" using find_executionD [OF assms(1)] by (simp_all add: du1_def)
  moreover have "du_db (restart du) = du_db du" by (simp add: restart_def durable_frame)
  ultimately show ?thesis using keep assms(3) by (auto simp: eq' calls)
qed


lemma interrupt_nothing:
  assumes "\<And>v. status_of st v \<noteq> NR_running"
  shows "interrupt_nodes st = st"
proof (rule ext)
  fix v
  show "interrupt_nodes st v = st v"
    using assms [of v] by (cases "st v") (auto simp: interrupt_nodes_def status_of_def)
qed

text \<open>
  A restart resumes a run where it stopped. A run that is in step with its row is begun again
  after a restart, with the same graph, the same identity and the same states of its nodes, so
  that nothing which had finished is dispatched again; its variables are those saved at its last
  pause. At most 100 executions are taken up again.
\<close>

theorem restart_resumes:
  assumes "r \<in> set (du_runs du)" and "in_step du r" and "find_execution du (lr_execution r) = Some x"
    and "ex_status x = ES_running" and "\<forall>v. status_of (ex_nodes x) v \<noteq> NR_running"
    and "find_version (du_db du) (ex_workflowVersionId x) = Some ver" and "length (du_executions du) \<le> 100"
  shows "\<exists>k r'. r' \<in> set (du_runs (fold (step env) [Ev_restart, Ev_begin k] du)) \<and>
    in_step (fold (step env) [Ev_restart, Ev_begin k] du) r' \<and>
    lr_execution r' = lr_execution r \<and> lr_graph r' = vs_graph ver \<and> lr_states r' = lr_states r \<and>
    lr_grant r' = loadIdentityGrant env (ex_identityUserId x) \<and> lr_context r' = run_context x"
proof -
  let ?i = "lr_execution r"
  have row: "find_execution (restart du) ?i = Some x" "?i \<in> set (du_calls (restart du))" "du_db (restart du) = du_db du"
    using restart_keeps_row [OF assms(3) interrupt_nothing _ assms(7)] assms(4,5) by auto
  then obtain k where k: "k < length (du_calls (restart du))" "du_calls (restart du) ! k = ?i" by (auto simp: in_set_conv_nth)
  define du1 where "du1 = (restart du) \<lparr> du_calls := drop_nth k (du_calls (restart du)) \<rparr>"
  have du1: "find_execution du1 ?i = Some x" "du_db du1 = du_db du"
    using row by (simp_all add: du1_def find_execution_def)
  have active: "EXECUTION_ACTIVE (ex_status x)" using assms(4) by (simp add: EXECUTION_ACTIVE_iff execution_finished_def)
  have "find_version (du_db du1) (ex_workflowVersionId x) = Some ver" using du1(2) assms(6) by simp
  from begin_in_step [OF du1(1) active this, of env] obtain r' where
    "du_runs (begin_run env ?i du1) = du_runs du1 @ [r']" "in_step (begin_run env ?i du1) r'" "lr_execution r' = ?i"
    "lr_graph r' = vs_graph ver" "lr_states r' = ex_nodes x" "lr_grant r' = loadIdentityGrant env (ex_identityUserId x)"
    "lr_context r' = run_context x" by blast
  moreover have "fold (step env) [Ev_restart, Ev_begin k] du = begin_run env ?i du1"
    using k by (simp add: begin_call_def du1_def)
  moreover have "lr_states r = ex_nodes x" using assms(2,3) by (simp add: in_step_def)
  ultimately show ?thesis by (intro exI [of _ k] exI [of _ r']) simp
qed



section \<open>Cancellation and its gaps\<close>

text \<open>
  A cancellation of a queued execution is lost when its run begins afterwards, one that is
  interrupted by a restart is not taken up again, and a parent that was cancelled while its
  sub-workflow ran is set running again when the sub-workflow ends.
\<close>

lemma cancel_lost_before_begin:
  assumes "find_execution du i = Some x" "ex_status x = ES_queued" "find_version (du_db du) (ex_workflowVersionId x) = Some ver"
    and "cancel i du = Inr (s, du1)"
  shows "s = ES_cancelling \<and> map_option ex_status (find_execution (begin_run env i du1) i) = Some ES_running"
proof -
  have du1: "s = ES_cancelling" "du1 = update_execution i (\<lambda>x. x \<lparr> ex_status := ES_cancelling \<rparr>) du"
    using assms(1,2,4)
    by (auto simp: cancel_def EXECUTION_ACTIVE_iff execution_finished_def WAITING_STATUSES_def split: if_splits)
  have find: "find_execution (d \<lparr> du_runs := rs \<rparr>) j = find_execution d j" for d :: "'a durable" and rs j
    by (simp add: find_execution_def)
  have "find_execution du1 i = Some (x \<lparr> ex_status := ES_cancelling \<rparr>)" using assms(1) by (simp add: du1(2) find_update)
  moreover have "du_db du1 = du_db du" by (simp add: du1(2) durable_frame)
  ultimately show ?thesis using assms(3)
    by (simp add: du1(1) begin_run_def EXECUTION_ACTIVE_iff execution_finished_def find find_update)
qed

lemma cancelling_not_recovered:
  assumes "\<And>y. y \<in> set (du_executions du) \<Longrightarrow> ex_id y = i \<Longrightarrow> ex_status y = ES_cancelling"
  shows "i \<notin> set (du_calls (restart du))"
proof -
  have "i \<notin> ex_id ` set (filter (\<lambda>x. ex_status x \<in> {ES_queued, ES_running, ES_retrying}) (du_executions du))"
    using assms by auto
  then show ?thesis using set_take_subset unfolding restart_def by (force simp: onModuleInit_calls)
qed

lemma cancelled_parent_revived:
  assumes "find_execution du i = Some x" "parent_of x = Some (p, v)" "p \<noteq> i" "find_execution du p = Some y"
    and "ex_status y = ES_cancelled"
  shows "map_option ex_status (find_execution (finalize i s rs du) p) = Some ES_running"
  using assms by (simp add: finalize_def Let_def resumeNode_def find_update)


section \<open>Examples\<close>

definition demo_durable_env :: "string list durable_env" where
  "demo_durable_env = \<lparr> dv_workflow = demo_workflow_env, dv_sim = xe_sim demo_exec_env,
     dv_action = xh_action demo_host, dv_users = Map.empty, dv_first = (\<lambda>_. None) \<rparr>"

definition demo_execution :: "execution_status \<Rightarrow> execution_row" where
  "demo_execution s = \<lparr> ex_id = ''x'', ex_workflowId = ''w'', ex_workflowVersionId = ''v1'', ex_status = s,
     ex_inputContext = [], ex_vars = JUndef, ex_reason = None, ex_identityUserId = None, ex_depth = 0,
     ex_resumeAt = None, ex_expiresAt = None, ex_createdAt = 0, ex_nodes = Map.empty \<rparr>"

definition demo_approval :: approval_row where
  "demo_approval = \<lparr> ap_id = ''a'', ap_executionId = ''x'', ap_status = AP_pending,
     ap_requiredPermission = Some ''workflows.approve'', ap_destructive = False, ap_expiresAt = None,
     ap_respondedById = None, ap_comment = None \<rparr>"

definition demo_live_run :: live_run where
  "demo_live_run = \<lparr> lr_execution = ''x'', lr_graph = demo_wf, lr_grant = None, lr_states = Map.empty,
     lr_context = [], lr_left = 11 \<rparr>"

definition demo_db :: workflow_db where
  "demo_db = \<lparr>
     wd_workflows = [\<lparr> wf_id = ''w'', wf_name = ''demo'', wf_description = None, wf_workspaceKey = None,
       wf_tags = [], wf_status = WS_published, wf_enabled = True, wf_currentDraftVersionId = None,
       wf_publishedVersionId = Some ''v1'' \<rparr>],
     wd_versions = [\<lparr> vs_id = ''v1'', vs_workflowId = ''w'', vs_versionNumber = 1, vs_status = VS_published,
       vs_graph = demo_wf, vs_checksum = ''sum'', vs_triggers = None, vs_requiredPermissions = [], vs_changeNotes = None \<rparr>],
     wd_executions = [] \<rparr>"

definition demo_durable :: "execution_status \<Rightarrow> live_run list \<Rightarrow> string list durable" where
  "demo_durable s runs = \<lparr> du_db = demo_db, du_executions = [demo_execution s], du_approvals = [demo_approval],
     du_calls = [], du_runs = runs, du_world = [] \<rparr>"

lemma demo_publishable:
  "publishable num_str demo_wf demo_registry
     \<lparr> vo_grantedPermissions = Some {}, vo_enabledModules = None, vo_selfWorkflowId = Some ''w'' \<rparr>"
  unfolding validate_publishable [symmetric]
  by (simp add: validateWorkflowGraph_def demo_wf_def demo_registry_def demo_node_definition_def
      index_nodes_def add_node_def check_node_def validateNodeConfig_def
      lacks_permission_def missing_modules_def invokes_itself_def index_edges_def add_edge_def
      node_by_id_def validatePort_def source_port_findings_def target_port_findings_def
      triggers_of_def rule_errors_def input_findings_def wait_findings_def delay_findings_def
      safeguard_findings_def edges_into_def edges_from_def hasCycle_def visit.simps(2)
      maxNodes_def maxEdges_def Let_def)

lemma demo_durable_inv: "durable_inv demo_durable_env (demo_durable s [])"
proof -
  have "workflow_inv demo_workflow_env demo_db"
    using demo_publishable [of "we_num_str demo_workflow_env"]
    by (auto simp: workflow_inv_def versions_inv_def pointers_of_def pointer_ok_def version_ok_def demo_db_def
        demo_workflow_env_def)
  then show ?thesis
    by (simp add: durable_inv_def demo_durable_env_def demo_durable_def keys_of_def runs_of_def row_key_def
        demo_execution_def key_ok_def demo_db_def)
qed


lemmas demo_durable_simps = demo_durable_def demo_execution_def demo_db_def demo_durable_env_def demo_live_run_def
  demo_approval_def

theorem executions_pinned_witness:
  "durable_inv demo_durable_env (fold (step demo_durable_env)
     [Ev_start ''w'' \<lparr> si_context = [], si_identityUserId = None \<rparr> ''y'' 5, Ev_begin 0, Ev_restart]
     (demo_durable ES_completed []))"
proof -
  let ?es = "[Ev_start ''w'' \<lparr> si_context = [], si_identityUserId = None \<rparr> ''y'' 5, Ev_begin 0, Ev_restart]"
  have "fresh_history demo_durable_env (known_ids (demo_durable ES_completed [])) ?es (demo_durable ES_completed [])"
    by (simp add: fresh_event_def known_ids_def keys_of_def runs_of_def row_key_def demo_durable_simps)
  from executions_pinned [OF demo_durable_inv this refl] show ?thesis by blast
qed

theorem finished_execution_final_witness:
  "\<exists>y\<in>set (du_executions (fold (step demo_durable_env) [Ev_cancel ''x'', Ev_restart] (demo_durable ES_failed []))).
     y = demo_execution ES_failed"
proof -
  let ?x = "demo_execution ES_failed" and ?es = "[Ev_cancel ''x'', Ev_restart]"
  have quiet: "quiet (ex_id ?x) ?x (demo_durable ES_failed [])"
    by (simp add: quiet_def demo_durable_def parent_of_def demo_execution_def get_prop_def)
  have over: "\<not> EXECUTION_ACTIVE (ex_status ?x)"
    by (simp add: EXECUTION_ACTIVE_iff execution_finished_def demo_execution_def)
  have fresh: "fresh_history demo_durable_env {''x''} ?es (demo_durable ES_failed [])" by (simp add: fresh_event_def)
  have "\<exists>y. y \<in> set (du_executions (fold (step demo_durable_env) ?es (demo_durable ES_failed []))) \<and> ex_id y = ex_id ?x"
    by (simp add: cancel_def settle_error_def find_execution_def EXECUTION_ACTIVE_iff execution_finished_def
        restart_def onModuleInit_def demo_durable_simps)
  then obtain y where "y \<in> set (du_executions (fold (step demo_durable_env) ?es (demo_durable ES_failed [])))" "ex_id y = ex_id ?x"
    by blast
  moreover from finished_execution_final [OF quiet over _ fresh _ this] have "y = ?x"
    by (simp add: demo_execution_def)
  ultimately show ?thesis by blast
qed

theorem approval_decided_once_witness:
  "\<exists>b\<in>set (du_approvals (step demo_durable_env
       (Ev_respond ''a'' True \<lparr> rs_id = ''u'', rs_permissions = [''workflows.approve''] \<rparr> None)
       (demo_durable ES_waiting_for_approval []))).
     ap_status b = AP_approved \<and>
     (\<exists>a\<in>{demo_approval}. approval_step
        (Ev_respond ''a'' True \<lparr> rs_id = ''u'', rs_permissions = [''workflows.approve''] \<rparr> None) a b)"
proof -
  let ?e = "Ev_respond ''a'' True \<lparr> rs_id = ''u'', rs_permissions = [''workflows.approve''] \<rparr> None"
  let ?du = "demo_durable ES_waiting_for_approval []"
  have dist: "distinct (map ap_id (du_approvals ?du))" by (simp add: demo_durable_def)
  have "\<exists>b\<in>set (du_approvals (step demo_durable_env ?e ?du)). ap_status b = AP_approved"
    by (simp add: respondToApproval_def settle_error_def durable_frame demo_durable_simps)
  then obtain b where b: "b \<in> set (du_approvals (step demo_durable_env ?e ?du))" "ap_status b = AP_approved" by blast
  from approval_decided_once [OF dist b(1)] have "\<exists>a\<in>{demo_approval}. approval_step ?e a b"
    by (simp add: demo_durable_def)
  then show ?thesis using b by blast
qed

theorem restart_resumes_witness:
  "\<exists>k r'. r' \<in> set (du_runs (fold (step demo_durable_env) [Ev_restart, Ev_begin k] (demo_durable ES_running [demo_live_run]))) \<and>
     lr_execution r' = ''x'' \<and> lr_graph r' = demo_wf \<and> lr_states r' = Map.empty"
proof -
  let ?du = "demo_durable ES_running [demo_live_run]"
  have mem: "demo_live_run \<in> set (du_runs ?du)" by (simp add: demo_durable_def)
  have find: "find_execution ?du (lr_execution demo_live_run) = Some (demo_execution ES_running)"
    by (simp add: demo_durable_simps find_execution_def)
  have sync: "in_step ?du demo_live_run" using find by (simp add: in_step_def) (simp add: demo_execution_def demo_live_run_def)
  have st: "ex_status (demo_execution ES_running) = ES_running"
    "\<forall>v. status_of (ex_nodes (demo_execution ES_running)) v \<noteq> NR_running"
    by (simp_all add: demo_execution_def status_of_def)
  have "find_version (du_db ?du) (ex_workflowVersionId (demo_execution ES_running)) = Some (hd (wd_versions demo_db))"
    "length (du_executions ?du) \<le> 100"
    by (simp_all add: demo_durable_simps find_version_def)
  from restart_resumes [OF mem sync find st this, of demo_durable_env] show ?thesis
    by (simp add: demo_live_run_def demo_db_def) blast
qed

end
