(* ===== verification/Spec2Isabelle.thy ===== *)
theory Spec2Isabelle
  imports Sched_Modes Files_Trash Files_Serving Torrents_Parking Bencode Auth_Access Auth_Interleaving Cleanup_Policy Lifecycles Wf_Durable
begin

text \<open>
  Verification library of the UltraTorrent backend (\<^verbatim>\<open>src/apps/backend/src/modules\<close>):
  the torrent scheduler, which decides what a BitTorrent engine runs, pauses and removes; the
  synchronisation of engines with the database, its transfer ledger and the parking of dead
  torrents; the file manager's boundaries, trash and previews; sessions and accounts; and the
  workflow builder, which validates, simulates and durably executes automation graphs.

  \<^bold>\<open>The scheduler\<close> (\<^verbatim>\<open>torrent-scheduler/\<close>). A sweep reads the rows of an
  engine, plans what should be running, and carries the plan out on the engines that an
  operator put under management.
  \<^item> \<open>Sched_Classification\<close> (\<^verbatim>\<open>domain/capabilities.ts\<close>,
    \<^verbatim>\<open>domain/classification.ts\<close>): what a torrent occupies, and when its pause is the
    scheduler's to undo.
  \<^item> \<open>Sched_Priority\<close> (\<^verbatim>\<open>domain/priority.ts\<close>): the score is explained by its
    reasons; the ranking is a sorted permutation that does not depend on the input order.
  \<^item> \<open>Sched_Seed_Conditions\<close>, \<open>Sched_Policy\<close>, \<open>Sched_Schedule\<close>
    (\<^verbatim>\<open>domain/seed-conditions.ts\<close>, \<^verbatim>\<open>policy.ts\<close>, \<^verbatim>\<open>schedule.ts\<close>): seeding
    verdicts are Kleene logic and monotone in what has been measured; every policy field comes
    from the most specific scope that sets it; windows are weekly intervals across midnight.
  \<^item> \<open>Sched_Scopes\<close> (\<^verbatim>\<open>domain/rss-scope.ts\<close>, \<^verbatim>\<open>library-scope.ts\<close>,
    \<^verbatim>\<open>staging-cleanup.ts\<close>): attribution of torrents to rules and libraries, and which
    files may be deleted, with containment stated by the segments of a path
    (\<open>at_or_below\<close>), not by the string test of the code.
  \<^item> \<open>Sched_Planner\<close> (\<^verbatim>\<open>domain/planner.ts\<close>): \<open>planEngine\<close> refines an
    abstract justified plan; removals, pauses and resumes happen only under their conditions,
    within caps and budget, and no slot is left idle.
  \<^item> \<open>Sched_Preview\<close> (\<^verbatim>\<open>scheduler-preview.service.ts\<close> and the services it
    reads): the planner's guarantees on the stored rows.
  \<^item> \<open>Sched_Reconcile\<close> (\<^verbatim>\<open>scheduler-reconciliation.service.ts\<close>,
    \<^verbatim>\<open>scheduler-cleanup.service.ts\<close>): engine calls against an arbitrary host; their
    order, their accounting and the safety of file deletion, also on a disk that keeps what POSIX
    promises of \<^verbatim>\<open>rm\<close> and \<^verbatim>\<open>rmdir\<close> (\<open>posix_disk\<close>).
  \<^item> \<open>Sched_Admin\<close>, \<open>Sched_Modes\<close> (\<^verbatim>\<open>scheduler-policy\<close>, \<^verbatim>\<open>-override\<close>,
    \<^verbatim>\<open>-mode\<close>, \<^verbatim>\<open>-activation\<close>, \<^verbatim>\<open>-sweep.service.ts\<close>,
    \<^verbatim>\<open>global-bandwidth.service.ts\<close>): well-formed rows, managed mode only through a
    confirmed activation, sweeps that touch managed engines only.

  \<^bold>\<open>Torrents\<close> (\<^verbatim>\<open>torrents/\<close>, \<^verbatim>\<open>transfer-ledger/\<close>). A tick
  every two seconds reads an engine, banks what moved and announces what changed; a slower sweep
  parks torrents nobody serves.
  \<^item> \<open>Torrents_Sync\<close> (\<^verbatim>\<open>torrent-sync.service.ts\<close>,
    \<^verbatim>\<open>transfer-ledger.service.ts\<close>, \<^verbatim>\<open>domain/accrual.ts\<close>,
    \<^verbatim>\<open>edge-detector.ts\<close>, \<^verbatim>\<open>engine-status.tracker.ts\<close>): histories of ticks with
    failing statements, stops in the middle and restarts; no byte is lost or counted twice, totals
    never fall, a completion is announced once. The locales \<open>tracked\<close> and
    \<open>counter\<close> follow one column of the snapshots, and are interpreted for progress and
    both byte counters.
  \<^item> \<open>Torrents_Parking\<close> (\<^verbatim>\<open>torrent-parking.service.ts\<close>): every engine call of
    a sweep is justified by the listing, what came alive is handed back, probes go in turn; the
    locale \<open>sweep_invariant\<close> carries what every call and statement keeps.
  \<^item> \<open>Bencode\<close> (\<^verbatim>\<open>infrastructure/rtorrent/bencode.ts\<close>): the info hash of a
    torrent file is the hash of exactly its info value; when reading ends.

  \<^bold>\<open>Files\<close> (\<^verbatim>\<open>files/\<close>).
  \<^item> \<open>Files_Paths\<close> (\<^verbatim>\<open>path-safety.ts\<close>, \<^verbatim>\<open>file-path.service.ts\<close>):
    paths stay in the roots, the form on the wire leads back, the narrowed root stays in the
    boundary.
  \<^item> \<open>Files_Trash\<close> (\<^verbatim>\<open>trash.service.ts\<close>, \<^verbatim>\<open>file-fs.util.ts\<close>): only
    trash is deleted, restores stay in their root, and on a disk restoring undoes trashing.
  \<^item> \<open>Files_Serving\<close> (\<^verbatim>\<open>byte-range.ts\<close>, \<^verbatim>\<open>preview-text.ts\<close>): byte
    ranges, and the test for UTF-8 against the encoding of scalar values.

  \<^bold>\<open>Accounts\<close> (\<^verbatim>\<open>auth/\<close>, \<^verbatim>\<open>two-factor/\<close>,
  \<^verbatim>\<open>users/\<close>).
  \<^item> \<open>Auth_Sessions\<close> (\<^verbatim>\<open>auth.service.ts\<close>, \<^verbatim>\<open>two-factor.service.ts\<close>,
    \<^verbatim>\<open>users.module.ts\<close>): histories of requests on users, roles and refresh tokens, one
    step each; a session never comes back once ended, a login needs every factor. The locale
    \<open>token_invariant\<close> carries what the statements on the token table keep, and
    \<open>session_invariant\<close> extends it by the exchange of a token.
  \<^item> \<open>Auth_Interleaving\<close> (the awaits of \<^verbatim>\<open>auth.service.ts\<close>): logins and
    refreshes in parts, which interleave with each other and with all other requests. A session has
    one live token and one owner as long as its refreshes do not overlap, and guessing is limited as
    long as the logins of an account do not overlap; \<open>refresh_race\<close> and \<open>guess_race\<close>
    show that the code needs these conditions and does not enforce them. \<open>login_in_parts\<close> and
    \<open>refresh_in_parts\<close> relate the parts to the requests in one piece.
  \<^item> \<open>Auth_Access\<close> (\<^verbatim>\<open>strategies/jwt.strategy.ts\<close>,
    \<^verbatim>\<open>guards/permissions.guard.ts\<close>, the routes of \<^verbatim>\<open>users.module.ts\<close>): how old an
    accepted identity can be, and that only a super admin makes super admins.
  Hashing, encryption, one-time codes and random values are parameters; the families of new sessions
  are fresh.

  \<^bold>\<open>Media cleanup\<close> (\<^verbatim>\<open>media/cleanup/domain/\<close>): \<open>Cleanup_Policy\<close>, the
  evaluation of a policy on the facts of a file, the mandatory exclusions, the assembly of facts,
  fingerprints and the filter that is pushed down to the database. What was not measured does not
  decide a policy, and the filter keeps every item that matches, up to the age of a file.

  \<^bold>\<open>Workflows\<close> (\<^verbatim>\<open>workflows/\<close>). A graph is drafted, validated, published as an
  immutable version and executed; the dry run and the executor share conditions, templates and
  the meaning of edges.
  \<^item> \<open>Lifecycles\<close> (\<^verbatim>\<open>domain/workflow-status.ts\<close>,
    \<^verbatim>\<open>jobs/platform/job-status.ts\<close>): the four state machines, as interpretations of the
    locale \<open>lifecycle\<close>.
  \<^item> \<open>Wf_Graph\<close> (\<^verbatim>\<open>domain/workflow-graph.types.ts\<close>,
    \<^verbatim>\<open>execution-planner.ts\<close>): planning one wave; skipping is final.
  \<^item> \<open>Wf_Validator\<close> (\<^verbatim>\<open>domain/workflow-validator.ts\<close>): validation decides a
    declarative predicate, with its cycle search proved correct; a validated graph is never
    stuck.
  \<^item> \<open>Wf_Simulator\<close> (\<^verbatim>\<open>domain/workflow-simulator.ts\<close>,
    \<^verbatim>\<open>condition-eval.ts\<close>, \<^verbatim>\<open>template.ts\<close>): the dry run visits in topological order
    and reaches what the executor would dispatch.
  \<^item> \<open>Wf_Service\<close> (\<^verbatim>\<open>workflow.service.ts\<close>): drafts, versions and publishing as
    requests on two tables; published versions are frozen.
  \<^item> \<open>Wf_Execution\<close> (\<^verbatim>\<open>workflow-execution.service.ts\<close>, the run loop): one run
    of the executor against an arbitrary host of actions. An identity limits a run to its
    permissions; a run without one is not limited. The locale \<open>run_invariant\<close>
    carries what holds along a run.
  \<^item> \<open>Wf_Rows\<close>, \<open>Wf_Durable\<close> (the rest of that file,
    \<^verbatim>\<open>workflow-resume.service.ts\<close>, \<^verbatim>\<open>workflow-event.bridge.ts\<close>): the rows around
    runs, with every handler, beginning of a run and round as an event; the locale
    \<open>history_invariant\<close> carries invariants over all interleavings.

  \<open>Js_Prelude\<close> has what the code uses of ECMAScript, and the shared lemmas. Components
  outside the sources (the engine, the file system, the automation actions) are records of
  operations on an abstract world; the collation order of \<^verbatim>\<open>localeCompare\<close>, the wall
  clock of \<^verbatim>\<open>Intl\<close>, regular expressions, number printing, the checksum and clocks are
  parameters, with what the code relies on stated as locales (\<open>collation\<close>,
  \<open>wall_clock\<close>).

  \<^bold>\<open>Bounds and fuel.\<close> The cycle search and Kahn's loop terminate by measures on the
  unvisited nodes. The run loop carries the code's own iteration bound; \<open>run_loop_bounded\<close>
  shows that it is never used up. The reader of torrent files
  takes fuel, one unit for each value or entry: the length of an encoded file suffices
  (\<open>infoHash_of_encoded\<close>), and twice the length on any buffer that ends in the end mark
  (\<open>infoHash_terminates\<close>); \<open>infoHash_hostile_file\<close> is a file on which the code
  never returns, whatever the fuel. Everything else is structural recursion. Ratios are rationals,
  counts and times are integers: rounding of floating point is not modelled.

  \<^bold>\<open>Not modelled.\<close> Logging, audit rows, events, message texts of warnings, the mirror
  of executions in the jobs center and failing database writes (failing
  writes are modelled for the synchronisation, parking and the trash). A restart falls between the
  rounds of a run, and a handler up to its call of the run loop is not interleaved; in particular the
  answer to an approval is one step, although the code reads the row first and updates it then. The
  rest of the media cleanup (plans, protections, quarantine) and the
  other modules of the backend (media library, acquisition, the file browser, account settings and API keys,
  notifications, the engine adapters, the rest of the jobs platform), the frontend and the Go clients.
\<close>

end
